(* ===== verification/Nmap_Prelude.thy ===== *)
theory Nmap_Prelude
  imports Main "HOL-Library.Word" "HOL-Library.Multiset"
begin

text \<open>
  Shared vocabulary of the development: the C types the sources use, the collections that
  carry the component proofs, and generic facts about lists, options and words.

  \<^item> Unsigned machine integers are words (\<open>u8\<close>, \<open>u16\<close>, \<open>u32\<close>, \<open>u64\<close>).
  \<^item> A C string is the list of its bytes without the terminating NUL; a pointer into a
    string is the suffix it points at, so that reading the byte at the pointer is
    \<open>deref\<close>, which yields the NUL byte on the empty suffix.
  \<^item> A failed \<open>assert\<close>, a call of \<open>fatal\<close>/\<open>bye\<close> or an access outside an
    allocated object is the value \<open>None\<close>.
\<close>

unbundle bit_operations_syntax

type_synonym u8 = "8 word"
type_synonym u16 = "16 word"
type_synonym u32 = "32 word"
type_synonym u64 = "64 word"

named_theorems heap_simps \<open>unfolding rules for the nodes and slots of the binary heap\<close>
named_theorems cstr_simps \<open>unfolding rules for the C string scanners\<close>

section \<open>Lists\<close>

definition swap :: "'a list \<Rightarrow> nat \<Rightarrow> nat \<Rightarrow> 'a list" where
  "swap xs i j = xs[i := xs ! j, j := xs ! i]"

lemma length_swap [simp]: "length (swap xs i j) = length xs"
  by (simp add: swap_def)

lemma mset_swap_eq [simp]:
  "i < length xs \<Longrightarrow> j < length xs \<Longrightarrow> mset (swap xs i j) = mset xs"
  by (simp add: swap_def mset_swap)

lemma nth_swap:
  "i < length xs \<Longrightarrow> j < length xs \<Longrightarrow>
   swap xs i j ! k = (if k = j then xs ! i else if k = i then xs ! j else xs ! k)"
  by (auto simp: swap_def nth_list_update)

lemma distinct_swap [simp]:
  "i < length xs \<Longrightarrow> j < length xs \<Longrightarrow> distinct (swap xs i j) \<longleftrightarrow> distinct xs"
  by (metis mset_eq_imp_distinct_iff mset_swap_eq)

lemma set_swap_eq [simp]:
  "i < length xs \<Longrightarrow> j < length xs \<Longrightarrow> set (swap xs i j) = set xs"
  by (metis mset_eq_setD mset_swap_eq)

lemma mset_replace_by_last:
  assumes "i < length xs"
  shows "mset ((butlast xs)[i := last xs]) = mset xs - {#xs ! i#}"
proof (cases "i = length xs - 1")
  case True
  with assms have ne: "xs \<noteq> []" by auto
  have "xs ! i = last xs" using True ne by (simp add: last_conv_nth)
  moreover have "mset xs = mset (butlast xs) + {#last xs#}"
    using ne by (metis append_butlast_last_id mset.simps(1,2) mset_append)
  ultimately show ?thesis
    using True by (simp add: list_update_beyond)
next
  case False
  with assms have ne: "xs \<noteq> []" and i: "i < length (butlast xs)" by auto
  have "mset xs = mset (butlast xs) + {#last xs#}"
    using ne by (metis append_butlast_last_id mset.simps(1,2) mset_append)
  moreover have "xs ! i = butlast xs ! i" using i by (simp add: nth_butlast)
  moreover have "butlast xs ! i \<in># mset (butlast xs)" using i by simp
  ultimately show ?thesis
    using i by (simp add: mset_update)
qed

end
