(* ===== verification/Gh_List.thy ===== *)
theory Gh_List
  imports Nmap_Prelude
begin

text \<open>
  The intrusive doubly linked lists of nsock (\<open>nsock/src/gh_list.h\<close>). A node is an address; the store
  holds its two links, \<open>None\<close> being \<open>NULL\<close>. Following a null pointer, and a failed assertion, is
  \<open>None\<close>. The checks of \<open>GH_LIST_PARANOID\<close> are off by default and left out.

  The theory shows that the operations implement those on HOL lists, which is how the event loop
  uses them.
\<close>

section \<open>The operations\<close>

record gh_lnode_t =
  lnext :: "nat option"
  lprev :: "nat option"

type_synonym lnodes = "nat \<Rightarrow> gh_lnode_t"

record gh_list_t =
  lcount :: u32
  lfirst :: "nat option"
  llast :: "nat option"

definition set_next :: "lnodes \<Rightarrow> nat \<Rightarrow> nat option \<Rightarrow> lnodes" where
  "set_next m n p = m(n := m n\<lparr>lnext := p\<rparr>)"

definition set_prev :: "lnodes \<Rightarrow> nat \<Rightarrow> nat option \<Rightarrow> lnodes" where
  "set_prev m n p = m(n := m n\<lparr>lprev := p\<rparr>)"

definition gh_list_init :: gh_list_t where
  "gh_list_init = \<lparr>lcount = 0, lfirst = None, llast = None\<rparr>"

definition gh_list_append :: "lnodes \<Rightarrow> gh_list_t \<Rightarrow> nat \<Rightarrow> lnodes \<times> gh_list_t" where
  "gh_list_append m l lnode =
     (let oldlast = llast l;
          m = (case oldlast of None \<Rightarrow> m | Some o' \<Rightarrow> set_next m o' (Some lnode));
          m = set_prev m lnode oldlast;
          m = set_next m lnode None;
          l = l\<lparr>lcount := lcount l + 1, llast := Some lnode\<rparr>
      in (m, if lcount l = 1 then l\<lparr>lfirst := Some lnode\<rparr> else l))"

definition gh_list_prepend :: "lnodes \<Rightarrow> gh_list_t \<Rightarrow> nat \<Rightarrow> lnodes \<times> gh_list_t" where
  "gh_list_prepend m l lnode =
     (let oldfirst = lfirst l;
          m = (case oldfirst of None \<Rightarrow> m | Some o' \<Rightarrow> set_prev m o' (Some lnode));
          m = set_next m lnode oldfirst;
          m = set_prev m lnode None;
          l = l\<lparr>lcount := lcount l + 1, lfirst := Some lnode\<rparr>
      in (m, if lcount l = 1 then l\<lparr>llast := Some lnode\<rparr> else l))"

definition gh_list_insert_before :: "lnodes \<Rightarrow> gh_list_t \<Rightarrow> nat \<Rightarrow> nat \<Rightarrow> lnodes \<times> gh_list_t" where
  "gh_list_insert_before m l before lnode =
     (let m = set_prev m lnode (lprev (m before));
          m = set_next m lnode (Some before);
          (m, l) = (case lprev (m before) of
                      Some p \<Rightarrow> (set_next m p (Some lnode), l)
                    | None \<Rightarrow> (m, l\<lparr>lfirst := Some lnode\<rparr>));
          m = set_prev m before (Some lnode)
      in (m, l\<lparr>lcount := lcount l + 1\<rparr>))"

definition gh_list_pop :: "lnodes \<Rightarrow> gh_list_t \<Rightarrow> lnodes \<times> gh_list_t \<times> nat option" where
  "gh_list_pop m l =
     (case lfirst l of
        None \<Rightarrow> (m, l, None)
      | Some elem \<Rightarrow>
          let l = l\<lparr>lfirst := lnext (m elem)\<rparr>;
              m = (case lfirst l of None \<Rightarrow> m | Some f \<Rightarrow> set_prev m f None);
              l = l\<lparr>lcount := lcount l - 1\<rparr>;
              l = (if lcount l < 2 then l\<lparr>llast := lfirst l\<rparr> else l);
              m = set_prev m elem None;
              m = set_next m elem None
          in (m, l, Some elem))"

definition gh_list_remove :: "lnodes \<Rightarrow> gh_list_t \<Rightarrow> nat \<Rightarrow> (lnodes \<times> gh_list_t) option" where
  "gh_list_remove m l lnode =
     (case (case lprev (m lnode) of
              Some p \<Rightarrow> Some (set_next m p (lnext (m lnode)), l)
            | None \<Rightarrow> if lfirst l = Some lnode then Some (m, l\<lparr>lfirst := lnext (m lnode)\<rparr>) else None) of
        None \<Rightarrow> None
      | Some (m, l) \<Rightarrow>
          (case (case lnext (m lnode) of
                   Some s \<Rightarrow> Some (set_prev m s (lprev (m lnode)), l)
                 | None \<Rightarrow> if llast l = Some lnode then Some (m, l\<lparr>llast := lprev (m lnode)\<rparr>) else None) of
             None \<Rightarrow> None
           | Some (m, l) \<Rightarrow>
               let m = set_prev m lnode None; m = set_next m lnode None
               in Some (m, l\<lparr>lcount := lcount l - 1\<rparr>)))"

text \<open>The loop of \<open>gh_list_free\<close>; each \<open>gh_list_pop\<close> takes one off the counter. A counter that is not zero on a list
  without nodes would keep it going for ever: \<open>None\<close>.\<close>

function gh_list_free_loop :: "lnodes \<Rightarrow> gh_list_t \<Rightarrow> (lnodes \<times> gh_list_t) option" where
  "gh_list_free_loop m l =
     (if lcount l > 0
      then (case gh_list_pop m l of (m', l', e) \<Rightarrow> if e = None then None else gh_list_free_loop m' l')
      else Some (m, l))"
  by pat_completeness auto

lemma gh_list_pop_count: "gh_list_pop m l = (m', l', Some e) \<Longrightarrow> lcount l' = lcount l - 1"
  by (auto simp: gh_list_pop_def Let_def split: option.splits)

termination gh_list_free_loop
proof (relation "measure (\<lambda>(m, l). unat (lcount l))", goal_cases)
  case (2 m l x y e z)
  then show ?case by (auto simp: gh_list_pop_count word_gt_0 unat_minus_one unat_gt_0 dest: sym)
qed simp

declare gh_list_free_loop.simps [simp del]

definition gh_list_free :: "lnodes \<Rightarrow> gh_list_t \<Rightarrow> (lnodes \<times> gh_list_t) option" where
  "gh_list_free m l =
     map_option (\<lambda>(m, l). (m, \<lparr>lcount = 0, lfirst = None, llast = None\<rparr>)) (gh_list_free_loop m l)"

definition gh_list_move_front :: "lnodes \<Rightarrow> gh_list_t \<Rightarrow> nat \<Rightarrow> (lnodes \<times> gh_list_t) option" where
  "gh_list_move_front m l lnode =
     (if lfirst l = Some lnode then Some (m, l)
      else case lprev (m lnode) of
             None \<Rightarrow> None
           | Some p \<Rightarrow>
               let m = set_next m p (lnext (m lnode))
               in (case (case lnext (m lnode) of
                           Some s \<Rightarrow> Some (set_prev m s (lprev (m lnode)), l)
                         | None \<Rightarrow> if llast l = Some lnode then Some (m, l\<lparr>llast := lprev (m lnode)\<rparr>) else None) of
                     None \<Rightarrow> None
                   | Some (m, l) \<Rightarrow>
                       (case lfirst l of
                          None \<Rightarrow> None
                        | Some f \<Rightarrow>
                            let m = set_prev m f (Some lnode);
                                m = set_next m lnode (Some f);
                                m = set_prev m lnode None
                            in Some (m, l\<lparr>lfirst := Some lnode\<rparr>))))"

definition gh_lnode_next :: "lnodes \<Rightarrow> nat \<Rightarrow> nat option" where
  "gh_lnode_next m elem = lnext (m elem)"

definition gh_lnode_prev :: "lnodes \<Rightarrow> nat \<Rightarrow> nat option" where
  "gh_lnode_prev m elem = lprev (m elem)"

definition gh_list_first_elem :: "gh_list_t \<Rightarrow> nat option" where
  "gh_list_first_elem l = lfirst l"

definition gh_list_last_elem :: "gh_list_t \<Rightarrow> nat option" where
  "gh_list_last_elem l = llast l"

definition gh_list_count :: "gh_list_t \<Rightarrow> u32" where
  "gh_list_count l = lcount l"

section \<open>Lists in the store\<close>

text \<open>\<open>chain m p xs\<close>: the nodes \<open>xs\<close> are linked both ways, the node before them being \<open>p\<close> and the one
  after them \<open>s\<close>.\<close>

fun chain :: "lnodes \<Rightarrow> nat option \<Rightarrow> nat list \<Rightarrow> nat option \<Rightarrow> bool" where
  "chain m p [] s = True"
| "chain m p (x # xs) s \<longleftrightarrow>
     lprev (m x) = p \<and> lnext (m x) = (case xs of [] \<Rightarrow> s | y # _ \<Rightarrow> Some y) \<and> chain m (Some x) xs s"

definition first_of :: "nat list \<Rightarrow> nat option \<Rightarrow> nat option" where
  "first_of xs s = (case xs of [] \<Rightarrow> s | x # _ \<Rightarrow> Some x)"

definition last_of :: "nat option \<Rightarrow> nat list \<Rightarrow> nat option" where
  "last_of p xs = (if xs = [] then p else Some (last xs))"

text \<open>The counter has 32 bits.\<close>

definition counted :: "u32 \<Rightarrow> nat \<Rightarrow> bool" where
  "counted c k \<longleftrightarrow> k < 2 ^ 32 \<and> c = of_nat k"

definition is_list :: "lnodes \<Rightarrow> gh_list_t \<Rightarrow> nat list \<Rightarrow> bool" where
  "is_list m l xs \<longleftrightarrow> distinct xs \<and> chain m None xs None \<and> counted (lcount l) (length xs) \<and>
     lfirst l = first_of xs None \<and> llast l = last_of None xs"

lemma first_of_simps [simp]: "first_of [] s = s" "first_of (x # xs) s = Some x"
  by (simp_all add: first_of_def)

lemma last_of_simps [simp]: "last_of p [] = p" "last_of p (xs @ [x]) = Some x"
  "last_of p (x # xs) = last_of (Some x) xs"
  by (simp_all add: last_of_def)

lemma last_of_append [simp]: "last_of p (xs @ ys) = last_of (last_of p xs) ys"
  by (simp add: last_of_def)

lemma first_of_append [simp]: "first_of (xs @ ys) s = first_of xs (first_of ys s)"
  by (cases xs) simp_all

lemma chain_Cons: "chain m p (x # xs) s \<longleftrightarrow> lprev (m x) = p \<and> lnext (m x) = first_of xs s \<and> chain m (Some x) xs s"
  by (simp add: first_of_def)

declare chain.simps(2) [simp del]
declare chain_Cons [simp]

lemma chain_append: "chain m p (xs @ ys) s \<longleftrightarrow> chain m p xs (first_of ys s) \<and> chain m (last_of p xs) ys s"
  by (induction xs arbitrary: p) auto

lemma chain_cong: "(\<And>x. x \<in> set xs \<Longrightarrow> m x = m' x) \<Longrightarrow> chain m p xs s \<longleftrightarrow> chain m' p xs s"
  by (induction xs arbitrary: p) auto

lemma set_links [simp]:
  "set_next m n p x = (if x = n then m n\<lparr>lnext := p\<rparr> else m x)"
  "set_prev m n p x = (if x = n then m n\<lparr>lprev := p\<rparr> else m x)"
  by (simp_all add: set_next_def set_prev_def)

lemma chain_set_other [simp]:
  "n \<notin> set xs \<Longrightarrow> chain (set_next m n q) p xs s \<longleftrightarrow> chain m p xs s"
  "n \<notin> set xs \<Longrightarrow> chain (set_prev m n q) p xs s \<longleftrightarrow> chain m p xs s"
  by (auto intro!: chain_cong)

text \<open>Setting the last forward link, and the first backward link, of a chain.\<close>

lemma chain_set_next:
  assumes "distinct (xs @ [x])"
  shows "chain (set_next m x q) p (xs @ [x]) q \<longleftrightarrow> (\<exists>s. chain m p (xs @ [x]) s)"
  using assms by (auto simp: chain_append)

lemma chain_set_prev:
  assumes "distinct (x # xs)"
  shows "chain (set_prev m x q) q (x # xs) s \<longleftrightarrow> (\<exists>p. chain m p (x # xs) s)"
  using assms by auto

lemma counted_unat: "counted c k \<Longrightarrow> unat c = k"
  by (simp add: counted_def unat_of_nat)

lemma counted_0: "counted c k \<Longrightarrow> c = 0 \<longleftrightarrow> k = 0"
  using counted_unat [of c k] by (metis unat_0 unat_eq_zero)

lemma counted_Suc: "counted c k \<Longrightarrow> k + 1 < 2 ^ 32 \<Longrightarrow> counted (c + 1) (Suc k)"
  by (simp add: counted_def)

lemma counted_pred:
  assumes "counted c (Suc k)"
  shows "counted (c - 1) k" "c - 1 < 2 \<longleftrightarrow> k < 2"
proof -
  show k: "counted (c - 1) k" using assms by (simp add: counted_def)
  show "c - 1 < 2 \<longleftrightarrow> k < 2" using counted_unat [OF k] by (simp add: word_less_nat_alt)
qed

section \<open>The operations on lists\<close>

text \<open>Nothing but the links of the nodes in \<open>A\<close> has changed.\<close>

definition frame :: "nat set \<Rightarrow> lnodes \<Rightarrow> lnodes \<Rightarrow> bool" where
  "frame A m m' \<longleftrightarrow> (\<forall>a. a \<notin> A \<longrightarrow> m' a = m a)"

lemma frame_is_list: "frame A m m' \<Longrightarrow> set ys \<inter> A = {} \<Longrightarrow> is_list m l ys \<Longrightarrow> is_list m' l ys"
proof -
  assume "frame A m m'" "set ys \<inter> A = {}"
  then have "chain m None ys None \<longleftrightarrow> chain m' None ys None" by (intro chain_cong) (auto simp: frame_def)
  then show "is_list m l ys \<Longrightarrow> is_list m' l ys" by (simp add: is_list_def)
qed

lemma gh_list_append_ok:
  assumes "is_list m l xs" and "n \<notin> set xs" and "length xs + 1 < 2 ^ 32"
  shows "is_list (fst (gh_list_append m l n)) (snd (gh_list_append m l n)) (xs @ [n])"
    "frame (insert n (set xs)) m (fst (gh_list_append m l n))"
proof -
  have c: "counted (lcount l) (length xs)" using assms(1) by (simp add: is_list_def)
  note c = counted_Suc [OF c assms(3)] counted_0 [OF c]
  show "is_list (fst (gh_list_append m l n)) (snd (gh_list_append m l n)) (xs @ [n])"
    using assms(1,2) c
    by (cases xs rule: rev_cases) (auto simp: is_list_def gh_list_append_def Let_def chain_append)
  show "frame (insert n (set xs)) m (fst (gh_list_append m l n))"
    using assms(1,2) by (cases xs rule: rev_cases) (auto simp: is_list_def frame_def gh_list_append_def Let_def)
qed

lemma gh_list_prepend_ok:
  assumes "is_list m l xs" and "n \<notin> set xs" and "length xs + 1 < 2 ^ 32"
  shows "is_list (fst (gh_list_prepend m l n)) (snd (gh_list_prepend m l n)) (n # xs)"
    "frame (insert n (set xs)) m (fst (gh_list_prepend m l n))"
proof -
  have c: "counted (lcount l) (length xs)" using assms(1) by (simp add: is_list_def)
  note c = counted_Suc [OF c assms(3)] counted_0 [OF c]
  show "is_list (fst (gh_list_prepend m l n)) (snd (gh_list_prepend m l n)) (n # xs)"
    using assms(1,2) c by (cases xs) (auto simp: is_list_def gh_list_prepend_def Let_def)
  show "frame (insert n (set xs)) m (fst (gh_list_prepend m l n))"
    using assms(1,2) by (cases xs) (auto simp: is_list_def frame_def gh_list_prepend_def Let_def)
qed

lemma gh_list_insert_before_ok:
  assumes "is_list m l (xs @ b # ys)" and "n \<notin> set (xs @ b # ys)" and "length (xs @ b # ys) + 1 < 2 ^ 32"
  shows "is_list (fst (gh_list_insert_before m l b n)) (snd (gh_list_insert_before m l b n)) (xs @ n # b # ys)"
    "frame (insert n (set (xs @ b # ys))) m (fst (gh_list_insert_before m l b n))"
proof -
  have c: "counted (lcount l) (length (xs @ b # ys))" using assms(1) by (simp add: is_list_def)
  have "Suc (length (xs @ b # ys)) = length (xs @ n # b # ys)" by simp
  then have c: "counted (lcount l + 1) (length (xs @ n # b # ys))" using counted_Suc [OF c assms(3)] by simp
  show "is_list (fst (gh_list_insert_before m l b n)) (snd (gh_list_insert_before m l b n)) (xs @ n # b # ys)"
    using assms(1,2) c
    by (cases xs rule: rev_cases) (auto simp: is_list_def gh_list_insert_before_def Let_def chain_append)
  show "frame (insert n (set (xs @ b # ys))) m (fst (gh_list_insert_before m l b n))"
    using assms(1,2)
    by (cases xs rule: rev_cases) (auto simp: is_list_def frame_def gh_list_insert_before_def Let_def chain_append)
qed

lemma gh_list_pop_ok:
  assumes "is_list m l (x # xs)"
  shows "\<exists>m' l'. gh_list_pop m l = (m', l', Some x) \<and> is_list m' l' xs \<and> frame (set (x # xs)) m m'"
proof -
  have "counted (lcount l) (Suc (length xs))" using assms by (simp add: is_list_def)
  note c = counted_pred [OF this]
  show ?thesis
    using assms c
    by (cases xs; cases "tl xs") (auto simp: is_list_def frame_def gh_list_pop_def Let_def last_of_def)
qed

lemma gh_list_pop_empty: "is_list m l [] \<Longrightarrow> gh_list_pop m l = (m, l, None)"
  by (simp add: is_list_def gh_list_pop_def)

lemma gh_list_remove_ok:
  assumes "is_list m l (xs @ n # ys)"
  shows "\<exists>m' l'. gh_list_remove m l n = Some (m', l') \<and> is_list m' l' (xs @ ys) \<and> frame (set (xs @ n # ys)) m m'"
proof -
  have "counted (lcount l) (Suc (length (xs @ ys)))" using assms by (simp add: is_list_def)
  note c = counted_pred(1) [OF this]
  show ?thesis
    using assms c
    by (cases xs rule: rev_cases; cases ys)
       (auto simp: is_list_def frame_def gh_list_remove_def Let_def chain_append last_of_def)
qed

lemma gh_list_move_front_ok:
  assumes "is_list m l (xs @ n # ys)"
  shows "\<exists>m' l'. gh_list_move_front m l n = Some (m', l') \<and> is_list m' l' (n # xs @ ys) \<and> frame (set (xs @ n # ys)) m m'"
proof -
  consider "xs = []" | a where "xs = [a]" | a zs z where "xs = a # zs @ [z]"
    by (metis list.exhaust rev_exhaust)
  then show ?thesis
  proof cases
    case 1
    then show ?thesis using assms by (auto simp: is_list_def frame_def gh_list_move_front_def)
  next
    case 2
    then show ?thesis
      using assms by (cases ys) (auto simp: is_list_def frame_def gh_list_move_front_def Let_def)
  next
    case 3
    then show ?thesis
      using assms by (cases ys) (auto simp: is_list_def frame_def gh_list_move_front_def Let_def chain_append)
  qed
qed

text \<open>Walking the list.\<close>

lemma gh_lnode_next_ok: "is_list m l (xs @ n # ys) \<Longrightarrow> gh_lnode_next m n = first_of ys None"
  by (simp add: is_list_def gh_lnode_next_def chain_append)

lemma gh_lnode_prev_ok: "is_list m l (xs @ n # ys) \<Longrightarrow> gh_lnode_prev m n = last_of None xs"
  by (simp add: is_list_def gh_lnode_prev_def chain_append)

lemma gh_list_free_loop_ok:
  "is_list m l xs \<Longrightarrow> \<exists>m' l'. gh_list_free_loop m l = Some (m', l') \<and> is_list m' l' [] \<and> frame (set xs) m m'"
proof (induction xs arbitrary: m l)
  case Nil
  then show ?case by (subst gh_list_free_loop.simps) (auto simp: is_list_def frame_def counted_def)
next
  case (Cons x xs)
  obtain m' l' where p: "gh_list_pop m l = (m', l', Some x)" "is_list m' l' xs" "frame (set (x # xs)) m m'"
    using gh_list_pop_ok [OF Cons.prems] by blast
  have "counted (lcount l) (Suc (length xs))" using Cons.prems by (simp add: is_list_def)
  then have "lcount l > 0" using counted_0 by (auto simp: word_gt_0)
  then have "gh_list_free_loop m l = gh_list_free_loop m' l'" by (subst gh_list_free_loop.simps) (simp add: p)
  then show ?case using Cons.IH [OF p(2)] p(3) by (auto simp: frame_def)
qed

lemma gh_list_free_ok: "is_list m l xs \<Longrightarrow> \<exists>m' l'. gh_list_free m l = Some (m', l') \<and> is_list m' l' []"
  using gh_list_free_loop_ok [of m l xs] by (auto simp: gh_list_free_def is_list_def counted_def)

section \<open>Sequences of operations\<close>

text \<open>The operations the event loop performs on its lists, with what they return, and their meaning on HOL lists:
  \<open>None\<close> when the operation is not allowed, because a node is already in the list, or not in it, or because the
  counter has no room for another one.\<close>

datatype list_op = Append nat | Prepend nat | Insert_before nat nat | Remove nat | Pop | Move_front nat
  | Free_list | First | Last | Next nat | Prev nat | Count

datatype list_out = Done | Node "nat option" | Number u32

fun insert_before :: "nat \<Rightarrow> nat \<Rightarrow> nat list \<Rightarrow> nat list" where
  "insert_before b n [] = []"
| "insert_before b n (x # xs) = (if x = b then n # x # xs else x # insert_before b n xs)"

definition head_of :: "nat list \<Rightarrow> nat option" where
  "head_of xs = (case xs of [] \<Rightarrow> None | x # _ \<Rightarrow> Some x)"

definition after :: "nat \<Rightarrow> nat list \<Rightarrow> nat list" where
  "after n xs = tl (dropWhile (\<lambda>x. x \<noteq> n) xs)"

definition new_node :: "nat \<Rightarrow> nat list \<Rightarrow> bool" where
  "new_node n xs \<longleftrightarrow> n \<notin> set xs \<and> length xs + 1 < 2 ^ 32"

fun list_spec :: "list_op \<Rightarrow> nat list \<Rightarrow> (list_out \<times> nat list) option" where
  "list_spec (Append n) xs = (if new_node n xs then Some (Done, xs @ [n]) else None)"
| "list_spec (Prepend n) xs = (if new_node n xs then Some (Done, n # xs) else None)"
| "list_spec (Insert_before b n) xs = (if new_node n xs \<and> b \<in> set xs then Some (Done, insert_before b n xs) else None)"
| "list_spec (Remove n) xs = (if n \<in> set xs then Some (Done, remove1 n xs) else None)"
| "list_spec Pop xs = Some (Node (head_of xs), tl xs)"
| "list_spec (Move_front n) xs = (if n \<in> set xs then Some (Done, n # remove1 n xs) else None)"
| "list_spec Free_list xs = Some (Done, [])"
| "list_spec First xs = Some (Node (head_of xs), xs)"
| "list_spec Last xs = Some (Node (head_of (rev xs)), xs)"
| "list_spec (Next n) xs = (if n \<in> set xs then Some (Node (head_of (after n xs)), xs) else None)"
| "list_spec (Prev n) xs = (if n \<in> set xs then Some (Node (head_of (after n (rev xs))), xs) else None)"
| "list_spec Count xs = Some (Number (of_nat (length xs)), xs)"

fun list_exec :: "list_op \<Rightarrow> lnodes \<times> gh_list_t \<Rightarrow> (list_out \<times> lnodes \<times> gh_list_t) option" where
  "list_exec (Append n) (m, l) = Some (Done, gh_list_append m l n)"
| "list_exec (Prepend n) (m, l) = Some (Done, gh_list_prepend m l n)"
| "list_exec (Insert_before b n) (m, l) = Some (Done, gh_list_insert_before m l b n)"
| "list_exec (Remove n) (m, l) = map_option (Pair Done) (gh_list_remove m l n)"
| "list_exec Pop (m, l) = (case gh_list_pop m l of (m', l', e) \<Rightarrow> Some (Node e, m', l'))"
| "list_exec (Move_front n) (m, l) = map_option (Pair Done) (gh_list_move_front m l n)"
| "list_exec Free_list (m, l) = map_option (Pair Done) (gh_list_free m l)"
| "list_exec First (m, l) = Some (Node (gh_list_first_elem l), m, l)"
| "list_exec Last (m, l) = Some (Node (gh_list_last_elem l), m, l)"
| "list_exec (Next n) (m, l) = Some (Node (gh_lnode_next m n), m, l)"
| "list_exec (Prev n) (m, l) = Some (Node (gh_lnode_prev m n), m, l)"
| "list_exec Count (m, l) = Some (Number (gh_list_count l), m, l)"

lemma insert_before_split: "b \<notin> set as \<Longrightarrow> insert_before b n (as @ b # bs) = as @ n # b # bs"
  by (induction as) auto

lemma head_of_eq: "head_of xs = first_of xs None" "head_of (rev xs) = last_of None xs"
  by (simp add: head_of_def first_of_def) (cases xs rule: rev_cases; simp add: head_of_def)

lemma after_split: "n \<notin> set as \<Longrightarrow> after n (as @ n # bs) = bs"
proof -
  assume "n \<notin> set as"
  then have "dropWhile (\<lambda>x. x \<noteq> n) (as @ n # bs) = n # bs" by (subst dropWhile_append2) auto
  then show ?thesis by (simp add: after_def)
qed

lemma list_exec_query:
  assumes "is_list m l xs"
  shows "gh_list_first_elem l = head_of xs" "gh_list_last_elem l = head_of (rev xs)" "gh_list_count l = of_nat (length xs)"
    "n \<in> set xs \<Longrightarrow> gh_lnode_next m n = head_of (after n xs)"
    "n \<in> set xs \<Longrightarrow> gh_lnode_prev m n = head_of (after n (rev xs))"
proof -
  show "gh_list_first_elem l = head_of xs" using assms by (simp add: is_list_def gh_list_first_elem_def head_of_eq(1))
  show "gh_list_last_elem l = head_of (rev xs)" using assms by (simp add: is_list_def gh_list_last_elem_def head_of_eq(2))
  show "gh_list_count l = of_nat (length xs)" using assms by (simp add: is_list_def counted_def gh_list_count_def)
  assume "n \<in> set xs"
  then obtain as bs where xs: "xs = as @ n # bs" "n \<notin> set as" by (auto dest: split_list_first)
  moreover have "n \<notin> set bs" using assms xs(1) by (simp add: is_list_def)
  ultimately have "after n xs = bs" "after n (rev xs) = rev as" using after_split [of n as bs] after_split [of n "rev bs" "rev as"] by auto
  then show "gh_lnode_next m n = head_of (after n xs)" "gh_lnode_prev m n = head_of (after n (rev xs))"
    using gh_lnode_next_ok [of m l as n bs] gh_lnode_prev_ok [of m l as n bs] assms xs(1)
    by (simp_all add: head_of_eq(2)) (simp add: head_of_eq(1))
qed

lemma list_exec_spec:
  assumes "is_list m l xs" and "list_spec op xs = Some (out, ys)"
  shows "\<exists>m' l'. list_exec op (m, l) = Some (out, m', l') \<and> is_list m' l' ys"
proof (cases op)
  case (Append n)
  then show ?thesis using assms gh_list_append_ok(1) [of m l xs n]
    by (auto simp: new_node_def split: if_splits intro: prod.exhaust_sel)
next
  case (Prepend n)
  then show ?thesis using assms gh_list_prepend_ok(1) [of m l xs n]
    by (auto simp: new_node_def split: if_splits intro: prod.exhaust_sel)
next
  case (Insert_before b n)
  then obtain as bs where "xs = as @ b # bs" "b \<notin> set as" "n \<notin> set xs" "length xs + 1 < 2 ^ 32"
    using assms(2) by (auto simp: new_node_def split: if_splits dest: split_list_first)
  then show ?thesis
    using assms gh_list_insert_before_ok(1) [of m l as b bs n] Insert_before
    by (auto simp: insert_before_split new_node_def split: if_splits intro: prod.exhaust_sel)
next
  case (Remove n)
  then obtain as bs where "xs = as @ n # bs" "n \<notin> set as"
    using assms(2) by (auto split: if_splits dest: split_list_first)
  then show ?thesis
    using assms gh_list_remove_ok [of m l as n bs] Remove by (auto simp: remove1_append)
next
  case Pop
  then show ?thesis
    using assms gh_list_pop_ok [of m l "hd xs" "tl xs"] gh_list_pop_empty [of m l] by (cases xs) (auto simp: head_of_def)
next
  case (Move_front n)
  then obtain as bs where "xs = as @ n # bs" "n \<notin> set as"
    using assms(2) by (auto split: if_splits dest: split_list_first)
  then show ?thesis
    using assms gh_list_move_front_ok [of m l as n bs] Move_front by (auto simp: remove1_append)
next
  case Free_list
  then show ?thesis using assms gh_list_free_ok [of m l xs] by auto
qed (use assms list_exec_query [OF assms(1)] in \<open>auto split: if_splits\<close>)

text \<open>A step that implements another, returning the same, and what follows for runs.\<close>

locale simulation =
  fixes abs_step :: "'op \<Rightarrow> 'a \<Rightarrow> ('o \<times> 'a) option"
    and step :: "'op \<Rightarrow> 'c \<Rightarrow> ('o \<times> 'c) option"
    and rep :: "'c \<Rightarrow> 'a \<Rightarrow> bool"
  assumes step_simulates: "rep c a \<Longrightarrow> abs_step op a = Some (out, a') \<Longrightarrow> \<exists>c'. step op c = Some (out, c') \<and> rep c' a'"

fun run_ops :: "('op \<Rightarrow> 's \<Rightarrow> ('o \<times> 's) option) \<Rightarrow> 'op list \<Rightarrow> 's \<Rightarrow> ('o list \<times> 's) option" where
  "run_ops f [] s = Some ([], s)"
| "run_ops f (op # ops) s =
     (case f op s of
        None \<Rightarrow> None
      | Some (out, s') \<Rightarrow> map_option (\<lambda>(outs, t). (out # outs, t)) (run_ops f ops s'))"

context simulation
begin

lemma run_simulates:
  "rep c a \<Longrightarrow> run_ops abs_step ops a = Some (outs, a') \<Longrightarrow> \<exists>c'. run_ops step ops c = Some (outs, c') \<and> rep c' a'"
proof (induction ops arbitrary: a c outs)
  case (Cons op ops)
  then obtain out a1 os where a1: "abs_step op a = Some (out, a1)" "run_ops abs_step ops a1 = Some (os, a')" "outs = out # os"
    by (auto split: option.splits)
  then obtain c1 where "step op c = Some (out, c1)" "rep c1 a1" using step_simulates Cons.prems(1) by blast
  then show ?case using Cons.IH [of c1 a1 os] a1(2,3) by auto
qed simp

end

interpretation lists: simulation list_spec list_exec "\<lambda>(m, l) xs. is_list m l xs"
proof
  fix c xs op out ys assume "(\<lambda>(m, l) xs. is_list m l xs) c xs" "list_spec op xs = Some (out, ys)"
  then show "\<exists>c'. list_exec op c = Some (out, c') \<and> (\<lambda>(m, l) xs. is_list m l xs) c' ys"
    using list_exec_spec [of "fst c" "snd c" xs op out ys] by (cases c) auto
qed

text \<open>C28: every sequence of operations that is allowed on a list (of fewer than \<open>2 ^ 32\<close> nodes) is carried out by the
  doubly linked lists of nsock: no null pointer is followed, no assertion fails, every operation returns what it
  returns on the list (the element popped, the first and the last one, the neighbours of a node, the number of
  elements), and the first and last pointers, the counter and all links of the result represent the resulting
  list.\<close>

theorem gh_list_implements_lists:
  assumes "run_ops list_spec ops [] = Some (outs, xs)"
  shows "\<exists>m' l'. run_ops list_exec ops (m, gh_list_init) = Some (outs, m', l') \<and> is_list m' l' xs"
proof -
  have "is_list m gh_list_init []" by (simp add: is_list_def gh_list_init_def counted_def)
  then show ?thesis using lists.run_simulates [of "(m, gh_list_init)" "[]" ops, OF _ assms] by auto
qed

theorem gh_list_implements_lists_witness:
  "\<exists>m' l'. run_ops list_exec [Append 5, Append 7, Insert_before 7 9, Next 5, Move_front 7, Prev 9, Pop, Last, Count, Remove 9, Pop]
      (\<lambda>_. \<lparr>lnext = None, lprev = None\<rparr>, gh_list_init) =
      Some ([Done, Done, Done, Node (Some 9), Done, Node (Some 5), Node (Some 7), Node (Some 9), Number 2, Done, Node (Some 5)], m', l') \<and>
    is_list m' l' []"
  by (rule gh_list_implements_lists) (simp add: new_node_def head_of_def after_def)

end
