(* ===== verification/Gh_Heap.thy ===== *)
theory Gh_Heap
  imports Nmap_Prelude
begin

text \<open>
  The binary heap of nsock (\<open>nsock/src/gh_heap.c\<close>, \<open>nsock/src/gh_heap.h\<close>), in which
  the event loop keeps its expirable events. A heap node is an address; the slot array holds
  node pointers (\<open>None\<close> is NULL) and every node carries its own position in its
  \<open>index\<close> field, so the model keeps the index fields of all nodes as a store beside the
  slots. A failed assertion is \<open>None\<close>.

  The loops are refined to sifting on lists of nodes, and the theorems show that on a
  well-formed heap no assertion fails, the index fields and the heap order are kept, and
  push, remove and pop change the multiset of nodes as a priority queue does.
\<close>

section \<open>The heap and its operations\<close>

type_synonym hnode = nat

record gh_heap_t =
  cmp_op :: "hnode \<Rightarrow> hnode \<Rightarrow> bool"
  count :: nat
  highwm :: nat
  slots :: "hnode option list"
  nindex :: "hnode \<Rightarrow> nat"

definition GH_SLOTS :: nat where
  "GH_SLOTS = 128"

definition GH_HEAP_GUARD :: nat where
  "GH_HEAP_GUARD = 0x19890721"

definition gh_hnode_invalidate :: "gh_heap_t \<Rightarrow> hnode \<Rightarrow> gh_heap_t" where
  "gh_hnode_invalidate h n = h\<lparr>nindex := (nindex h)(n := GH_HEAP_GUARD)\<rparr>"

definition gh_hnode_is_valid :: "gh_heap_t \<Rightarrow> hnode \<Rightarrow> bool" where
  "gh_hnode_is_valid h n \<longleftrightarrow> nindex h n \<noteq> GH_HEAP_GUARD"

text \<open>\<open>hnode_ptr\<close> returns the address of a slot; here, its position.\<close>

definition hnode_ptr :: "gh_heap_t \<Rightarrow> nat \<Rightarrow> nat option" where
  "hnode_ptr h i =
     (if i \<le> count h
      then if i = count h then Some i
           else if i < length (slots h)
           then (case slots h ! i of
                   None \<Rightarrow> None
                 | Some n \<Rightarrow> if nindex h n = i then Some i else None)
           else None
      else None)"

text \<open>The node a slot points at; \<open>None\<close> when the slot is NULL or outside the array.\<close>

definition slot_node :: "gh_heap_t \<Rightarrow> nat \<Rightarrow> hnode option" where
  "slot_node h i = (if i < length (slots h) then slots h ! i else None)"

definition gh_heap_find :: "gh_heap_t \<Rightarrow> nat \<Rightarrow> hnode option option" where
  "gh_heap_find h i =
     (if i \<ge> count h then Some None
      else case hnode_ptr h i of None \<Rightarrow> None | Some p \<Rightarrow> Some (slot_node h p))"

text \<open>\<open>node->index = i; *slot = node\<close>, the pair of stores that both loops repeat.\<close>

definition put_node :: "gh_heap_t \<Rightarrow> nat \<Rightarrow> hnode \<Rightarrow> gh_heap_t" where
  "put_node h i n = h\<lparr>nindex := (nindex h)(n := i), slots := (slots h)[i := Some n]\<rparr>"

lemma put_node_sel [simp]:
  "cmp_op (put_node h i n) = cmp_op h" "count (put_node h i n) = count h"
  "highwm (put_node h i n) = highwm h" "slots (put_node h i n) = (slots h)[i := Some n]"
  "nindex (put_node h i n) = (nindex h)(n := i)"
  by (simp_all add: put_node_def)

function hnode_up_loop ::
  "gh_heap_t \<Rightarrow> hnode \<Rightarrow> nat \<Rightarrow> bool \<Rightarrow> (gh_heap_t \<times> bool) option" where
  "hnode_up_loop h hnode cur_idx action =
     (if cur_idx > 0 then
        let parent_idx = (cur_idx - 1) div 2 in
        case hnode_ptr h parent_idx of
          None \<Rightarrow> None
        | Some parent_ptr \<Rightarrow>
            (case slot_node h parent_ptr of
               None \<Rightarrow> None
             | Some parent \<Rightarrow>
                 if cmp_op h parent hnode then Some (put_node h cur_idx hnode, action)
                 else hnode_up_loop (put_node h cur_idx parent) hnode parent_idx True)
      else Some (put_node h cur_idx hnode, action))"
  by pat_completeness auto
termination
  by (relation "measure (\<lambda>(h, n, cur_idx, action). cur_idx)") auto

declare hnode_up_loop.simps [simp del]

definition hnode_up :: "gh_heap_t \<Rightarrow> hnode \<Rightarrow> (gh_heap_t \<times> bool) option" where
  "hnode_up h hnode =
     (case hnode_ptr h (nindex h hnode) of
        None \<Rightarrow> None
      | Some cur_ptr \<Rightarrow>
          if slot_node h cur_ptr = Some hnode
          then hnode_up_loop h hnode (nindex h hnode) False
          else None)"

text \<open>
  The child the downward loop compares with: the smaller of the two, or the only one. The
  index arithmetic is that of \<open>unsigned int\<close>.
\<close>

definition ch1_of :: "nat \<Rightarrow> nat" where
  "ch1_of i = (i * 2 mod 2 ^ 32 + 1) mod 2 ^ 32"

definition ch2_of :: "nat \<Rightarrow> nat" where
  "ch2_of i = (ch1_of i + 1) mod 2 ^ 32"

definition pick_child :: "gh_heap_t \<Rightarrow> nat \<Rightarrow> (nat \<times> hnode) option" where
  "pick_child h cur_idx =
     (case hnode_ptr h (ch1_of cur_idx) of
        None \<Rightarrow> None
      | Some ch1_ptr \<Rightarrow>
          (case slot_node h ch1_ptr of
             None \<Rightarrow> None
           | Some ch1 \<Rightarrow>
               if ch2_of cur_idx < count h then
                 (case hnode_ptr h (ch2_of cur_idx) of
                    None \<Rightarrow> None
                  | Some ch2_ptr \<Rightarrow>
                      (case slot_node h ch2_ptr of
                         None \<Rightarrow> None
                       | Some ch2 \<Rightarrow>
                           Some (if cmp_op h ch2 ch1 then (ch2_of cur_idx, ch2)
                                 else (ch1_of cur_idx, ch1))))
               else Some (ch1_of cur_idx, ch1)))"

partial_function (option) hnode_down_loop ::
  "gh_heap_t \<Rightarrow> hnode \<Rightarrow> nat \<Rightarrow> bool \<Rightarrow> (gh_heap_t \<times> bool) option" where
  "hnode_down_loop h hnode cur_idx action =
     (if cur_idx < count h then
        if ch1_of cur_idx \<ge> count h then Some (put_node h cur_idx hnode, action)
        else
          (case pick_child h cur_idx of
             None \<Rightarrow> None
           | Some (ch1_idx, ch1) \<Rightarrow>
               if nindex h ch1 \<noteq> ch1_idx then None
               else if cmp_op h hnode ch1 then Some (put_node h cur_idx hnode, action)
               else hnode_down_loop (put_node h cur_idx ch1) hnode ch1_idx True)
      else Some (put_node h cur_idx hnode, action))"

declare hnode_down_loop.simps [code]

definition hnode_down :: "gh_heap_t \<Rightarrow> hnode \<Rightarrow> (gh_heap_t \<times> bool) option" where
  "hnode_down h hnode =
     (case hnode_ptr h (nindex h hnode) of
        None \<Rightarrow> None
      | Some cur_ptr \<Rightarrow>
          if slot_node h cur_ptr = Some hnode
          then hnode_down_loop h hnode (nindex h hnode) False
          else None)"

text \<open>
  \<open>newsize\<close> is an \<open>int\<close>: a heap that would outgrow it is a failed allocation.
\<close>

definition heap_grow :: "gh_heap_t \<Rightarrow> gh_heap_t option" where
  "heap_grow h =
     (if count h \<noteq> highwm h then None
      else if count h + GH_SLOTS > 2 ^ 31 - 1 then None
      else Some (h\<lparr>slots := take (count h) (slots h) @ replicate GH_SLOTS None,
                   highwm := highwm h + GH_SLOTS\<rparr>))"

text \<open>
  \<open>memset\<close> clears the whole structure: the comparison pointer of a freed heap is NULL and
  is never called; the constant false stands for it.
\<close>

definition gh_heap_free :: "gh_heap_t \<Rightarrow> gh_heap_t option" where
  "gh_heap_free h =
     (if highwm h \<noteq> 0 \<and> slots h = [] then None
      else Some (h\<lparr>cmp_op := (\<lambda>_ _. False), count := 0, highwm := 0, slots := []\<rparr>))"

definition gh_heap_init ::
  "gh_heap_t \<Rightarrow> (hnode \<Rightarrow> hnode \<Rightarrow> bool) option \<Rightarrow> (gh_heap_t \<times> int) option" where
  "gh_heap_init h cmp =
     (case cmp of
        None \<Rightarrow> Some (h, - 1)
      | Some c \<Rightarrow>
          map_option (\<lambda>h'. (h', 0))
            (heap_grow (h\<lparr>cmp_op := c, count := 0, highwm := 0, slots := []\<rparr>)))"

definition gh_heap_push :: "gh_heap_t \<Rightarrow> hnode \<Rightarrow> gh_heap_t option" where
  "gh_heap_push h hnode =
     (if gh_hnode_is_valid h hnode then None
      else
        let new_index = count h in
        case (if new_index = highwm h then heap_grow h else Some h) of
          None \<Rightarrow> None
        | Some h1 \<Rightarrow>
            let h2 = h1\<lparr>nindex := (nindex h1)(hnode := new_index)\<rparr> in
            (case hnode_ptr h2 new_index of
               None \<Rightarrow> None
             | Some new_ptr \<Rightarrow>
                 if new_ptr < length (slots h2) \<and> slots h2 ! new_ptr = None then
                   map_option fst
                     (hnode_up (h2\<lparr>count := (count h2 + 1) mod 2 ^ 32,
                                   slots := (slots h2)[new_ptr := Some hnode]\<rparr>) hnode)
                 else None))"

text \<open>The two attempts of \<open>gh_heap_remove\<close> to move the node that replaces the removed one.\<close>

definition resift :: "gh_heap_t \<Rightarrow> hnode \<Rightarrow> gh_heap_t option" where
  "resift h n =
     (case hnode_up h n of
        None \<Rightarrow> None
      | Some (h', action) \<Rightarrow> if action then Some h' else map_option fst (hnode_down h' n))"

definition gh_heap_remove :: "gh_heap_t \<Rightarrow> hnode \<Rightarrow> gh_heap_t option" where
  "gh_heap_remove h hnode =
     (let cur_idx = nindex h hnode in
      if \<not> gh_hnode_is_valid h hnode \<or> \<not> cur_idx < count h then None
      else case hnode_ptr h cur_idx of
        None \<Rightarrow> None
      | Some cur_ptr \<Rightarrow>
          if slot_node h cur_ptr \<noteq> Some hnode then None
          else
            let cnt = count h - 1 in
            case hnode_ptr h cnt of
              None \<Rightarrow> None
            | Some last_ptr \<Rightarrow>
                (case slot_node h last_ptr of
                   None \<Rightarrow> None
                 | Some lst \<Rightarrow>
                     let h1 = h\<lparr>count := cnt\<rparr> in
                     (case (if lst \<noteq> hnode then resift (put_node h1 cur_idx lst) lst
                            else Some h1) of
                        None \<Rightarrow> None
                      | Some h4 \<Rightarrow>
                          let h5 = gh_hnode_invalidate h4 hnode in
                          (case hnode_ptr h5 cnt of
                             None \<Rightarrow> None
                           | Some p \<Rightarrow> Some (h5\<lparr>slots := (slots h5)[p := None]\<rparr>)))))"

definition gh_heap_min :: "gh_heap_t \<Rightarrow> hnode option option" where
  "gh_heap_min h = (if count h = 0 then Some None else gh_heap_find h 0)"

definition gh_heap_pop :: "gh_heap_t \<Rightarrow> (gh_heap_t \<times> hnode option) option" where
  "gh_heap_pop h =
     (case gh_heap_find h 0 of
        None \<Rightarrow> None
      | Some None \<Rightarrow> Some (h, None)
      | Some (Some n) \<Rightarrow> map_option (\<lambda>h'. (h', Some n)) (gh_heap_remove h n))"

definition gh_heap_count :: "gh_heap_t \<Rightarrow> nat" where
  "gh_heap_count h = count h"

definition gh_heap_is_empty :: "gh_heap_t \<Rightarrow> bool" where
  "gh_heap_is_empty h \<longleftrightarrow> count h = 0"

section \<open>Sifting on lists of nodes\<close>

definition par :: "nat \<Rightarrow> nat" where
  "par i = (i - 1) div 2"

lemma par_less: "0 < i \<Longrightarrow> par i < i"
  by (auto simp: par_def)

lemma par_children: "0 < j \<Longrightarrow> par j = i \<longleftrightarrow> j = 2 * i + 1 \<or> j = 2 * i + 2"
  by (auto simp: par_def)

function sift_up :: "('a \<Rightarrow> 'a \<Rightarrow> bool) \<Rightarrow> 'a list \<Rightarrow> nat \<Rightarrow> 'a list" where
  "sift_up cmp xs i =
     (if 0 < i \<and> \<not> cmp (xs ! par i) (xs ! i) then sift_up cmp (swap xs i (par i)) (par i)
      else xs)"
  by pat_completeness auto
termination
  by (relation "measure (\<lambda>(cmp, xs, i). i)") (auto simp: par_less)

definition min_child :: "('a \<Rightarrow> 'a \<Rightarrow> bool) \<Rightarrow> 'a list \<Rightarrow> nat \<Rightarrow> nat" where
  "min_child cmp xs i =
     (if 2 * i + 2 < length xs \<and> cmp (xs ! (2 * i + 2)) (xs ! (2 * i + 1))
      then 2 * i + 2 else 2 * i + 1)"

lemma min_child_bounds:
  "2 * i + 1 < length xs \<Longrightarrow> i < min_child cmp xs i \<and> min_child cmp xs i < length xs"
  "par (min_child cmp xs i) = i"
  by (auto simp: min_child_def par_def)

function sift_down :: "('a \<Rightarrow> 'a \<Rightarrow> bool) \<Rightarrow> 'a list \<Rightarrow> nat \<Rightarrow> 'a list" where
  "sift_down cmp xs i =
     (if 2 * i + 1 < length xs \<and> \<not> cmp (xs ! i) (xs ! min_child cmp xs i)
      then sift_down cmp (swap xs i (min_child cmp xs i)) (min_child cmp xs i)
      else xs)"
  by pat_completeness auto
termination
  by (relation "measure (\<lambda>(cmp, xs, i). length xs - i)")
     (auto simp: min_child_def intro!: diff_less_mono2)

declare sift_up.simps [simp del] sift_down.simps [simp del]

lemma sift_up_mset [simp]: "i < length xs \<Longrightarrow> mset (sift_up cmp xs i) = mset xs"
proof (induction cmp xs i rule: sift_up.induct)
  case (1 cmp xs i)
  then show ?case using par_less [of i] by (subst sift_up.simps) auto
qed

lemma sift_down_mset [simp]: "i < length xs \<Longrightarrow> mset (sift_down cmp xs i) = mset xs"
proof (induction cmp xs i rule: sift_down.induct)
  case (1 cmp xs i)
  then show ?case
    using min_child_bounds(1) [of i xs cmp] by (subst sift_down.simps) auto
qed

definition heap_ordered :: "('a \<Rightarrow> 'a \<Rightarrow> bool) \<Rightarrow> 'a list \<Rightarrow> bool" where
  "heap_ordered cmp xs \<longleftrightarrow> (\<forall>i<length xs. 0 < i \<longrightarrow> \<not> cmp (xs ! i) (xs ! par i))"

text \<open>
  The list is ordered but for position \<open>i\<close>, whose element was replaced: the edges that
  do not touch \<open>i\<close> are in order, and so are the edges one would get by contracting
  \<open>i\<close>.
\<close>

definition ordered_but :: "('a \<Rightarrow> 'a \<Rightarrow> bool) \<Rightarrow> 'a list \<Rightarrow> nat \<Rightarrow> bool" where
  "ordered_but cmp xs i \<longleftrightarrow>
     (\<forall>j<length xs. 0 < j \<longrightarrow> j \<noteq> i \<longrightarrow> par j \<noteq> i \<longrightarrow> \<not> cmp (xs ! j) (xs ! par j)) \<and>
     (\<forall>j<length xs. 0 < j \<longrightarrow> par j = i \<longrightarrow> 0 < i \<longrightarrow> \<not> cmp (xs ! j) (xs ! par i))"

text \<open>
  The comparison a heap is created with has to be a strict weak order. The contract is the
  one the comment on \<open>gh_heap_cmp_t\<close> states: true iff the first node is before the
  second.
\<close>

locale heap_order =
  fixes cmp :: "'a \<Rightarrow> 'a \<Rightarrow> bool"
  assumes asym: "cmp a b \<Longrightarrow> \<not> cmp b a"
    and negtrans: "\<not> cmp a b \<Longrightarrow> \<not> cmp b c \<Longrightarrow> \<not> cmp a c"
begin

lemma sift_up_ordered:
  assumes "i < length xs" and "ordered_but cmp xs i"
    and "\<And>j. j < length xs \<Longrightarrow> 0 < j \<Longrightarrow> j \<noteq> i \<Longrightarrow> par j = i \<Longrightarrow> \<not> cmp (xs ! j) (xs ! i)"
  shows "heap_ordered cmp (sift_up cmp xs i)"
  using assms
proof (induction i arbitrary: xs rule: less_induct)
  case (less i)
  let ?p = "par i" and ?ys = "swap xs i (par i)"
  note edge = less.prems(2) [unfolded ordered_but_def, THEN conjunct1, rule_format]
  note contr = less.prems(2) [unfolded ordered_but_def, THEN conjunct2, rule_format]
  show ?case
  proof (cases "0 < i \<and> \<not> cmp (xs ! ?p) (xs ! i)")
    case False
    have "\<not> cmp (xs ! j) (xs ! par j)" if "j < length xs" "0 < j" for j
    proof (cases "j = i")
      case True
      with that False show ?thesis using asym by blast
    next
      case jne: False
      then show ?thesis
        using that edge [of j] less.prems(3) [of j] by (cases "par j = i") simp_all
    qed
    with False show ?thesis by (subst sift_up.simps) (auto simp: heap_ordered_def)
  next
    case True
    then have p: "?p < i" "?p < length xs" and i: "0 < i" "\<not> cmp (xs ! ?p) (xs ! i)"
      using less.prems(1) par_less [of i] by auto
    have up: "\<not> cmp (xs ! j) (xs ! i)" if "j < length xs" "0 < j" "par j = ?p" "j \<noteq> i" for j
      using edge [of j] that i negtrans by (metis nat_less_le p(1))
    have top: "\<not> cmp (xs ! ?p) (xs ! par ?p)" if "0 < ?p"
      using edge [of ?p] that p less.prems(1) par_less [of ?p] by auto
    have "ordered_but cmp ?ys ?p"
      unfolding ordered_but_def
    proof (intro conjI allI impI)
      fix j assume j: "j < length ?ys" "0 < j" "j \<noteq> ?p" "par j \<noteq> ?p"
      show "\<not> cmp (?ys ! j) (?ys ! par j)"
        using j i p less.prems(1) edge [of j] contr [of j]
        by (cases "par j = i") (auto simp: nth_swap)
    next
      fix j assume j: "j < length ?ys" "0 < j" "par j = ?p" "0 < ?p"
      have "\<not> cmp (xs ! j) (xs ! par ?p)" if "j \<noteq> i"
        using edge [of j] j that negtrans top p by (metis length_swap less_irrefl)
      then show "\<not> cmp (?ys ! j) (?ys ! par ?p)"
        using j top p less.prems(1) par_less [of ?p] par_less [of j]
        by (cases "j = i") (auto simp: nth_swap)
    qed
    moreover have "\<not> cmp (?ys ! j) (?ys ! ?p)"
      if "j < length ?ys" "0 < j" "j \<noteq> ?p" "par j = ?p" for j
      using that up [of j] i p less.prems(1) by (cases "j = i") (auto simp: nth_swap)
    ultimately have "heap_ordered cmp (sift_up cmp ?ys ?p)"
      using less.IH [of ?p ?ys] p by simp
    with True show ?thesis by (subst sift_up.simps) simp
  qed
qed

lemma sift_down_ordered:
  assumes "i < length xs" and "ordered_but cmp xs i"
    and "0 < i \<Longrightarrow> \<not> cmp (xs ! i) (xs ! par i)"
  shows "heap_ordered cmp (sift_down cmp xs i)"
  using assms
proof (induction "length xs - i" arbitrary: xs i rule: less_induct)
  case less
  let ?c = "min_child cmp xs i" and ?ys = "swap xs i (min_child cmp xs i)"
  note edge = less.prems(2) [unfolded ordered_but_def, THEN conjunct1, rule_format]
  note contr = less.prems(2) [unfolded ordered_but_def, THEN conjunct2, rule_format]
  have le: "\<not> cmp (xs ! j) (xs ! ?c)" if "j < length xs" "0 < j" "par j = i" for j
  proof -
    have "j = 2 * i + 1 \<or> j = 2 * i + 2" using that par_children by blast
    then show ?thesis
      using that asym [of "xs ! (2 * i + 2)" "xs ! (2 * i + 1)"] asym [of "xs ! ?c" "xs ! ?c"]
      by (auto simp: min_child_def split: if_splits)
  qed
  show ?case
  proof (cases "2 * i + 1 < length xs \<and> \<not> cmp (xs ! i) (xs ! ?c)")
    case False
    have "\<not> cmp (xs ! j) (xs ! par j)" if j: "j < length xs" "0 < j" for j
    proof (cases "par j = i")
      case True
      with j have "2 * i + 1 < length xs" using par_children [of j i] by linarith
      with False have "\<not> cmp (xs ! ?c) (xs ! i)" using asym by blast
      with le [OF j True] True show ?thesis using negtrans by blast
    next
      case False
      then show ?thesis using j edge [of j] less.prems(3) by (cases "j = i") auto
    qed
    with False show ?thesis by (subst sift_down.simps) (auto simp: heap_ordered_def)
  next
    case True
    then have c: "i < ?c" "?c < length xs" "par ?c = i" and nc: "\<not> cmp (xs ! i) (xs ! ?c)"
      using min_child_bounds [where i = i and xs = xs and cmp = cmp] by auto
    have parc: "par j \<noteq> j" if "0 < j" for j using par_less [OF that] by simp
    have "ordered_but cmp ?ys ?c"
      unfolding ordered_but_def
    proof (intro conjI allI impI)
      fix j assume j: "j < length ?ys" "0 < j" "j \<noteq> ?c" "par j \<noteq> ?c"
      show "\<not> cmp (?ys ! j) (?ys ! par j)"
      proof (cases "j = i")
        case True
        then show ?thesis using j c contr [of ?c] less.prems(1) parc [of i] by (auto simp: nth_swap)
      next
        case False
        then show ?thesis
          using j c le [of j] edge [of j] less.prems(1) by (cases "par j = i") (auto simp: nth_swap)
      qed
    next
      fix j assume j: "j < length ?ys" "0 < j" "par j = ?c" "0 < ?c"
      have "j \<noteq> ?c" "j \<noteq> i" using j c parc [of j] par_less [of j] by linarith+
      then show "\<not> cmp (?ys ! j) (?ys ! par ?c)"
        using j c edge [of j] less.prems(1) by (auto simp: nth_swap)
    qed
    moreover have "\<not> cmp (?ys ! ?c) (?ys ! par ?c)"
      using c nc less.prems(1) by (auto simp: nth_swap)
    ultimately have "heap_ordered cmp (sift_down cmp ?ys ?c)"
      using less.hyps [of ?ys ?c] c by simp
    with True show ?thesis by (subst sift_down.simps) simp
  qed
qed

text \<open>Replacing one element and sifting it either way restores the order.\<close>

lemma resift_ordered:
  assumes "i < length xs" and "ordered_but cmp xs i"
  shows "heap_ordered cmp
    (if 0 < i \<and> \<not> cmp (xs ! par i) (xs ! i) then sift_up cmp xs i else sift_down cmp xs i)"
proof (cases "0 < i \<and> \<not> cmp (xs ! par i) (xs ! i)")
  case True
  have "\<not> cmp (xs ! j) (xs ! i)" if "j < length xs" "0 < j" "par j = i" for j
    using assms(2) that True negtrans unfolding ordered_but_def by blast
  then show ?thesis using True sift_up_ordered [OF assms] by simp
next
  case False
  then show ?thesis using sift_down_ordered [OF assms] asym by auto
qed

lemma head_minimal:
  assumes "heap_ordered cmp xs" and "i < length xs"
  shows "\<not> cmp (xs ! i) (xs ! 0)"
  using assms(2)
proof (induction i rule: less_induct)
  case (less i)
  show ?case
  proof (cases "i = 0")
    case True
    then show ?thesis using asym by blast
  next
    case False
    then have "\<not> cmp (xs ! i) (xs ! par i)" "\<not> cmp (xs ! par i) (xs ! 0)"
      using assms(1) less par_less [of i] unfolding heap_ordered_def by auto
    then show ?thesis by (rule negtrans)
  qed
qed

end

section \<open>The C loops implement sifting\<close>

text \<open>
  \<open>stored h xs c\<close>: the first \<open>count\<close> slots hold the nodes \<open>xs\<close>, each with its
  own position in its index field, except that slot \<open>c\<close>, where a node is about to be
  stored, is arbitrary. With \<open>c = count h\<close> every slot is meant.
\<close>

definition stored :: "gh_heap_t \<Rightarrow> hnode list \<Rightarrow> nat \<Rightarrow> bool" where
  "stored h xs c \<longleftrightarrow>
     length xs = count h \<and> count h \<le> length (slots h) \<and> distinct xs \<and>
     (\<forall>i<count h. i \<noteq> c \<longrightarrow> slots h ! i = Some (xs ! i) \<and> nindex h (xs ! i) = i)"

text \<open>What the loops leave alone: everything but the slots and indices of the heap's nodes.\<close>

definition same_frame :: "gh_heap_t \<Rightarrow> gh_heap_t \<Rightarrow> hnode set \<Rightarrow> bool" where
  "same_frame h h' N \<longleftrightarrow>
     cmp_op h' = cmp_op h \<and> count h' = count h \<and> highwm h' = highwm h \<and>
     length (slots h') = length (slots h) \<and>
     (\<forall>i. count h \<le> i \<longrightarrow> slots h' ! i = slots h ! i) \<and>
     (\<forall>n. n \<notin> N \<longrightarrow> nindex h' n = nindex h n)"

lemma same_frame_trans:
  "same_frame h h1 N \<Longrightarrow> same_frame h1 h2 N \<Longrightarrow> same_frame h h2 N"
  by (auto simp: same_frame_def)

lemma same_frame_put:
  "i < count h \<Longrightarrow> n \<in> N \<Longrightarrow> same_frame h (put_node h i n) N"
  by (auto simp: same_frame_def)

lemma stored_ptr:
  "stored h xs c \<Longrightarrow> i < count h \<Longrightarrow> i \<noteq> c \<Longrightarrow> hnode_ptr h i = Some i \<and> slot_node h i = Some (xs ! i)"
  by (auto simp: stored_def hnode_ptr_def slot_node_def)

lemma stored_put:
  assumes "stored h xs c" and "c < count h"
  shows "stored (put_node h c (xs ! c)) xs (count h)"
  using assms by (auto simp: stored_def nth_list_update nth_eq_iff_index_eq)

lemma stored_move:
  assumes "stored h xs c" and "c < count h" and "p < count h" and "p \<noteq> c"
  shows "stored (put_node h c (xs ! p)) (swap xs c p) p"
  using assms by (auto simp: stored_def nth_list_update nth_swap nth_eq_iff_index_eq)

lemma hnode_up_loop_sifts:
  assumes "stored h xs c" and "c < count h"
  shows "\<exists>h'. hnode_up_loop h (xs ! c) c act =
      Some (h', act \<or> 0 < c \<and> \<not> cmp_op h (xs ! par c) (xs ! c)) \<and>
    stored h' (sift_up (cmp_op h) xs c) (count h) \<and> same_frame h h' (set xs)"
  using assms
proof (induction c arbitrary: h xs act rule: less_induct)
  case (less c)
  have len: "length xs = count h" using less.prems(1) by (simp add: stored_def)
  show ?case
  proof (cases "0 < c \<and> \<not> cmp_op h (xs ! par c) (xs ! c)")
    case False
    then have "hnode_up_loop h (xs ! c) c act = Some (put_node h c (xs ! c), act)"
      using stored_ptr [OF less.prems(1), of "par c"] less.prems(2) par_less [of c]
      by (subst hnode_up_loop.simps) (auto simp: par_def)
    with False show ?thesis
      using stored_put [OF less.prems] less.prems(2) len
      by (subst sift_up.simps) (auto intro!: same_frame_put)
  next
    case True
    let ?h = "put_node h c (xs ! par c)" and ?xs = "swap xs c (par c)"
    have p: "par c < c" using True par_less by blast
    have step: "hnode_up_loop h (xs ! c) c act = hnode_up_loop ?h (xs ! c) (par c) True"
      using True stored_ptr [OF less.prems(1), of "par c"] less.prems(2) p
      by (subst hnode_up_loop.simps) (auto simp: par_def Let_def)
    have nth: "?xs ! par c = xs ! c" using p less.prems(2) len by (simp add: nth_swap)
    have st: "stored ?h ?xs (par c)" using less.prems p by (intro stored_move) auto
    obtain h' where h': "hnode_up_loop ?h (xs ! c) (par c) True = Some (h', True)"
        "stored h' (sift_up (cmp_op h) ?xs (par c)) (count h)" "same_frame ?h h' (set ?xs)"
      using less.IH [OF p st, of True] p less.prems(2) unfolding nth by auto
    have "same_frame h h' (set xs)"
      using same_frame_trans [OF same_frame_put [of c h "xs ! par c" "set xs"], of h'] h'(3)
        less.prems(2) p len by simp
    with True step h'(1,2) show ?thesis by (subst sift_up.simps) auto
  qed
qed

text \<open>Below \<open>2\<^sup>3\<^sup>1\<close> nodes the child positions do not wrap.\<close>

lemma child_index:
  "i < n \<Longrightarrow> n < 2 ^ 31 \<Longrightarrow> ch1_of i = 2 * i + 1 \<and> ch2_of i = 2 * i + 2"
  by (simp add: ch1_of_def ch2_of_def)

lemma pick_child_min:
  assumes "stored h xs c" and "c < count h" and "2 * c + 1 < count h" and "count h < 2 ^ 31"
  shows "pick_child h c =
    Some (min_child (cmp_op h) xs c, xs ! min_child (cmp_op h) xs c)"
proof -
  have len: "length xs = count h" using assms(1) by (simp add: stored_def)
  note child_index [OF assms(2,4)]
  moreover note stored_ptr [OF assms(1), of "2 * c + 1"]
  moreover note stored_ptr [OF assms(1), of "2 * c + 2"]
  ultimately show ?thesis
    using assms(3) len by (auto simp: pick_child_def min_child_def)
qed

lemma hnode_down_loop_sifts:
  assumes "stored h xs c" and "c < count h" and "count h < 2 ^ 31"
  shows "\<exists>h' act'. hnode_down_loop h (xs ! c) c act = Some (h', act') \<and>
    stored h' (sift_down (cmp_op h) xs c) (count h) \<and> same_frame h h' (set xs)"
  using assms
proof (induction "length xs - c" arbitrary: h xs c act rule: less_induct)
  case less
  let ?m = "min_child (cmp_op h) xs c"
  have len: "length xs = count h" using less.prems(1) by (simp add: stored_def)
  have ch: "ch1_of c = 2 * c + 1" using child_index [OF less.prems(2,3)] by simp
  have m: "2 * c + 1 < count h \<Longrightarrow> c < ?m \<and> ?m < count h"
    using len min_child_bounds(1) [of c xs "cmp_op h"] by simp
  then have idx: "2 * c + 1 < count h \<Longrightarrow> nindex h (xs ! ?m) = ?m"
    using less.prems(1) by (auto simp: stored_def)
  show ?case
  proof (cases "2 * c + 1 < count h \<and> \<not> cmp_op h (xs ! c) (xs ! ?m)")
    case False
    then have "hnode_down_loop h (xs ! c) c act = Some (put_node h c (xs ! c), act)"
      using pick_child_min [OF less.prems(1,2) _ less.prems(3)] less.prems(2) ch idx
      by (subst hnode_down_loop.simps) (cases "2 * c + 1 < count h"; simp)
    with False show ?thesis
      using stored_put [OF less.prems(1,2)] less.prems(2) len
      by (subst sift_down.simps) (auto intro!: same_frame_put)
  next
    case True
    let ?h = "put_node h c (xs ! ?m)" and ?xs = "swap xs c ?m"
    have m: "c < ?m" "?m < count h" using True m by auto
    have step: "hnode_down_loop h (xs ! c) c act = hnode_down_loop ?h (xs ! c) ?m True"
      using True pick_child_min [OF less.prems(1,2) _ less.prems(3)] less.prems(2) ch idx
      by (subst hnode_down_loop.simps) simp
    have nth: "?xs ! ?m = xs ! c" using m less.prems(2) len by (simp add: nth_swap)
    have st: "stored ?h ?xs ?m" using less.prems m by (intro stored_move) auto
    have dec: "length ?xs - ?m < length xs - c" using m len by simp
    obtain h' act' where h': "hnode_down_loop ?h (xs ! c) ?m True = Some (h', act')"
        "stored h' (sift_down (cmp_op h) ?xs ?m) (count h)" "same_frame ?h h' (set ?xs)"
      using less.hyps [OF _ st, of True] dec m less.prems(2,3) unfolding nth by auto
    have "same_frame h h' (set xs)"
      using same_frame_trans [OF same_frame_put [of c h "xs ! ?m" "set xs"], of h'] h'(3)
        less.prems(2) m len by simp
    with True step h'(1,2) show ?thesis using len by (subst sift_down.simps) auto
  qed
qed

section \<open>The heap invariant\<close>

definition nodes :: "gh_heap_t \<Rightarrow> hnode list" where
  "nodes h = map the (take (count h) (slots h))"

definition heap_wf :: "gh_heap_t \<Rightarrow> bool" where
  "heap_wf h \<longleftrightarrow>
     stored h (nodes h) (count h) \<and> length (slots h) = highwm h \<and>
     (\<forall>i<highwm h. count h \<le> i \<longrightarrow> slots h ! i = None) \<and> count h \<le> GH_HEAP_GUARD"

definition heap_ok :: "gh_heap_t \<Rightarrow> bool" where
  "heap_ok h \<longleftrightarrow> heap_wf h \<and> heap_ordered (cmp_op h) (nodes h)"

lemma stored_nodes:
  assumes "stored h xs (count h)"
  shows "nodes h = xs"
proof (rule nth_equalityI)
  show "length (nodes h) = length xs"
    using assms by (simp add: nodes_def stored_def)
  fix i assume "i < length (nodes h)"
  then show "nodes h ! i = xs ! i"
    using assms by (auto simp: nodes_def stored_def)
qed

lemma heap_wf_facts:
  assumes "heap_wf h"
  shows "stored h (nodes h) (count h)" and "length (nodes h) = count h" and "distinct (nodes h)"
    and "count h < 2 ^ 31" and "length (slots h) = highwm h" and "count h \<le> highwm h"
  using assms by (auto simp: heap_wf_def stored_def GH_HEAP_GUARD_def)

lemma node_index:
  assumes "heap_wf h" and "n \<in> set (nodes h)"
  shows "nindex h n < count h" and "nodes h ! nindex h n = n" and "gh_hnode_is_valid h n"
proof -
  obtain i where "i < length (nodes h)" "nodes h ! i = n"
    using assms(2) by (auto simp: in_set_conv_nth)
  then show "nindex h n < count h" "nodes h ! nindex h n = n" "gh_hnode_is_valid h n"
    using assms(1) by (auto simp: heap_wf_def stored_def gh_hnode_is_valid_def)
qed

lemma stored_weaken: "stored h xs (count h) \<Longrightarrow> stored h xs c"
  by (simp add: stored_def)

lemma hnode_up_sifts:
  assumes "stored h xs (count h)" and "c < count h"
  shows "\<exists>h'. hnode_up h (xs ! c) =
      Some (h', 0 < c \<and> \<not> cmp_op h (xs ! par c) (xs ! c)) \<and>
    stored h' (sift_up (cmp_op h) xs c) (count h) \<and> same_frame h h' (set xs)"
proof -
  have "hnode_up h (xs ! c) = hnode_up_loop h (xs ! c) c False"
    using assms stored_ptr [OF assms(1,2)] by (auto simp: hnode_up_def stored_def)
  then show ?thesis
    using hnode_up_loop_sifts [OF stored_weaken [OF assms(1)] assms(2), of False] by simp
qed

lemma hnode_down_sifts:
  assumes "stored h xs (count h)" and "c < count h" and "count h < 2 ^ 31"
  shows "\<exists>h'. map_option fst (hnode_down h (xs ! c)) = Some h' \<and>
    stored h' (sift_down (cmp_op h) xs c) (count h) \<and> same_frame h h' (set xs)"
proof -
  have "hnode_down h (xs ! c) = hnode_down_loop h (xs ! c) c False"
    using assms stored_ptr [OF assms(1,2)] by (auto simp: hnode_down_def stored_def)
  then show ?thesis
    using hnode_down_loop_sifts [OF stored_weaken [OF assms(1)] assms(2,3), of False] by auto
qed

lemma sift_up_unmoved:
  "\<not> (0 < i \<and> \<not> cmp (xs ! par i) (xs ! i)) \<Longrightarrow> sift_up cmp xs i = xs"
  by (subst sift_up.simps) auto

lemma resift_sifts:
  assumes "stored h xs (count h)" and "c < count h" and "count h < 2 ^ 31"
  shows "\<exists>h'. resift h (xs ! c) = Some h' \<and>
    stored h' (if 0 < c \<and> \<not> cmp_op h (xs ! par c) (xs ! c)
               then sift_up (cmp_op h) xs c else sift_down (cmp_op h) xs c) (count h) \<and>
    same_frame h h' (set xs)"
proof -
  obtain h1 where h1: "hnode_up h (xs ! c) =
      Some (h1, 0 < c \<and> \<not> cmp_op h (xs ! par c) (xs ! c))"
    "stored h1 (sift_up (cmp_op h) xs c) (count h)" "same_frame h h1 (set xs)"
    using hnode_up_sifts [OF assms(1,2)] by blast
  show ?thesis
  proof (cases "0 < c \<and> \<not> cmp_op h (xs ! par c) (xs ! c)")
    case True
    with h1 show ?thesis by (auto simp: resift_def)
  next
    case False
    have same: "count h1 = count h" "cmp_op h1 = cmp_op h"
      using h1(3) by (auto simp: same_frame_def)
    have "stored h1 xs (count h1)" using h1(2) sift_up_unmoved [of c "cmp_op h" xs] False same by simp
    then obtain h2 where "map_option fst (hnode_down h1 (xs ! c)) = Some h2"
      "stored h2 (sift_down (cmp_op h) xs c) (count h)" "same_frame h1 h2 (set xs)"
      using hnode_down_sifts [of h1 xs c] assms(2,3) same by auto
    with False h1 show ?thesis by (auto simp: resift_def intro: same_frame_trans)
  qed
qed

section \<open>The operations keep the invariant\<close>

lemma heap_order_append_ordered:
  assumes "heap_order cmp" and "heap_ordered cmp xs"
  shows "heap_ordered cmp (sift_up cmp (xs @ [n]) (length xs))"
proof (rule heap_order.sift_up_ordered [OF assms(1)])
  show "ordered_but cmp (xs @ [n]) (length xs)"
    unfolding ordered_but_def
  proof (intro conjI allI impI)
    fix j assume "j < length (xs @ [n])" "0 < j" "j \<noteq> length xs"
    then show "\<not> cmp ((xs @ [n]) ! j) ((xs @ [n]) ! par j)"
      using assms(2) par_less [of j] by (simp add: heap_ordered_def nth_append)
  next
    fix j assume "j < length (xs @ [n])" "0 < j" "par j = length xs"
    then show "\<not> cmp ((xs @ [n]) ! j) ((xs @ [n]) ! par (length xs))"
      using par_less [of j] by simp
  qed
qed (auto dest: par_less)

lemma gh_heap_push_spec:
  assumes ok: "heap_ok h" and cmp: "heap_order (cmp_op h)"
    and inv: "\<not> gh_hnode_is_valid h n" and room: "count h < GH_HEAP_GUARD"
  shows "\<exists>h'. gh_heap_push h n = Some h' \<and> heap_ok h' \<and> cmp_op h' = cmp_op h \<and>
    mset (nodes h') = add_mset n (mset (nodes h)) \<and>
    (\<forall>m. m \<noteq> n \<longrightarrow> m \<notin> set (nodes h) \<longrightarrow> nindex h' m = nindex h m)"
proof -
  let ?xs = "nodes h @ [n]" and ?c = "count h"
  have wf: "heap_wf h" and ord: "heap_ordered (cmp_op h) (nodes h)"
    using ok by (auto simp: heap_ok_def)
  note facts = heap_wf_facts [OF wf]
  have fresh: "n \<notin> set (nodes h)" using node_index(3) [OF wf] inv by blast
  define h1 where "h1 = (if ?c = highwm h then the (heap_grow h) else h)"
  have grow: "(if ?c = highwm h then heap_grow h else Some h) = Some h1"
    using room by (simp add: h1_def heap_grow_def GH_HEAP_GUARD_def GH_SLOTS_def)
  have h1: "count h1 = ?c" "cmp_op h1 = cmp_op h" "nindex h1 = nindex h"
      "length (slots h1) = highwm h1" "?c < highwm h1"
      "\<And>i. i < ?c \<Longrightarrow> slots h1 ! i = slots h ! i"
      "\<And>i. ?c \<le> i \<Longrightarrow> i < highwm h1 \<Longrightarrow> slots h1 ! i = None"
    using wf facts room
    by (auto simp: h1_def heap_grow_def GH_SLOTS_def GH_HEAP_GUARD_def nth_append heap_wf_def)
  define h3 where "h3 = h1\<lparr>nindex := (nindex h1)(n := ?c), count := ?c + 1,
                             slots := (slots h1)[?c := Some n]\<rparr>"
  have st3: "stored h3 ?xs (count h3)"
    using facts(1,2) h1 fresh
    by (auto simp: h3_def stored_def nth_append nth_list_update less_Suc_eq)
  have up: "?xs ! ?c = n" "?c < count h3" using facts(2) by (auto simp: h3_def nth_append)
  obtain h' where h': "map_option fst (hnode_up h3 n) = Some h'"
      "stored h' (sift_up (cmp_op h) ?xs ?c) (count h3)" "same_frame h3 h' (set ?xs)"
    using hnode_up_sifts [OF st3 up(2)] up(1) h1(2) by (auto simp: h3_def)
  have push: "gh_heap_push h n = Some h'"
    using inv h1 h'(1) facts(4)
    by (simp add: gh_heap_push_def grow Let_def hnode_ptr_def h3_def)
  have fr: "cmp_op h' = cmp_op h" "count h' = ?c + 1" "highwm h' = highwm h1"
      "length (slots h') = highwm h1" "\<And>i. ?c < i \<Longrightarrow> slots h' ! i = slots h1 ! i"
      "\<And>m. m \<notin> set ?xs \<Longrightarrow> nindex h' m = nindex h m"
    using h'(3) h1 by (auto simp: same_frame_def h3_def)
  have nd: "nodes h' = sift_up (cmp_op h) ?xs ?c"
    using h'(2) fr(2) by (intro stored_nodes) (simp add: h3_def)
  have "heap_wf h'"
    unfolding heap_wf_def nd using h'(2) fr h1(7) room by (auto simp: h3_def)
  moreover have "heap_ordered (cmp_op h') (nodes h')"
    unfolding nd fr(1) using heap_order_append_ordered [OF cmp ord] facts(2) by simp
  moreover have "mset (nodes h') = add_mset n (mset (nodes h))"
    unfolding nd using facts(2) by simp
  ultimately show ?thesis using push fr by (auto simp: heap_ok_def)
qed

text \<open>
  Removal compares the replacement node only with the nodes that stay. The order that the
  heap obeys may therefore differ from its comparison on the removed node: this is what
  \<open>nevent_unref\<close> relies on when it clears an event's timeout before it removes the event.
\<close>

definition agree_off :: "hnode \<Rightarrow> (hnode \<Rightarrow> hnode \<Rightarrow> bool) \<Rightarrow> (hnode \<Rightarrow> hnode \<Rightarrow> bool) \<Rightarrow> bool" where
  "agree_off n c c' \<longleftrightarrow> (\<forall>a b. a \<noteq> n \<longrightarrow> b \<noteq> n \<longrightarrow> c a b = c' a b)"

lemma replace_ordered_but:
  assumes "heap_order old" and "heap_ordered old xs" and "distinct xs"
    and "agree_off (xs ! i) cmp old" and "i < length xs - 1"
  shows "ordered_but cmp ((butlast xs)[i := last xs]) i"
proof -
  have ne: "xs ! j \<noteq> xs ! i" if "j < length xs" "j \<noteq> i" for j
    using that assms(3,5) by (simp add: nth_eq_iff_index_eq)
  have edge: "\<not> old (xs ! j) (xs ! par j)" if "j < length xs" "0 < j" for j
    using assms(2) that by (auto simp: heap_ordered_def)
  have eq: "cmp (xs ! j) (xs ! k) = old (xs ! j) (xs ! k)"
    if "j < length xs" "k < length xs" "j \<noteq> i" "k \<noteq> i" for j k
    using assms(4) ne that by (auto simp: agree_off_def)
  have other: "((butlast xs)[i := last xs]) ! j = xs ! j" if "j < length xs - 1" "j \<noteq> i" for j
    using that by (simp add: nth_butlast)
  have contr: "\<not> old (xs ! j) (xs ! par i)" if "j < length xs" "0 < j" "par j = i" "0 < i" for j
    using edge [of j] edge [of i] that assms(5) heap_order.negtrans [OF assms(1)] by auto
  show ?thesis
    unfolding ordered_but_def
  proof (intro conjI allI impI)
    fix j assume j: "j < length ((butlast xs)[i := last xs])" "0 < j" "j \<noteq> i" "par j \<noteq> i"
    then show "\<not> cmp ((butlast xs)[i := last xs] ! j) ((butlast xs)[i := last xs] ! par j)"
      using edge [of j] eq [of j "par j"] other [of j] other [of "par j"] par_less [of j] by simp
  next
    fix j assume j: "j < length ((butlast xs)[i := last xs])" "0 < j" "par j = i" "0 < i"
    then show "\<not> cmp ((butlast xs)[i := last xs] ! j) ((butlast xs)[i := last xs] ! par i)"
      using contr [of j] eq [of j "par i"] other [of j] other [of "par i"]
        par_less [of j] par_less [of i] by simp
  qed
qed

text \<open>Dropping the last slot, once it no longer counts.\<close>

lemma wf_drop_slot:
  assumes "stored h zs (count h)" and "length (slots h) = highwm h" and "count h < highwm h"
    and "\<forall>i<highwm h. count h < i \<longrightarrow> slots h ! i = None" and "count h \<le> GH_HEAP_GUARD"
    and "n \<notin> set zs"
  defines "h' \<equiv> (gh_hnode_invalidate h n)\<lparr>slots := (slots h)[count h := None]\<rparr>"
  shows "heap_wf h'" and "nodes h' = zs"
proof -
  have st: "stored h' zs (count h')"
    using assms(1,6) by (auto simp: h'_def gh_hnode_invalidate_def stored_def in_set_conv_nth)
  then show nd: "nodes h' = zs" by (rule stored_nodes)
  show "heap_wf h'"
    unfolding heap_wf_def nd using st assms(2,3,4,5)
    by (auto simp: h'_def gh_hnode_invalidate_def nth_list_update)
qed

lemma stored_replaced:
  assumes "heap_wf h" and "i < count h - 1"
  shows "stored (put_node (h\<lparr>count := count h - 1\<rparr>) i (last (nodes h)))
    ((butlast (nodes h))[i := last (nodes h)]) (count h - 1)" (is "stored ?h ?ys _")
proof -
  note facts = heap_wf_facts [OF assms(1)]
  have ne: "nodes h \<noteq> []" using facts(2) assms(2) by auto
  have notin: "last (nodes h) \<notin> set (butlast (nodes h))"
    using facts(3) ne by (metis append_butlast_last_id distinct_append distinct.simps(2)
        disjoint_iff list.set_intros(1))
  have d: "distinct ?ys"
    using facts(3) notin by (simp add: distinct_list_update distinct_butlast)
  have old: "slots h ! j = Some (butlast (nodes h) ! j) \<and>
      nindex h (butlast (nodes h) ! j) = j \<and> butlast (nodes h) ! j \<noteq> last (nodes h)"
    if "j < count h - 1" for j
    using that facts(1,2) notin nth_mem [of j "butlast (nodes h)"]
    by (auto simp: stored_def nth_butlast)
  show ?thesis
    unfolding stored_def using d old facts(2,5,6) assms(2)
    by (auto simp: nth_list_update)
qed

lemma gh_heap_remove_rekeyed:
  assumes wf: "heap_wf h" and old: "heap_order old" "heap_ordered old (nodes h)"
    and cmp: "heap_order (cmp_op h)" "agree_off n (cmp_op h) old"
    and n: "n \<in> set (nodes h)"
  shows "\<exists>h'. gh_heap_remove h n = Some h' \<and> heap_ok h' \<and> cmp_op h' = cmp_op h \<and>
    mset (nodes h') = mset (nodes h) - {#n#} \<and> \<not> gh_hnode_is_valid h' n \<and>
    (\<forall>m. m \<notin> set (nodes h) \<longrightarrow> nindex h' m = nindex h m)"
proof -
  let ?xs = "nodes h" and ?i = "nindex h n" and ?cnt = "count h - 1"
  note facts = heap_wf_facts [OF wf] and idx = node_index [OF wf n]
  have len: "length ?xs = Suc ?cnt" "?xs \<noteq> []" using facts(2) idx(1) by auto
  have lst: "last ?xs = ?xs ! ?cnt" using len by (simp add: last_conv_nth)
  have ptr: "hnode_ptr h j = Some j \<and> slot_node h j = Some (?xs ! j)" if "j < count h" for j
    using stored_ptr [OF facts(1) that] that by simp
  define ys where "ys = (butlast ?xs)[?i := last ?xs]"
  define h4 where "h4 = (if last ?xs \<noteq> n
      then the (resift (put_node (h\<lparr>count := ?cnt\<rparr>) ?i (last ?xs)) (last ?xs))
      else h\<lparr>count := ?cnt\<rparr>)"
  define zs where "zs = (if last ?xs = n then butlast ?xs
      else if 0 < ?i \<and> \<not> cmp_op h (ys ! par ?i) (ys ! ?i)
      then sift_up (cmp_op h) ys ?i else sift_down (cmp_op h) ys ?i)"
  have core: "(if last ?xs \<noteq> n
      then resift (put_node (h\<lparr>count := ?cnt\<rparr>) ?i (last ?xs)) (last ?xs)
      else Some (h\<lparr>count := ?cnt\<rparr>)) = Some h4 \<and> stored h4 zs ?cnt \<and>
    same_frame (h\<lparr>count := ?cnt\<rparr>) h4 (set ?xs) \<and> heap_ordered (cmp_op h) zs \<and>
    mset zs = mset ?xs - {#n#}"
  proof (cases "last ?xs = n")
    case True
    have "heap_ordered (cmp_op h) (butlast ?xs)"
      unfolding heap_ordered_def
    proof (intro allI impI)
      fix j assume j: "j < length (butlast ?xs)" "0 < j"
      have "?xs ! j \<noteq> n" "?xs ! par j \<noteq> n"
        using j par_less [of j] True facts(3) len lst by (auto simp: nth_eq_iff_index_eq)
      then show "\<not> cmp_op h (butlast ?xs ! j) (butlast ?xs ! par j)"
        using j par_less [of j] old(2) cmp(2)
        by (auto simp: agree_off_def heap_ordered_def nth_butlast)
    qed
    moreover have "mset (butlast ?xs) = mset ?xs - {#n#}"
      using mset_replace_by_last [of ?cnt ?xs] True lst len by (simp add: list_update_beyond)
    moreover have "stored (h\<lparr>count := ?cnt\<rparr>) (butlast ?xs) ?cnt"
      using facts(1,2) by (auto simp: stored_def nth_butlast distinct_butlast)
    ultimately show ?thesis using True by (simp add: h4_def zs_def same_frame_def)
  next
    case False
    let ?h = "put_node (h\<lparr>count := ?cnt\<rparr>) ?i (last ?xs)"
    have "?i \<noteq> ?cnt" using False idx(2) lst by auto
    with idx(1) have i: "?i < ?cnt" by linarith
    have st: "stored ?h ys (count ?h)" using stored_replaced [OF wf i] by (simp add: ys_def)
    have nth: "ys ! ?i = last ?xs" using i len by (simp add: ys_def)
    have cs: "cmp_op ?h = cmp_op h" "count ?h = ?cnt" by simp_all
    have small: "?cnt < 2 ^ 31" using facts(4) by linarith
    obtain h' where h': "resift ?h (last ?xs) = Some h'" "stored h' zs ?cnt"
        "same_frame ?h h' (set ys)"
      using resift_sifts [OF st, unfolded cs, OF i small] False unfolding nth zs_def by auto
    have "set ys \<subseteq> set ?xs"
      unfolding ys_def using len by (metis in_set_butlastD insert_subset last_in_set
          set_update_subset_insert subsetI subset_trans)
    then have "same_frame (h\<lparr>count := ?cnt\<rparr>) h' (set ?xs)"
      using h'(3) last_in_set [OF len(2)] i by (auto simp: same_frame_def subset_iff)
    moreover have "heap_ordered (cmp_op h) zs"
      using heap_order.resift_ordered [OF cmp(1), of ?i ys]
        replace_ordered_but [OF old facts(3), of ?i "cmp_op h"] False i len idx(2) cmp(2)
      by (simp add: zs_def ys_def)
    moreover have "mset zs = mset ?xs - {#n#}"
      using mset_replace_by_last [of ?i ?xs] False i len idx(2) by (simp add: zs_def ys_def)
    ultimately show ?thesis using False h' by (simp add: h4_def)
  qed
  have fr: "count h4 = ?cnt" "cmp_op h4 = cmp_op h" "highwm h4 = highwm h"
      "length (slots h4) = highwm h" "\<And>j. ?cnt \<le> j \<Longrightarrow> slots h4 ! j = slots h ! j"
      "\<And>m. m \<notin> set ?xs \<Longrightarrow> nindex h4 m = nindex h m"
    using core facts(5) by (auto simp: same_frame_def)
  have nz: "n \<notin> set zs"
    using core facts(3) n by (metis count_eq_zero_iff distinct_count_atmost_1 diff_self_eq_0
        count_diff count_single set_mset_mset)
  let ?h' = "(gh_hnode_invalidate h4 n)\<lparr>slots := (slots h4)[count h4 := None]\<rparr>"
  have ok: "heap_wf ?h'" "nodes ?h' = zs"
    using wf_drop_slot [of h4 zs n] core fr nz wf idx(1) facts(6) by (auto simp: heap_wf_def)
  have p5: "hnode_ptr (gh_hnode_invalidate h4 n) ?cnt = Some ?cnt"
    using fr(1) by (simp add: hnode_ptr_def gh_hnode_invalidate_def)
  have "gh_heap_remove h n =
      (case (if last ?xs \<noteq> n
             then resift (put_node (h\<lparr>count := ?cnt\<rparr>) ?i (last ?xs)) (last ?xs)
             else Some (h\<lparr>count := ?cnt\<rparr>)) of
         None \<Rightarrow> None
       | Some h4 \<Rightarrow>
           (case hnode_ptr (gh_hnode_invalidate h4 n) ?cnt of
              None \<Rightarrow> None
            | Some p \<Rightarrow> Some ((gh_hnode_invalidate h4 n)
                \<lparr>slots := (slots (gh_hnode_invalidate h4 n))[p := None]\<rparr>)))"
    using idx ptr [of ?i] ptr [of ?cnt] lst
    by (simp add: gh_heap_remove_def Let_def cong: option.case_cong)
  then have "gh_heap_remove h n = Some ?h'"
    unfolding core [THEN conjunct1] using fr(1) p5 by (simp add: gh_hnode_invalidate_def)
  moreover have "heap_ok ?h'"
    using ok core fr(2) by (simp add: heap_ok_def gh_hnode_invalidate_def)
  ultimately show ?thesis
    using ok(2) core fr(2,6) n by (auto simp: gh_hnode_invalidate_def gh_hnode_is_valid_def)
qed

lemma gh_heap_find_spec:
  assumes "heap_wf h"
  shows "gh_heap_find h i = Some (if i < count h then Some (nodes h ! i) else None)"
  using stored_ptr [OF heap_wf_facts(1) [OF assms], of i] by (auto simp: gh_heap_find_def)

lemma agree_off_refl [simp]: "agree_off n c c"
  by (simp add: agree_off_def)

lemma gh_heap_pop_spec:
  assumes ok: "heap_ok h" and cmp: "heap_order (cmp_op h)" and ne: "nodes h \<noteq> []"
  shows "\<exists>h' n. gh_heap_pop h = Some (h', Some n) \<and> heap_ok h' \<and> cmp_op h' = cmp_op h \<and>
    mset (nodes h) = add_mset n (mset (nodes h')) \<and>
    (\<forall>m \<in> set (nodes h). \<not> cmp_op h m n)"
proof -
  have wf: "heap_wf h" and ord: "heap_ordered (cmp_op h) (nodes h)"
    using ok by (auto simp: heap_ok_def)
  let ?n = "nodes h ! 0"
  have n: "?n \<in> set (nodes h)" "0 < count h"
    using ne by (simp_all flip: heap_wf_facts(2) [OF wf])
  obtain h' where h': "gh_heap_remove h ?n = Some h'" "heap_ok h'" "cmp_op h' = cmp_op h"
      "mset (nodes h') = mset (nodes h) - {#?n#}"
    using gh_heap_remove_rekeyed [OF wf cmp ord cmp _ n(1)] by auto
  have "\<not> cmp_op h m ?n" if "m \<in> set (nodes h)" for m
    using that heap_order.head_minimal [OF cmp ord] by (auto simp: in_set_conv_nth)
  then show ?thesis
    using h' n gh_heap_find_spec [OF wf, of 0] by (simp add: gh_heap_pop_def)
qed

section \<open>The priority queue interface\<close>

text \<open>
  What the event loop relies on: taking the first element removes a minimal one and keeps
  the rest. A client that pops until the queue is empty sees every element exactly once, in
  order.
\<close>

fun drain :: "('q \<Rightarrow> ('q \<times> 'n option) option) \<Rightarrow> nat \<Rightarrow> 'q \<Rightarrow> ('q \<times> 'n list) option" where
  "drain pop 0 q = None"
| "drain pop (Suc k) q =
     (case pop q of
        None \<Rightarrow> None
      | Some (q', None) \<Rightarrow> Some (q', [])
      | Some (q', Some n) \<Rightarrow> map_option (apsnd ((#) n)) (drain pop k q'))"

locale prio_queue =
  fixes pop :: "'q \<Rightarrow> ('q \<times> 'n option) option"
    and invar :: "'q \<Rightarrow> bool"
    and elems :: "'q \<Rightarrow> 'n multiset"
    and before :: "'q \<Rightarrow> 'n \<Rightarrow> 'n \<Rightarrow> bool"
  assumes pop_empty: "invar q \<Longrightarrow> elems q = {#} \<Longrightarrow> pop q = Some (q, None)"
    and pop_first: "invar q \<Longrightarrow> elems q \<noteq> {#} \<Longrightarrow>
      \<exists>q' n. pop q = Some (q', Some n) \<and> invar q' \<and> before q' = before q \<and>
        elems q = add_mset n (elems q') \<and> (\<forall>m \<in># elems q. \<not> before q m n)"
begin

lemma drain_sorted:
  assumes "invar q"
  shows "\<exists>q' ns. drain pop (Suc (size (elems q))) q = Some (q', ns) \<and> invar q' \<and>
    elems q' = {#} \<and> mset ns = elems q \<and> sorted_wrt (\<lambda>a b. \<not> before q b a) ns"
  using assms
proof (induction "size (elems q)" arbitrary: q)
  case 0
  then show ?case using pop_empty [of q] by simp
next
  case (Suc k)
  then have "elems q \<noteq> {#}" by auto
  then obtain q1 n where q1: "pop q = Some (q1, Some n)" "invar q1" "before q1 = before q"
      "elems q = add_mset n (elems q1)" "\<forall>m \<in># elems q. \<not> before q m n"
    using pop_first Suc.prems by blast
  then have k: "k = size (elems q1)" using Suc.hyps(2) by simp
  from Suc.hyps(1) [OF k q1(2)] obtain q' ns where
    "drain pop (Suc (size (elems q1))) q1 = Some (q', ns)" "invar q'" "elems q' = {#}"
    "mset ns = elems q1" "sorted_wrt (\<lambda>a b. \<not> before q b a) ns"
    unfolding q1(3) by blast
  then show ?case
    using q1 by (auto simp flip: set_mset_mset)
qed

end

interpretation gh_pq: prio_queue gh_heap_pop "\<lambda>h. heap_ok h \<and> heap_order (cmp_op h)"
    "\<lambda>h. mset (nodes h)" cmp_op
proof
  fix h assume "heap_ok h \<and> heap_order (cmp_op h)" "mset (nodes h) = {#}"
  then show "gh_heap_pop h = Some (h, None)"
    using gh_heap_find_spec [of h 0] heap_wf_facts(2) [of h]
    by (auto simp: gh_heap_pop_def heap_ok_def)
next
  fix h assume "heap_ok h \<and> heap_order (cmp_op h)" "mset (nodes h) \<noteq> {#}"
  then show "\<exists>h' n. gh_heap_pop h = Some (h', Some n) \<and> (heap_ok h' \<and> heap_order (cmp_op h')) \<and>
      cmp_op h' = cmp_op h \<and> mset (nodes h) = add_mset n (mset (nodes h')) \<and>
      (\<forall>m \<in># mset (nodes h). \<not> cmp_op h m n)"
    using gh_heap_pop_spec [of h] by auto
qed

end
