(* ===== verification/Nsock_Time.thy ===== *)
theory Nsock_Time
  imports Gh_Heap
begin

text \<open>
  Time values as nsock uses them: the \<open>TIMEVAL_*\<close> macros of \<open>nbase/nbase.h\<close> and the
  comparison by which \<open>nsock_pool_new\<close> creates the heap of expirable events
  (\<open>expirable_cmp\<close> in \<open>nsock/src/nsock_pool.c\<close>). C division truncates towards zero.
  The heap theorems are instantiated here for that comparison.
\<close>

record timeval =
  tv_sec :: int
  tv_usec :: int

definition cdiv :: "int \<Rightarrow> int \<Rightarrow> int" where
  "cdiv a b = sgn a * sgn b * (\<bar>a\<bar> div \<bar>b\<bar>)"

definition cmod :: "int \<Rightarrow> int \<Rightarrow> int" where
  "cmod a b = a - b * cdiv a b"

lemma cdiv_cmod_nonneg: "0 \<le> a \<Longrightarrow> 0 < b \<Longrightarrow> cdiv a b = a div b \<and> cmod a b = a mod b"
  by (cases "a = 0") (simp_all add: cdiv_def cmod_def minus_mult_div_eq_mod)

definition TIMEVAL_MSEC_SUBTRACT :: "timeval \<Rightarrow> timeval \<Rightarrow> int" where
  "TIMEVAL_MSEC_SUBTRACT a b =
     (tv_sec a - tv_sec b) * 1000 + cdiv (tv_usec a - tv_usec b) 1000"

definition TIMEVAL_MSEC_ADD :: "timeval \<Rightarrow> int \<Rightarrow> timeval" where
  "TIMEVAL_MSEC_ADD b msecs =
     (let sec = tv_sec b + cdiv msecs 1000;
          usec = tv_usec b + cmod msecs 1000 * 1000
      in \<lparr>tv_sec = sec + cdiv usec 1000000, tv_usec = cmod usec 1000000\<rparr>)"

definition TIMEVAL_BEFORE :: "timeval \<Rightarrow> timeval \<Rightarrow> bool" where
  "TIMEVAL_BEFORE a b \<longleftrightarrow>
     tv_sec a < tv_sec b \<or> tv_sec a = tv_sec b \<and> tv_usec a < tv_usec b"

definition TIMEVAL_AFTER :: "timeval \<Rightarrow> timeval \<Rightarrow> bool" where
  "TIMEVAL_AFTER a b \<longleftrightarrow>
     tv_sec a > tv_sec b \<or> tv_sec a = tv_sec b \<and> tv_usec a > tv_usec b"

text \<open>The timeouts of all events, by the address of the event's heap node.\<close>

definition expirable_cmp :: "(hnode \<Rightarrow> timeval) \<Rightarrow> hnode \<Rightarrow> hnode \<Rightarrow> bool" where
  "expirable_cmp timeout n1 n2 \<longleftrightarrow> TIMEVAL_BEFORE (timeout n1) (timeout n2)"

interpretation expire: heap_order "expirable_cmp timeout" for timeout
  by unfold_locales (auto simp: expirable_cmp_def TIMEVAL_BEFORE_def)

definition normal_tv :: "timeval \<Rightarrow> bool" where
  "normal_tv t \<longleftrightarrow> 0 \<le> tv_usec t \<and> tv_usec t < 1000000"

definition usecs :: "timeval \<Rightarrow> int" where
  "usecs t = tv_sec t * 1000000 + tv_usec t"

lemma TIMEVAL_MSEC_ADD_usecs:
  assumes "normal_tv b" and "0 \<le> m"
  shows "normal_tv (TIMEVAL_MSEC_ADD b m)" and "usecs (TIMEVAL_MSEC_ADD b m) = usecs b + m * 1000"
proof -
  have c: "cdiv m 1000 = m div 1000" "cmod m 1000 = m mod 1000"
    using cdiv_cmod_nonneg [OF assms(2), of 1000] by auto
  let ?u = "tv_usec b + m mod 1000 * 1000"
  have u: "0 \<le> ?u" using assms(1) by (simp add: normal_tv_def)
  have d: "cdiv ?u 1000000 = ?u div 1000000" "cmod ?u 1000000 = ?u mod 1000000"
    using cdiv_cmod_nonneg [OF u, of 1000000] by auto
  show "normal_tv (TIMEVAL_MSEC_ADD b m)"
    by (simp add: TIMEVAL_MSEC_ADD_def Let_def c d normal_tv_def)
  show "usecs (TIMEVAL_MSEC_ADD b m) = usecs b + m * 1000"
    unfolding TIMEVAL_MSEC_ADD_def Let_def c d usecs_def by simp presburger
qed

lemma TIMEVAL_BEFORE_usecs:
  "normal_tv a \<Longrightarrow> normal_tv b \<Longrightarrow> TIMEVAL_BEFORE a b \<longleftrightarrow> usecs a < usecs b"
  by (auto simp: TIMEVAL_BEFORE_def usecs_def normal_tv_def)

text \<open>
  A small heap for the witnesses: three events, node \<open>n\<close> expiring at \<open>n\<close> seconds,
  and one free slot.
\<close>

definition demo_timeout :: "hnode \<Rightarrow> timeval" where
  "demo_timeout n = \<lparr>tv_sec = int n, tv_usec = 0\<rparr>"

definition demo_heap :: gh_heap_t where
  "demo_heap = \<lparr>cmp_op = expirable_cmp demo_timeout, count = 3, highwm = 4,
     slots = [Some 4, Some 9, Some 6, None],
     nindex = (\<lambda>_. GH_HEAP_GUARD)(4 := 0, 9 := 1, 6 := 2)\<rparr>"

lemma demo_nodes: "nodes demo_heap = [4, 9, 6]"
  by (simp add: nodes_def demo_heap_def)

lemma demo_heap_ok: "heap_ok demo_heap"
proof -
  have "stored demo_heap [4, 9, 6] 3"
    by (auto simp: stored_def demo_heap_def less_Suc_eq numeral_eq_Suc)
  moreover have "heap_ordered (cmp_op demo_heap) [4, 9, 6]"
    by (auto simp: heap_ordered_def demo_heap_def expirable_cmp_def TIMEVAL_BEFORE_def
        demo_timeout_def par_def less_Suc_eq numeral_eq_Suc)
  moreover have "\<forall>i<4. 3 \<le> i \<longrightarrow> slots demo_heap ! i = None"
    by (auto simp: demo_heap_def less_Suc_eq numeral_eq_Suc)
  ultimately show ?thesis
    unfolding heap_ok_def heap_wf_def demo_nodes
    by (simp add: demo_heap_def GH_HEAP_GUARD_def)
qed

section \<open>Properties of the expiry queue\<close>

text \<open>
  C16: pushing an event into the expiry heap never trips an assertion of \<open>gh_heap.c\<close>
  (including the growth of the slot array), keeps every node's index field equal to its slot,
  keeps the heap order, and adds exactly that node.
\<close>

theorem gh_heap_push_correct:
  assumes "heap_ok h" and "cmp_op h = expirable_cmp timeout"
    and "\<not> gh_hnode_is_valid h n" and "count h < GH_HEAP_GUARD"
  shows "\<exists>h'. gh_heap_push h n = Some h' \<and> heap_ok h' \<and> cmp_op h' = cmp_op h \<and>
    mset (nodes h') = add_mset n (mset (nodes h))"
  using gh_heap_push_spec [OF assms(1) _ assms(3,4)] assms(2) expire.heap_order_axioms by auto

theorem gh_heap_push_correct_witness:
  "heap_ok demo_heap \<and> \<not> gh_hnode_is_valid demo_heap 5 \<and>
   (\<exists>h'. gh_heap_push demo_heap 5 = Some h' \<and> heap_ok h' \<and> cmp_op h' = cmp_op demo_heap \<and>
     mset (nodes h') = add_mset 5 (mset (nodes demo_heap)))"
  using gh_heap_push_correct [OF demo_heap_ok, of demo_timeout 5] demo_heap_ok
  by (simp add: demo_heap_def gh_hnode_is_valid_def GH_HEAP_GUARD_def)

text \<open>
  C15: removing an event is correct even when the event's own timeout was changed just before
  (as \<open>nevent_unref\<close> does, which zeroes it first): no assertion fails, exactly that node
  leaves the heap and is marked invalid, and the remaining heap is ordered by the new
  timeouts.
\<close>

theorem gh_heap_remove_after_rekey:
  assumes "heap_ok h" and "cmp_op h = expirable_cmp timeout" and "n \<in> set (nodes h)"
  shows "\<exists>h'. gh_heap_remove (h\<lparr>cmp_op := expirable_cmp (timeout(n := t))\<rparr>) n = Some h' \<and>
    heap_ok h' \<and> cmp_op h' = expirable_cmp (timeout(n := t)) \<and>
    mset (nodes h') = mset (nodes h) - {#n#} \<and> \<not> gh_hnode_is_valid h' n"
proof -
  let ?h = "h\<lparr>cmp_op := expirable_cmp (timeout(n := t))\<rparr>"
  have same: "nodes ?h = nodes h" by (simp add: nodes_def)
  have wf: "heap_wf ?h" "heap_ordered (cmp_op h) (nodes ?h)"
    using assms(1) by (auto simp: heap_ok_def heap_wf_def stored_def same)
  have "agree_off n (cmp_op ?h) (cmp_op h)"
    using assms(2) by (simp add: agree_off_def expirable_cmp_def)
  then obtain h' where "gh_heap_remove ?h n = Some h'" "heap_ok h'" "cmp_op h' = cmp_op ?h"
      "mset (nodes h') = mset (nodes ?h) - {#n#}" "\<not> gh_hnode_is_valid h' n"
    using gh_heap_remove_rekeyed [OF wf(1) _ wf(2), of n] assms(2,3) same
      expire.heap_order_axioms [of timeout] expire.heap_order_axioms [of "timeout(n := t)"]
    by auto
  then show ?thesis using same by auto
qed

theorem gh_heap_remove_after_rekey_witness:
  "heap_ok demo_heap \<and> 4 \<in> set (nodes demo_heap) \<and>
   (\<exists>h'. gh_heap_remove (demo_heap\<lparr>cmp_op := expirable_cmp
        (demo_timeout(4 := \<lparr>tv_sec = 0, tv_usec = 0\<rparr>))\<rparr>) 4 = Some h' \<and>
     heap_ok h' \<and> mset (nodes h') = {#9, 6#} \<and> \<not> gh_hnode_is_valid h' 4)"
proof -
  have h: "cmp_op demo_heap = expirable_cmp demo_timeout" by (simp add: demo_heap_def)
  have n: "4 \<in> set (nodes demo_heap)" by (simp add: demo_nodes)
  show ?thesis
    using gh_heap_remove_after_rekey [OF demo_heap_ok h n, of "\<lparr>tv_sec = 0, tv_usec = 0\<rparr>"]
      demo_heap_ok by (auto simp: demo_nodes)
qed

text \<open>
  C17: popping the expiry heap until it is empty terminates and delivers every event exactly
  once, in the order of their timeouts.
\<close>

theorem gh_heap_drain_in_order:
  assumes "heap_ok h" and "cmp_op h = expirable_cmp timeout"
  shows "\<exists>h' ns. drain gh_heap_pop (Suc (length (nodes h))) h = Some (h', ns) \<and>
    count h' = 0 \<and> mset ns = mset (nodes h) \<and>
    sorted_wrt (\<lambda>a b. \<not> TIMEVAL_BEFORE (timeout b) (timeout a)) ns"
proof -
  have "heap_ok h \<and> heap_order (cmp_op h)" using assms expire.heap_order_axioms by simp
  then obtain h' ns where "drain gh_heap_pop (Suc (length (nodes h))) h = Some (h', ns)"
      "heap_ok h'" "nodes h' = []" "mset ns = mset (nodes h)"
      "sorted_wrt (\<lambda>a b. \<not> cmp_op h b a) ns"
    using gh_pq.drain_sorted [of h] by auto
  moreover from this have "count h' = 0"
    using heap_wf_facts(2) [of h'] by (simp add: heap_ok_def)
  ultimately show ?thesis using assms(2) by (simp add: expirable_cmp_def)
qed

theorem gh_heap_drain_in_order_witness:
  "heap_ok demo_heap \<and>
   (\<exists>h' ns. drain gh_heap_pop 4 demo_heap = Some (h', ns) \<and> count h' = 0 \<and>
     mset ns = {#4, 9, 6#} \<and>
     sorted_wrt (\<lambda>a b. \<not> TIMEVAL_BEFORE (demo_timeout b) (demo_timeout a)) ns)"
proof -
  have h: "cmp_op demo_heap = expirable_cmp demo_timeout" by (simp add: demo_heap_def)
  show ?thesis
    using gh_heap_drain_in_order [OF demo_heap_ok h] demo_heap_ok
    by (auto simp: demo_nodes numeral_eq_Suc)
qed

end
