(* ===== verification/C_String.thy ===== *)
theory C_String
  imports Nmap_Prelude "HOL-Library.Sublist"
begin

text \<open>
  The parts of the C library the string code of nbase and Ncat rests on: the characters of the
  C locale, pointers into NUL-terminated strings and the \<open>str...\<close> functions. A C string is the
  list of its bytes without the terminator; a pointer into it is a suffix. Plain \<open>char\<close> is
  signed, as on every x86 target.
\<close>

section \<open>Characters\<close>

abbreviation NUL :: char where
  "NUL \<equiv> CHR 0x00"

abbreviation code :: "char \<Rightarrow> nat" where
  "code c \<equiv> of_char c"

definition isdigit :: "char \<Rightarrow> bool" where
  "isdigit c \<longleftrightarrow> 48 \<le> code c \<and> code c \<le> 57"

definition isupper :: "char \<Rightarrow> bool" where
  "isupper c \<longleftrightarrow> 65 \<le> code c \<and> code c \<le> 90"

definition islower :: "char \<Rightarrow> bool" where
  "islower c \<longleftrightarrow> 97 \<le> code c \<and> code c \<le> 122"

definition isprint :: "char \<Rightarrow> bool" where
  "isprint c \<longleftrightarrow> 32 \<le> code c \<and> code c \<le> 126"

definition isgraph :: "char \<Rightarrow> bool" where
  "isgraph c \<longleftrightarrow> 33 \<le> code c \<and> code c \<le> 126"

definition iscntrl :: "char \<Rightarrow> bool" where
  "iscntrl c \<longleftrightarrow> code c \<le> 31 \<or> code c = 127"

definition isspace :: "char \<Rightarrow> bool" where
  "isspace c \<longleftrightarrow> code c = 32 \<or> (9 \<le> code c \<and> code c \<le> 13)"

definition tolower :: "char \<Rightarrow> char" where
  "tolower c = (if isupper c then char_of (code c + 32) else c)"

text \<open>The value of a plain \<open>char\<close> when it is promoted to \<open>int\<close>.\<close>

definition schar :: "char \<Rightarrow> int" where
  "schar c = (if code c < 128 then int (code c) else int (code c) - 256)"

section \<open>Pointers into strings\<close>

definition deref :: "string \<Rightarrow> char" where
  "deref s = (case s of [] \<Rightarrow> NUL | c # _ \<Rightarrow> c)"

text \<open>\<open>*(s + n)\<close> for a pointer that has at least \<open>n\<close> bytes before the terminator.\<close>

definition deref_at :: "string \<Rightarrow> nat \<Rightarrow> char" where
  "deref_at s n = deref (drop n s)"

text \<open>What a C string reader sees of an array of bytes.\<close>

definition cstr :: "string \<Rightarrow> string" where
  "cstr bs = takeWhile (\<lambda>c. c \<noteq> NUL) bs"

definition strchr :: "string \<Rightarrow> char \<Rightarrow> string option" where
  "strchr s c =
     (if c = NUL then Some []
      else case dropWhile (\<lambda>x. x \<noteq> c) s of [] \<Rightarrow> None | t \<Rightarrow> Some t)"

fun strrchr :: "string \<Rightarrow> char \<Rightarrow> string option" where
  "strrchr [] c = (if c = NUL then Some [] else None)"
| "strrchr (x # s) c =
     (case strrchr s c of Some t \<Rightarrow> Some t | None \<Rightarrow> if x = c then Some (x # s) else None)"

text \<open>\<open>strncmp(a, b, n) == 0\<close>.\<close>

fun strncmp_eq :: "string \<Rightarrow> string \<Rightarrow> nat \<Rightarrow> bool" where
  "strncmp_eq a b 0 \<longleftrightarrow> True"
| "strncmp_eq a b (Suc n) \<longleftrightarrow>
     deref a = deref b \<and> (deref a = NUL \<or> strncmp_eq (tl a) (tl b) n)"

section \<open>Lemmas\<close>

lemma deref_simps [simp, cstr_simps]: "deref [] = NUL" "deref (c # s) = c"
  by (simp_all add: deref_def)

lemma deref_eq_NUL: "NUL \<notin> set s \<Longrightarrow> deref s = NUL \<longleftrightarrow> s = []"
  by (cases s) auto

lemma code_eq_0 [simp]: "code c = 0 \<longleftrightarrow> c = NUL"
proof
  assume "code c = 0"
  then have "code c = code NUL" by simp
  then show "c = NUL" by (simp only: of_char_eq_iff)
qed simp

lemma code_char_of [simp]: "n < 256 \<Longrightarrow> code (char_of n) = n"
  by (simp only: of_char_of mod_less)

lemma cstr_id: "NUL \<notin> set s \<Longrightarrow> cstr s = s"
  unfolding cstr_def by (rule takeWhile_eq_all_conv [THEN iffD2]) auto

lemma cstr_append_NUL: "NUL \<notin> set s \<Longrightarrow> cstr (s @ NUL # t) = s"
  unfolding cstr_def by (subst takeWhile_append2) auto

lemma NUL_notin_cstr [simp]: "NUL \<notin> set (cstr s)"
  unfolding cstr_def by (auto dest: set_takeWhileD)

lemma ctype_NUL [simp]:
  "\<not> isdigit NUL" "\<not> isupper NUL" "\<not> islower NUL" "\<not> isprint NUL" "\<not> isgraph NUL"
  "iscntrl NUL" "\<not> isspace NUL" "tolower NUL = NUL"
  by (simp_all add: isdigit_def isupper_def islower_def isprint_def isgraph_def iscntrl_def
      isspace_def tolower_def)

lemma code_tolower: "code (tolower c) = (if isupper c then code c + 32 else code c)"
proof (cases "isupper c")
  case True
  then have "code c + 32 < 256" by (simp add: isupper_def)
  then show ?thesis using True by (simp only: tolower_def code_char_of if_True)
next
  case False
  then show ?thesis by (simp only: tolower_def if_False)
qed

lemma tolower_idem [simp]: "tolower (tolower c) = tolower c"
proof -
  have "\<not> isupper (tolower c)" by (auto simp: isupper_def code_tolower)
  then show ?thesis by (simp only: tolower_def [of "tolower c"] if_False)
qed

lemma tolower_eq_NUL [simp]: "tolower c = NUL \<longleftrightarrow> c = NUL"
proof -
  have "code (tolower c) = 0 \<longleftrightarrow> code c = 0" by (auto simp: code_tolower isupper_def)
  then show ?thesis by (simp only: code_eq_0)
qed

lemma schar_eq_iff: "code d < 128 \<Longrightarrow> int (code c) = schar d \<longleftrightarrow> c = d"
  by (auto simp: schar_def)

lemma schar_high: "128 \<le> code d \<Longrightarrow> int (code c) \<noteq> schar d"
proof -
  assume "128 \<le> code d"
  then have "schar d < 0" using nat_of_char_less_256 [of d] by (simp add: schar_def)
  then show ?thesis by linarith
qed

lemma suffix_dropWhile [simp]: "suffix (dropWhile P s) s"
  by (simp add: suffix_dropWhile)

lemma suffix_shorter: "suffix t s \<Longrightarrow> t \<noteq> s \<Longrightarrow> length t < length s"
  by (auto simp: suffix_def)

lemma strncmp_eq_iff:
  "NUL \<notin> set a \<Longrightarrow> NUL \<notin> set b \<Longrightarrow> strncmp_eq a b n \<longleftrightarrow> take n a = take n b"
proof (induction a b n rule: strncmp_eq.induct)
  case (2 a b n)
  then show ?case by (cases a; cases b) auto
qed simp

lemma strchr_Some_iff:
  "c \<noteq> NUL \<Longrightarrow> strchr s c = Some t \<longleftrightarrow> (\<exists>p. s = p @ t \<and> c \<notin> set p \<and> t \<noteq> [] \<and> hd t = c)"
  (is "_ \<Longrightarrow> ?l = ?r")
proof
  assume c: "c \<noteq> NUL" and ?l
  then have t: "dropWhile (\<lambda>x. x \<noteq> c) s = t" "t \<noteq> []"
    by (auto simp: strchr_def split: list.splits)
  then have "hd t = c" using hd_dropWhile [of "\<lambda>x. x \<noteq> c" s] by auto
  moreover have "s = takeWhile (\<lambda>x. x \<noteq> c) s @ t"
    using t(1) by (metis takeWhile_dropWhile_id)
  moreover have "c \<notin> set (takeWhile (\<lambda>x. x \<noteq> c) s)" by (auto dest: set_takeWhileD)
  ultimately show ?r using t by blast
next
  assume c: "c \<noteq> NUL" and ?r
  then obtain p u where "s = p @ c # u" "c \<notin> set p" "t = c # u"
    by (metis list.exhaust_sel)
  then have "dropWhile (\<lambda>x. x \<noteq> c) s = t"
    by (subst \<open>s = _\<close>, subst dropWhile_append2) auto
  then show ?l using c \<open>t = _\<close> by (simp add: strchr_def)
qed

lemma strchr_None_iff:
  assumes "c \<noteq> NUL"
  shows "strchr s c = None \<longleftrightarrow> c \<notin> set s"
proof -
  have "strchr s c = None \<longleftrightarrow> dropWhile (\<lambda>x. x \<noteq> c) s = []"
    using assms by (cases "dropWhile (\<lambda>x. x \<noteq> c) s")
      (simp_all add: strchr_def del: dropWhile_eq_Nil_conv)
  also have "\<dots> \<longleftrightarrow> c \<notin> set s" by (auto simp: dropWhile_eq_Nil_conv)
  finally show ?thesis .
qed

lemma strrchr_None_iff: "c \<noteq> NUL \<Longrightarrow> strrchr s c = None \<longleftrightarrow> c \<notin> set s"
  by (induction s) (auto split: option.splits)

lemma strrchr_Some:
  "c \<noteq> NUL \<Longrightarrow> strrchr s c = Some t \<Longrightarrow> \<exists>p u. s = p @ c # u \<and> c \<notin> set u \<and> t = c # u"
proof (induction s arbitrary: t)
  case (Cons x s)
  show ?case
  proof (cases "strrchr s c")
    case None
    then have "x = c" "t = c # s" using Cons.prems by (auto split: if_splits)
    moreover have "c \<notin> set s" using None strrchr_None_iff Cons.prems(1) by blast
    ultimately show ?thesis by (metis append_Nil)
  next
    case (Some t')
    then obtain p u where "s = p @ c # u" "c \<notin> set u" "t' = c # u"
      using Cons.IH Cons.prems(1) by blast
    moreover have "t = t'" using Some Cons.prems(2) by simp
    ultimately show ?thesis by (metis append_Cons)
  qed
qed simp

lemma strrchr_last:
  "c \<noteq> NUL \<Longrightarrow> c \<notin> set u \<Longrightarrow> strrchr (p @ c # u) c = Some (c # u)"
proof (induction p)
  case Nil
  then show ?case using strrchr_None_iff [of c u] by simp
qed simp

end
