(* ===== verification/Filespace.thy ===== *)
theory Filespace
  imports C_String
begin

text \<open>
  The growing byte buffers in which nsock collects what an event reads or keeps what it has to
  write (\<open>nsock/src/filespace.c\<close>). A block of memory is the list of its bytes; a copy outside of one is
  \<open>None\<close>, and so is a size beyond the range of \<open>int\<close>, which \<open>safe_malloc\<close> refuses. New memory holds
  the byte \<open>0xCC\<close>; nothing depends on it.
\<close>

abbreviation (input) INT_MAX :: int where "INT_MAX \<equiv> 2147483647"

record filespace =
  current_size :: int
  current_alloc :: int
  fs_pos :: "nat option"
  fs_block :: "string option"

definition malloc_block :: "int \<Rightarrow> string option" where
  "malloc_block n = (if 0 \<le> n \<and> n \<le> INT_MAX then Some (replicate (nat n) (CHR 0xCC)) else None)"

definition filespace_init :: "int \<Rightarrow> filespace option" where
  "filespace_init initial_size =
     (let sz = (if initial_size = 0 then 1024 else initial_size)
      in case malloc_block sz of
           None \<Rightarrow> None
         | Some b \<Rightarrow> Some \<lparr>current_size = 0, current_alloc = sz, fs_pos = Some 0, fs_block = Some (b[0 := NUL])\<rparr>)"

definition fs_free :: "filespace \<Rightarrow> filespace" where
  "fs_free fs = fs\<lparr>current_size := 0, current_alloc := 0, fs_pos := None, fs_block := None\<rparr>"

text \<open>
  The new size \<open>(int)(current_alloc * 1.4 + 1)\<close>, computed in double precision. A double is given as an
  integer number of units of \<open>2\<^sup>-\<^sup>5\<^sup>2\<close>, of at least one such unit; the constant \<open>1.4\<close> is 6305039478318694 of
  them. The sum and the product are rounded to 53 significant bits, to the nearest and to even in a
  tie. (The result may be less by one than that of the exact product, as for 45.)
\<close>

function excess_bits :: "int \<Rightarrow> nat" where
  "excess_bits p = (if p < 2 ^ 53 then 0 else Suc (excess_bits (p div 2)))"
  by auto
termination by (relation "measure nat") auto

declare excess_bits.simps [simp del]

definition round_double :: "int \<Rightarrow> int" where
  "round_double p =
     (let k = excess_bits p; q = p div 2 ^ k; r = p mod 2 ^ k
      in (if 2 ^ k < 2 * r \<or> 2 * r = 2 ^ k \<and> odd q then q + 1 else q) * 2 ^ k)"

definition grown :: "int \<Rightarrow> int" where
  "grown n = round_double (round_double (n * 6305039478318694) + 2 ^ 52) div 2 ^ 52"

text \<open>\<open>memcpy(dest + off, src, n)\<close>.\<close>

definition copy_bytes :: "string \<Rightarrow> nat \<Rightarrow> string \<Rightarrow> nat \<Rightarrow> string option" where
  "copy_bytes dest off src n =
     (if off + n \<le> length dest \<and> n \<le> length src
      then Some (take off dest @ take n src @ drop (off + n) dest) else None)"

definition make_room :: "filespace \<Rightarrow> int \<Rightarrow> filespace option" where
  "make_room fs n =
     (if current_alloc fs - current_size fs < n + 2
      then let sz = grown (current_alloc fs) + (100 + n)
           in case malloc_block sz of
                None \<Rightarrow> None
              | Some tmpstr \<Rightarrow>
                  (case fs_block fs of
                     None \<Rightarrow> None
                   | Some b \<Rightarrow>
                       (case copy_bytes tmpstr 0 b (nat (current_size fs)) of
                          None \<Rightarrow> None
                        | Some tmpstr \<Rightarrow> Some (fs\<lparr>current_alloc := sz, fs_block := Some tmpstr\<rparr>)))
      else Some fs)"

definition fs_cat :: "filespace \<Rightarrow> string \<Rightarrow> int \<Rightarrow> (filespace \<times> int) option" where
  "fs_cat fs str n =
     (if n < 0 then Some (fs, -1)
      else if n = 0 then Some (fs, 0)
      else
        case make_room fs n of
          None \<Rightarrow> None
        | Some fs \<Rightarrow>
            (case fs_block fs of
               None \<Rightarrow> None
             | Some b \<Rightarrow>
                 (case copy_bytes b (nat (current_size fs)) str (nat n) of
                    None \<Rightarrow> None
                  | Some b \<Rightarrow>
                      let sz = current_size fs + n
                      in if nat sz < length b
                         then Some (fs\<lparr>current_size := sz, fs_block := Some (b[nat sz := NUL])\<rparr>, 0)
                         else None)))"

definition fs_length :: "filespace \<Rightarrow> int" where
  "fs_length fs = current_size fs"

definition fs_str :: "filespace \<Rightarrow> string option" where
  "fs_str fs = fs_block fs"

section \<open>Rounding\<close>

lemma excess_bits_less: "0 \<le> p \<Longrightarrow> excess_bits p = 0 \<or> 2 ^ 52 * 2 ^ excess_bits p \<le> p"
proof (induction p rule: excess_bits.induct)
  case (1 p)
  show ?case
  proof (cases "p < 2 ^ 53")
    case True
    then show ?thesis by (simp add: excess_bits.simps [of p])
  next
    case False
    then have e: "excess_bits p = Suc (excess_bits (p div 2))" by (subst excess_bits.simps) simp
    have "0 \<le> p div 2" "2 ^ 52 \<le> p div 2" using False by auto
    then have "2 ^ 52 * 2 ^ excess_bits (p div 2) \<le> p div 2" using "1.IH" [OF False] by auto
    then have "2 * (2 ^ 52 * 2 ^ excess_bits (p div 2)) \<le> 2 * (p div 2)" by linarith
    also have "\<dots> \<le> p" by simp
    finally show ?thesis by (simp add: e)
  qed
qed

lemma round_double_near:
  assumes "0 \<le> p"
  shows "999 * p \<le> 1000 * round_double p"
    and "1000 * round_double p \<le> 1001 * p"
proof -
  define k where "k = excess_bits p"
  define q r where "q = p div 2 ^ k" and "r = p mod 2 ^ k"
  have p: "p = q * 2 ^ k + r" "0 \<le> r" "r < 2 ^ k"
    unfolding q_def r_def by (rule div_mult_mod_eq [symmetric], simp_all)
  have d: "round_double p = (if 2 ^ k < 2 * r \<or> 2 * r = 2 ^ k \<and> odd q then q + 1 else q) * 2 ^ k"
    by (simp add: round_double_def Let_def k_def q_def r_def)
  then have "round_double p = q * 2 ^ k + 2 ^ k \<and> 2 ^ k \<le> 2 * r \<or> round_double p = q * 2 ^ k \<and> 2 * r \<le> 2 ^ k"
    unfolding d by (simp add: ring_distribs)
  then have h: "2 * \<bar>round_double p - p\<bar> \<le> 2 ^ k" using p by (elim disjE) simp_all
  have "1000 * \<bar>round_double p - p\<bar> \<le> p"
  proof (cases "k = 0")
    case True
    then have "round_double p = p" using p(2,3) unfolding d by (simp add: q_def)
    then show ?thesis using assms by simp
  next
    case False
    then have "2 ^ 52 * 2 ^ k \<le> p" using excess_bits_less [OF assms] by (simp add: k_def)
    moreover have "(500 :: int) * 2 ^ k \<le> 2 ^ 52 * 2 ^ k" by simp
    ultimately have "500 * 2 ^ k \<le> p" by (rule order_trans [rotated])
    then show ?thesis using h by linarith
  qed
  then have near: "1000 * (round_double p - p) \<le> p" "1000 * (p - round_double p) \<le> p"
    by (simp_all add: abs_if split: if_splits)
  then show "999 * p \<le> 1000 * round_double p" by (simp add: algebra_simps)
  show "1000 * round_double p \<le> 1001 * p" using near by (simp add: algebra_simps)
qed

lemma grown_bounds:
  assumes "0 \<le> n"
  shows "n \<le> grown n" "2 * grown n \<le> 3 * n + 4"
proof -
  define p where "p = round_double (n * 6305039478318694)"
  define s where "s = round_double (p + 4503599627370496)"
  have "0 \<le> n * 6305039478318694" using assms by simp
  note p = round_double_near [OF this, folded p_def]
  have p0: "n * 6200000000000000 \<le> p" using p(1) assms by linarith
  have p1: "p \<le> n * 6400000000000000" using p(2) assms by linarith
  have "0 \<le> p + 4503599627370496" using p0 assms by linarith
  note s = round_double_near [OF this, folded s_def]
  have s0: "n * 4503599627370496 \<le> s" using s(1) p0 assms by (simp add: algebra_simps)
  have s1: "2 * s \<le> (3 * n + 4) * 4503599627370496" using s(2) p1 assms by (simp add: algebra_simps)
  have g: "grown n = s div 4503599627370496" by (simp add: grown_def s_def p_def)
  show "n \<le> grown n" unfolding g using s0 by (simp add: zdiv_mono1 [of _ _ 4503599627370496, simplified])
  have "2 * (s div 4503599627370496) * 4503599627370496 = 2 * (s - s mod 4503599627370496)"
    by (simp add: minus_mod_eq_div_mult)
  also have "\<dots> \<le> (3 * n + 4) * 4503599627370496" using s1 by (simp add: add_increasing2)
  finally show "2 * grown n \<le> 3 * n + 4" unfolding g by (rule mult_right_le_imp_le) simp
qed

section \<open>The contents\<close>

definition fs_holds :: "filespace \<Rightarrow> string \<Rightarrow> bool" where
  "fs_holds fs s \<longleftrightarrow> current_size fs = int (length s) \<and> current_alloc fs \<le> INT_MAX \<and> fs_pos fs = Some 0 \<and>
     (\<exists>b. fs_block fs = Some b \<and> int (length b) = current_alloc fs \<and> take (length s + 1) b = s @ [NUL])"

lemma filespace_init_holds:
  assumes "0 \<le> n" and "n \<le> INT_MAX"
  shows "\<exists>fs. filespace_init n = Some fs \<and> fs_holds fs [] \<and> current_alloc fs = (if n = 0 then 1024 else n)"
proof -
  define k where "k = nat (if n = 0 then 1024 else n)"
  have k: "int k = (if n = 0 then 1024 else n)" "0 < k" using assms by (auto simp: k_def)
  then obtain j where "k = Suc j" by (cases k) auto
  then have "take 1 ((replicate k (CHR 0xCC))[0 := NUL]) = [NUL]" by simp
  then show ?thesis
    using assms k unfolding k_def by (auto simp: filespace_init_def malloc_block_def fs_holds_def Let_def)
qed

lemma fs_holds_block:
  assumes "fs_holds fs s" and "fs_block fs = Some b"
  shows "length s < length b" "take (length s) b = s"
proof -
  have t: "take (length s + 1) b = s @ [NUL]" using assms by (auto simp: fs_holds_def)
  from arg_cong [OF t, of length] show "length s < length b" by simp
  from arg_cong [OF t, of "take (length s)"] show "take (length s) b = s" by (simp add: min_absorb1)
qed

lemma make_room_holds:
  assumes "fs_holds fs s" and "0 < n" and "grown (current_alloc fs) + (100 + n) \<le> INT_MAX"
  shows "\<exists>fs' b. make_room fs n = Some fs' \<and> fs_block fs' = Some b \<and> fs_pos fs' = Some 0 \<and>
    current_size fs' = int (length s) \<and> int (length b) = current_alloc fs' \<and> current_alloc fs' \<le> INT_MAX \<and>
    take (length s) b = s \<and> int (length s) + n + 2 \<le> int (length b) \<and>
    (current_alloc fs' = current_alloc fs \<or>
     current_alloc fs < int (length s) + n + 2 \<and> current_alloc fs' = grown (current_alloc fs) + (100 + n))"
proof -
  obtain b where b: "fs_block fs = Some b" "int (length b) = current_alloc fs" using assms(1) by (auto simp: fs_holds_def)
  note s = fs_holds_block [OF assms(1) b(1)]
  have fs: "current_size fs = int (length s)" "current_alloc fs \<le> INT_MAX" "fs_pos fs = Some 0"
    using assms(1) by (auto simp: fs_holds_def)
  show ?thesis
  proof (cases "current_alloc fs - current_size fs < n + 2")
    case False
    then show ?thesis using fs b s by (simp add: make_room_def)
  next
    case True
    define sz where "sz = grown (current_alloc fs) + (100 + n)"
    have g: "current_alloc fs \<le> grown (current_alloc fs)"
      by (rule grown_bounds) (use b(2) in simp)
    then have sz: "int (length s) + n + 2 \<le> sz" "0 \<le> sz" "sz \<le> INT_MAX"
      using assms(2,3) s(1) b(2) by (auto simp: sz_def)
    have "copy_bytes (replicate (nat sz) (CHR 0xCC)) 0 b (length s) =
      Some (s @ drop (length s) (replicate (nat sz) (CHR 0xCC)))"
      using s sz assms(2) by (auto simp: copy_bytes_def)
    then have "make_room fs n = Some (fs\<lparr>current_alloc := sz,
        fs_block := Some (s @ drop (length s) (replicate (nat sz) (CHR 0xCC)))\<rparr>)"
      using True b(1) fs sz by (simp add: make_room_def malloc_block_def sz_def Let_def)
    then show ?thesis using sz fs assms(2) True by (simp add: sz_def)
  qed
qed

lemma fs_cat_holds:
  assumes "fs_holds fs s" and "0 < n" and "n \<le> int (length str)" and "grown (current_alloc fs) + (100 + n) \<le> INT_MAX"
  shows "\<exists>fs'. fs_cat fs str n = Some (fs', 0) \<and> fs_holds fs' (s @ take (nat n) str) \<and>
    (current_alloc fs' = current_alloc fs \<or>
     current_alloc fs < int (length s) + n + 2 \<and> current_alloc fs' = grown (current_alloc fs) + (100 + n))"
proof -
  obtain fs1 b where r: "make_room fs n = Some fs1" "fs_block fs1 = Some b" "fs_pos fs1 = Some 0"
      "current_size fs1 = int (length s)" "int (length b) = current_alloc fs1" "current_alloc fs1 \<le> INT_MAX"
      "take (length s) b = s" "int (length s) + n + 2 \<le> int (length b)"
      "current_alloc fs1 = current_alloc fs \<or>
       current_alloc fs < int (length s) + n + 2 \<and> current_alloc fs1 = grown (current_alloc fs) + (100 + n)"
    using make_room_holds [OF assms(1,2,4)] by blast
  define t where "t = s @ take (nat n) str"
  have len: "length t = length s + nat n" "nat (int (length s) + n) = length t" "int (length s) + n = int (length t)"
    using assms(2,3) by (auto simp: t_def)
  have lb: "length t < length b" using r(8) len(1) assms(2) by linarith
  then obtain x u where u: "drop (length t) b = x # u" by (metis Cons_nth_drop_Suc)
  have c: "copy_bytes b (length s) str (nat n) = Some (t @ x # u)"
  proof -
    have "length s + nat n \<le> length b" "nat n \<le> length str" using lb len(1) assms(3) by auto
    then have "copy_bytes b (length s) str (nat n) = Some (take (length s) b @ take (nat n) str @ drop (length t) b)"
      by (simp add: copy_bytes_def len(1))
    then show ?thesis unfolding u r(7) by (simp add: t_def)
  qed
  define fs' where "fs' = fs1\<lparr>current_size := int (length t), fs_block := Some (t @ NUL # u)\<rparr>"
  have "fs_cat fs str n = Some (fs', 0)"
    using assms(2) r(1,2,4) c len(2,3) by (simp add: fs_cat_def Let_def fs'_def)
  moreover have "length (t @ NUL # u) = length b" using lb arg_cong [OF u, of length] by simp
  then have "fs_holds fs' t" using r(3,5,6) by (simp add: fs_holds_def fs'_def)
  ultimately show ?thesis using r(9) by (auto simp: t_def fs'_def)
qed

text \<open>A buffer that starts with at most 1024 bytes never takes more than three times its contents and 1024
  bytes; so a buffer of at most 400 million bytes stays within the range of \<open>int\<close>.\<close>

definition fs_ok :: "filespace \<Rightarrow> string \<Rightarrow> bool" where
  "fs_ok fs s \<longleftrightarrow> fs_holds fs s \<and> current_alloc fs \<le> 3 * int (length s) + 1024"

lemma fs_cat_ok:
  assumes "fs_ok fs s" and "0 \<le> n" and "n \<le> int (length str)" and "int (length s) + n \<le> 400000000"
  shows "\<exists>fs'. fs_cat fs str n = Some (fs', 0) \<and> fs_ok fs' (s @ take (nat n) str)"
proof (cases "n = 0")
  case True
  then show ?thesis using assms(1) by (simp add: fs_cat_def)
next
  case False
  have a: "current_alloc fs \<le> 3 * int (length s) + 1024" "fs_holds fs s" using assms(1) by (auto simp: fs_ok_def)
  then have "0 \<le> current_alloc fs" by (auto simp: fs_holds_def)
  note g = grown_bounds [OF this]
  have "grown (current_alloc fs) + (100 + n) \<le> INT_MAX"
    using g a(1) assms(2,4) by linarith
  then obtain fs' where "fs_cat fs str n = Some (fs', 0)" "fs_holds fs' (s @ take (nat n) str)"
      "current_alloc fs' = current_alloc fs \<or>
       current_alloc fs < int (length s) + n + 2 \<and> current_alloc fs' = grown (current_alloc fs) + (100 + n)"
    using fs_cat_holds [OF a(2) _ assms(3)] False assms(2) by auto
  moreover have "int (length (s @ take (nat n) str)) = int (length s) + n" using assms(2,3) by simp
  ultimately show ?thesis
    using a(1) g False assms(2) unfolding fs_ok_def by (intro exI [of _ fs']) auto
qed

fun fs_cat_all :: "filespace \<Rightarrow> string list \<Rightarrow> filespace option" where
  "fs_cat_all fs [] = Some fs"
| "fs_cat_all fs (s # ss) =
     (case fs_cat fs s (int (length s)) of Some (fs', ret) \<Rightarrow> if ret = 0 then fs_cat_all fs' ss else None | None \<Rightarrow> None)"

lemma fs_cat_all_ok:
  "fs_ok fs t \<Longrightarrow> int (length (t @ concat ss)) \<le> 400000000 \<Longrightarrow>
   \<exists>fs'. fs_cat_all fs ss = Some fs' \<and> fs_ok fs' (t @ concat ss)"
proof (induction ss arbitrary: fs t)
  case (Cons s ss)
  then obtain fs1 where f: "fs_cat fs s (int (length s)) = Some (fs1, 0)" "fs_ok fs1 (t @ s)"
    using fs_cat_ok [of fs t "int (length s)" s] by auto
  then show ?case using Cons.IH [OF f(2)] Cons.prems(2) by simp
qed simp

text \<open>C29: appending pieces of data to a fresh filespace, of at most 400 million bytes in all, never writes
  outside of its memory, and leaves exactly the pieces one after the other, followed by a NUL, in a block of
  at most three times their size and 1024 bytes.\<close>

theorem filespace_concatenates:
  assumes "length (concat ss) \<le> 400000000"
  shows "\<exists>fs fs' b. filespace_init 1024 = Some fs \<and> fs_cat_all fs ss = Some fs' \<and>
    fs_length fs' = int (length (concat ss)) \<and> fs_str fs' = Some b \<and>
    take (length (concat ss) + 1) b = concat ss @ [NUL] \<and> int (length b) \<le> 3 * int (length (concat ss)) + 1024"
proof -
  obtain fs where fs: "filespace_init 1024 = Some fs" "fs_holds fs []" "current_alloc fs = 1024"
    using filespace_init_holds [of 1024] by auto
  then have "fs_ok fs []" by (simp add: fs_ok_def)
  then obtain fs' where "fs_cat_all fs ss = Some fs'" "fs_ok fs' (concat ss)"
    using fs_cat_all_ok [of fs "[]" ss] assms by auto
  then show ?thesis using fs(1) by (auto simp: fs_ok_def fs_holds_def fs_length_def fs_str_def)
qed

theorem filespace_concatenates_witness:
  "\<exists>fs fs' b. filespace_init 1024 = Some fs \<and> fs_cat_all fs [''GET '', ''/''] = Some fs' \<and>
    fs_length fs' = int (length (concat [''GET '', ''/''])) \<and> fs_str fs' = Some b \<and>
    take (length (concat [''GET '', ''/'']) + 1) b = concat [''GET '', ''/''] @ [NUL] \<and>
    int (length b) \<le> 3 * int (length (concat [''GET '', ''/''])) + 1024"
  by (rule filespace_concatenates) simp

end
