(* ===== verification/Nsock_Pool.thy ===== *)
theory Nsock_Pool
  imports Nsock_Time Filespace "HOL-Library.Monad_Syntax"
begin

unbundle bit_operations_syntax

text \<open>
  The event core of nsock: events, descriptors, the pool, and the loop that delivers events
  (\<open>nsock/src/nsock_event.c\<close>, \<open>nsock_core.c\<close>, \<open>nsock_pool.c\<close>, \<open>nsock_iod.c\<close>, \<open>nsock_read.c\<close>, \<open>nsock_write.c\<close>,
  \<open>nsock_timers.c\<close>) with the select engine (\<open>engine_select.c\<close>), in the configuration for POSIX without OpenSSL
  and without libpcap. Logging is left out.

  Events and descriptors are addresses into two stores. The linked lists of the pool are the HOL lists
  they are shown to represent in \<open>Gh_List\<close>; the heap is that of \<open>Gh_Heap\<close>, with the timeouts read from the
  store of events. The clock and the results of the system calls are inputs, kept as part of the pool.
  The handlers are client code: a function \<open>H\<close> on pools that may call every function of the library. A
  failed assertion, \<open>fatal\<close> and a use of a list element outside of its list are \<open>None\<close>.
\<close>

section \<open>Data\<close>

datatype nse_type =
    NSE_TYPE_CONNECT
  | NSE_TYPE_CONNECT_SSL
  | NSE_TYPE_READ
  | NSE_TYPE_WRITE
  | NSE_TYPE_TIMER
  | NSE_TYPE_PCAP_READ

datatype nse_status =
    NSE_STATUS_NONE
  | NSE_STATUS_SUCCESS
  | NSE_STATUS_ERROR
  | NSE_STATUS_TIMEOUT
  | NSE_STATUS_CANCELLED
  | NSE_STATUS_KILL
  | NSE_STATUS_EOF
  | NSE_STATUS_PROXYERROR

datatype nsock_read_types = NSOCK_READLINES | NSOCK_READBYTES | NSOCK_READ

datatype iod_state =
    NSIOD_STATE_DELETED
  | NSIOD_STATE_INITIAL
  | NSIOD_STATE_UNKNOWN
  | NSIOD_STATE_CONNECTED_TCP
  | NSIOD_STATE_CONNECTED_UDP

datatype nsock_del_mode = NSOCK_PENDING_NOTIFY | NSOCK_PENDING_SILENT | NSOCK_PENDING_ERROR

datatype nsock_loopstatus =
    NSOCK_LOOP_NOEVENTS
  | NSOCK_LOOP_TIMEOUT
  | NSOCK_LOOP_ERROR
  | NSOCK_LOOP_QUIT

abbreviation (input) EV_NONE :: int where "EV_NONE \<equiv> 0"
abbreviation (input) EV_READ :: int where "EV_READ \<equiv> 1"
abbreviation (input) EV_WRITE :: int where "EV_WRITE \<equiv> 2"
abbreviation (input) EV_EXCEPT :: int where "EV_EXCEPT \<equiv> 4"

abbreviation (input) IOD_REGISTERED :: u8 where "IOD_REGISTERED \<equiv> 1"
abbreviation (input) IOD_STDIN :: u8 where "IOD_STDIN \<equiv> 4"
abbreviation (input) IOD_EOF :: u8 where "IOD_EOF \<equiv> 8"

abbreviation (input) EINTR :: int where "EINTR \<equiv> 4"
abbreviation (input) EIO :: int where "EIO \<equiv> 5"
abbreviation (input) EAGAIN :: int where "EAGAIN \<equiv> 11"
abbreviation (input) ENOMEM :: int where "ENOMEM \<equiv> 12"
abbreviation (input) EBUSY :: int where "EBUSY \<equiv> 16"
abbreviation (input) EINVAL :: int where "EINVAL \<equiv> 22"
abbreviation (input) ENOTSOCK :: int where "ENOTSOCK \<equiv> 88"
abbreviation (input) EMSGSIZE :: int where "EMSGSIZE \<equiv> 90"

text \<open>A socket address: IPv4 or IPv6 with a port in host order, or a local path.\<close>

datatype sockaddr = Sin string u16 | Sin6 string u16 | Sun string

record nevent =
  e_id :: u64
  e_type :: nse_type
  e_status :: nse_status
  iobuf :: filespace
  e_timeout :: timeval
  read_type :: nsock_read_types
  read_num :: int
  dest :: "sockaddr option"
  written_so_far :: int
  e_errnum :: int
  e_iod :: "nat option"
  e_handler :: nat
  e_userdata :: nat
  event_done :: bool
  e_eof :: bool

record niod =
  i_sd :: int
  i_events_pending :: int
  first_connect :: "nat option"
  first_read :: "nat option"
  first_write :: "nat option"
  readsd_count :: int
  writesd_count :: int
  watched_events :: int
  i_state :: iod_state
  i_peer :: "sockaddr option"
  i_flags :: u8
  i_hostname :: "string option"
  i_id :: u64
  read_count :: u64
  write_count :: u64
  i_userdata :: nat

record select_engine_info =
  fds_master_r :: "int set"
  fds_master_w :: "int set"
  fds_master_x :: "int set"
  fds_results_r :: "int set"
  fds_results_w :: "int set"
  fds_results_x :: "int set"
  max_sd :: int
  num_pcap_nonselect :: int

text \<open>
  What the operating system answers: the values of the clock, the data or the error number of each \<open>recvfrom\<close>
  or \<open>read\<close> (with the sender's address, if any), the number of bytes or the error number of each \<open>send\<close>, the values
  of \<open>SO_ERROR\<close>, the sets or the error of each \<open>select\<close>, and the descriptors \<open>dup\<close> returns. \<open>sent\<close> and \<open>closed\<close> record
  the bytes given to \<open>send\<close> or \<open>sendto\<close> and the descriptors given to \<open>close\<close>. The clock stands still at the end of its list; after the
  end of the others, nothing can be read or written, no
  socket has an error, no descriptor is ready, and none can be duplicated.
\<close>

datatype recv_answer = Received string "sockaddr option" | Recv_error int

datatype send_answer = Sent int | Send_error int

datatype select_answer = Ready "int set" "int set" "int set" | Select_error int

record sys_answers =
  clock :: "timeval list"
  recvs :: "recv_answer list"
  sends :: "send_answer list"
  so_errors :: "int list"
  selects :: "select_answer list"
  dups :: "int list"
  sent :: "(int \<times> sockaddr option \<times> string) list"
  closed :: "int list"

record 'c npool =
  p_userdata :: 'c
  engine_data :: select_engine_info
  connect_events :: "nat list"
  read_events :: "nat list"
  write_events :: "nat list"
  expirables :: gh_heap_t
  active_iods :: "nat list"
  free_iods :: "nat list"
  free_events :: "nat list"
  events_pending :: int
  next_event_serial :: u64
  next_iod_serial :: u64
  p_errnum :: int
  quit :: bool
  nevents :: "nat \<Rightarrow> nevent"
  niods :: "nat \<Rightarrow> niod"
  next_address :: nat
  nsock_tod :: timeval
  os :: sys_answers

type_synonym 'c handlers = "nat \<Rightarrow> 'c npool \<Rightarrow> nat \<Rightarrow> 'c npool option"

definition "assert" :: "bool \<Rightarrow> unit option" where
  "assert b = (if b then Some () else None)"

text \<open>Writing to fields of an event or a descriptor.\<close>

definition upd_event :: "nat \<Rightarrow> (nevent \<Rightarrow> nevent) \<Rightarrow> 'c npool \<Rightarrow> 'c npool" where
  "upd_event e f p = p\<lparr>nevents := (nevents p)(e := f (nevents p e))\<rparr>"

definition upd_iod :: "nat \<Rightarrow> (niod \<Rightarrow> niod) \<Rightarrow> 'c npool \<Rightarrow> 'c npool" where
  "upd_iod i f p = p\<lparr>niods := (niods p)(i := f (niods p i))\<rparr>"

definition gettimeofday :: "'c npool \<Rightarrow> 'c npool" where
  "gettimeofday p =
     (case clock (os p) of
        [] \<Rightarrow> p
      | t # ts \<Rightarrow> p\<lparr>nsock_tod := t, os := (os p)\<lparr>clock := ts\<rparr>\<rparr>)"

text \<open>The element after and before one of a list; \<open>None\<close> if it is not in the list.\<close>

fun lnode_next :: "nat list \<Rightarrow> nat \<Rightarrow> nat option option" where
  "lnode_next [] x = None"
| "lnode_next (y # ys) x =
     (if x = y then Some (case ys of [] \<Rightarrow> None | z # zs \<Rightarrow> Some z) else lnode_next ys x)"

definition lnode_prev :: "nat list \<Rightarrow> nat \<Rightarrow> nat option option" where
  "lnode_prev xs x = lnode_next (rev xs) x"

definition list_last :: "nat list \<Rightarrow> nat option" where
  "list_last xs = (if xs = [] then None else Some (last xs))"

definition list_remove :: "nat list \<Rightarrow> nat \<Rightarrow> nat list option" where
  "list_remove xs x = (if x \<in> set xs then Some (remove1 x xs) else None)"

fun list_insert_before :: "nat list \<Rightarrow> nat \<Rightarrow> nat \<Rightarrow> nat list option" where
  "list_insert_before [] b x = None"
| "list_insert_before (y # ys) b x =
     (if y = b then Some (x # y # ys) else map_option ((#) y) (list_insert_before ys b x))"

section \<open>Event numbers\<close>

definition type_code :: "nse_type \<Rightarrow> u64" where
  "type_code t = (case t of NSE_TYPE_CONNECT \<Rightarrow> 0 | NSE_TYPE_CONNECT_SSL \<Rightarrow> 1 | NSE_TYPE_READ \<Rightarrow> 2
     | NSE_TYPE_WRITE \<Rightarrow> 3 | NSE_TYPE_TIMER \<Rightarrow> 4 | NSE_TYPE_PCAP_READ \<Rightarrow> 5)"

abbreviation (input) TYPE_CODE_NUM_BITS :: nat where "TYPE_CODE_NUM_BITS \<equiv> 3"

definition get_new_event_id :: "'c npool \<Rightarrow> nse_type \<Rightarrow> 'c npool \<times> u64" where
  "get_new_event_id ms type =
     (let serial = next_event_serial ms;
          ms = ms\<lparr>next_event_serial := serial + 1\<rparr>;
          shiftbits = 64 - TYPE_CODE_NUM_BITS;
          max_serial_allowed = push_bit shiftbits 1 - 1;
          ms = (if serial = max_serial_allowed then ms\<lparr>next_event_serial := 1\<rparr> else ms)
      in (ms, push_bit TYPE_CODE_NUM_BITS serial OR type_code type))"

text \<open>The numbers 6 and 7 are no constants of \<open>enum nse_type\<close>.\<close>

definition get_event_id_type :: "u64 \<Rightarrow> nse_type option" where
  "get_event_id_type event_id =
     (let code = event_id AND (push_bit TYPE_CODE_NUM_BITS 1 - 1)
      in if code = 0 then Some NSE_TYPE_CONNECT else if code = 1 then Some NSE_TYPE_CONNECT_SSL
         else if code = 2 then Some NSE_TYPE_READ else if code = 3 then Some NSE_TYPE_WRITE
         else if code = 4 then Some NSE_TYPE_TIMER else if code = 5 then Some NSE_TYPE_PCAP_READ else None)"

section \<open>The select engine\<close>

text \<open>The descriptor sets have room for the numbers below \<open>FD_SETSIZE\<close>.\<close>

abbreviation (input) FD_SETSIZE :: int where "FD_SETSIZE \<equiv> 1024"

definition checked_fd_isset :: "int \<Rightarrow> int set \<Rightarrow> bool option" where
  "checked_fd_isset fd fds = (if 0 \<le> fd \<and> fd < FD_SETSIZE then Some (fd \<in> fds) else None)"

definition checked_fd_clr :: "int \<Rightarrow> int set \<Rightarrow> int set option" where
  "checked_fd_clr fd fds = (if 0 \<le> fd \<and> fd < FD_SETSIZE then Some (fds - {fd}) else None)"

definition checked_fd_set :: "int \<Rightarrow> int set \<Rightarrow> int set option" where
  "checked_fd_set fd fds = (if 0 \<le> fd \<and> fd < FD_SETSIZE then Some (insert fd fds) else None)"

definition IOD_PROPSET :: "nat \<Rightarrow> u8 \<Rightarrow> 'c npool \<Rightarrow> 'c npool" where
  "IOD_PROPSET i flag p = upd_iod i (\<lambda>n. n\<lparr>i_flags := i_flags n OR flag\<rparr>) p"

definition IOD_PROPCLR :: "nat \<Rightarrow> u8 \<Rightarrow> 'c npool \<Rightarrow> 'c npool" where
  "IOD_PROPCLR i flag p = upd_iod i (\<lambda>n. n\<lparr>i_flags := i_flags n AND NOT flag\<rparr>) p"

definition IOD_PROPGET :: "'c npool \<Rightarrow> nat \<Rightarrow> u8 \<Rightarrow> bool" where
  "IOD_PROPGET p i flag \<longleftrightarrow> i_flags (niods p i) AND flag \<noteq> 0"

definition select_init :: select_engine_info where
  "select_init = \<lparr>fds_master_r = {}, fds_master_w = {}, fds_master_x = {},
     fds_results_r = {}, fds_results_w = {}, fds_results_x = {}, max_sd = -1, num_pcap_nonselect = 0\<rparr>"

definition set_or_clear :: "int \<Rightarrow> bool \<Rightarrow> bool \<Rightarrow> int set \<Rightarrow> int set option" where
  "set_or_clear sd on off fds = (if on then checked_fd_set sd fds else if off then checked_fd_clr sd fds else Some fds)"

definition select_iod_modify :: "'c npool \<Rightarrow> nat \<Rightarrow> int \<Rightarrow> int \<Rightarrow> 'c npool option" where
  "select_iod_modify p i ev_set ev_clr = do {
     assert (ev_set AND ev_clr = 0);
     let p = upd_iod i (\<lambda>n. n\<lparr>watched_events := (watched_events n OR ev_set) AND NOT ev_clr\<rparr>) p;
     let sd = i_sd (niods p i);
     if sd \<noteq> -1 then do {
       let sinfo = engine_data p;
       r \<leftarrow> set_or_clear sd (ev_set AND EV_READ \<noteq> 0) (ev_clr AND EV_READ \<noteq> 0) (fds_master_r sinfo);
       w \<leftarrow> set_or_clear sd (ev_set AND EV_WRITE \<noteq> 0) (ev_clr AND EV_WRITE \<noteq> 0) (fds_master_w sinfo);
       x \<leftarrow> checked_fd_set sd (fds_master_x sinfo);
       let m = (if ev_set \<noteq> EV_NONE then max (max_sd sinfo) sd
                else if ev_clr \<noteq> EV_NONE \<and> i_events_pending (niods p i) = 1 \<and> max_sd sinfo = sd
                then max_sd sinfo - 1 else max_sd sinfo);
       Some (p\<lparr>engine_data := sinfo\<lparr>fds_master_r := r, fds_master_w := w, fds_master_x := x, max_sd := m\<rparr>\<rparr>)
     } else Some p
   }"

definition select_iod_register :: "'c npool \<Rightarrow> nat \<Rightarrow> int \<Rightarrow> 'c npool option" where
  "select_iod_register p i ev = do {
     assert (\<not> IOD_PROPGET p i IOD_REGISTERED);
     let p = (if i_sd (niods p i) = -1
              then p\<lparr>engine_data := (engine_data p)\<lparr>num_pcap_nonselect := num_pcap_nonselect (engine_data p) + 1\<rparr>\<rparr>
              else p);
     let p = upd_iod i (\<lambda>n. n\<lparr>watched_events := ev\<rparr>) p;
     p \<leftarrow> select_iod_modify p i ev EV_NONE;
     Some (IOD_PROPSET i IOD_REGISTERED p)
   }"

definition clear_all :: "int \<Rightarrow> select_engine_info \<Rightarrow> select_engine_info option" where
  "clear_all sd s = do {
     a \<leftarrow> checked_fd_clr sd (fds_master_r s);
     b \<leftarrow> checked_fd_clr sd (fds_master_w s);
     c \<leftarrow> checked_fd_clr sd (fds_master_x s);
     d \<leftarrow> checked_fd_clr sd (fds_results_r s);
     e \<leftarrow> checked_fd_clr sd (fds_results_w s);
     f \<leftarrow> checked_fd_clr sd (fds_results_x s);
     Some (s\<lparr>fds_master_r := a, fds_master_w := b, fds_master_x := c,
             fds_results_r := d, fds_results_w := e, fds_results_x := f,
             max_sd := (if max_sd s = sd then max_sd s - 1 else max_sd s)\<rparr>)
   }"

text \<open>Without libpcap, \<open>assert(iod->pcap)\<close> fails.\<close>

definition select_iod_unregister :: "'c npool \<Rightarrow> nat \<Rightarrow> 'c npool option" where
  "select_iod_unregister p i = (
     let p = upd_iod i (\<lambda>n. n\<lparr>watched_events := EV_NONE\<rparr>) p
     in if IOD_PROPGET p i IOD_REGISTERED then do {
          let sd = i_sd (niods p i);
          assert (sd \<noteq> -1);
          s \<leftarrow> clear_all sd (engine_data p);
          Some (IOD_PROPCLR i IOD_REGISTERED (p\<lparr>engine_data := s\<rparr>))
        } else Some p)"

section \<open>Watched descriptors\<close>

definition socket_count_zero :: "nat \<Rightarrow> 'c npool \<Rightarrow> 'c npool option" where
  "socket_count_zero i p = select_iod_unregister (upd_iod i (\<lambda>n. n\<lparr>readsd_count := 0, writesd_count := 0\<rparr>) p) i"

definition socket_count_read_inc :: "nat \<Rightarrow> 'c npool \<Rightarrow> ('c npool \<times> int) option" where
  "socket_count_read_inc i p = do {
     assert (readsd_count (niods p i) \<ge> 0);
     Some (upd_iod i (\<lambda>n. n\<lparr>readsd_count := readsd_count n + 1\<rparr>) p, EV_READ)
   }"

definition socket_count_read_dec :: "nat \<Rightarrow> 'c npool \<Rightarrow> ('c npool \<times> int) option" where
  "socket_count_read_dec i p = do {
     assert (readsd_count (niods p i) > 0);
     let p = upd_iod i (\<lambda>n. n\<lparr>readsd_count := readsd_count n - 1\<rparr>) p;
     Some (p, if readsd_count (niods p i) = 0 then EV_READ else EV_NONE)
   }"

definition socket_count_write_inc :: "nat \<Rightarrow> 'c npool \<Rightarrow> ('c npool \<times> int) option" where
  "socket_count_write_inc i p = do {
     assert (writesd_count (niods p i) \<ge> 0);
     Some (upd_iod i (\<lambda>n. n\<lparr>writesd_count := writesd_count n + 1\<rparr>) p, EV_WRITE)
   }"

definition socket_count_write_dec :: "nat \<Rightarrow> 'c npool \<Rightarrow> ('c npool \<times> int) option" where
  "socket_count_write_dec i p = do {
     assert (writesd_count (niods p i) > 0);
     let p = upd_iod i (\<lambda>n. n\<lparr>writesd_count := writesd_count n - 1\<rparr>) p;
     Some (p, if writesd_count (niods p i) = 0 then EV_WRITE else EV_NONE)
   }"

definition should_clear_ev_read :: "niod \<Rightarrow> int \<Rightarrow> bool" where
  "should_clear_ev_read iod ev_set \<longleftrightarrow> ev_set AND EV_READ \<noteq> 0 \<and> readsd_count iod = 0"

definition should_clear_ev_write :: "niod \<Rightarrow> int \<Rightarrow> bool" where
  "should_clear_ev_write iod ev_set \<longleftrightarrow> ev_set AND EV_WRITE \<noteq> 0 \<and> writesd_count iod = 0"

definition update_events :: "nat \<Rightarrow> 'c npool \<Rightarrow> int \<Rightarrow> int \<Rightarrow> 'c npool option" where
  "update_events i p ev_inc ev_dec =
     (let ev_temp = ev_inc XOR ev_dec;
          ev_inc = ev_inc AND ev_temp;
          ev_dec = ev_dec AND ev_temp;
          setmask = ev_inc;
          clrmask = (if should_clear_ev_read (niods p i) ev_dec then EV_READ else EV_NONE) OR
                    (if should_clear_ev_write (niods p i) ev_dec then EV_WRITE else EV_NONE)
      in if \<not> IOD_PROPGET p i IOD_REGISTERED
         then do { assert (clrmask = EV_NONE); select_iod_register p i setmask }
         else select_iod_modify p i setmask clrmask)"

section \<open>The event lists\<close>

text \<open>
  The pool has a list for connects, one for reads and one for writes, and every descriptor a pointer to its
  first event in each; the code selects among them by the type of an event.
\<close>

datatype evkind = Connects | Reads | Writes

definition kind_of :: "nse_type \<Rightarrow> evkind option" where
  "kind_of t = (case t of NSE_TYPE_CONNECT \<Rightarrow> Some Connects | NSE_TYPE_CONNECT_SSL \<Rightarrow> Some Connects
     | NSE_TYPE_READ \<Rightarrow> Some Reads | NSE_TYPE_WRITE \<Rightarrow> Some Writes | _ \<Rightarrow> None)"

definition evlist :: "evkind \<Rightarrow> 'c npool \<Rightarrow> nat list" where
  "evlist k p = (case k of Connects \<Rightarrow> connect_events p | Reads \<Rightarrow> read_events p | Writes \<Rightarrow> write_events p)"

definition set_evlist :: "evkind \<Rightarrow> nat list \<Rightarrow> 'c npool \<Rightarrow> 'c npool" where
  "set_evlist k xs p = (case k of Connects \<Rightarrow> p\<lparr>connect_events := xs\<rparr> | Reads \<Rightarrow> p\<lparr>read_events := xs\<rparr>
     | Writes \<Rightarrow> p\<lparr>write_events := xs\<rparr>)"

definition first_ev :: "evkind \<Rightarrow> niod \<Rightarrow> nat option" where
  "first_ev k n = (case k of Connects \<Rightarrow> first_connect n | Reads \<Rightarrow> first_read n | Writes \<Rightarrow> first_write n)"

definition set_first_ev :: "evkind \<Rightarrow> nat option \<Rightarrow> niod \<Rightarrow> niod" where
  "set_first_ev k x n = (case k of Connects \<Rightarrow> n\<lparr>first_connect := x\<rparr> | Reads \<Rightarrow> n\<lparr>first_read := x\<rparr>
     | Writes \<Rightarrow> n\<lparr>first_write := x\<rparr>)"

definition iod_add_event :: "nat \<Rightarrow> 'c npool \<Rightarrow> nat \<Rightarrow> 'c npool option" where
  "iod_add_event i p nse = do {
     k \<leftarrow> kind_of (e_type (nevents p nse));
     xs \<leftarrow> (case first_ev k (niods p i) of
             Some first \<Rightarrow> list_insert_before (evlist k p) first nse
           | None \<Rightarrow> Some (evlist k p @ [nse]));
     Some (upd_iod i (set_first_ev k (Some nse)) (set_evlist k xs p))
   }"

text \<open>\<open>first\<close> is the value of the pointer \<open>*first\<close>, the result its new value.\<close>

definition first_ev_next :: "evkind \<Rightarrow> 'c npool \<Rightarrow> nat \<Rightarrow> nat option \<Rightarrow> nat option option" where
  "first_ev_next k p nse first =
     (case first of
        None \<Rightarrow> Some None
      | Some f \<Rightarrow>
          if f = nse then do {
            nxt \<leftarrow> lnode_next (evlist k p) f;
            Some (case nxt of
                    Some newevent \<Rightarrow> if e_iod (nevents p newevent) = e_iod (nevents p nse) then nxt else None
                  | None \<Rightarrow> None)
          } else Some first)"

definition update_first_events :: "'c npool \<Rightarrow> nat \<Rightarrow> 'c npool option" where
  "update_first_events p nse = do {
     assert (e_iod (nevents p nse) \<noteq> None \<or> e_type (nevents p nse) = NSE_TYPE_TIMER);
     if e_type (nevents p nse) = NSE_TYPE_TIMER then Some p
     else do {
       k \<leftarrow> kind_of (e_type (nevents p nse));
       i \<leftarrow> e_iod (nevents p nse);
       x \<leftarrow> first_ev_next k p nse (first_ev k (niods p i));
       Some (upd_iod i (set_first_ev k x) p)
     }
   }"

text \<open>The heap, with the comparison of the timeouts the events have at the moment.\<close>

definition timer_heap :: "'c npool \<Rightarrow> gh_heap_t" where
  "timer_heap p = (expirables p)\<lparr>cmp_op := expirable_cmp (\<lambda>e. e_timeout (nevents p e))\<rparr>"

definition nevent_unref :: "'c npool \<Rightarrow> nat \<Rightarrow> 'c npool option" where
  "nevent_unref p nse = do {
     p \<leftarrow> update_first_events p nse;
     p \<leftarrow> (if e_type (nevents p nse) = NSE_TYPE_TIMER then Some p
           else do {
             k \<leftarrow> kind_of (e_type (nevents p nse));
             xs \<leftarrow> list_remove (evlist k p) nse;
             Some (set_evlist k xs p)
           });
     p \<leftarrow> (if tv_sec (e_timeout (nevents p nse)) \<noteq> 0
           then do {
             let p = upd_event nse (\<lambda>e. e\<lparr>e_timeout := \<lparr>tv_sec = 0, tv_usec = 0\<rparr>\<rparr>) p;
             h \<leftarrow> gh_heap_remove (timer_heap p) nse;
             Some (p\<lparr>expirables := h\<rparr>)
           } else Some p);
     Some (p\<lparr>free_events := free_events p @ [nse]\<rparr>)
   }"

section \<open>Creating and deleting events\<close>

definition nevent_zero :: nevent where
  "nevent_zero = \<lparr>e_id = 0, e_type = NSE_TYPE_CONNECT, e_status = NSE_STATUS_NONE,
     iobuf = \<lparr>current_size = 0, current_alloc = 0, fs_pos = None, fs_block = None\<rparr>,
     e_timeout = \<lparr>tv_sec = 0, tv_usec = 0\<rparr>, read_type = NSOCK_READLINES, read_num = 0,
     dest = None, written_so_far = 0, e_errnum = 0, e_iod = None, e_handler = 0, e_userdata = 0,
     event_done = False, e_eof = False\<rparr>"

text \<open>An element of the free list, or else a new address from \<open>safe_malloc\<close>.\<close>

definition alloc_event :: "'c npool \<Rightarrow> 'c npool \<times> nat" where
  "alloc_event p =
     (case free_events p of
        e # es \<Rightarrow> (p\<lparr>free_events := es\<rparr>, e)
      | [] \<Rightarrow> (p\<lparr>next_address := next_address p + 1\<rparr>, next_address p))"

definition event_new :: "'c npool \<Rightarrow> nse_type \<Rightarrow> nat option \<Rightarrow> int \<Rightarrow> nat \<Rightarrow> nat \<Rightarrow> ('c npool \<times> nat) option" where
  "event_new p type iod timeout_msecs handler userdata = do {
     let p = gettimeofday p;
     p \<leftarrow> (case iod of
             None \<Rightarrow> Some p
           | Some i \<Rightarrow> do {
               let p = upd_iod i (\<lambda>n. n\<lparr>i_events_pending := i_events_pending n + 1\<rparr>) p;
               assert (i_state (niods p i) \<noteq> NSIOD_STATE_DELETED);
               Some p
             });
     let (p, nse) = alloc_event p;
     let (p, new_id) = get_new_event_id p type;
     let p = upd_event nse (\<lambda>_. nevent_zero\<lparr>e_id := new_id, e_type := type\<rparr>) p;
     let p = p\<lparr>expirables := gh_hnode_invalidate (expirables p) nse\<rparr>;
     p \<leftarrow> (if type = NSE_TYPE_READ \<or> type = NSE_TYPE_WRITE
           then do { fs \<leftarrow> filespace_init 1024; Some (upd_event nse (\<lambda>e. e\<lparr>iobuf := fs\<rparr>) p) }
           else Some p);
     p \<leftarrow> (if timeout_msecs \<noteq> -1
           then do {
             assert (timeout_msecs \<ge> 0);
             Some (upd_event nse (\<lambda>e. e\<lparr>e_timeout := TIMEVAL_MSEC_ADD (nsock_tod p) timeout_msecs\<rparr>) p)
           } else Some p);
     Some (upd_event nse (\<lambda>e. e\<lparr>e_iod := iod, e_handler := handler, e_userdata := userdata\<rparr>) p, nse)
   }"

definition event_delete :: "'c npool \<Rightarrow> nat \<Rightarrow> 'c npool" where
  "event_delete p nse = (
     let t = e_type (nevents p nse);
         p = (if t = NSE_TYPE_READ \<or> t = NSE_TYPE_WRITE
              then upd_event nse (\<lambda>e. e\<lparr>iobuf := fs_free (iobuf e)\<rparr>) p else p)
     in upd_event nse (\<lambda>e. e\<lparr>event_done := True\<rparr>) p)"

definition event_dispatch_and_delete :: "'c handlers \<Rightarrow> 'c npool \<Rightarrow> nat \<Rightarrow> bool \<Rightarrow> 'c npool option" where
  "event_dispatch_and_delete H p nse notify = do {
     assert (event_done (nevents p nse));
     let p = p\<lparr>events_pending := events_pending p - 1\<rparr>;
     assert (events_pending p \<ge> 0);
     p \<leftarrow> (case e_iod (nevents p nse) of
             None \<Rightarrow> Some p
           | Some i \<Rightarrow> do {
               let p = upd_iod i (\<lambda>n. n\<lparr>i_events_pending := i_events_pending n - 1\<rparr>) p;
               assert (i_events_pending (niods p i) \<ge> 0);
               Some p
             });
     p \<leftarrow> (if notify then H (e_handler (nevents p nse)) p nse else Some p);
     Some (event_delete p nse)
   }"

definition event_timedout :: "'c npool \<Rightarrow> nat \<Rightarrow> bool" where
  "event_timedout p nse \<longleftrightarrow> \<not> event_done (nevents p nse) \<and> tv_sec (e_timeout (nevents p nse)) \<noteq> 0 \<and>
     \<not> TIMEVAL_AFTER (e_timeout (nevents p nse)) (nsock_tod p)"

text \<open>What a handler may ask of an event.\<close>

definition nse_type_of :: "'c npool \<Rightarrow> nat \<Rightarrow> nse_type" where
  "nse_type_of p nse = e_type (nevents p nse)"

definition nse_status_of :: "'c npool \<Rightarrow> nat \<Rightarrow> nse_status" where
  "nse_status_of p nse = e_status (nevents p nse)"

definition nse_eof :: "'c npool \<Rightarrow> nat \<Rightarrow> bool" where
  "nse_eof p nse = e_eof (nevents p nse)"

definition nse_iod :: "'c npool \<Rightarrow> nat \<Rightarrow> nat option" where
  "nse_iod p nse = e_iod (nevents p nse)"

definition nse_errorcode :: "'c npool \<Rightarrow> nat \<Rightarrow> int" where
  "nse_errorcode p nse = e_errnum (nevents p nse)"

definition nse_id :: "'c npool \<Rightarrow> nat \<Rightarrow> u64" where
  "nse_id p nse = e_id (nevents p nse)"

definition nse_readbuf :: "'c npool \<Rightarrow> nat \<Rightarrow> string option \<times> int" where
  "nse_readbuf p nse = (fs_str (iobuf (nevents p nse)), fs_length (iobuf (nevents p nse)))"

section \<open>Results of input and output\<close>

definition errcode_is_failure :: "int \<Rightarrow> bool" where
  "errcode_is_failure err \<longleftrightarrow> err \<noteq> EINTR \<and> err \<noteq> EAGAIN \<and> err \<noteq> EBUSY"

definition finish_event :: "nat \<Rightarrow> nse_status \<Rightarrow> 'c npool \<Rightarrow> 'c npool" where
  "finish_event nse st p = upd_event nse (\<lambda>e. e\<lparr>event_done := True, e_status := st\<rparr>) p"

definition finish_error :: "nat \<Rightarrow> int \<Rightarrow> 'c npool \<Rightarrow> 'c npool" where
  "finish_error nse err p =
     upd_event nse (\<lambda>e. e\<lparr>event_done := True, e_status := NSE_STATUS_ERROR, e_errnum := err\<rparr>) p"

definition sock_error :: "'c npool \<Rightarrow> 'c npool \<times> int" where
  "sock_error p = (case so_errors (os p) of [] \<Rightarrow> (p, 0) | c # cs \<Rightarrow> (p\<lparr>os := (os p)\<lparr>so_errors := cs\<rparr>\<rparr>, c))"

definition handle_connect_result :: "'c npool \<Rightarrow> nat \<Rightarrow> nse_status \<Rightarrow> 'c npool option" where
  "handle_connect_result p nse status = do {
     i \<leftarrow> e_iod (nevents p nse);
     p \<leftarrow> (if status = NSE_STATUS_TIMEOUT \<or> status = NSE_STATUS_CANCELLED then Some (finish_event nse status p)
           else if status = NSE_STATUS_SUCCESS then
             let (p, optval) = sock_error p;
                 p = (if optval = 0 then upd_event nse (\<lambda>e. e\<lparr>e_status := NSE_STATUS_SUCCESS\<rparr>) p
                      else upd_event nse (\<lambda>e. e\<lparr>e_status := NSE_STATUS_ERROR, e_errnum := optval\<rparr>) p)
             in if e_type (nevents p nse) = NSE_TYPE_CONNECT_SSL \<and> e_status (nevents p nse) = NSE_STATUS_SUCCESS
                then Some p
                else Some (upd_event nse (\<lambda>e. e\<lparr>event_done := True\<rparr>) p)
           else None);
     if i_sd (niods p i) \<noteq> -1 then do {
       (p, ev) \<leftarrow> socket_count_read_dec i p;
       (p, ev') \<leftarrow> socket_count_write_dec i p;
       update_events i p EV_NONE (ev OR ev')
     } else Some p
   }"

text \<open>
  \<open>iod_write\<close> of the engine's operations: \<open>send\<close>, or \<open>sendto\<close> if there is a destination. The result is the
  number of bytes taken, or \<open>-1\<close> and the error.
\<close>

definition posix_iod_write :: "'c npool \<Rightarrow> int \<Rightarrow> string \<Rightarrow> sockaddr option \<Rightarrow> ('c npool \<times> int \<times> int) option" where
  "posix_iod_write p sd buf dst =
     (case sends (os p) of
        [] \<Rightarrow> Some (p, -1, EAGAIN)
      | Send_error err # ss \<Rightarrow> Some (p\<lparr>os := (os p)\<lparr>sends := ss\<rparr>\<rparr>, -1, err)
      | Sent n # ss \<Rightarrow>
          let k = (if n < 0 then 0 else min n (int (length buf)))
          in Some (p\<lparr>os := (os p)\<lparr>sends := ss, sent := sent (os p) @ [(sd, dst, take (nat k) buf)]\<rparr>\<rparr>, k, 0))"

definition handle_write_result :: "'c npool \<Rightarrow> nat \<Rightarrow> nse_status \<Rightarrow> 'c npool option" where
  "handle_write_result p nse status = do {
     p \<leftarrow> (if status = NSE_STATUS_TIMEOUT \<or> status = NSE_STATUS_CANCELLED then Some (finish_event nse status p)
           else if status = NSE_STATUS_SUCCESS then do {
             let e = nevents p nse;
             i \<leftarrow> e_iod e;
             str \<leftarrow> fs_str (iobuf e);
             let bytesleft = fs_length (iobuf e) - written_so_far e;
             assert (written_so_far e > 0 \<longrightarrow> bytesleft > 0);
             assert (0 \<le> written_so_far e \<and> 0 \<le> bytesleft \<and> fs_length (iobuf e) \<le> int (length str));
             let buf = take (nat bytesleft) (drop (nat (written_so_far e)) str);
             (p, res, err) \<leftarrow> posix_iod_write p (i_sd (niods p i)) buf (dest e);
             let p = (if res = bytesleft then finish_event nse NSE_STATUS_SUCCESS p
                      else if res \<ge> 0 then upd_event nse (\<lambda>e. e\<lparr>written_so_far := written_so_far e + res\<rparr>) p
                      else if errcode_is_failure err then finish_error nse err p
                      else p);
             Some (if res \<ge> 0 then upd_iod i (\<lambda>n. n\<lparr>write_count := write_count n + of_int res\<rparr>) p else p)
           } else Some p);
     if event_done (nevents p nse) then do {
       i \<leftarrow> e_iod (nevents p nse);
       if i_sd (niods p i) \<noteq> -1 then do {
         (p, ev) \<leftarrow> socket_count_write_dec i p;
         update_events i p EV_NONE ev
       } else Some p
     } else Some p
   }"

definition handle_timer_result :: "'c npool \<Rightarrow> nat \<Rightarrow> nse_status \<Rightarrow> 'c npool" where
  "handle_timer_result p nse status = finish_event nse status p"

text \<open>
  \<open>recvfrom\<close> and \<open>read\<close> into a buffer of \<open>READ_BUFFER_SZ\<close> bytes: the data, or \<open>-1\<close> and the error. \<open>read\<close> gives
  no address of a sender.
\<close>

abbreviation (input) READ_BUFFER_SZ :: nat where "READ_BUFFER_SZ \<equiv> 8192"
abbreviation (input) NSOCK_READ_CHUNK_SIZE :: int where "NSOCK_READ_CHUNK_SIZE \<equiv> 589823"

fun recv_data :: "recv_answer \<Rightarrow> int + string" where
  "recv_data (Received d a) = Inr (take READ_BUFFER_SZ d)"
| "recv_data (Recv_error err) = Inl err"

fun recv_from :: "recv_answer \<Rightarrow> sockaddr option" where
  "recv_from (Received d a) = a"
| "recv_from (Recv_error err) = None"

text \<open>
  One round of the reading loop, after the system call has given \<open>r\<close> (and \<open>from\<close>, the sender). \<open>Inl rc\<close> is a
  return from \<open>do_actual_read\<close>; \<open>Inr (Some buflen)\<close> the end of the loop with that value of \<open>buflen\<close>, where
  \<open>buflen\<close> is \<open>-1\<close> together with the error; \<open>Inr None\<close> another round.
\<close>

definition read_round ::
  "'c npool \<Rightarrow> nat \<Rightarrow> nat \<Rightarrow> int \<Rightarrow> int \<Rightarrow> int + string \<Rightarrow> sockaddr option \<Rightarrow>
    ('c npool \<times> (int + (int \<times> int) option)) option" where
  "read_round p nse i max_chunk startlen r from =
     (case r of
        Inl err \<Rightarrow> Some (p, if err = EINTR then Inr None else Inr (Some (-1, err)))
      | Inr buf \<Rightarrow>
          let p = (if from \<noteq> None then upd_iod i (\<lambda>n. n\<lparr>i_peer := from\<rparr>) p else p);
              buflen = int (length buf)
          in if buflen > 0 then do {
               (fs, rc) \<leftarrow> fs_cat (iobuf (nevents p nse)) buf buflen;
               let p = upd_event nse (\<lambda>e. e\<lparr>iobuf := fs\<rparr>) p;
               if rc = -1 then Some (finish_error nse ENOMEM p, Inl (-1))
               else if fs_length fs > max_chunk then Some (p, Inl (fs_length fs - startlen))
               else if buflen < int READ_BUFFER_SZ then Some (p, Inl (fs_length fs - startlen))
               else Some (p, Inr None)
             } else Some (p, Inr (Some (buflen, 0))))"

text \<open>
  The loop over the answers to come; at their end nothing is there to be read. When \<open>recvfrom\<close> fails with
  \<open>ENOTSOCK\<close>, the code calls \<open>read\<close> at once and in all later rounds.
\<close>

fun read_loop ::
  "recv_answer list \<Rightarrow> 'c npool \<Rightarrow> nat \<Rightarrow> nat \<Rightarrow> int \<Rightarrow> int \<Rightarrow> bool \<Rightarrow>
    (recv_answer list \<times> 'c npool \<times> (int + int \<times> int)) option" where
  "read_loop [] p nse i max_chunk startlen enotsock = Some ([], p, Inr (-1, EAGAIN))"
| "read_loop (a # as) p nse i max_chunk startlen enotsock =
     (if \<not> enotsock \<and> recv_data a = Inl ENOTSOCK then read_loop as p nse i max_chunk startlen True
      else case read_round p nse i max_chunk startlen (recv_data a) (if enotsock then None else recv_from a) of
             None \<Rightarrow> None
           | Some (q, Inl rc) \<Rightarrow> Some (as, q, Inl rc)
           | Some (q, Inr (Some c)) \<Rightarrow> Some (as, q, Inr c)
           | Some (q, Inr None) \<Rightarrow> read_loop as q nse i max_chunk startlen enotsock)"

definition do_actual_read :: "'c npool \<Rightarrow> nat \<Rightarrow> ('c npool \<times> int) option" where
  "do_actual_read p nse = do {
     i \<leftarrow> e_iod (nevents p nse);
     let e = nevents p nse;
     let max_chunk = (if read_type e = NSOCK_READBYTES then read_num e else NSOCK_READ_CHUNK_SIZE);
     let startlen = fs_length (iobuf e);
     (as, p, res) \<leftarrow> read_loop (recvs (os p)) p nse i max_chunk startlen False;
     let p = p\<lparr>os := (os p)\<lparr>recvs := as\<rparr>\<rparr>;
     case res of
       Inl rc \<Rightarrow> Some (p, rc)
     | Inr (buflen, err) \<Rightarrow>
         if buflen = -1 \<and> errcode_is_failure err then Some (finish_error nse err p, -1)
         else if buflen = 0 then
           let p = IOD_PROPSET i IOD_EOF (upd_event nse (\<lambda>e. e\<lparr>event_done := True, e_eof := True\<rparr>) p);
               len = fs_length (iobuf (nevents p nse))
           in if len > 0 then Some (upd_event nse (\<lambda>e. e\<lparr>e_status := NSE_STATUS_SUCCESS\<rparr>) p, len - startlen)
              else Some (upd_event nse (\<lambda>e. e\<lparr>e_status := NSE_STATUS_EOF\<rparr>) p, 0)
         else Some (p, fs_length (iobuf (nevents p nse)) - startlen)
   }"

text \<open>The count of line ends stops at \<open>num\<close>; \<open>str\<close> is the text read so far, from its last character on.\<close>

fun count_lines :: "string \<Rightarrow> int \<Rightarrow> int \<Rightarrow> int" where
  "count_lines [] num cnt = cnt"
| "count_lines (c # cs) num cnt =
     (if c = CHR 0x0A then if cnt + 1 \<ge> num then cnt + 1 else count_lines cs num (cnt + 1)
      else count_lines cs num cnt)"

definition enough_read :: "nevent \<Rightarrow> bool option" where
  "enough_read e =
     (case read_type e of
        NSOCK_READ \<Rightarrow> Some True
      | NSOCK_READBYTES \<Rightarrow> Some (fs_length (iobuf e) \<ge> read_num e)
      | NSOCK_READLINES \<Rightarrow> do {
          str \<leftarrow> fs_str (iobuf e);
          assert (fs_length (iobuf e) \<le> int (length str));
          Some (count_lines (rev (take (nat (fs_length (iobuf e))) str)) (read_num e) 0 \<ge> read_num e)
        })"

definition handle_read_result :: "'c npool \<Rightarrow> nat \<Rightarrow> nse_status \<Rightarrow> 'c npool option" where
  "handle_read_result p nse status = do {
     p \<leftarrow> (if status = NSE_STATUS_TIMEOUT then
             Some (finish_event nse (if fs_length (iobuf (nevents p nse)) > 0 then NSE_STATUS_SUCCESS
                                     else NSE_STATUS_TIMEOUT) p)
           else if status = NSE_STATUS_CANCELLED then Some (finish_event nse status p)
           else if status = NSE_STATUS_SUCCESS then do {
             (p, rc) \<leftarrow> do_actual_read p nse;
             if rc > 0 then do {
               i \<leftarrow> e_iod (nevents p nse);
               let p = upd_iod i (\<lambda>n. n\<lparr>read_count := read_count n + of_int rc\<rparr>) p;
               enough \<leftarrow> enough_read (nevents p nse);
               Some (if enough then finish_event nse NSE_STATUS_SUCCESS p else p)
             } else Some p
           } else None);
     if event_done (nevents p nse) then do {
       i \<leftarrow> e_iod (nevents p nse);
       if i_sd (niods p i) \<ge> 0 then do {
         (p, ev) \<leftarrow> socket_count_read_dec i p;
         update_events i p EV_NONE ev
       } else Some p
     } else Some p
   }"

section \<open>Delivering events\<close>

text \<open>\<open>iod->ssl\<close> is always \<open>NULL\<close>, so a successful SSL connection is refused.\<close>

definition process_event :: "'c handlers \<Rightarrow> 'c npool \<Rightarrow> nat \<Rightarrow> int \<Rightarrow> 'c npool option" where
  "process_event H p nse ev = do {
     let match_r = ev AND EV_READ;
     let match_w = ev AND EV_WRITE;
     let match_x = ev AND EV_EXCEPT;
     p \<leftarrow> (if event_done (nevents p nse) then Some p
           else case e_type (nevents p nse) of
             NSE_TYPE_READ \<Rightarrow> do {
               p \<leftarrow> (if match_r \<noteq> 0 \<or> match_x \<noteq> 0 then handle_read_result p nse NSE_STATUS_SUCCESS else Some p);
               if event_timedout p nse then handle_read_result p nse NSE_STATUS_TIMEOUT else Some p
             }
           | NSE_TYPE_WRITE \<Rightarrow> do {
               p \<leftarrow> (if match_w \<noteq> 0 \<or> match_x \<noteq> 0 then handle_write_result p nse NSE_STATUS_SUCCESS else Some p);
               if event_timedout p nse then handle_write_result p nse NSE_STATUS_TIMEOUT else Some p
             }
           | NSE_TYPE_TIMER \<Rightarrow>
               Some (if event_timedout p nse then handle_timer_result p nse NSE_STATUS_SUCCESS else p)
           | NSE_TYPE_PCAP_READ \<Rightarrow> None
           | _ \<Rightarrow> do {
               p \<leftarrow> (if ev \<noteq> EV_NONE then handle_connect_result p nse NSE_STATUS_SUCCESS else Some p);
               if event_timedout p nse then handle_connect_result p nse NSE_STATUS_TIMEOUT else Some p
             });
     if event_done (nevents p nse) then do {
       assert (\<not> (e_type (nevents p nse) = NSE_TYPE_CONNECT_SSL \<and> e_status (nevents p nse) = NSE_STATUS_SUCCESS));
       event_dispatch_and_delete H p nse True
     } else Some p
   }"

text \<open>The inner loop of \<open>process_iod_events\<close>; \<open>lst\<close> is the last element of the list when the loop started.\<close>

partial_function (option) iod_list_loop ::
  "'c handlers \<Rightarrow> evkind \<Rightarrow> nat \<Rightarrow> int \<Rightarrow> nat option \<Rightarrow> 'c npool \<Rightarrow> nat option \<Rightarrow> 'c npool option" where
  "iod_list_loop H k nsi ev lst p current =
     (case current of
        None \<Rightarrow> Some p
      | Some nse \<Rightarrow> do {
          prev \<leftarrow> lnode_prev (evlist k p) nse;
          if prev = lst \<or> e_iod (nevents p nse) \<noteq> Some nsi then Some p
          else do {
            p \<leftarrow> process_event H p nse ev;
            nxt \<leftarrow> lnode_next (evlist k p) nse;
            p \<leftarrow> (if event_done (nevents p nse) then nevent_unref p nse else Some p);
            iod_list_loop H k nsi ev lst p nxt
          }
        })"

definition iod_list :: "'c handlers \<Rightarrow> evkind \<Rightarrow> nat \<Rightarrow> int \<Rightarrow> 'c npool \<Rightarrow> 'c npool option" where
  "iod_list H k nsi ev p = iod_list_loop H k nsi ev (list_last (evlist k p)) p (first_ev k (niods p nsi))"

definition process_iod_events :: "'c handlers \<Rightarrow> 'c npool \<Rightarrow> nat \<Rightarrow> int \<Rightarrow> 'c npool option" where
  "process_iod_events H p nsi ev = do {
     p \<leftarrow> iod_list H Connects nsi ev p;
     p \<leftarrow> iod_list H Reads nsi ev p;
     iod_list H Writes nsi ev p
   }"

partial_function (option) process_expired_events :: "'c handlers \<Rightarrow> 'c npool \<Rightarrow> 'c npool option" where
  "process_expired_events H p = do {
     hnode \<leftarrow> gh_heap_min (timer_heap p);
     case hnode of
       None \<Rightarrow> Some p
     | Some nse \<Rightarrow>
         if \<not> event_timedout p nse then Some p
         else do {
           p \<leftarrow> process_event H p nse EV_NONE;
           assert (event_done (nevents p nse));
           p \<leftarrow> nevent_unref p nse;
           process_expired_events H p
         }
   }"

definition nsock_pool_add_event :: "'c handlers \<Rightarrow> 'c npool \<Rightarrow> nat \<Rightarrow> 'c npool option" where
  "nsock_pool_add_event H p nse = do {
     let p = p\<lparr>events_pending := events_pending p + 1\<rparr>;
     p \<leftarrow> (if e_type (nevents p nse) = NSE_TYPE_READ then do {
             i \<leftarrow> e_iod (nevents p nse);
             Some (if IOD_PROPGET p i IOD_EOF
                   then upd_event nse (\<lambda>e. e\<lparr>e_eof := True, event_done := True, e_status := NSE_STATUS_EOF\<rparr>) p
                   else p)
           } else Some p);
     if event_done (nevents p nse) then do {
       p \<leftarrow> event_dispatch_and_delete H p nse True;
       Some (p\<lparr>free_events := free_events p @ [nse]\<rparr>)
     } else do {
       p \<leftarrow> (if tv_sec (e_timeout (nevents p nse)) \<noteq> 0
             then do { h \<leftarrow> gh_heap_push (timer_heap p) nse; Some (p\<lparr>expirables := h\<rparr>) }
             else Some p);
       case e_type (nevents p nse) of
         NSE_TYPE_READ \<Rightarrow> do {
           i \<leftarrow> e_iod (nevents p nse);
           assert (i_sd (niods p i) \<ge> 0);
           (p, _) \<leftarrow> socket_count_read_inc i p;
           p \<leftarrow> update_events i p EV_READ EV_NONE;
           iod_add_event i p nse
         }
       | NSE_TYPE_WRITE \<Rightarrow> do {
           i \<leftarrow> e_iod (nevents p nse);
           assert (i_sd (niods p i) \<ge> 0);
           (p, _) \<leftarrow> socket_count_write_inc i p;
           p \<leftarrow> update_events i p EV_WRITE EV_NONE;
           iod_add_event i p nse
         }
       | NSE_TYPE_TIMER \<Rightarrow> Some p
       | NSE_TYPE_PCAP_READ \<Rightarrow> None
       | _ \<Rightarrow> do {
           i \<leftarrow> e_iod (nevents p nse);
           assert (i_sd (niods p i) \<ge> 0);
           (p, _) \<leftarrow> socket_count_read_inc i p;
           (p, _) \<leftarrow> socket_count_write_inc i p;
           p \<leftarrow> update_events i p (EV_READ OR EV_WRITE) EV_NONE;
           iod_add_event i p nse
         }
     }
   }"

section \<open>Cancelling\<close>

definition nevent_delete :: "'c handlers \<Rightarrow> 'c npool \<Rightarrow> nat \<Rightarrow> bool \<Rightarrow> ('c npool \<times> bool) option" where
  "nevent_delete H p nse notify =
     (if event_done (nevents p nse) then Some (p, False)
      else do {
        p \<leftarrow> (case e_type (nevents p nse) of
                NSE_TYPE_READ \<Rightarrow> handle_read_result p nse NSE_STATUS_CANCELLED
              | NSE_TYPE_WRITE \<Rightarrow> handle_write_result p nse NSE_STATUS_CANCELLED
              | NSE_TYPE_TIMER \<Rightarrow> Some (handle_timer_result p nse NSE_STATUS_CANCELLED)
              | NSE_TYPE_PCAP_READ \<Rightarrow> None
              | _ \<Rightarrow> handle_connect_result p nse NSE_STATUS_CANCELLED);
        assert (event_done (nevents p nse));
        p \<leftarrow> nevent_unref p nse;
        p \<leftarrow> event_dispatch_and_delete H p nse notify;
        Some (p, True)
      })"

text \<open>The search of the heap, over the positions still to be looked at.\<close>

fun find_timer :: "'c npool \<Rightarrow> u64 \<Rightarrow> nat list \<Rightarrow> nat option option" where
  "find_timer p ident [] = Some None"
| "find_timer p ident (j # js) =
     (case gh_heap_find (timer_heap p) j of
        Some (Some nse) \<Rightarrow> if e_id (nevents p nse) = ident then Some (Some nse) else find_timer p ident js
      | _ \<Rightarrow> None)"

definition nsock_event_cancel :: "'c handlers \<Rightarrow> 'c npool \<Rightarrow> u64 \<Rightarrow> bool \<Rightarrow> ('c npool \<times> bool) option" where
  "nsock_event_cancel H p ident notify = do {
     type \<leftarrow> get_event_id_type ident;
     nse \<leftarrow> (if type = NSE_TYPE_TIMER then find_timer p ident [0..<gh_heap_count (expirables p)]
             else do {
               k \<leftarrow> kind_of type;
               Some (find (\<lambda>e. e_id (nevents p e) = ident) (evlist k p))
             });
     case nse of
       None \<Rightarrow> Some (p, False)
     | Some e \<Rightarrow> nevent_delete H p e notify
   }"

section \<open>Descriptors\<close>

definition niod_zero :: niod where
  "niod_zero = \<lparr>i_sd = 0, i_events_pending = 0, first_connect = None, first_read = None, first_write = None,
     readsd_count = 0, writesd_count = 0, watched_events = 0, i_state = NSIOD_STATE_DELETED, i_peer = None,
     i_flags = 0, i_hostname = None, i_id = 0, read_count = 0, write_count = 0, i_userdata = 0\<rparr>"

definition alloc_iod :: "'c npool \<Rightarrow> 'c npool \<times> nat" where
  "alloc_iod p =
     (case free_iods p of
        i # is \<Rightarrow> (p\<lparr>free_iods := is\<rparr>, i)
      | [] \<Rightarrow> (p\<lparr>next_address := next_address p + 1\<rparr>, next_address p))"

definition dup_socket :: "'c npool \<Rightarrow> 'c npool \<times> int" where
  "dup_socket p = (case dups (os p) of [] \<Rightarrow> (p, -1) | d # ds \<Rightarrow> (p\<lparr>os := (os p)\<lparr>dups := ds\<rparr>\<rparr>, d))"

definition next_iod_id :: "'c npool \<Rightarrow> 'c npool \<times> u64" where
  "next_iod_id p =
     (let n = next_iod_serial p; p = p\<lparr>next_iod_serial := n + 1\<rparr>
      in if n = 0 then (p\<lparr>next_iod_serial := next_iod_serial p + 1\<rparr>, next_iod_serial p) else (p, n))"

text \<open>The result \<open>None\<close> in the pair is \<open>NULL\<close>. No proxy chain is set.\<close>

definition nsock_iod_new2 :: "'c npool \<Rightarrow> int \<Rightarrow> nat \<Rightarrow> 'c npool \<times> nat option" where
  "nsock_iod_new2 p sd userdata =
     (let (p, nsi) = alloc_iod p;
          p = upd_iod nsi (\<lambda>_. niod_zero) p;
          (p, ok) =
            (if sd = -1 then (upd_iod nsi (\<lambda>n. n\<lparr>i_sd := -1, i_state := NSIOD_STATE_INITIAL\<rparr>) p, True)
             else if sd = 0 then
               (upd_iod nsi (\<lambda>n. n\<lparr>i_state := NSIOD_STATE_UNKNOWN\<rparr>)
                  (IOD_PROPSET nsi IOD_STDIN (upd_iod nsi (\<lambda>n. n\<lparr>i_sd := 0\<rparr>) p)), True)
             else
               let (p, d) = dup_socket p
               in (upd_iod nsi (\<lambda>n. n\<lparr>i_sd := d, i_state := NSIOD_STATE_UNKNOWN\<rparr>) p, d \<noteq> -1))
      in if \<not> ok then (p, None)
         else
           let p = upd_iod nsi (\<lambda>n. n\<lparr>first_connect := None, first_read := None, first_write := None,
                     readsd_count := 0, write_count := 0, i_userdata := userdata, i_flags := 0,
                     read_count := 0, write_count := 0, i_hostname := None\<rparr>) p;
               (p, ident) = next_iod_id p;
               p = upd_iod nsi (\<lambda>n. n\<lparr>i_id := ident\<rparr>) p
           in (p\<lparr>active_iods := active_iods p @ [nsi]\<rparr>, Some nsi))"

definition nsock_iod_new :: "'c npool \<Rightarrow> nat \<Rightarrow> 'c npool \<times> nat option" where
  "nsock_iod_new p userdata = nsock_iod_new2 p (-1) userdata"

text \<open>The loop over the events of one list, from the first event of the descriptor on.\<close>

partial_function (option) iod_delete_loop ::
  "'c handlers \<Rightarrow> evkind \<Rightarrow> nat \<Rightarrow> bool \<Rightarrow> 'c npool \<Rightarrow> nat option \<Rightarrow> 'c npool option" where
  "iod_delete_loop H k nsi notify p current =
     (case current of
        None \<Rightarrow> Some p
      | Some nse \<Rightarrow> do {
          nxt \<leftarrow> lnode_next (evlist k p) nse;
          if e_iod (nevents p nse) \<noteq> Some nsi then Some p
          else do {
            (p, _) \<leftarrow> nevent_delete H p nse notify;
            iod_delete_loop H k nsi notify p nxt
          }
        })"

fun iod_delete_lists ::
  "'c handlers \<Rightarrow> nat \<Rightarrow> bool \<Rightarrow> (evkind \<times> nat option) list \<Rightarrow> 'c npool \<Rightarrow> 'c npool option" where
  "iod_delete_lists H nsi notify [] p = Some p"
| "iod_delete_lists H nsi notify ((k, first) # ks) p =
     (if i_events_pending (niods p nsi) > 0 then do {
        p \<leftarrow> iod_delete_loop H k nsi notify p first;
        iod_delete_lists H nsi notify ks p
      } else Some p)"

definition nsock_iod_delete :: "'c handlers \<Rightarrow> 'c npool \<Rightarrow> nat \<Rightarrow> nsock_del_mode \<Rightarrow> 'c npool option" where
  "nsock_iod_delete H p nsi pending_response =
     (if i_state (niods p nsi) = NSIOD_STATE_DELETED then Some p
      else do {
        p \<leftarrow> (if i_events_pending (niods p nsi) > 0 then do {
                assert (pending_response \<noteq> NSOCK_PENDING_ERROR);
                iod_delete_lists H nsi (pending_response = NSOCK_PENDING_NOTIFY)
                  [(Connects, first_connect (niods p nsi)), (Reads, first_read (niods p nsi)),
                   (Writes, first_write (niods p nsi))] p
              } else Some p);
        assert (i_events_pending (niods p nsi) = 0);
        p \<leftarrow> (if i_sd (niods p nsi) \<ge> 0 then socket_count_zero nsi p else Some p);
        let p = (if i_sd (niods p nsi) \<ge> 0 \<and> \<not> IOD_PROPGET p nsi IOD_STDIN
                 then upd_iod nsi (\<lambda>n. n\<lparr>i_sd := -1\<rparr>)
                        (p\<lparr>os := (os p)\<lparr>closed := closed (os p) @ [i_sd (niods p nsi)]\<rparr>\<rparr>)
                 else p);
        Some (upd_iod nsi (\<lambda>n. n\<lparr>i_state := NSIOD_STATE_DELETED, i_userdata := 0\<rparr>) p)
      })"

definition nsock_iod_get_peerport :: "'c npool \<Rightarrow> nat \<Rightarrow> int" where
  "nsock_iod_get_peerport p nsi =
     (case i_peer (niods p nsi) of Some (Sin a port) \<Rightarrow> uint port | Some (Sin6 a port) \<Rightarrow> uint port | _ \<Rightarrow> -1)"

section \<open>Requests\<close>

definition nsock_timer_create :: "'c handlers \<Rightarrow> 'c npool \<Rightarrow> nat \<Rightarrow> int \<Rightarrow> nat \<Rightarrow> ('c npool \<times> u64) option" where
  "nsock_timer_create H p handler timeout_msecs userdata = do {
     (p, nse) \<leftarrow> event_new p NSE_TYPE_TIMER None timeout_msecs handler userdata;
     p \<leftarrow> nsock_pool_add_event H p nse;
     Some (p, e_id (nevents p nse))
   }"

definition nsock_readlines ::
  "'c handlers \<Rightarrow> 'c npool \<Rightarrow> nat \<Rightarrow> nat \<Rightarrow> int \<Rightarrow> nat \<Rightarrow> int \<Rightarrow> ('c npool \<times> u64) option" where
  "nsock_readlines H p nsi handler timeout_msecs userdata nlines = do {
     (p, nse) \<leftarrow> event_new p NSE_TYPE_READ (Some nsi) timeout_msecs handler userdata;
     let p = upd_event nse (\<lambda>e. e\<lparr>read_type := NSOCK_READLINES, read_num := nlines\<rparr>) p;
     p \<leftarrow> nsock_pool_add_event H p nse;
     Some (p, e_id (nevents p nse))
   }"

definition nsock_readbytes ::
  "'c handlers \<Rightarrow> 'c npool \<Rightarrow> nat \<Rightarrow> nat \<Rightarrow> int \<Rightarrow> nat \<Rightarrow> int \<Rightarrow> ('c npool \<times> u64) option" where
  "nsock_readbytes H p nsi handler timeout_msecs userdata nbytes = do {
     (p, nse) \<leftarrow> event_new p NSE_TYPE_READ (Some nsi) timeout_msecs handler userdata;
     let p = upd_event nse (\<lambda>e. e\<lparr>read_type := NSOCK_READBYTES, read_num := nbytes\<rparr>) p;
     p \<leftarrow> nsock_pool_add_event H p nse;
     Some (p, e_id (nevents p nse))
   }"

definition nsock_read ::
  "'c handlers \<Rightarrow> 'c npool \<Rightarrow> nat \<Rightarrow> nat \<Rightarrow> int \<Rightarrow> nat \<Rightarrow> ('c npool \<times> u64) option" where
  "nsock_read H p nsi handler timeout_msecs userdata = do {
     (p, nse) \<leftarrow> event_new p NSE_TYPE_READ (Some nsi) timeout_msecs handler userdata;
     let p = upd_event nse (\<lambda>e. e\<lparr>read_type := NSOCK_READ\<rparr>) p;
     p \<leftarrow> nsock_pool_add_event H p nse;
     Some (p, e_id (nevents p nse))
   }"

text \<open>The result of \<open>fs_cat\<close> is ignored by the code.\<close>

definition append_data :: "'c npool \<Rightarrow> nat \<Rightarrow> string \<Rightarrow> int \<Rightarrow> 'c npool option" where
  "append_data p nse data datalen = do {
     (fs, _) \<leftarrow> fs_cat (iobuf (nevents p nse)) data datalen;
     Some (upd_event nse (\<lambda>e. e\<lparr>iobuf := fs\<rparr>) p)
   }"

definition nsock_write ::
  "'c handlers \<Rightarrow> 'c npool \<Rightarrow> nat \<Rightarrow> nat \<Rightarrow> int \<Rightarrow> nat \<Rightarrow> string \<Rightarrow> int \<Rightarrow> ('c npool \<times> u64) option" where
  "nsock_write H p nsi handler timeout_msecs userdata data datalen = do {
     (p, nse) \<leftarrow> event_new p NSE_TYPE_WRITE (Some nsi) timeout_msecs handler userdata;
     let p = upd_event nse (\<lambda>e. e\<lparr>dest := None\<rparr>) p;
     p \<leftarrow> append_data p nse data (if datalen < 0 then int (length (takeWhile (\<lambda>c. c \<noteq> NUL) data)) else datalen);
     p \<leftarrow> nsock_pool_add_event H p nse;
     Some (p, e_id (nevents p nse))
   }"

fun set_port :: "u16 \<Rightarrow> sockaddr \<Rightarrow> sockaddr" where
  "set_port port (Sin a _) = Sin a port"
| "set_port port (Sin6 a _) = Sin6 a port"
| "set_port port (Sun path) = Sun path"

definition nsock_sendto ::
  "'c handlers \<Rightarrow> 'c npool \<Rightarrow> nat \<Rightarrow> nat \<Rightarrow> int \<Rightarrow> nat \<Rightarrow> sockaddr \<Rightarrow> u16 \<Rightarrow> string \<Rightarrow> int \<Rightarrow>
    ('c npool \<times> u64) option" where
  "nsock_sendto H p nsi handler timeout_msecs userdata saddr port data datalen = do {
     (p, nse) \<leftarrow> event_new p NSE_TYPE_WRITE (Some nsi) timeout_msecs handler userdata;
     let saddr = set_port port saddr;
     let p = upd_event nse (\<lambda>e. e\<lparr>dest := Some saddr\<rparr>) p;
     let p = upd_iod nsi (\<lambda>n. n\<lparr>i_peer := Some saddr\<rparr>) p;
     p \<leftarrow> append_data p nse data (if datalen < 0 then int (length (takeWhile (\<lambda>c. c \<noteq> NUL) data)) else datalen);
     p \<leftarrow> nsock_pool_add_event H p nse;
     Some (p, e_id (nevents p nse))
   }"

text \<open>
  The text the format produces is an argument: \<open>None\<close> if \<open>Vsnprintf\<close> fails. A text of any length fits, in the
  local buffer or in one that is allocated for it.
\<close>

definition nsock_printf ::
  "'c handlers \<Rightarrow> 'c npool \<Rightarrow> nat \<Rightarrow> nat \<Rightarrow> int \<Rightarrow> nat \<Rightarrow> string option \<Rightarrow> ('c npool \<times> u64) option" where
  "nsock_printf H p nsi handler timeout_msecs userdata formatted = do {
     (p, nse) \<leftarrow> event_new p NSE_TYPE_WRITE (Some nsi) timeout_msecs handler userdata;
     p \<leftarrow> (case formatted of
             None \<Rightarrow> Some (finish_error nse EMSGSIZE p)
           | Some s \<Rightarrow> if s = [] then Some (finish_event nse NSE_STATUS_SUCCESS p)
                       else append_data p nse s (int (length s)));
     p \<leftarrow> nsock_pool_add_event H p nse;
     Some (p, e_id (nevents p nse))
   }"

section \<open>The loop\<close>

definition next_expirable_event :: "'c npool \<Rightarrow> nat option option" where
  "next_expirable_event p = gh_heap_min (timer_heap p)"

definition get_evmask :: "'c npool \<Rightarrow> nat \<Rightarrow> int option" where
  "get_evmask p nsi = do {
     let sinfo = engine_data p;
     let sd = i_sd (niods p nsi);
     assert (sd \<ge> 0);
     r \<leftarrow> checked_fd_isset sd (fds_results_r sinfo);
     w \<leftarrow> checked_fd_isset sd (fds_results_w sinfo);
     x \<leftarrow> checked_fd_isset sd (fds_results_x sinfo);
     Some ((if r then EV_READ else 0) OR (if w then EV_WRITE else 0) OR (if x then EV_EXCEPT else 0))
   }"

partial_function (option) active_iods_loop ::
  "'c handlers \<Rightarrow> nat option \<Rightarrow> 'c npool \<Rightarrow> nat option \<Rightarrow> 'c npool option" where
  "active_iods_loop H lst p current =
     (case current of
        None \<Rightarrow> Some p
      | Some nsi \<Rightarrow> do {
          prev \<leftarrow> lnode_prev (active_iods p) nsi;
          if prev = lst then Some p
          else do {
            p \<leftarrow> (if i_state (niods p nsi) \<noteq> NSIOD_STATE_DELETED \<and> i_events_pending (niods p nsi) \<noteq> 0
                  then do { ev \<leftarrow> get_evmask p nsi; process_iod_events H p nsi ev }
                  else Some p);
            nxt \<leftarrow> lnode_next (active_iods p) nsi;
            p \<leftarrow> (if i_state (niods p nsi) = NSIOD_STATE_DELETED
                  then do {
                    is \<leftarrow> list_remove (active_iods p) nsi;
                    Some (p\<lparr>active_iods := is, free_iods := nsi # free_iods p\<rparr>)
                  } else Some p);
            active_iods_loop H lst p nxt
          }
        })"

definition iterate_through_event_lists :: "'c handlers \<Rightarrow> 'c npool \<Rightarrow> 'c npool option" where
  "iterate_through_event_lists H p = do {
     p \<leftarrow> active_iods_loop H (list_last (active_iods p)) p
           (case active_iods p of [] \<Rightarrow> None | i # is \<Rightarrow> Some i);
     process_expired_events H p
   }"

text \<open>The conversion of a difference of times to \<open>int\<close>.\<close>

definition to_int :: "int \<Rightarrow> int" where
  "to_int n = signed_take_bit 31 n"

definition event_msecs :: "'c npool \<Rightarrow> int option" where
  "event_msecs p = do {
     nse \<leftarrow> next_expirable_event p;
     Some (case nse of
             None \<Rightarrow> -1
           | Some e \<Rightarrow> max 0 (to_int (TIMEVAL_MSEC_SUBTRACT (e_timeout (nevents p e)) (nsock_tod p))))
   }"

definition combined_msecs :: "int \<Rightarrow> int \<Rightarrow> int" where
  "combined_msecs ev msec_timeout = sint (min (word_of_int ev :: 32 word) (word_of_int msec_timeout))"

text \<open>
  The waiting loop of \<open>select_loop\<close>, which repeats \<open>select\<close> after a signal; \<open>msecs\<close> only says how long
  \<open>select\<close> or \<open>usleep\<close> may wait. The result is the error, if there is one.
\<close>

fun select_wait ::
  "select_answer list \<Rightarrow> nat \<Rightarrow> int \<Rightarrow> 'c npool \<Rightarrow> (select_answer list \<times> 'c npool \<times> int option) option" where
  "select_wait as iod_count msec_timeout p = do {
     ev \<leftarrow> event_msecs p;
     let msecs = combined_msecs ev msec_timeout;
     if iod_count > 0 then do {
       assert (msecs \<ge> -1);
       let s = engine_data p;
       case as of
         [] \<Rightarrow> Some ([], gettimeofday (p\<lparr>engine_data := s\<lparr>fds_results_r := {}, fds_results_w := {},
                 fds_results_x := {}\<rparr>\<rparr>), None)
       | Ready r w x # as \<Rightarrow>
           Some (as, gettimeofday (p\<lparr>engine_data := s\<lparr>fds_results_r := r \<inter> fds_master_r s,
             fds_results_w := w \<inter> fds_master_w s, fds_results_x := x \<inter> fds_master_x s\<rparr>\<rparr>), None)
       | Select_error err # as \<Rightarrow>
           (let p = gettimeofday (p\<lparr>engine_data := s\<lparr>fds_results_r := fds_master_r s,
                      fds_results_w := fds_master_w s, fds_results_x := fds_master_x s\<rparr>\<rparr>)
            in if err = EINTR then select_wait as iod_count msec_timeout p else Some (as, p, Some err))
     } else Some (as, gettimeofday p, None)
   }"

definition select_loop :: "'c handlers \<Rightarrow> 'c npool \<Rightarrow> int \<Rightarrow> ('c npool \<times> int) option" where
  "select_loop H p msec_timeout = do {
     assert (msec_timeout \<ge> -1);
     if events_pending p = 0 then Some (p, 0)
     else do {
       let iod_count = length (active_iods p) - nat (num_pcap_nonselect (engine_data p));
       (as, p, err) \<leftarrow> select_wait (selects (os p)) iod_count msec_timeout p;
       let p = p\<lparr>os := (os p)\<lparr>selects := as\<rparr>\<rparr>;
       case err of
         Some e \<Rightarrow> Some (p\<lparr>p_errnum := e\<rparr>, -1)
       | None \<Rightarrow> do {
           p \<leftarrow> iterate_through_event_lists H p;
           Some (p, 1)
         }
     }
   }"

partial_function (option) nsock_loop_rounds ::
  "'c handlers \<Rightarrow> timeval \<Rightarrow> int \<Rightarrow> nat \<Rightarrow> 'c npool \<Rightarrow> ('c npool \<times> nsock_loopstatus) option" where
  "nsock_loop_rounds H loop_timeout msec_timeout loopnum p =
     (if quit p then Some (p\<lparr>quit := False\<rparr>, NSOCK_LOOP_QUIT)
      else if events_pending p = 0 then Some (p, NSOCK_LOOP_NOEVENTS)
      else
        let msecs_left = (if msec_timeout \<ge> 0
              then max 0 (to_int (TIMEVAL_MSEC_SUBTRACT loop_timeout (nsock_tod p))) else msec_timeout)
        in if msec_timeout \<ge> 0 \<and> msecs_left = 0 \<and> loopnum > 0 then Some (p, NSOCK_LOOP_TIMEOUT)
           else do {
             (p, rc) \<leftarrow> select_loop H p msecs_left;
             if rc = -1 then Some (p, NSOCK_LOOP_ERROR)
             else nsock_loop_rounds H loop_timeout msec_timeout (loopnum + 1) (gettimeofday p)
           })"

definition nsock_loop :: "'c handlers \<Rightarrow> 'c npool \<Rightarrow> int \<Rightarrow> ('c npool \<times> nsock_loopstatus) option" where
  "nsock_loop H p msec_timeout =
     (let p = gettimeofday p
      in if msec_timeout < -1 then Some (p\<lparr>p_errnum := EINVAL\<rparr>, NSOCK_LOOP_ERROR)
         else nsock_loop_rounds H (TIMEVAL_MSEC_ADD (nsock_tod p) msec_timeout) msec_timeout 0 p)"

definition nsock_loop_quit :: "'c npool \<Rightarrow> 'c npool" where
  "nsock_loop_quit p = p\<lparr>quit := True\<rparr>"

definition nsock_gettimeofday :: "'c npool \<Rightarrow> 'c npool \<times> timeval" where
  "nsock_gettimeofday p = (let p = (if tv_sec (nsock_tod p) = 0 then gettimeofday p else p) in (p, nsock_tod p))"

section \<open>Pools\<close>

text \<open>
  The stores and the answers of the operating system are those of the process; a new pool uses no
  structure yet. The index field of a node of the heap is undefined until \<open>event_new\<close> has cleared it; here
  it starts as invalid.
\<close>

definition nsock_pool_new :: "'c \<Rightarrow> sys_answers \<Rightarrow> timeval \<Rightarrow> 'c npool option" where
  "nsock_pool_new userdata answers now = do {
     (h, _) \<leftarrow> gh_heap_init \<lparr>cmp_op = (\<lambda>_ _. False), count = 0, highwm = 0, slots = [], nindex = (\<lambda>_. GH_HEAP_GUARD)\<rparr>
                 (Some (expirable_cmp (\<lambda>_. \<lparr>tv_sec = 0, tv_usec = 0\<rparr>)));
     Some (gettimeofday \<lparr>p_userdata = userdata, engine_data = select_init, connect_events = [], read_events = [],
       write_events = [], expirables = h, active_iods = [], free_iods = [], free_events = [],
       events_pending = 0, next_event_serial = 1, next_iod_serial = 0, p_errnum = 0, quit = False,
       nevents = (\<lambda>_. nevent_zero), niods = (\<lambda>_. niod_zero), next_address = 0, nsock_tod = now, os = answers\<rparr>)
   }"

definition kill_event :: "'c handlers \<Rightarrow> 'c npool \<Rightarrow> nat \<Rightarrow> 'c npool option" where
  "kill_event H p nse = do {
     let p = upd_event nse (\<lambda>e. e\<lparr>e_status := NSE_STATUS_KILL\<rparr>) p;
     H (e_handler (nevents p nse)) p nse
   }"

partial_function (option) kill_list :: "'c handlers \<Rightarrow> evkind \<Rightarrow> 'c npool \<Rightarrow> 'c npool option" where
  "kill_list H k p =
     (case evlist k p of
        [] \<Rightarrow> Some p
      | nse # es \<Rightarrow> do {
          p \<leftarrow> kill_event H (set_evlist k es p) nse;
          p \<leftarrow> (case e_iod (nevents p nse) of
                  None \<Rightarrow> Some p
                | Some i \<Rightarrow> do {
                    let p = upd_iod i (\<lambda>n. n\<lparr>i_events_pending := i_events_pending n - 1\<rparr>) p;
                    assert (i_events_pending (niods p i) \<ge> 0);
                    Some p
                  });
          let p = event_delete p nse;
          kill_list H k (p\<lparr>free_events := free_events p @ [nse]\<rparr>)
        })"

partial_function (option) kill_timers :: "'c handlers \<Rightarrow> 'c npool \<Rightarrow> 'c npool option" where
  "kill_timers H p =
     (if gh_heap_count (expirables p) > 0 then do {
        (h, hnode) \<leftarrow> gh_heap_pop (timer_heap p);
        nse \<leftarrow> hnode;
        let p = p\<lparr>expirables := h\<rparr>;
        p \<leftarrow> (if e_type (nevents p nse) = NSE_TYPE_TIMER then do {
                p \<leftarrow> kill_event H p nse;
                let p = event_delete p nse;
                Some (p\<lparr>free_events := free_events p @ [nse]\<rparr>)
              } else Some p);
        kill_timers H p
      } else Some p)"

partial_function (option) delete_iods :: "'c handlers \<Rightarrow> 'c npool \<Rightarrow> nat option \<Rightarrow> 'c npool option" where
  "delete_iods H p current =
     (case current of
        None \<Rightarrow> Some p
      | Some nsi \<Rightarrow> do {
          nxt \<leftarrow> lnode_next (active_iods p) nsi;
          p \<leftarrow> nsock_iod_delete H p nsi NSOCK_PENDING_ERROR;
          is \<leftarrow> list_remove (active_iods p) nsi;
          delete_iods H (p\<lparr>active_iods := is, free_iods := nsi # free_iods p\<rparr>) nxt
        })"

text \<open>The pool just before its memory and that of the free lists is given back.\<close>

definition nsock_pool_delete :: "'c handlers \<Rightarrow> 'c npool \<Rightarrow> 'c npool option" where
  "nsock_pool_delete H p = do {
     p \<leftarrow> kill_list H Connects p;
     p \<leftarrow> kill_list H Reads p;
     p \<leftarrow> kill_list H Writes p;
     p \<leftarrow> kill_timers H p;
     h \<leftarrow> gh_heap_free (expirables p);
     let p = p\<lparr>expirables := h\<rparr>;
     p \<leftarrow> delete_iods H p (case active_iods p of [] \<Rightarrow> None | i # is \<Rightarrow> Some i);
     Some (p\<lparr>free_iods := [], free_events := []\<rparr>)
   }"

declare iod_list_loop.simps [code] process_expired_events.simps [code] iod_delete_loop.simps [code]
  active_iods_loop.simps [code] nsock_loop_rounds.simps [code] kill_list.simps [code] kill_timers.simps [code]
  delete_iods.simps [code]

end
