(* ===== verification/Nsock_Ids.thy ===== *)
theory Nsock_Ids
  imports Nsock_Pool
begin

text \<open>
  The numbers of events: the type can be read off a number, no number is zero, and numbers repeat only after
  \<open>2\<^sup>6\<^sup>1 - 1\<close> events, when the serial number has wrapped around from its largest value to one.
\<close>

abbreviation (input) max_serial :: nat where "max_serial \<equiv> 2305843009213693951"

definition serial_ok :: "'c npool \<Rightarrow> bool" where
  "serial_ok p \<longleftrightarrow> 1 \<le> unat (next_event_serial p) \<and> unat (next_event_serial p) \<le> max_serial"

fun issue_ids :: "'c npool \<Rightarrow> nse_type list \<Rightarrow> 'c npool \<times> u64 list" where
  "issue_ids p [] = (p, [])"
| "issue_ids p (t # ts) =
     (let (p, ident) = get_new_event_id p t; (p, ids) = issue_ids p ts in (p, ident # ids))"

lemma type_code_less: "unat (type_code t) < 8"
  by (cases t) (simp_all add: type_code_def)

lemma id_value:
  assumes "unat s \<le> max_serial"
  shows "unat (push_bit 3 s OR type_code t) = unat s * 8 + unat (type_code t)" and
    "(push_bit 3 s OR type_code t) AND 7 = type_code t"
proof -
  have tc: "take_bit 3 (type_code t) = type_code t" by (cases t) (simp_all add: type_code_def)
  then have code: "\<not> bit (type_code t) n" if "3 \<le> n" for n
    using that bit_take_bit_iff [of 3 "type_code t" n] by simp
  have or: "push_bit 3 s OR type_code t = push_bit 3 s + type_code t"
    by (rule disjunctive_add_eq_or [symmetric]) (auto intro!: bit_eqI simp: bit_simps code)
  have "unat (push_bit 3 s) = unat s * 8"
    using assms by (simp add: push_bit_eq_mult unat_mult_lem [THEN iffD1] unat_word_ariths)
  then show "unat (push_bit 3 s OR type_code t) = unat s * 8 + unat (type_code t)"
    unfolding or using assms type_code_less [of t] by (simp add: unat_word_ariths)
  have "(push_bit 3 s OR type_code t) AND 7 = take_bit 3 (push_bit 3 s OR type_code t)"
    by (simp add: take_bit_eq_mask mask_eq_exp_minus_1)
  also have "\<dots> = type_code t" using tc by (simp add: take_bit_or take_bit_push_bit)
  finally show "(push_bit 3 s OR type_code t) AND 7 = type_code t" .
qed

lemma get_new_event_id_spec:
  assumes "serial_ok p" and "get_new_event_id p t = (q, ident)"
  shows "serial_ok q" "unat (next_event_serial q) = unat (next_event_serial p) mod max_serial + 1"
    "unat ident = unat (next_event_serial p) * 8 + unat (type_code t)" "get_event_id_type ident = Some t"
proof -
  define s where "s = next_event_serial p"
  have s: "1 \<le> unat s" "unat s \<le> max_serial" using assms(1) by (auto simp: serial_ok_def s_def)
  have eq: "s = 2305843009213693951 \<longleftrightarrow> unat s = max_serial" by (simp add: word_unat_eq_iff)
  have q: "next_event_serial q = (if unat s = max_serial then 1 else s + 1)"
      "ident = push_bit 3 s OR type_code t"
    using assms(2) by (auto simp: get_new_event_id_def Let_def s_def [symmetric] eq push_bit_eq_mult)
  have "unat (s + 1) = unat s + 1" using s by (simp add: unat_word_ariths)
  then show n: "unat (next_event_serial q) = unat (next_event_serial p) mod max_serial + 1"
    using s by (auto simp: q(1) s_def [symmetric])
  show "serial_ok q" unfolding serial_ok_def n by (simp add: Suc_le_eq)
  show "unat ident = unat (next_event_serial p) * 8 + unat (type_code t)"
    using id_value(1) [OF s(2)] by (simp add: q(2) s_def)
  show "get_event_id_type ident = Some t"
    using id_value(2) [OF s(2), of t] by (cases t) (simp_all add: get_event_id_type_def Let_def q(2) type_code_def)
qed

lemma serial_after:
  assumes "1 \<le> s" and "s \<le> m"
  shows "(s mod m + 1 - 1 + k) mod m = (s - 1 + Suc k) mod (m :: nat)"
proof (cases "s = m")
  case True
  then show ?thesis using assms by (simp add: mod_simps)
next
  case False
  then show ?thesis using assms by (simp add: mod_less)
qed

lemma mod_add_inj:
  assumes "i < m" and "j < m" and "(a + i) mod m = (a + j) mod (m :: nat)"
  shows "i = j"
proof -
  have "i = j" if "i \<le> j" "j < m" "(a + i) mod m = (a + j) mod m" for i j
  proof -
    have "m dvd j - i" using that mod_eq_dvd_iff_nat [of "a + i" "a + j" m] by simp
    then show ?thesis using that dvd_imp_le [of m "j - i"] by fastforce
  qed
  then show ?thesis using assms by (metis nat_le_linear)
qed

lemma issue_ids_spec:
  "serial_ok p \<Longrightarrow> issue_ids p ts = (q, ids) \<Longrightarrow> serial_ok q \<and> length ids = length ts \<and>
   (\<forall>k<length ts. unat (ids ! k) div 8 = (unat (next_event_serial p) - 1 + k) mod max_serial + 1 \<and>
      get_event_id_type (ids ! k) = Some (ts ! k))"
proof (induction ts arbitrary: p q ids)
  case (Cons t ts)
  obtain p1 x where x: "get_new_event_id p t = (p1, x)" by fastforce
  obtain p2 xs where xs: "issue_ids p1 ts = (p2, xs)" by fastforce
  note s = get_new_event_id_spec [OF Cons.prems(1) x]
  have ids: "ids = x # xs" "q = p2" using Cons.prems(2) x xs by simp_all
  have ok: "1 \<le> unat (next_event_serial p)" "unat (next_event_serial p) \<le> max_serial"
    using Cons.prems(1) by (auto simp: serial_ok_def)
  have head: "unat x div 8 = (unat (next_event_serial p) - 1) mod max_serial + 1"
    using ok type_code_less [of t] by (simp add: s(3))
  have step: "(unat (next_event_serial p1) - 1 + k) mod max_serial = (unat (next_event_serial p) - 1 + Suc k) mod max_serial" for k
    unfolding s(2) using serial_after [OF ok] by simp
  show ?case
    using Cons.IH [OF s(1) xs] head s(4) step by (auto simp: ids nth_Cons split: nat.split)
qed simp

text \<open>C39: for any types of events, the numbers issued in a row are not zero, tell the types, and are pairwise
  different as long as there are at most \<open>2\<^sup>6\<^sup>1 - 1\<close> of them, also when the serial number wraps around.\<close>

theorem event_ids_unique:
  assumes "serial_ok p" and "length ts \<le> max_serial" and "issue_ids p ts = (q, ids)"
  shows "serial_ok q \<and> length ids = length ts \<and> distinct ids \<and> 0 \<notin> set ids \<and>
    map get_event_id_type ids = map Some ts"
proof -
  note s = issue_ids_spec [OF assms(1,3)]
  let ?a = "unat (next_event_serial p) - 1"
  have k: "unat (ids ! k) div 8 = (?a + k) mod max_serial + 1" "get_event_id_type (ids ! k) = Some (ts ! k)"
    if "k < length ts" for k using s that by auto
  have inj: "i = j" if "i < max_serial" "j < max_serial" "(?a + i) mod max_serial = (?a + j) mod max_serial" for i j
    using mod_add_inj [OF that] .
  have "distinct ids"
  proof (unfold distinct_conv_nth, intro allI impI notI)
    fix i j assume ij: "i < length ids" "j < length ids" "i \<noteq> j" "ids ! i = ids ! j"
    then have len: "i < length ts" "j < length ts" using s by simp_all
    have "(?a + i) mod max_serial + 1 = unat (ids ! i) div 8" by (rule k(1) [OF len(1), symmetric])
    also have "\<dots> = unat (ids ! j) div 8" by (simp only: ij(4))
    also have "\<dots> = (?a + j) mod max_serial + 1" by (rule k(1) [OF len(2)])
    finally have "(?a + i) mod max_serial = (?a + j) mod max_serial" by (simp only: add_right_cancel)
    then have "i = j" by (rule inj [OF less_le_trans [OF len(1) assms(2)] less_le_trans [OF len(2) assms(2)]])
    then show False using ij(3) by simp
  qed
  moreover have "0 \<notin> set ids" using s k(1) by (fastforce simp: in_set_conv_nth)
  moreover have "map get_event_id_type ids = map Some ts" using s k(2) by (auto intro: nth_equalityI)
  ultimately show ?thesis using s by blast
qed

definition demo_pool :: "unit npool" where
  "demo_pool = \<lparr>p_userdata = (), engine_data = select_init, connect_events = [], read_events = [],
     write_events = [], expirables = \<lparr>cmp_op = (\<lambda>_ _. False), count = 0, highwm = 0, slots = [],
     nindex = (\<lambda>_. GH_HEAP_GUARD)\<rparr>, active_iods = [], free_iods = [], free_events = [], events_pending = 0,
     next_event_serial = 2305843009213693951, next_iod_serial = 0, p_errnum = 0, quit = False,
     nevents = (\<lambda>_. nevent_zero), niods = (\<lambda>_. niod_zero), next_address = 0,
     nsock_tod = \<lparr>tv_sec = 0, tv_usec = 0\<rparr>,
     os = \<lparr>clock = [], recvs = [], sends = [], so_errors = [], selects = [], dups = [], sent = [], closed = []\<rparr>\<rparr>"

theorem event_ids_unique_witness:
  "issue_ids demo_pool [NSE_TYPE_READ, NSE_TYPE_TIMER] =
     (demo_pool\<lparr>next_event_serial := 2\<rparr>, [18446744073709551610, 12]) \<and>
   serial_ok (demo_pool\<lparr>next_event_serial := 2\<rparr>) \<and> length [18446744073709551610, 12 :: u64] = length [NSE_TYPE_READ, NSE_TYPE_TIMER] \<and>
   distinct [18446744073709551610, 12 :: u64] \<and> 0 \<notin> set [18446744073709551610, 12 :: u64] \<and>
   map get_event_id_type [18446744073709551610, 12] = map Some [NSE_TYPE_READ, NSE_TYPE_TIMER]"
proof -
  have i: "issue_ids demo_pool [NSE_TYPE_READ, NSE_TYPE_TIMER] =
      (demo_pool\<lparr>next_event_serial := 2\<rparr>, [18446744073709551610, 12])"
    by (simp add: get_new_event_id_def demo_pool_def type_code_def Let_def push_bit_eq_mult)
  show ?thesis
    using event_ids_unique [OF _ _ i] i by (simp add: serial_ok_def demo_pool_def)
qed

end
