(* ===== verification/Nsock_Inv.thy ===== *)
theory Nsock_Inv
  imports Nsock_Ids
begin

text \<open>
  The invariant of a pool of events, and that the operations that add and remove events keep it.
\<close>

section \<open>Writing to one field\<close>

lemma upd_event_sel [simp]:
  "p_userdata (upd_event e f p) = p_userdata p" "engine_data (upd_event e f p) = engine_data p"
  "connect_events (upd_event e f p) = connect_events p" "read_events (upd_event e f p) = read_events p"
  "write_events (upd_event e f p) = write_events p" "expirables (upd_event e f p) = expirables p"
  "active_iods (upd_event e f p) = active_iods p" "free_iods (upd_event e f p) = free_iods p"
  "free_events (upd_event e f p) = free_events p" "events_pending (upd_event e f p) = events_pending p"
  "next_event_serial (upd_event e f p) = next_event_serial p" "next_iod_serial (upd_event e f p) = next_iod_serial p"
  "p_errnum (upd_event e f p) = p_errnum p" "quit (upd_event e f p) = quit p"
  "nevents (upd_event e f p) = (nevents p)(e := f (nevents p e))" "niods (upd_event e f p) = niods p"
  "next_address (upd_event e f p) = next_address p" "nsock_tod (upd_event e f p) = nsock_tod p"
  "os (upd_event e f p) = os p" "evlist k (upd_event e f p) = evlist k p"
  by (simp_all add: upd_event_def evlist_def split: evkind.split)

lemma upd_iod_sel [simp]:
  "p_userdata (upd_iod i f p) = p_userdata p" "engine_data (upd_iod i f p) = engine_data p"
  "connect_events (upd_iod i f p) = connect_events p" "read_events (upd_iod i f p) = read_events p"
  "write_events (upd_iod i f p) = write_events p" "expirables (upd_iod i f p) = expirables p"
  "active_iods (upd_iod i f p) = active_iods p" "free_iods (upd_iod i f p) = free_iods p"
  "free_events (upd_iod i f p) = free_events p" "events_pending (upd_iod i f p) = events_pending p"
  "next_event_serial (upd_iod i f p) = next_event_serial p" "next_iod_serial (upd_iod i f p) = next_iod_serial p"
  "p_errnum (upd_iod i f p) = p_errnum p" "quit (upd_iod i f p) = quit p"
  "nevents (upd_iod i f p) = nevents p" "niods (upd_iod i f p) = (niods p)(i := f (niods p i))"
  "next_address (upd_iod i f p) = next_address p" "nsock_tod (upd_iod i f p) = nsock_tod p"
  "os (upd_iod i f p) = os p" "evlist k (upd_iod i f p) = evlist k p"
  by (simp_all add: upd_iod_def evlist_def split: evkind.split)

lemma set_evlist_sel [simp]:
  "p_userdata (set_evlist k xs p) = p_userdata p" "engine_data (set_evlist k xs p) = engine_data p"
  "expirables (set_evlist k xs p) = expirables p"
  "active_iods (set_evlist k xs p) = active_iods p" "free_iods (set_evlist k xs p) = free_iods p"
  "free_events (set_evlist k xs p) = free_events p" "events_pending (set_evlist k xs p) = events_pending p"
  "next_event_serial (set_evlist k xs p) = next_event_serial p" "next_iod_serial (set_evlist k xs p) = next_iod_serial p"
  "p_errnum (set_evlist k xs p) = p_errnum p" "quit (set_evlist k xs p) = quit p"
  "nevents (set_evlist k xs p) = nevents p" "niods (set_evlist k xs p) = niods p"
  "next_address (set_evlist k xs p) = next_address p" "nsock_tod (set_evlist k xs p) = nsock_tod p"
  "os (set_evlist k xs p) = os p"
  "evlist k' (set_evlist k xs p) = (if k' = k then xs else evlist k' p)"
  by (cases k; cases k'; simp add: set_evlist_def evlist_def)+

lemma evlist_other [simp]:
  "evlist k (engine_data_update f1 p) = evlist k p" "evlist k (expirables_update f2 p) = evlist k p"
  "evlist k (free_events_update f3 p) = evlist k p" "evlist k (events_pending_update f4 p) = evlist k p"
  "evlist k (next_event_serial_update f5 p) = evlist k p" "evlist k (os_update f6 p) = evlist k p"
  "evlist k (next_address_update f7 p) = evlist k p" "evlist k (nsock_tod_update f8 p) = evlist k p"
  "evlist k (p_userdata_update f9 p) = evlist k p" "evlist k (quit_update f10 p) = evlist k p"
  "evlist k (active_iods_update f11 p) = evlist k p" "evlist k (free_iods_update f12 p) = evlist k p"
  by (cases k; simp add: evlist_def)+

lemma first_ev_sel [simp]:
  "first_ev k' (set_first_ev k x n) = (if k' = k then x else first_ev k' n)"
  "i_sd (set_first_ev k x n) = i_sd n" "i_events_pending (set_first_ev k x n) = i_events_pending n"
  "readsd_count (set_first_ev k x n) = readsd_count n" "writesd_count (set_first_ev k x n) = writesd_count n"
  "i_state (set_first_ev k x n) = i_state n" "i_flags (set_first_ev k x n) = i_flags n"
  by (cases k; cases k'; simp add: set_first_ev_def first_ev_def)+

lemma first_ev_other [simp]:
  "first_ev k (i_events_pending_update g1 n) = first_ev k n" "first_ev k (readsd_count_update g2 n) = first_ev k n"
  "first_ev k (writesd_count_update g3 n) = first_ev k n" "first_ev k (watched_events_update g4 n) = first_ev k n"
  "first_ev k (i_flags_update g5 n) = first_ev k n" "first_ev k (i_peer_update g6 n) = first_ev k n"
  "first_ev k (read_count_update g7 n) = first_ev k n" "first_ev k (write_count_update g8 n) = first_ev k n"
  by (cases k; simp add: first_ev_def)+

lemma assert_bind [simp]: "(assert b \<bind> f) = (if b then f () else None)"
  by (simp add: assert_def)

section \<open>The invariant\<close>

definition live :: "'c npool \<Rightarrow> nat \<Rightarrow> bool" where
  "live p e \<longleftrightarrow> \<not> event_done (nevents p e)"

definition listed :: "'c npool \<Rightarrow> nat list" where
  "listed p = evlist Connects p @ evlist Reads p @ evlist Writes p"

definition of_iod :: "'c npool \<Rightarrow> nat \<Rightarrow> nat \<Rightarrow> bool" where
  "of_iod p i e \<longleftrightarrow> e_iod (nevents p e) = Some i"

definition pending_of :: "'c npool \<Rightarrow> nat \<Rightarrow> nat list \<Rightarrow> nat" where
  "pending_of p i xs = length (filter (\<lambda>e. live p e \<and> of_iod p i e) xs)"

definition timers :: "'c npool \<Rightarrow> nat list" where
  "timers p = filter (\<lambda>e. e_type (nevents p e) = NSE_TYPE_TIMER) (nodes (expirables p))"

text \<open>The events of a descriptor are next to each other, and the pointer is at the first of them.\<close>

definition group_ok :: "nat option \<Rightarrow> (nat \<Rightarrow> bool) \<Rightarrow> nat list \<Rightarrow> bool" where
  "group_ok f P xs \<longleftrightarrow> (\<exists>as bs cs. xs = as @ bs @ cs \<and> (\<forall>x\<in>set bs. P x) \<and> (\<forall>x\<in>set as \<union> set cs. \<not> P x) \<and>
     f = (case bs of [] \<Rightarrow> None | b # _ \<Rightarrow> Some b))"

definition lists_ok :: "'c npool \<Rightarrow> bool" where
  "lists_ok p \<longleftrightarrow> distinct (listed p) \<and>
     (\<forall>k. \<forall>e\<in>set (evlist k p). kind_of (e_type (nevents p e)) = Some k \<and>
        (\<exists>i\<in>set (active_iods p). of_iod p i e)) \<and>
     (\<forall>k i. group_ok (first_ev k (niods p i)) (of_iod p i) (evlist k p))"

definition heap_inv :: "'c npool \<Rightarrow> bool" where
  "heap_inv p \<longleftrightarrow> heap_ok (timer_heap p) \<and>
     (\<forall>e\<in>set (nodes (expirables p)). tv_sec (e_timeout (nevents p e)) \<noteq> 0 \<and>
        (e \<in> set (listed p) \<or> e_type (nevents p e) = NSE_TYPE_TIMER \<and> e_iod (nevents p e) = None)) \<and>
     (\<forall>e\<in>set (listed p). tv_sec (e_timeout (nevents p e)) \<noteq> 0 \<longrightarrow> e \<in> set (nodes (expirables p)))"

definition free_ok :: "'c npool \<Rightarrow> bool" where
  "free_ok p \<longleftrightarrow> distinct (active_iods p @ free_iods p) \<and>
     (\<forall>i\<in>set (active_iods p) \<union> set (free_iods p). i < next_address p) \<and> distinct (free_events p) \<and>
     set (free_events p) \<inter> (set (listed p) \<union> set (nodes (expirables p))) = {} \<and>
     (\<forall>e\<in>set (free_events p) \<union> set (listed p) \<union> set (nodes (expirables p)). e < next_address p)"

text \<open>
  The counters, where \<open>d\<close> and \<open>D i\<close> say how much the numbers of pending events exceed those of the live events
  in the lists and the heap; they are zero except inside an operation.
\<close>

definition counts_ok :: "int \<Rightarrow> (nat \<Rightarrow> int) \<Rightarrow> 'c npool \<Rightarrow> bool" where
  "counts_ok d D p \<longleftrightarrow>
     events_pending p = int (length (filter (live p) (listed p @ timers p))) + d \<and>
     (\<forall>i\<in>set (active_iods p).
        i_events_pending (niods p i) = int (pending_of p i (listed p)) + D i \<and>
        readsd_count (niods p i) = int (pending_of p i (evlist Connects p @ evlist Reads p)) \<and>
        writesd_count (niods p i) = int (pending_of p i (evlist Connects p @ evlist Writes p)))"

text \<open>The descriptor sets: exactly the descriptors with pending reads and writes are watched.\<close>

definition watch_ok :: "'c npool \<Rightarrow> nat \<Rightarrow> bool" where
  "watch_ok p i \<longleftrightarrow> (let n = niods p i; s = engine_data p in
     (readsd_count n > 0 \<longleftrightarrow> i_sd n \<in> fds_master_r s) \<and> (writesd_count n > 0 \<longleftrightarrow> i_sd n \<in> fds_master_w s) \<and>
     (readsd_count n > 0 \<or> writesd_count n > 0 \<longrightarrow> IOD_PROPGET p i IOD_REGISTERED \<and> i_sd n \<le> max_sd s))"

definition usable :: "'c npool \<Rightarrow> nat \<Rightarrow> bool" where
  "usable p i \<longleftrightarrow> i \<in> set (active_iods p) \<and> i_state (niods p i) \<noteq> NSIOD_STATE_DELETED \<and>
     0 \<le> i_sd (niods p i) \<and> i_sd (niods p i) < FD_SETSIZE"

definition engine_ok :: "'c npool \<Rightarrow> bool" where
  "engine_ok p \<longleftrightarrow> inj_on (\<lambda>i. i_sd (niods p i)) {i \<in> set (active_iods p). i_sd (niods p i) \<noteq> -1} \<and>
     (\<forall>i\<in>set (active_iods p). i_sd (niods p i) \<noteq> -1 \<longrightarrow> usable p i \<and> watch_ok p i) \<and>
     (\<forall>e\<in>set (listed p). live p e \<longrightarrow> (\<forall>i. of_iod p i e \<longrightarrow> usable p i)) \<and>
     fds_master_r (engine_data p) \<union> fds_master_w (engine_data p) \<subseteq> (\<lambda>i. i_sd (niods p i)) ` set (active_iods p)"

definition pool_inv_off :: "int \<Rightarrow> (nat \<Rightarrow> int) \<Rightarrow> 'c npool \<Rightarrow> bool" where
  "pool_inv_off d D p \<longleftrightarrow> lists_ok p \<and> heap_inv p \<and> free_ok p \<and> counts_ok d D p \<and> engine_ok p \<and> serial_ok p"

definition pool_inv :: "'c npool \<Rightarrow> bool" where
  "pool_inv p \<longleftrightarrow> pool_inv_off 0 (\<lambda>_. 0) p"

section \<open>What the invariant depends on\<close>

lemma group_ok_cong:
  assumes "group_ok f P xs" and "\<And>x. x \<in> set xs \<Longrightarrow> Q x = P x"
  shows "group_ok f Q xs"
proof -
  obtain as bs cs where "xs = as @ bs @ cs" "\<forall>x\<in>set bs. P x" "\<forall>x\<in>set as \<union> set cs. \<not> P x"
      "f = (case bs of [] \<Rightarrow> None | b # _ \<Rightarrow> Some b)"
    using assms(1) by (auto simp: group_ok_def)
  then show ?thesis unfolding group_ok_def using assms(2) by (intro exI [of _ as] exI [of _ bs] exI [of _ cs]) auto
qed

lemma set_listed: "set (listed p) = set (evlist Connects p) \<union> set (evlist Reads p) \<union> set (evlist Writes p)"
  by (auto simp: listed_def)

lemma evlist_listed: "e \<in> set (evlist k p) \<Longrightarrow> e \<in> set (listed p)"
  by (cases k) (auto simp: listed_def)

lemma listed_cong: "(\<And>k. evlist k q = evlist k p) \<Longrightarrow> listed q = listed p"
  by (simp add: listed_def)

lemma pending_of_cong:
  "(\<And>e. e \<in> set xs \<Longrightarrow> live q e = live p e \<and> e_iod (nevents q e) = e_iod (nevents p e)) \<Longrightarrow>
   pending_of q i xs = pending_of p i xs"
  by (auto simp: pending_of_def of_iod_def intro!: arg_cong [where f = length] filter_cong)

definition same_nodes :: "gh_heap_t \<Rightarrow> gh_heap_t \<Rightarrow> bool" where
  "same_nodes h h' \<longleftrightarrow> slots h' = slots h \<and> count h' = count h \<and> highwm h' = highwm h \<and>
     (\<forall>x\<in>set (nodes h). nindex h' x = nindex h x)"

lemma same_nodes_nodes: "same_nodes h h' \<Longrightarrow> nodes h' = nodes h"
  by (simp add: same_nodes_def nodes_def)

lemma heap_ok_same:
  assumes "heap_ok h" and "same_nodes h h'"
    and "\<And>a b. a \<in> set (nodes h) \<Longrightarrow> b \<in> set (nodes h) \<Longrightarrow> cmp_op h' a b = cmp_op h a b"
  shows "heap_ok h'"
proof -
  have n: "nodes h' = nodes h" by (rule same_nodes_nodes [OF assms(2)])
  have "stored h (nodes h) (count h)" using assms(1) by (simp add: heap_ok_def heap_wf_def)
  then have "stored h' (nodes h) (count h')" using assms(2) by (auto simp: stored_def same_nodes_def)
  then have "heap_wf h'" using assms(1,2) n by (simp add: heap_ok_def heap_wf_def same_nodes_def)
  moreover have "heap_ordered (cmp_op h') (nodes h')"
    unfolding heap_ordered_def n
  proof (intro allI impI)
    fix j assume j: "j < length (nodes h)" "0 < j"
    then have "\<not> cmp_op h (nodes h ! j) (nodes h ! par j)" using assms(1) by (auto simp: heap_ok_def heap_ordered_def)
    then show "\<not> cmp_op h' (nodes h ! j) (nodes h ! par j)" using assms(3) j par_less [of j] by simp
  qed
  ultimately show ?thesis by (simp add: heap_ok_def)
qed

lemma timer_heap_sel [simp]:
  "nodes (timer_heap p) = nodes (expirables p)" "slots (timer_heap p) = slots (expirables p)"
  "count (timer_heap p) = count (expirables p)" "highwm (timer_heap p) = highwm (expirables p)"
  "nindex (timer_heap p) = nindex (expirables p)"
  "cmp_op (timer_heap p) = expirable_cmp (\<lambda>e. e_timeout (nevents p e))"
  by (simp_all add: timer_heap_def nodes_def)

lemma timer_heap_order: "heap_order (cmp_op (timer_heap p))"
  by (simp add: expire.heap_order_axioms)

lemma timer_heap_cong:
  assumes "heap_ok (timer_heap p)" and "same_nodes (expirables p) (expirables q)"
    and "\<And>e. e \<in> set (nodes (expirables p)) \<Longrightarrow> e_timeout (nevents q e) = e_timeout (nevents p e)"
  shows "heap_ok (timer_heap q)"
  by (rule heap_ok_same [OF assms(1)])
     (use assms(2,3) in \<open>simp_all add: same_nodes_def expirable_cmp_def\<close>)

text \<open>
  A change of the pool that leaves the lists and the heap alone, and the fields of the events in them that say
  where an event belongs.
\<close>

definition same_events :: "'c npool \<Rightarrow> 'c npool \<Rightarrow> bool" where
  "same_events p q \<longleftrightarrow> (\<forall>k. evlist k q = evlist k p) \<and> active_iods q = active_iods p \<and>
     same_nodes (expirables p) (expirables q) \<and>
     (\<forall>e\<in>set (listed p) \<union> set (nodes (expirables p)). e_type (nevents q e) = e_type (nevents p e) \<and>
        e_iod (nevents q e) = e_iod (nevents p e) \<and> e_timeout (nevents q e) = e_timeout (nevents p e)) \<and>
     (\<forall>k i. first_ev k (niods q i) = first_ev k (niods p i))"

lemma same_events_listed: "same_events p q \<Longrightarrow> listed q = listed p"
  by (simp add: same_events_def listed_def)

lemma same_events_lists_ok:
  assumes "lists_ok p" and "same_events p q"
  shows "lists_ok q"
proof -
  have s: "evlist k q = evlist k p" "active_iods q = active_iods p" "first_ev k (niods q i) = first_ev k (niods p i)" for k i
    using assms(2) by (auto simp: same_events_def)
  have e: "e_type (nevents q e) = e_type (nevents p e)" "e_iod (nevents q e) = e_iod (nevents p e)"
    if "e \<in> set (evlist k p)" for e k
    using assms(2) evlist_listed [OF that] by (auto simp: same_events_def)
  have "group_ok (first_ev k (niods q i)) (of_iod q i) (evlist k q)" for k i
    unfolding s
    by (rule group_ok_cong [where P = "of_iod p i"])
       (use assms(1) in \<open>auto simp: lists_ok_def of_iod_def e\<close>)
  moreover have "distinct (listed q)" using assms same_events_listed [OF assms(2)] by (simp add: lists_ok_def)
  ultimately show ?thesis
    using assms(1) by (simp add: lists_ok_def s e of_iod_def)
qed

lemma same_events_heap_inv:
  assumes "heap_inv p" and "same_events p q"
  shows "heap_inv q"
proof -
  have n: "nodes (expirables q) = nodes (expirables p)" "listed q = listed p"
    using assms(2) same_nodes_nodes same_events_listed by (auto simp: same_events_def)
  have "heap_ok (timer_heap q)"
    by (rule timer_heap_cong [of p]) (use assms in \<open>auto simp: heap_inv_def same_events_def\<close>)
  then show ?thesis using assms by (auto simp: heap_inv_def same_events_def n)
qed

lemma same_events_timers: "same_events p q \<Longrightarrow> timers q = timers p"
  unfolding timers_def using same_nodes_nodes by (auto simp: same_events_def intro!: filter_cong)

lemma counts_ok_cong:
  assumes "counts_ok d D p" and "same_events p q" and "events_pending q = events_pending p + c"
    and "\<And>e. e \<in> set (listed p) \<union> set (nodes (expirables p)) \<Longrightarrow> live q e = live p e"
    and "\<And>i. i \<in> set (active_iods p) \<Longrightarrow> i_events_pending (niods q i) = i_events_pending (niods p i) + C i \<and>
      readsd_count (niods q i) = readsd_count (niods p i) \<and> writesd_count (niods q i) = writesd_count (niods p i)"
  shows "counts_ok (d + c) (\<lambda>i. D i + C i) q"
proof -
  note l = same_events_listed [OF assms(2)] and t = same_events_timers [OF assms(2)]
  have ev: "evlist k q = evlist k p" "active_iods q = active_iods p" for k using assms(2) by (auto simp: same_events_def)
  have p: "pending_of q i xs = pending_of p i xs" if "set xs \<subseteq> set (listed p)" for i xs
    by (rule pending_of_cong) (use that assms(2,4) in \<open>auto simp: same_events_def\<close>)
  have "filter (live q) (listed p @ timers p) = filter (live p) (listed p @ timers p)"
    by (rule filter_cong) (use assms(4) in \<open>auto simp: timers_def\<close>)
  moreover have "set (evlist Connects p @ evlist Reads p) \<subseteq> set (listed p)"
      "set (evlist Connects p @ evlist Writes p) \<subseteq> set (listed p)" by (auto simp: set_listed)
  ultimately show ?thesis
    using assms(1,3,5) by (simp add: counts_ok_def l t ev p)
qed

lemma engine_ok_cong:
  assumes "engine_ok p" and "same_events p q" and "engine_data q = engine_data p"
    and "\<And>i. i_sd (niods q i) = i_sd (niods p i) \<and> i_state (niods q i) = i_state (niods p i) \<and>
      i_flags (niods q i) AND 1 = i_flags (niods p i) AND 1 \<and>
      readsd_count (niods q i) = readsd_count (niods p i) \<and> writesd_count (niods q i) = writesd_count (niods p i)"
    and "\<And>e. e \<in> set (listed p) \<Longrightarrow> live q e \<Longrightarrow> live p e"
  shows "engine_ok q"
proof -
  have a: "active_iods q = active_iods p" "listed q = listed p"
    using assms(2) same_events_listed by (auto simp: same_events_def)
  have "usable q i = usable p i" "watch_ok q i = watch_ok p i" for i
    using assms(3,4) by (simp_all add: usable_def watch_ok_def a IOD_PROPGET_def Let_def)
  moreover have "of_iod q i e = of_iod p i e" if "e \<in> set (listed p)" for i e
    using assms(2) that by (auto simp: same_events_def of_iod_def)
  ultimately show ?thesis using assms(1,3-5) by (simp add: engine_ok_def a)
qed

definition fresh_event :: "'c npool \<Rightarrow> nat \<Rightarrow> bool" where
  "fresh_event p e \<longleftrightarrow> e \<notin> set (listed p) \<union> set (nodes (expirables p)) \<union> set (free_events p) \<and>
     e < next_address p \<and> \<not> gh_hnode_is_valid (expirables p) e"

section \<open>New events\<close>

lemma gettimeofday_sel [simp]:
  "p_userdata (gettimeofday p) = p_userdata p" "engine_data (gettimeofday p) = engine_data p"
  "expirables (gettimeofday p) = expirables p" "active_iods (gettimeofday p) = active_iods p"
  "free_iods (gettimeofday p) = free_iods p" "free_events (gettimeofday p) = free_events p"
  "events_pending (gettimeofday p) = events_pending p" "next_event_serial (gettimeofday p) = next_event_serial p"
  "nevents (gettimeofday p) = nevents p" "niods (gettimeofday p) = niods p"
  "next_address (gettimeofday p) = next_address p" "evlist k (gettimeofday p) = evlist k p"
  "quit (gettimeofday p) = quit p"
  by (simp_all add: gettimeofday_def split: list.split)

lemma alloc_event_sel:
  "alloc_event p = (q, e) \<Longrightarrow> p_userdata q = p_userdata p" "alloc_event p = (q, e) \<Longrightarrow> engine_data q = engine_data p"
  "alloc_event p = (q, e) \<Longrightarrow> expirables q = expirables p" "alloc_event p = (q, e) \<Longrightarrow> active_iods q = active_iods p"
  "alloc_event p = (q, e) \<Longrightarrow> events_pending q = events_pending p"
  "alloc_event p = (q, e) \<Longrightarrow> next_event_serial q = next_event_serial p"
  "alloc_event p = (q, e) \<Longrightarrow> nevents q = nevents p" "alloc_event p = (q, e) \<Longrightarrow> niods q = niods p"
  "alloc_event p = (q, e) \<Longrightarrow> evlist k q = evlist k p" "alloc_event p = (q, e) \<Longrightarrow> nsock_tod q = nsock_tod p"
  "alloc_event p = (q, e) \<Longrightarrow> quit q = quit p" "alloc_event p = (q, e) \<Longrightarrow> free_iods q = free_iods p"
  "alloc_event p = (q, e) \<Longrightarrow> os q = os p"
  by (auto simp: alloc_event_def split: list.splits)

lemma alloc_event_fresh:
  assumes "alloc_event p = (q, e)" and "free_ok p"
  shows "e \<notin> set (listed p) \<union> set (nodes (expirables p)) \<union> set (free_events q)" "e < next_address q"
    "distinct (free_events q)" "set (free_events q) \<subseteq> set (free_events p)" "next_address p \<le> next_address q"
proof -
  have "e \<notin> set (listed p) \<union> set (nodes (expirables p)) \<union> set (free_events q) \<and> e < next_address q \<and>
    distinct (free_events q) \<and> set (free_events q) \<subseteq> set (free_events p) \<and> next_address p \<le> next_address q"
  proof (cases "free_events p")
    case Nil
    then have "e = next_address p" "free_events q = []" "next_address q = next_address p + 1"
      using assms(1) by (auto simp: alloc_event_def)
    then show ?thesis using assms(2) by (auto simp: free_ok_def)
  next
    case (Cons x xs)
    then have "e = x" "free_events q = xs" "next_address q = next_address p"
      using assms(1) by (auto simp: alloc_event_def)
    then show ?thesis using assms(2) Cons by (auto simp: free_ok_def)
  qed
  then show "e \<notin> set (listed p) \<union> set (nodes (expirables p)) \<union> set (free_events q)" "e < next_address q"
    "distinct (free_events q)" "set (free_events q) \<subseteq> set (free_events p)" "next_address p \<le> next_address q"
    by simp_all
qed

lemma get_new_event_id_sel:
  "get_new_event_id p t = (q, x) \<Longrightarrow> p_userdata q = p_userdata p"
  "get_new_event_id p t = (q, x) \<Longrightarrow> engine_data q = engine_data p"
  "get_new_event_id p t = (q, x) \<Longrightarrow> expirables q = expirables p"
  "get_new_event_id p t = (q, x) \<Longrightarrow> active_iods q = active_iods p"
  "get_new_event_id p t = (q, x) \<Longrightarrow> events_pending q = events_pending p"
  "get_new_event_id p t = (q, x) \<Longrightarrow> free_events q = free_events p" "get_new_event_id p t = (q, x) \<Longrightarrow> free_iods q = free_iods p"
  "get_new_event_id p t = (q, x) \<Longrightarrow> next_address q = next_address p"
  "get_new_event_id p t = (q, x) \<Longrightarrow> nevents q = nevents p"
  "get_new_event_id p t = (q, x) \<Longrightarrow> niods q = niods p"
  "get_new_event_id p t = (q, x) \<Longrightarrow> evlist k q = evlist k p"
  "get_new_event_id p t = (q, x) \<Longrightarrow> nsock_tod q = nsock_tod p"
  "get_new_event_id p t = (q, x) \<Longrightarrow> quit q = quit p" "get_new_event_id p t = (q, x) \<Longrightarrow> os q = os p"
  by (auto simp: get_new_event_id_def Let_def split: if_splits)

text \<open>What \<open>event_new\<close> changes, apart from the clock.\<close>

definition bump :: "nat option \<Rightarrow> nat \<Rightarrow> int" where
  "bump iod i = (if iod = Some i then 1 else 0)"

lemma event_new_facts:
  assumes "free_ok p" and "serial_ok p" and "\<And>i. iod = Some i \<Longrightarrow> i_state (niods p i) \<noteq> NSIOD_STATE_DELETED"
    and "-1 \<le> ms"
  shows "\<exists>q e v. event_new p t iod ms h u = Some (q, e) \<and> (\<forall>k. evlist k q = evlist k p) \<and>
    active_iods q = active_iods p \<and> free_iods q = free_iods p \<and>
    engine_data q = engine_data p \<and> events_pending q = events_pending p \<and>
    expirables q = gh_hnode_invalidate (expirables p) e \<and> quit q = quit p \<and> p_userdata q = p_userdata p \<and>
    nevents q = (nevents p)(e := v) \<and> serial_ok q \<and>
    e_type v = t \<and> e_iod v = iod \<and> \<not> event_done v \<and> e_handler v = h \<and> written_so_far v = 0 \<and> dest v = None \<and>
    get_event_id_type (e_id v) = Some t \<and>
    e_timeout v = (if ms = -1 then \<lparr>tv_sec = 0, tv_usec = 0\<rparr> else TIMEVAL_MSEC_ADD (nsock_tod q) ms) \<and>
    nsock_tod q = nsock_tod (gettimeofday p) \<and>
    (t = NSE_TYPE_READ \<or> t = NSE_TYPE_WRITE \<longrightarrow> fs_ok (iobuf v) []) \<and>
    niods q = (\<lambda>i. (niods p i)\<lparr>i_events_pending := i_events_pending (niods p i) + bump iod i\<rparr>) \<and>
    e \<notin> set (listed p) \<union> set (nodes (expirables p)) \<union> set (free_events q) \<and> e < next_address q \<and>
    distinct (free_events q) \<and> set (free_events q) \<subseteq> set (free_events p) \<and> next_address p \<le> next_address q"
proof -
  define p1 where "p1 = (case iod of None \<Rightarrow> gettimeofday p
    | Some i \<Rightarrow> upd_iod i (\<lambda>n. n\<lparr>i_events_pending := i_events_pending n + 1\<rparr>) (gettimeofday p))"
  obtain p2 e where a: "alloc_event p1 = (p2, e)" by fastforce
  obtain p3 x where g: "get_new_event_id p2 t = (p3, x)" by fastforce
  note ag = alloc_event_sel [OF a] get_new_event_id_sel [OF g]
  obtain fs where fs: "filespace_init 1024 = Some fs" "fs_holds fs []" "current_alloc fs = 1024"
    using filespace_init_holds [of 1024] by auto
  have p1: "evlist k p1 = evlist k p" "active_iods p1 = active_iods p" "engine_data p1 = engine_data p"
      "events_pending p1 = events_pending p" "expirables p1 = expirables p" "quit p1 = quit p"
      "p_userdata p1 = p_userdata p" "nevents p1 = nevents p" "free_events p1 = free_events p"
      "next_address p1 = next_address p" "next_event_serial p1 = next_event_serial p"
      "nsock_tod p1 = nsock_tod (gettimeofday p)" "free_iods p1 = free_iods p"
      "niods p1 = (\<lambda>i. (niods p i)\<lparr>i_events_pending := i_events_pending (niods p i) + bump iod i\<rparr>)" for k
    by (auto simp: p1_def bump_def split: option.split)
  have l1: "listed p1 = listed p" by (simp add: listed_def p1)
  have f1: "free_ok p1" using assms(1) by (simp add: free_ok_def p1 l1)
  have "serial_ok p2" using assms(2) alloc_event_sel(6) [OF a] by (simp add: serial_ok_def p1)
  note s = get_new_event_id_spec [OF this g] and fr = alloc_event_fresh [OF a f1]
  define v where "v = nevent_zero\<lparr>e_id := x, e_type := t,
      iobuf := (if t = NSE_TYPE_READ \<or> t = NSE_TYPE_WRITE then fs else iobuf nevent_zero),
      e_timeout := (if ms = -1 then \<lparr>tv_sec = 0, tv_usec = 0\<rparr> else TIMEVAL_MSEC_ADD (nsock_tod p1) ms),
      e_iod := iod, e_handler := h, e_userdata := u\<rparr>"
  define q where "q = upd_event e (\<lambda>_. v) (p3\<lparr>expirables := gh_hnode_invalidate (expirables p) e\<rparr>)"
  have st: "(case iod of None \<Rightarrow> Some (gettimeofday p) | Some i \<Rightarrow> (
      let p = upd_iod i (\<lambda>n. n\<lparr>i_events_pending := i_events_pending n + 1\<rparr>) (gettimeofday p)
      in assert (i_state (niods p i) \<noteq> NSIOD_STATE_DELETED) \<bind> (\<lambda>_. Some p))) = Some p1"
    using assms(3) by (cases iod) (simp_all add: p1_def)
  have p3: "nsock_tod p3 = nsock_tod p1" "expirables p3 = expirables p" by (simp_all add: p1 ag)
  have ms: "0 \<le> ms" if "ms \<noteq> -1" using assms(4) that by simp
  have "event_new p t iod ms h u = Some (q, e)"
  proof (cases "t = NSE_TYPE_READ \<or> t = NSE_TYPE_WRITE"; cases "ms = -1")
  qed (use ms in \<open>simp_all add: event_new_def Let_def st a g fs(1) p3
      q_def v_def upd_event_def nevent_zero_def\<close>)
  moreover have "nsock_tod q = nsock_tod p1" by (simp add: q_def p1 ag)
  moreover have "fs_ok fs []" using fs(2,3) by (simp add: fs_ok_def)
  moreover have "serial_ok q" using s(1) by (simp add: serial_ok_def q_def)
  moreover have "free_events q = free_events p2" "next_address q = next_address p2" by (simp_all add: q_def ag)
  moreover have "evlist k q = evlist k p" "active_iods q = active_iods p" "engine_data q = engine_data p"
      "events_pending q = events_pending p" "free_iods q = free_iods p" "quit q = quit p" "p_userdata q = p_userdata p" "niods q = niods p1"
      "nevents q = (nevents p)(e := v)" "expirables q = gh_hnode_invalidate (expirables p) e" for k
    by (simp_all add: q_def p1 ag)
  ultimately show ?thesis
    using fr s(4) unfolding l1 p1(5,9,10,12,14)
    by (intro exI [of _ q] exI [of _ e] exI [of _ v]) (simp add: v_def nevent_zero_def p1(12))
qed

lemma invalidate_same_nodes: "e \<notin> set (nodes h) \<Longrightarrow> same_nodes h (gh_hnode_invalidate h e)"
  by (auto simp: same_nodes_def gh_hnode_invalidate_def)

lemma event_new_inv:
  assumes "pool_inv p" and "\<And>i. iod = Some i \<Longrightarrow> usable p i" and "-1 \<le> ms"
    and "event_new p t iod ms h u = Some (q, e)"
  shows "pool_inv_off 0 (bump iod) q" "fresh_event q e" "e_type (nevents q e) = t" "e_iod (nevents q e) = iod"
    "\<not> event_done (nevents q e)" "e_timeout (nevents q e) = (if ms = -1 then \<lparr>tv_sec = 0, tv_usec = 0\<rparr> else TIMEVAL_MSEC_ADD (nsock_tod q) ms)"
    "t = NSE_TYPE_READ \<or> t = NSE_TYPE_WRITE \<Longrightarrow> fs_ok (iobuf (nevents q e)) []"
    "same_events p q" "\<And>x. x \<noteq> e \<Longrightarrow> nevents q x = nevents p x" "e \<notin> set (listed p) \<union> set (nodes (expirables p))"
    "\<And>i. usable q i = usable p i"
    "\<And>i. IOD_PROPGET q i f = IOD_PROPGET p i f"
    "count (expirables q) = count (expirables p)" "nodes (expirables q) = nodes (expirables p)"
    "events_pending q = events_pending p" "get_event_id_type (e_id (nevents q e)) = Some t" "e_handler (nevents q e) = h"
    "engine_data q = engine_data p" "written_so_far (nevents q e) = 0" "dest (nevents q e) = None"
proof -
  have inv: "lists_ok p" "heap_inv p" "free_ok p" "counts_ok 0 (\<lambda>_. 0) p" "engine_ok p" "serial_ok p"
    using assms(1) by (auto simp: pool_inv_def pool_inv_off_def)
  have "i_state (niods p i) \<noteq> NSIOD_STATE_DELETED" if "iod = Some i" for i using assms(2) that by (simp add: usable_def)
  from event_new_facts [where iod = iod and t = t and h = h and u = u, OF inv(3,6) this assms(3)] assms(4) obtain v where
    q: "\<And>k. evlist k q = evlist k p" "active_iods q = active_iods p" "engine_data q = engine_data p"
      "events_pending q = events_pending p" "expirables q = gh_hnode_invalidate (expirables p) e"
      "nevents q = (nevents p)(e := v)" "serial_ok q"
      "e_type v = t" "e_iod v = iod" "\<not> event_done v"
      "e_timeout v = (if ms = -1 then \<lparr>tv_sec = 0, tv_usec = 0\<rparr> else TIMEVAL_MSEC_ADD (nsock_tod q) ms)"
      "t = NSE_TYPE_READ \<or> t = NSE_TYPE_WRITE \<longrightarrow> fs_ok (iobuf v) []"
      "niods q = (\<lambda>i. (niods p i)\<lparr>i_events_pending := i_events_pending (niods p i) + bump iod i\<rparr>)"
      "get_event_id_type (e_id v) = Some t" "e_handler v = h" "written_so_far v = 0" "dest v = None" "free_iods q = free_iods p"
    and fr: "e \<notin> set (listed p) \<union> set (nodes (expirables p)) \<union> set (free_events q)" "e < next_address q"
      "distinct (free_events q)" "set (free_events q) \<subseteq> set (free_events p)" "next_address p \<le> next_address q"
    by auto
  have l: "listed q = listed p" using q(1) by (rule listed_cong)
  have sn: "same_nodes (expirables p) (expirables q)" unfolding q(5) using fr(1) by (intro invalidate_same_nodes) simp
  note n = same_nodes_nodes [OF sn]
  have nth: "nevents q x = nevents p x" if "x \<noteq> e" for x using that by (simp add: q(6))
  show se: "same_events p q"
    unfolding same_events_def using sn fr(1) by (auto simp: q(1,2,6,13))
  have lv: "live q x = live p x" if "x \<in> set (listed p) \<union> set (nodes (expirables p))" for x
    using that fr(1) by (auto simp: live_def q(6))
  have "lists_ok q" "heap_inv q" using same_events_lists_ok [OF inv(1) se] same_events_heap_inv [OF inv(2) se] .
  moreover have "free_ok q"
  proof -
    have "x < next_address p" if "x \<in> set (free_events p) \<union> set (listed p) \<union> set (nodes (expirables p))" for x
      using inv(3) that by (auto simp: free_ok_def)
    then have "x < next_address q" if "x \<in> set (free_events p) \<union> set (listed p) \<union> set (nodes (expirables p))" for x
      using that fr(5) less_le_trans by blast
    moreover have "i < next_address q" if "i < next_address p" for i using that fr(5) by (rule less_le_trans)
    ultimately show ?thesis using inv(3) fr(3,4) by (auto simp: free_ok_def l n q(2,18))
  qed
  moreover have "counts_ok (0 + 0) (\<lambda>i. 0 + bump iod i) q"
    by (rule counts_ok_cong [OF inv(4) se]) (use lv in \<open>simp_all add: q(4,13)\<close>)
  moreover have "engine_ok q" by (rule engine_ok_cong [OF inv(5) se q(3)]) (use lv in \<open>simp_all add: q(13)\<close>)
  ultimately show "pool_inv_off 0 (bump iod) q" using q(7) by (simp add: pool_inv_off_def)
  have "\<not> gh_hnode_is_valid (expirables q) e" by (simp add: q(5) gh_hnode_is_valid_def gh_hnode_invalidate_def)
  then show "fresh_event q e" using fr by (auto simp: fresh_event_def l n)
  show "e_type (nevents q e) = t" "e_iod (nevents q e) = iod" "\<not> event_done (nevents q e)"
    "e_timeout (nevents q e) = (if ms = -1 then \<lparr>tv_sec = 0, tv_usec = 0\<rparr> else TIMEVAL_MSEC_ADD (nsock_tod q) ms)"
    "t = NSE_TYPE_READ \<or> t = NSE_TYPE_WRITE \<Longrightarrow> fs_ok (iobuf (nevents q e)) []"
    using q by simp_all
  show "nevents q x = nevents p x" if "x \<noteq> e" for x by (rule nth [OF that])
  show "e \<notin> set (listed p) \<union> set (nodes (expirables p))" using fr(1) by simp
  show "usable q i = usable p i" "IOD_PROPGET q i f = IOD_PROPGET p i f" for i
    by (simp_all add: usable_def IOD_PROPGET_def q(2,13))
  show "count (expirables q) = count (expirables p)" by (simp add: q(5) gh_hnode_invalidate_def)
  show "nodes (expirables q) = nodes (expirables p)" by (rule n)
  show "events_pending q = events_pending p" "engine_data q = engine_data p" by (rule q(4), rule q(3))
  show "get_event_id_type (e_id (nevents q e)) = Some t" "e_handler (nevents q e) = h" "written_so_far (nevents q e) = 0"
    "dest (nevents q e) = None" using q(6,14-17) by simp_all
qed

lemma event_new_returns:
  assumes "pool_inv p" and "\<And>i. iod = Some i \<Longrightarrow> usable p i" and "-1 \<le> ms"
  shows "\<exists>q e. event_new p t iod ms h u = Some (q, e)"
proof -
  have "free_ok p" "serial_ok p" using assms(1) by (auto simp: pool_inv_def pool_inv_off_def)
  moreover have "i_state (niods p i) \<noteq> NSIOD_STATE_DELETED" if "iod = Some i" for i using assms(2) that by (simp add: usable_def)
  ultimately show ?thesis using event_new_facts [of p iod ms t h u] assms(3) by blast
qed

section \<open>Watching descriptors\<close>

lemma flag_or: "(x :: u8) AND 1 \<noteq> 0 \<Longrightarrow> x OR 1 = x" "((x :: u8) OR 1) AND 1 \<noteq> 0"
  by (simp_all add: and_one_eq or_one_eq mod_2_eq_odd split: if_splits)

lemma update_events_set:
  "update_events i p ev 0 = (if IOD_PROPGET p i 1 then select_iod_modify p i ev 0 else select_iod_register p i ev)"
  by (simp add: update_events_def should_clear_ev_read_def should_clear_ev_write_def)

lemma update_events_clear:
  assumes "IOD_PROPGET p i 1" and "ev \<in> {0, 1, 2, 3}"
    and "ev \<in> {1, 3} \<Longrightarrow> readsd_count (niods p i) = 0" and "ev \<in> {2, 3} \<Longrightarrow> writesd_count (niods p i) = 0"
  shows "update_events i p 0 ev = select_iod_modify p i 0 ev"
proof -
  have "(if should_clear_ev_read (niods p i) ev then 1 else 0) OR
      (if should_clear_ev_write (niods p i) ev then 2 else 0) = ev"
    using assms(2-4) by (auto simp: should_clear_ev_read_def should_clear_ev_write_def)
  then show ?thesis using assms(1) by (simp add: update_events_def Let_def)
qed

definition watch_set :: "int \<Rightarrow> int \<Rightarrow> select_engine_info \<Rightarrow> select_engine_info" where
  "watch_set sd ev s = s\<lparr>
     fds_master_r := (if ev \<in> {1, 3} then insert sd (fds_master_r s) else fds_master_r s),
     fds_master_w := (if ev \<in> {2, 3} then insert sd (fds_master_w s) else fds_master_w s),
     fds_master_x := insert sd (fds_master_x s), max_sd := max (max_sd s) sd\<rparr>"

definition watch_clear :: "int \<Rightarrow> int \<Rightarrow> bool \<Rightarrow> select_engine_info \<Rightarrow> select_engine_info" where
  "watch_clear sd ev one s = s\<lparr>
     fds_master_r := (if ev \<in> {1, 3} then fds_master_r s - {sd} else fds_master_r s),
     fds_master_w := (if ev \<in> {2, 3} then fds_master_w s - {sd} else fds_master_w s),
     fds_master_x := insert sd (fds_master_x s),
     max_sd := (if ev \<noteq> 0 \<and> one \<and> max_sd s = sd then max_sd s - 1 else max_sd s)\<rparr>"

lemma select_iod_modify_set:
  assumes "0 \<le> i_sd (niods p i)" and "i_sd (niods p i) < 1024" and "ev \<in> {1, 2, 3}"
  shows "select_iod_modify p i ev 0 =
    Some ((upd_iod i (\<lambda>n. n\<lparr>watched_events := watched_events n OR ev\<rparr>) p)
      \<lparr>engine_data := watch_set (i_sd (niods p i)) ev (engine_data p)\<rparr>)"
proof -
  have "ev AND 1 \<noteq> 0 \<longleftrightarrow> ev \<in> {1, 3}" "ev AND 2 \<noteq> 0 \<longleftrightarrow> ev \<in> {2, 3}" "ev \<noteq> 0" using assms(3) by auto
  then show ?thesis
    using assms(1,2) by (simp add: Let_def select_iod_modify_def set_or_clear_def checked_fd_set_def watch_set_def)
qed

lemma select_iod_modify_clear:
  assumes "0 \<le> i_sd (niods p i)" and "i_sd (niods p i) < 1024" and "ev \<in> {0, 1, 2, 3}"
  shows "select_iod_modify p i 0 ev =
    Some ((upd_iod i (\<lambda>n. n\<lparr>watched_events := watched_events n AND NOT ev\<rparr>) p)
      \<lparr>engine_data := watch_clear (i_sd (niods p i)) ev (i_events_pending (niods p i) = 1) (engine_data p)\<rparr>)"
proof -
  have "ev AND 1 \<noteq> 0 \<longleftrightarrow> ev \<in> {1, 3}" "ev AND 2 \<noteq> 0 \<longleftrightarrow> ev \<in> {2, 3}" using assms(3) by auto
  then show ?thesis
    using assms(1,2) by (simp add: Let_def select_iod_modify_def set_or_clear_def checked_fd_set_def checked_fd_clr_def watch_clear_def)
qed

lemma update_events_inc:
  assumes "usable p i" and "ev \<in> {1, 2, 3}"
  shows "\<exists>w. update_events i p ev 0 =
      Some ((upd_iod i (\<lambda>n. n\<lparr>watched_events := w, i_flags := i_flags n OR 1\<rparr>) p)
        \<lparr>engine_data := watch_set (i_sd (niods p i)) ev (engine_data p)\<rparr>)"
proof -
  have sd: "0 \<le> i_sd (niods p i)" "i_sd (niods p i) < 1024" using assms(1) by (auto simp: usable_def)
  show ?thesis
  proof (cases "IOD_PROPGET p i 1")
    case True
    then have "i_flags (niods p i) OR 1 = i_flags (niods p i)" by (simp add: IOD_PROPGET_def flag_or)
    then show ?thesis
      using True select_iod_modify_set [OF sd assms(2)]
      by (intro exI [of _ "watched_events (niods p i) OR ev"]) (simp add: update_events_set upd_iod_def)
  next
    case False
    then show ?thesis
      using select_iod_modify_set [of "upd_iod i (\<lambda>n. n\<lparr>watched_events := ev\<rparr>) p" i ev] sd assms(2)
      by (intro exI [of _ ev]) (simp add: update_events_set select_iod_register_def IOD_PROPSET_def upd_iod_def)
  qed
qed

lemma update_events_dec:
  assumes "usable p i" and "IOD_PROPGET p i 1" and "ev \<in> {0, 1, 2, 3}"
    and "ev \<in> {1, 3} \<Longrightarrow> readsd_count (niods p i) = 0" and "ev \<in> {2, 3} \<Longrightarrow> writesd_count (niods p i) = 0"
  shows "\<exists>w. update_events i p 0 ev = Some ((upd_iod i (\<lambda>n. n\<lparr>watched_events := w\<rparr>) p)
    \<lparr>engine_data := watch_clear (i_sd (niods p i)) ev (i_events_pending (niods p i) = 1) (engine_data p)\<rparr>)"
proof -
  have sd: "0 \<le> i_sd (niods p i)" "i_sd (niods p i) < 1024" using assms(1) by (auto simp: usable_def)
  show ?thesis
    using select_iod_modify_clear [OF sd assms(3)] update_events_clear [OF assms(2-5)]
    by (intro exI [of _ "watched_events (niods p i) AND NOT ev"]) (simp add: upd_iod_def)
qed

section \<open>Adding events to the lists\<close>

lemma list_insert_before_split:
  "b \<notin> set as \<Longrightarrow> list_insert_before (as @ b # cs) b x = Some (as @ x # b # cs)"
  by (induction as) auto

definition insert_event :: "nat option \<Rightarrow> nat list \<Rightarrow> nat \<Rightarrow> nat list option" where
  "insert_event f xs x = (case f of Some b \<Rightarrow> list_insert_before xs b x | None \<Rightarrow> Some (xs @ [x]))"

lemma group_okE:
  assumes "group_ok f P xs"
  obtains as bs cs where "xs = as @ bs @ cs" "\<forall>y\<in>set bs. P y" "\<forall>y\<in>set as \<union> set cs. \<not> P y"
    "f = (case bs of [] \<Rightarrow> None | b # _ \<Rightarrow> Some b)"
  using assms unfolding group_ok_def by (elim exE conjE) (rule that)

lemma insert_event_group:
  assumes "group_ok f P xs" and "P x" and "distinct xs"
  shows "\<exists>ys. insert_event f xs x = Some ys \<and> mset ys = add_mset x (mset xs) \<and> group_ok (Some x) P ys \<and>
    (\<forall>f' Q. group_ok f' Q xs \<longrightarrow> \<not> Q x \<longrightarrow> (\<forall>y. P y \<longrightarrow> \<not> Q y) \<longrightarrow> group_ok f' Q ys)"
proof -
  obtain as bs cs where xs: "xs = as @ bs @ cs" "\<forall>y\<in>set bs. P y" "\<forall>y\<in>set as \<union> set cs. \<not> P y"
      "f = (case bs of [] \<Rightarrow> None | b # _ \<Rightarrow> Some b)"
    using assms(1) by (rule group_okE)
  show ?thesis
  proof (cases bs)
    case Nil
    have "group_ok (Some x) P (xs @ [x])"
      unfolding group_ok_def using xs Nil assms(2) by (intro exI [of _ xs] exI [of _ "[x]"] exI [of _ "[]"]) auto
    moreover have "group_ok f' Q (xs @ [x])" if q: "group_ok f' Q xs" "\<not> Q x" for f' Q
    proof -
      obtain A B C where "xs = A @ B @ C" "\<forall>y\<in>set B. Q y" "\<forall>y\<in>set A \<union> set C. \<not> Q y"
          "f' = (case B of [] \<Rightarrow> None | b # _ \<Rightarrow> Some b)"
        using q(1) by (rule group_okE)
      then show ?thesis
        unfolding group_ok_def using q(2) by (intro exI [of _ A] exI [of _ B] exI [of _ "C @ [x]"]) auto
    qed
    ultimately show ?thesis using Nil xs(4) by (simp add: insert_event_def)
  next
    case (Cons b bs')
    let ?ys = "as @ x # b # bs' @ cs"
    have ys: "insert_event f xs x = Some ?ys"
      using list_insert_before_split [of b as "bs' @ cs" x] assms(3) xs(1,4) Cons by (simp add: insert_event_def)
    have "group_ok (Some x) P ?ys"
      unfolding group_ok_def using xs(2,3) Cons assms(2)
      by (intro exI [of _ as] exI [of _ "x # bs"] exI [of _ cs]) auto
    moreover have "group_ok f' Q ?ys" if q: "group_ok f' Q xs" "\<not> Q x" "\<forall>y. P y \<longrightarrow> \<not> Q y" for f' Q
    proof -
      obtain A B C where abc: "xs = A @ B @ C" "\<forall>y\<in>set B. Q y" "\<forall>y\<in>set A \<union> set C. \<not> Q y"
          "f' = (case B of [] \<Rightarrow> None | b # _ \<Rightarrow> Some b)"
        using q(1) by (rule group_okE)
      have "P b" using xs(2) Cons by simp
      then have "b \<notin> set B" using abc(2) q(3) by auto
      moreover have "b \<in> set xs" using xs(1) Cons by simp
      ultimately consider "b \<in> set A" | "b \<in> set C" "b \<notin> set A" "b \<notin> set B" using abc(1) by auto
      then show ?thesis
      proof cases
        case 1
        then obtain A1 A2 where A: "A = A1 @ b # A2" "b \<notin> set A1" by (metis split_list_first)
        have "list_insert_before xs b x = Some (A1 @ x # b # A2 @ B @ C)"
          using list_insert_before_split [OF A(2), of "A2 @ B @ C" x] A(1) abc(1) by simp
        then have "?ys = (A1 @ x # b # A2) @ B @ C" using ys xs(4) Cons by (simp add: insert_event_def)
        then show ?thesis unfolding group_ok_def using abc q(2) A
          by (intro exI [of _ "A1 @ x # b # A2"] exI [of _ B] exI [of _ C]) auto
      next
        case 2
        then obtain C1 C2 where C: "C = C1 @ b # C2" "b \<notin> set C1" by (metis split_list_first)
        have "list_insert_before xs b x = Some (A @ B @ C1 @ x # b # C2)"
          using list_insert_before_split [of b "A @ B @ C1" C2 x] C 2 abc(1) by simp
        then have "?ys = A @ B @ (C1 @ x # b # C2)" using ys xs(4) Cons by (simp add: insert_event_def)
        then show ?thesis unfolding group_ok_def using abc q(2) C
          by (intro exI [of _ A] exI [of _ B] exI [of _ "C1 @ x # b # C2"]) auto
      qed
    qed
    ultimately show ?thesis using ys xs(1) Cons by simp
  qed
qed

lemma pending_of_mset: "pending_of p i xs = size (filter_mset (\<lambda>e. live p e \<and> of_iod p i e) (mset xs))"
  by (simp add: pending_of_def flip: size_mset mset_filter)

lemma pending_of_append [simp]: "pending_of p i (xs @ ys) = pending_of p i xs + pending_of p i ys"
  by (simp add: pending_of_def)

lemma pending_of_add:
  "mset ys = add_mset e (mset xs) \<Longrightarrow>
   pending_of p i ys = pending_of p i xs + (if live p e \<and> of_iod p i e then 1 else 0)"
  by (simp add: pending_of_mset)

lemma length_filter_mset: "length (filter P xs) = size (filter_mset P (mset xs))"
  by (simp flip: size_mset mset_filter)

definition reads :: "evkind \<Rightarrow> int" where
  "reads k = (if k = Writes then 0 else 1)"

definition writes :: "evkind \<Rightarrow> int" where
  "writes k = (if k = Reads then 0 else 1)"

definition ev_mask :: "evkind \<Rightarrow> int" where
  "ev_mask k = (case k of Connects \<Rightarrow> 3 | Reads \<Rightarrow> 1 | Writes \<Rightarrow> 2)"

lemma listed_add:
  assumes "evlist k r = ys" and "\<And>k'. k' \<noteq> k \<Longrightarrow> evlist k' r = evlist k' q" and "mset ys = add_mset e (mset (evlist k q))"
  shows "mset (listed r) = add_mset e (mset (listed q))" and "set (listed r) = insert e (set (listed q))"
proof -
  show m: "mset (listed r) = add_mset e (mset (listed q))"
    using assms(1,3) assms(2) [of Connects] assms(2) [of Reads] assms(2) [of Writes]
    by (cases k) (simp_all add: listed_def)
  show "set (listed r) = insert e (set (listed q))" using arg_cong [OF m, of set_mset] by simp
qed

text \<open>
  The pool after an event has been added: \<open>r\<close> differs from \<open>q\<close> in the list of the event's kind, the heap, the
  counters of the descriptor \<open>i\<close> and the descriptor sets.
\<close>

definition added :: "evkind \<Rightarrow> nat \<Rightarrow> nat \<Rightarrow> 'c npool \<Rightarrow> 'c npool \<Rightarrow> bool" where
  "added k i e q r \<longleftrightarrow>
     insert_event (first_ev k (niods q i)) (evlist k q) e = Some (evlist k r) \<and>
     (\<forall>k'. k' \<noteq> k \<longrightarrow> evlist k' r = evlist k' q) \<and> active_iods r = active_iods q \<and> nevents r = nevents q \<and>
     free_events r = free_events q \<and> free_iods r = free_iods q \<and> next_address r = next_address q \<and> next_event_serial r = next_event_serial q \<and>
     events_pending r = events_pending q + 1 \<and>
     (\<forall>j. j \<noteq> i \<longrightarrow> niods r j = niods q j) \<and>
     (\<forall>k'. first_ev k' (niods r i) = (if k' = k then Some e else first_ev k' (niods q i))) \<and>
     i_sd (niods r i) = i_sd (niods q i) \<and> i_state (niods r i) = i_state (niods q i) \<and>
     i_flags (niods r i) = i_flags (niods q i) OR 1 \<and>
     i_events_pending (niods r i) = i_events_pending (niods q i) \<and>
     readsd_count (niods r i) = readsd_count (niods q i) + reads k \<and>
     writesd_count (niods r i) = writesd_count (niods q i) + writes k \<and>
     engine_data r = watch_set (i_sd (niods q i)) (ev_mask k) (engine_data q) \<and>
     heap_ok (timer_heap r) \<and>
     mset (nodes (expirables r)) = (if tv_sec (e_timeout (nevents q e)) \<noteq> 0 then add_mset e (mset (nodes (expirables q)))
                                    else mset (nodes (expirables q)))"

lemma kind_not_timer: "kind_of t = Some k \<Longrightarrow> t \<noteq> NSE_TYPE_TIMER"
  by (auto simp: kind_of_def)

lemma timers_mset: "mset (timers p) = filter_mset (\<lambda>e. e_type (nevents p e) = NSE_TYPE_TIMER) (mset (nodes (expirables p)))"
  by (simp add: timers_def)

definition to_add :: "evkind \<Rightarrow> nat \<Rightarrow> nat \<Rightarrow> 'c npool \<Rightarrow> bool" where
  "to_add k i e q \<longleftrightarrow> pool_inv_off 0 (bump (Some i)) q \<and> fresh_event q e \<and> kind_of (e_type (nevents q e)) = Some k \<and>
     e_iod (nevents q e) = Some i \<and> \<not> event_done (nevents q e) \<and> usable q i"

lemma added_lists:
  assumes "to_add k i e q" and "added k i e q r"
  shows "mset (evlist k r) = add_mset e (mset (evlist k q))" "group_ok (Some e) (of_iod q i) (evlist k r)"
    "\<And>f' Q. group_ok f' Q (evlist k q) \<Longrightarrow> \<not> Q e \<Longrightarrow> (\<And>y. of_iod q i y \<Longrightarrow> \<not> Q y) \<Longrightarrow> group_ok f' Q (evlist k r)"
    "mset (listed r) = add_mset e (mset (listed q))" "set (listed r) = insert e (set (listed q))"
proof -
  have q: "lists_ok q" "of_iod q i e" using assms(1) by (auto simp: to_add_def pool_inv_off_def of_iod_def)
  then have "distinct (evlist k q)" by (cases k) (auto simp: lists_ok_def listed_def)
  then obtain ys where ys: "insert_event (first_ev k (niods q i)) (evlist k q) e = Some ys"
      "mset ys = add_mset e (mset (evlist k q))" "group_ok (Some e) (of_iod q i) ys"
      "\<forall>f' Q. group_ok f' Q (evlist k q) \<longrightarrow> \<not> Q e \<longrightarrow> (\<forall>y. of_iod q i y \<longrightarrow> \<not> Q y) \<longrightarrow> group_ok f' Q ys"
    using insert_event_group [of "first_ev k (niods q i)" "of_iod q i" "evlist k q" e] q by (auto simp: lists_ok_def)
  moreover have r: "evlist k r = ys" "\<And>k'. k' \<noteq> k \<Longrightarrow> evlist k' r = evlist k' q"
    using assms(2) ys(1) by (auto simp: added_def)
  ultimately show "mset (evlist k r) = add_mset e (mset (evlist k q))" "group_ok (Some e) (of_iod q i) (evlist k r)"
    "\<And>f' Q. group_ok f' Q (evlist k q) \<Longrightarrow> \<not> Q e \<Longrightarrow> (\<And>y. of_iod q i y \<Longrightarrow> \<not> Q y) \<Longrightarrow> group_ok f' Q (evlist k r)"
    by auto
  show "mset (listed r) = add_mset e (mset (listed q))" "set (listed r) = insert e (set (listed q))"
    using listed_add [OF r ys(2)] by auto
qed

lemma added_iods:
  assumes "added k i e q r"
  shows "first_ev k' (niods r j) = (if j = i \<and> k' = k then Some e else first_ev k' (niods q j))"
    "i_sd (niods r j) = i_sd (niods q j)" "i_state (niods r j) = i_state (niods q j)"
    "i_events_pending (niods r j) = i_events_pending (niods q j)"
    "readsd_count (niods r j) = readsd_count (niods q j) + (if j = i then reads k else 0)"
    "writesd_count (niods r j) = writesd_count (niods q j) + (if j = i then writes k else 0)"
  by (cases "j = i"; use assms in \<open>simp add: added_def\<close>)+

lemma added_lists_ok:
  assumes "to_add k i e q" and "added k i e q r"
  shows "lists_ok r"
proof -
  note l = added_lists [OF assms]
  have q: "lists_ok q" "of_iod q i e" "e \<notin> set (listed q)" "i \<in> set (active_iods q)" "kind_of (e_type (nevents q e)) = Some k"
    using assms(1) by (auto simp: to_add_def pool_inv_off_def of_iod_def fresh_event_def usable_def)
  have r: "nevents r = nevents q" "active_iods r = active_iods q" "\<And>k'. k' \<noteq> k \<Longrightarrow> evlist k' r = evlist k' q"
    using assms(2) by (auto simp: added_def)
  note f = added_iods(1) [OF assms(2)]
  have o: "of_iod r = of_iod q" by (simp add: of_iod_def r(1) fun_eq_iff)
  have "distinct (listed r)"
    using mset_eq_imp_distinct_iff [of "listed r" "e # listed q"] l(4) q(1,3) by (simp add: lists_ok_def)
  moreover have "kind_of (e_type (nevents r x)) = Some k' \<and> (\<exists>i\<in>set (active_iods r). of_iod r i x)"
    if "x \<in> set (evlist k' r)" for k' x
  proof (cases "k' = k")
    case True
    then have "x = e \<or> x \<in> set (evlist k' q)" using that arg_cong [OF l(1), of set_mset] by auto
    then show ?thesis using q True unfolding r(1,2) o lists_ok_def by blast
  next
    case False
    then show ?thesis using that q(1) unfolding r(1,2) o lists_ok_def by (simp add: r(3))
  qed
  moreover have "group_ok (first_ev k' (niods r j)) (of_iod r j) (evlist k' r)" for k' j
  proof -
    have old: "group_ok (first_ev k' (niods q j)) (of_iod q j) (evlist k' q)" using q(1) by (simp add: lists_ok_def)
    show ?thesis
    proof (cases "k' = k")
      case True
      have "group_ok (first_ev k (niods q j)) (of_iod q j) (evlist k r)" if "j \<noteq> i"
        using old True q(2) that by (intro l(3)) (auto simp: of_iod_def)
      then show ?thesis using True l(2) f [of k' j] by (cases "j = i") (simp_all add: o)
    next
      case False
      then show ?thesis using old r(3) [OF False] f [of k' j] by (simp add: o)
    qed
  qed
  ultimately show ?thesis by (simp add: lists_ok_def)
qed

lemma added_heap_inv:
  assumes "to_add k i e q" and "added k i e q r"
  shows "heap_inv r" "free_ok r"
proof -
  note l = added_lists(5) [OF assms]
  have q: "heap_inv q" "free_ok q" "e \<notin> set (nodes (expirables q)) \<union> set (free_events q)" "e < next_address q"
    using assms(1) by (auto simp: to_add_def pool_inv_off_def fresh_event_def)
  have r: "nevents r = nevents q" "heap_ok (timer_heap r)" "free_events r = free_events q" "next_address r = next_address q"
      "mset (nodes (expirables r)) = (if tv_sec (e_timeout (nevents q e)) \<noteq> 0 then add_mset e (mset (nodes (expirables q)))
                                      else mset (nodes (expirables q)))"
      "active_iods r = active_iods q" "free_iods r = free_iods q"
    using assms(2) by (auto simp: added_def)
  have n: "set (nodes (expirables r)) = (if tv_sec (e_timeout (nevents q e)) \<noteq> 0 then insert e (set (nodes (expirables q)))
                                         else set (nodes (expirables q)))"
    using arg_cong [OF r(5), of set_mset] by (simp split: if_splits)
  show "heap_inv r" using q(1) r(2) by (auto simp: heap_inv_def r(1) n l)
  show "free_ok r" using q(2-4) by (auto simp: free_ok_def r(3,4,6,7) n l)
qed

lemma added_counts_ok:
  assumes "to_add k i e q" and "added k i e q r"
  shows "counts_ok 0 (\<lambda>_. 0) r"
proof -
  note l = added_lists [OF assms]
  have q: "counts_ok 0 (bump (Some i)) q" "of_iod q i e" "live q e" "kind_of (e_type (nevents q e)) = Some k"
    using assms(1) by (auto simp: to_add_def pool_inv_off_def of_iod_def live_def)
  have r: "nevents r = nevents q" "active_iods r = active_iods q" "\<And>k'. k' \<noteq> k \<Longrightarrow> evlist k' r = evlist k' q"
      "events_pending r = events_pending q + 1"
    using assms(2) by (auto simp: added_def)
  note c = added_iods(4-6) [OF assms(2)]
  have o: "of_iod r = of_iod q" "live r = live q" by (simp_all add: of_iod_def live_def r(1) fun_eq_iff)
  have p: "pending_of r j xs = pending_of q j xs" for j xs by (simp add: pending_of_def o)
  have ev: "pending_of q j (evlist k' r) = pending_of q j (evlist k' q) + (if k' = k \<and> j = i then 1 else 0)" for j k'
  proof (cases "k' = k")
    case True
    then show ?thesis using pending_of_add [OF l(1), of q j] q(2,3) by (auto simp: of_iod_def)
  next
    case False
    then show ?thesis using r(3) by simp
  qed
  have all: "pending_of q j (listed r) = pending_of q j (listed q) + (if j = i then 1 else 0)" for j
    using pending_of_add [OF l(4), of q j] q(2,3) by (auto simp: of_iod_def)
  have "mset (timers r) = mset (timers q)"
    using assms(2) kind_not_timer [OF q(4)] by (simp add: timers_mset r(1) added_def)
  then have "length (filter (live q) (listed r @ timers r)) = length (filter (live q) (listed q @ timers q)) + 1"
    using q(3) by (simp add: length_filter_mset l(4))
  moreover have "counts_ok 0 (bump (Some i)) q" by (rule q(1))
  ultimately show ?thesis
    unfolding counts_ok_def r c o p all pending_of_append ev
    by (cases k) (auto simp: bump_def reads_def writes_def)
qed

lemma added_engine_ok:
  assumes "to_add k i e q" and "added k i e q r"
  shows "engine_ok r"
proof -
  note l = added_lists(5) [OF assms]
  have q: "engine_ok q" "e_iod (nevents q e) = Some i" "usable q i" "counts_ok 0 (bump (Some i)) q"
    using assms(1) by (auto simp: to_add_def pool_inv_off_def)
  define sd where "sd = i_sd (niods q i)"
  have r: "nevents r = nevents q" "active_iods r = active_iods q"
      "\<And>j. j \<noteq> i \<Longrightarrow> niods r j = niods q j" "i_flags (niods r i) = i_flags (niods q i) OR 1"
      "readsd_count (niods r i) = readsd_count (niods q i) + reads k"
      "writesd_count (niods r i) = writesd_count (niods q i) + writes k"
      "engine_data r = watch_set sd (ev_mask k) (engine_data q)"
    using assms(2) unfolding added_def sd_def by auto
  note c = added_iods(2,3) [OF assms(2)]
  have u: "usable r j = usable q j" for j by (simp add: usable_def r(2) c)
  have i: "i \<in> set (active_iods q)" "sd \<noteq> -1" using q(3) by (auto simp: usable_def sd_def)
  have nn: "0 \<le> readsd_count (niods q i)" "0 \<le> writesd_count (niods q i)" using q(4) i(1) by (auto simp: counts_ok_def)
  have wi: "watch_ok q i" using q(1) i by (auto simp: engine_ok_def sd_def)
  have "watch_ok r i"
    using wi nn flag_or(2) unfolding watch_ok_def Let_def IOD_PROPGET_def c r(4-7) sd_def [symmetric]
    by (cases k) (auto simp: reads_def writes_def ev_mask_def watch_set_def)
  moreover have "watch_ok r j" if j: "j \<in> set (active_iods q)" "i_sd (niods q j) \<noteq> -1" "j \<noteq> i" for j
  proof -
    have "i_sd (niods q j) \<noteq> sd" using q(1) j i unfolding engine_ok_def inj_on_def sd_def by auto
    moreover have "watch_ok q j" using q(1) j by (auto simp: engine_ok_def)
    ultimately show ?thesis
      unfolding watch_ok_def Let_def IOD_PROPGET_def r(3) [OF j(3)] r(7) by (auto simp: watch_set_def)
  qed
  moreover have "of_iod r = of_iod q" by (simp add: of_iod_def r(1) fun_eq_iff)
  moreover have "fds_master_r (engine_data r) \<union> fds_master_w (engine_data r) \<subseteq>
      insert sd (fds_master_r (engine_data q) \<union> fds_master_w (engine_data q))"
    by (auto simp: r(7) watch_set_def split: if_splits)
  then have "fds_master_r (engine_data r) \<union> fds_master_w (engine_data r) \<subseteq> (\<lambda>i. i_sd (niods q i)) ` set (active_iods q)"
    using q(1) i(1) unfolding engine_ok_def sd_def by blast
  moreover have "live r = live q" by (simp add: live_def r(1) fun_eq_iff)
  ultimately show ?thesis using q(1-3) unfolding engine_ok_def r(2) c u l by (auto simp: of_iod_def)
qed

lemma added_inv:
  assumes "to_add k i e q" and "added k i e q r"
  shows "pool_inv r"
proof -
  have "serial_ok q" "next_event_serial r = next_event_serial q"
    using assms by (auto simp: to_add_def pool_inv_off_def added_def)
  then have "serial_ok r" by (simp add: serial_ok_def)
  then show ?thesis
    using added_lists_ok [OF assms] added_heap_inv [OF assms] added_counts_ok [OF assms] added_engine_ok [OF assms]
    by (simp add: pool_inv_def pool_inv_off_def)
qed

lemma push_event:
  assumes "heap_inv q" and "fresh_event q e" and "count (expirables q) < GH_HEAP_GUARD"
  shows "\<exists>h. gh_heap_push (timer_heap q) e = Some h \<and> heap_ok h \<and> cmp_op h = cmp_op (timer_heap q) \<and>
    mset (nodes h) = add_mset e (mset (nodes (expirables q)))"
proof -
  have "heap_ok (timer_heap q)" using assms(1) by (simp add: heap_inv_def)
  moreover have "\<not> gh_hnode_is_valid (timer_heap q) e"
    using assms(2) by (simp add: fresh_event_def gh_hnode_is_valid_def)
  ultimately obtain h where "gh_heap_push (timer_heap q) e = Some h" "heap_ok h" "cmp_op h = cmp_op (timer_heap q)"
      "mset (nodes h) = add_mset e (mset (nodes (timer_heap q)))"
    using gh_heap_push_spec [of "timer_heap q" e] timer_heap_order [of q] assms(3) by auto
  then show ?thesis by (intro exI [of _ h]) simp
qed

lemma timer_heap_eq: "expirables r = h \<Longrightarrow> cmp_op h = expirable_cmp (\<lambda>e. e_timeout (nevents r e)) \<Longrightarrow> timer_heap r = h"
  by (simp add: timer_heap_def)

text \<open>The part of \<open>nsock_pool_add_event\<close> that enters the timeout into the heap.\<close>

definition push_if :: "'c npool \<Rightarrow> nat \<Rightarrow> 'c npool option" where
  "push_if p nse = (if tv_sec (e_timeout (nevents p nse)) \<noteq> 0
     then do { h \<leftarrow> gh_heap_push (timer_heap p) nse; Some (p\<lparr>expirables := h\<rparr>) } else Some p)"

lemma push_if_spec:
  assumes "heap_inv q" and "fresh_event q e" and "count (expirables q) < GH_HEAP_GUARD" and "timer_heap p = timer_heap q"
    and "nevents p = nevents q" and "expirables p = expirables q"
  shows "\<exists>h. push_if p e = Some (p\<lparr>expirables := h\<rparr>) \<and>
    heap_ok (h\<lparr>cmp_op := expirable_cmp (\<lambda>e. e_timeout (nevents q e))\<rparr>) \<and>
    mset (nodes h) = (if tv_sec (e_timeout (nevents q e)) \<noteq> 0 then add_mset e (mset (nodes (expirables q)))
                      else mset (nodes (expirables q)))"
proof (cases "tv_sec (e_timeout (nevents q e)) = 0")
  case True
  have "heap_ok (timer_heap q)" using assms(1) by (simp add: heap_inv_def)
  then show ?thesis
    using True assms(5,6) by (intro exI [of _ "expirables q"]) (simp add: push_if_def timer_heap_def)
next
  case False
  obtain h where h: "gh_heap_push (timer_heap q) e = Some h" "heap_ok h" "cmp_op h = cmp_op (timer_heap q)"
      "mset (nodes h) = add_mset e (mset (nodes (expirables q)))"
    using push_event [OF assms(1-3)] by auto
  have "h\<lparr>cmp_op := expirable_cmp (\<lambda>e. e_timeout (nevents q e))\<rparr> = h" using h(3) by simp
  then have "heap_ok (h\<lparr>cmp_op := expirable_cmp (\<lambda>e. e_timeout (nevents q e))\<rparr>)" using h(2) by metis
  then show ?thesis using False h(1,4) assms(4,5) by (intro exI [of _ h]) (simp add: push_if_def)
qed

lemma iod_add_event_eq:
  "kind_of (e_type (nevents p e)) = Some k \<Longrightarrow>
   iod_add_event i p e = (case insert_event (first_ev k (niods p i)) (evlist k p) e of
     None \<Rightarrow> None | Some xs \<Rightarrow> Some (upd_iod i (set_first_ev k (Some e)) (set_evlist k xs p)))"
  by (simp add: iod_add_event_def insert_event_def Option.bind_def split: option.split)

text \<open>The rest of it, for an event of kind \<open>k\<close>.\<close>

definition watch_add :: "evkind \<Rightarrow> nat \<Rightarrow> 'c npool \<Rightarrow> nat \<Rightarrow> 'c npool option" where
  "watch_add k i p e = do {
     p \<leftarrow> update_events i (upd_iod i (\<lambda>n. n\<lparr>readsd_count := readsd_count n + reads k, writesd_count := writesd_count n + writes k\<rparr>) p)
            (ev_mask k) 0;
     iod_add_event i p e
   }"

lemma watch_add_spec:
  assumes "to_add k i e q" and "p = q\<lparr>events_pending := events_pending q + 1, expirables := h\<rparr>"
    and "heap_ok (h\<lparr>cmp_op := expirable_cmp (\<lambda>e. e_timeout (nevents q e))\<rparr>)"
    and "mset (nodes h) = (if tv_sec (e_timeout (nevents q e)) \<noteq> 0 then add_mset e (mset (nodes (expirables q)))
                      else mset (nodes (expirables q)))"
  shows "\<exists>r. watch_add k i p e = Some r \<and> added k i e q r"
proof -
  have q: "lists_ok q" "usable q i" "kind_of (e_type (nevents q e)) = Some k" "e_iod (nevents q e) = Some i"
    using assms(1) by (auto simp: to_add_def pool_inv_off_def)
  define p1 where "p1 = upd_iod i (\<lambda>n. n\<lparr>readsd_count := readsd_count n + reads k, writesd_count := writesd_count n + writes k\<rparr>) p"
  have "usable p1 i" using q(2) by (simp add: usable_def p1_def assms(2))
  moreover have "ev_mask k \<in> {1, 2, 3}" by (cases k) (simp_all add: ev_mask_def)
  ultimately obtain w where w: "update_events i p1 (ev_mask k) 0 =
      Some ((upd_iod i (\<lambda>n. n\<lparr>watched_events := w, i_flags := i_flags n OR 1\<rparr>) p1)
        \<lparr>engine_data := watch_set (i_sd (niods p1 i)) (ev_mask k) (engine_data p1)\<rparr>)"
    using update_events_inc by blast
  have "distinct (evlist k q)" "group_ok (first_ev k (niods q i)) (of_iod q i) (evlist k q)" "of_iod q i e"
    using q(1,4) by (cases k; auto simp: lists_ok_def listed_def of_iod_def)+
  then obtain ys where ys: "insert_event (first_ev k (niods q i)) (evlist k q) e = Some ys"
    using insert_event_group by blast
  define p2 where "p2 = (upd_iod i (\<lambda>n. n\<lparr>watched_events := w, i_flags := i_flags n OR 1\<rparr>) p1)
        \<lparr>engine_data := watch_set (i_sd (niods p1 i)) (ev_mask k) (engine_data p1)\<rparr>"
  define r where "r = upd_iod i (set_first_ev k (Some e)) (set_evlist k ys p2)"
  have p2: "nevents p2 = nevents q" "evlist k' p2 = evlist k' q" "first_ev k' (niods p2 j) = first_ev k' (niods q j)" for k' j
    by (simp_all add: p2_def p1_def assms(2))
  have "watch_add k i p e = Some r"
    using w iod_add_event_eq [of p2 e k i] q(3) ys
    by (simp add: watch_add_def p1_def [symmetric] p2_def [symmetric] p2 r_def)
  moreover have "added k i e q r"
    using ys assms(3,4) by (auto simp: added_def r_def p2_def p1_def assms(2) timer_heap_def)
  ultimately show ?thesis by blast
qed

lemma add_event_listed:
  assumes "to_add k i e q" and "k = Reads \<Longrightarrow> \<not> IOD_PROPGET q i IOD_EOF" and "count (expirables q) < GH_HEAP_GUARD"
  shows "\<exists>r. nsock_pool_add_event H q e = Some r \<and> added k i e q r"
proof -
  have q: "heap_inv q" "fresh_event q e" "usable q i" "kind_of (e_type (nevents q e)) = Some k" "e_iod (nevents q e) = Some i"
      "\<not> event_done (nevents q e)" "counts_ok 0 (bump (Some i)) q" "i \<in> set (active_iods q)"
    using assms(1) by (auto simp: to_add_def pool_inv_off_def usable_def)
  define p where "p = q\<lparr>events_pending := events_pending q + 1\<rparr>"
  have "timer_heap p = timer_heap q" "nevents p = nevents q" "expirables p = expirables q" by (simp_all add: p_def timer_heap_def)
  then obtain h where h: "push_if p e = Some (p\<lparr>expirables := h\<rparr>)"
      "heap_ok (h\<lparr>cmp_op := expirable_cmp (\<lambda>e. e_timeout (nevents q e))\<rparr>)"
      "mset (nodes h) = (if tv_sec (e_timeout (nevents q e)) \<noteq> 0 then add_mset e (mset (nodes (expirables q)))
                         else mset (nodes (expirables q)))"
    using push_if_spec [OF q(1,2) assms(3)] by blast
  define p' where "p' = p\<lparr>expirables := h\<rparr>"
  have nn: "0 \<le> readsd_count (niods q i)" "0 \<le> writesd_count (niods q i)" "0 \<le> i_sd (niods q i)"
    using q(3,7,8) by (auto simp: counts_ok_def usable_def)
  have p': "niods p' = niods q" "nevents p' = nevents q" by (simp_all add: p'_def p_def)
  have eof: "e_type (nevents q e) = NSE_TYPE_READ \<Longrightarrow> \<not> IOD_PROPGET p i IOD_EOF"
    using assms(2) q(4) by (simp add: kind_of_def p_def IOD_PROPGET_def)
  have pq: "nevents p = nevents q" "niods p = niods q" by (simp_all add: p_def)
  have hp: "(if tv_sec (e_timeout (nevents q e)) \<noteq> 0
      then do { h \<leftarrow> gh_heap_push (timer_heap p) e; Some (p\<lparr>expirables := h\<rparr>) } else Some p) = Some p'"
    using h(1) by (simp add: push_if_def pq p'_def cong: if_cong)
  have "nsock_pool_add_event H q e = watch_add k i p' e"
    using q(4-6) nn eof
    by (cases "e_type (nevents q e)")
       (simp_all add: nsock_pool_add_event_def p_def [symmetric] pq hp kind_of_def p' watch_add_def reads_def writes_def ev_mask_def
         socket_count_read_inc_def socket_count_write_inc_def upd_iod_def cong: if_cong)
  then show ?thesis
    using watch_add_spec [OF assms(1) _ h(2,3), of p'] by (simp add: p'_def p_def)
qed

end
