(* ===== verification/Nsock_Req.thy ===== *)
theory Nsock_Req
  imports Nsock_Inv
begin

text \<open>
  The requests a client makes of a pool: reading, writing and timers. Each keeps the invariant.
\<close>

section \<open>Filling in a new event\<close>

lemma listed_upd [simp]: "listed (upd_event e f p) = listed p" "listed (upd_iod i g p) = listed p"
  by (simp_all add: listed_def)

lemma same_nodes_refl [simp]: "same_nodes h h"
  by (simp add: same_nodes_def)

lemma pool_inv_off_cong:
  assumes "pool_inv_off d D p" and "same_events p q" and "engine_data q = engine_data p"
    and "free_events q = free_events p \<and> free_iods q = free_iods p" and "next_address q = next_address p" and "next_event_serial q = next_event_serial p"
    and "events_pending q = events_pending p"
    and "\<And>e. e \<in> set (listed p) \<union> set (nodes (expirables p)) \<Longrightarrow> live q e = live p e"
    and "\<And>i. i_sd (niods q i) = i_sd (niods p i) \<and> i_state (niods q i) = i_state (niods p i) \<and>
      i_flags (niods q i) AND 1 = i_flags (niods p i) AND 1 \<and> readsd_count (niods q i) = readsd_count (niods p i) \<and>
      writesd_count (niods q i) = writesd_count (niods p i) \<and> i_events_pending (niods q i) = i_events_pending (niods p i)"
  shows "pool_inv_off d D q"
proof -
  have inv: "lists_ok p" "heap_inv p" "free_ok p" "counts_ok d D p" "engine_ok p" "serial_ok p"
    using assms(1) by (auto simp: pool_inv_off_def)
  have "nodes (expirables q) = nodes (expirables p)"
    using assms(2) same_nodes_nodes by (auto simp: same_events_def)
  then have "free_ok q" using inv(3) same_events_listed [OF assms(2)] assms(2,4,5) by (simp add: free_ok_def same_events_def)
  moreover have "counts_ok (d + 0) (\<lambda>i. D i + 0) q"
    by (rule counts_ok_cong [OF inv(4) assms(2)]) (use assms(7-9) in simp_all)
  moreover have "engine_ok q" by (rule engine_ok_cong [OF inv(5) assms(2,3)]) (use assms(8,9) in simp_all)
  ultimately show ?thesis
    using same_events_lists_ok [OF inv(1) assms(2)] same_events_heap_inv [OF inv(2) assms(2)] inv(6) assms(6)
    by (simp add: pool_inv_off_def serial_ok_def)
qed

lemma upd_fresh_inv:
  assumes "pool_inv_off d D q" and "fresh_event q e"
  shows "pool_inv_off d D (upd_event e f q)" "fresh_event (upd_event e f q) e"
proof -
  show "pool_inv_off d D (upd_event e f q)"
    by (rule pool_inv_off_cong [OF assms(1)])
       (use assms(2) in \<open>auto simp: same_events_def fresh_event_def live_def\<close>)
  show "fresh_event (upd_event e f q) e" using assms(2) by (simp add: fresh_event_def)
qed

lemma upd_peer_inv:
  assumes "pool_inv_off d D q"
  shows "pool_inv_off d D (upd_iod i (\<lambda>n. n\<lparr>i_peer := a\<rparr>) q)"
  by (rule pool_inv_off_cong [OF assms]) (simp_all add: same_events_def live_def)

definition keeps_place :: "(nevent \<Rightarrow> nevent) \<Rightarrow> bool" where
  "keeps_place f \<longleftrightarrow> (\<forall>v. e_type (f v) = e_type v \<and> e_iod (f v) = e_iod v \<and> event_done (f v) = event_done v)"

lemma to_add_upd:
  assumes "to_add k i e q" and "keeps_place f"
  shows "to_add k i e (upd_event e f q)"
  using assms upd_fresh_inv [of 0 "bump (Some i)" q e f] by (simp add: to_add_def keeps_place_def usable_def)

lemma to_add_peer:
  assumes "to_add k i e q"
  shows "to_add k i e (upd_iod j (\<lambda>n. n\<lparr>i_peer := a\<rparr>) q)"
  using assms upd_peer_inv [of 0 "bump (Some i)" q j a] by (auto simp: to_add_def usable_def fresh_event_def)

text \<open>What a client has after a request of kind \<open>k\<close> on a descriptor.\<close>

definition requested :: "evkind \<Rightarrow> nat \<Rightarrow> 'c npool \<Rightarrow> nat \<Rightarrow> 'c npool \<Rightarrow> bool" where
  "requested k i p e q \<longleftrightarrow> pool_inv q \<and> e \<notin> set (listed p) \<union> set (nodes (expirables p)) \<and>
     mset (evlist k q) = add_mset e (mset (evlist k p)) \<and> (\<forall>k'. k' \<noteq> k \<longrightarrow> evlist k' q = evlist k' p) \<and>
     (\<forall>x. x \<noteq> e \<longrightarrow> nevents q x = nevents p x) \<and> e_iod (nevents q e) = Some i \<and> \<not> event_done (nevents q e) \<and>
     (k \<noteq> Writes \<longrightarrow> i_sd (niods q i) \<in> fds_master_r (engine_data q)) \<and>
     (k \<noteq> Reads \<longrightarrow> i_sd (niods q i) \<in> fds_master_w (engine_data q)) \<and>
     i_sd (niods q i) \<le> max_sd (engine_data q) \<and>
     set (nodes (expirables q)) \<subseteq> insert e (set (nodes (expirables p))) \<and>
     events_pending q = events_pending p + 1 \<and> (\<forall>j. usable p j \<longrightarrow> usable q j)"


text \<open>The changes a request makes to its new event before it adds it.\<close>

definition filled :: "nat \<Rightarrow> 'c npool \<Rightarrow> 'c npool \<Rightarrow> bool" where
  "filled e q q' \<longleftrightarrow> (\<forall>k. evlist k q' = evlist k q) \<and> expirables q' = expirables q \<and> active_iods q' = active_iods q \<and>
     events_pending q' = events_pending q \<and> (\<forall>x. x \<noteq> e \<longrightarrow> nevents q' x = nevents q x) \<and>
     (\<forall>j. i_sd (niods q' j) = i_sd (niods q j) \<and> i_state (niods q' j) = i_state (niods q j) \<and>
          i_flags (niods q' j) = i_flags (niods q j))"

lemma filled_upd: "filled e q (upd_event e f q)" "filled e q (upd_event e g (upd_event e f q))"
  "filled e q (upd_event e g (upd_iod i (\<lambda>n. n\<lparr>i_peer := a\<rparr>) (upd_event e f q)))"
  by (simp_all add: filled_def)

lemma request_added:
  assumes "pool_inv p" and "usable p i" and "-1 \<le> ms" and "event_new p t (Some i) ms h u = Some (q, e)"
    and "filled e q q'" and "to_add k i e q'" and "k = Reads \<Longrightarrow> \<not> IOD_PROPGET p i IOD_EOF"
    and "count (expirables p) < GH_HEAP_GUARD"
  shows "\<exists>r. nsock_pool_add_event H q' e = Some r \<and> requested k i p e r \<and> nevents r = nevents q'"
proof -
  have "\<And>j. Some i = Some j \<Longrightarrow> usable p j" using assms(2) by simp
  note q = event_new_inv [OF assms(1) this assms(3,4)]
  have l: "evlist k q = evlist k p" "listed q = listed p" "active_iods q = active_iods p" for k
    using q(8) same_events_listed by (auto simp: same_events_def)
  have q': "\<And>k. evlist k q' = evlist k q" "expirables q' = expirables q" "events_pending q' = events_pending q"
      "\<And>x. x \<noteq> e \<Longrightarrow> nevents q' x = nevents q x" "\<And>j f. IOD_PROPGET q' j f = IOD_PROPGET q j f" "\<And>j. usable q' j = usable q j"
    using assms(5) by (simp_all add: filled_def IOD_PROPGET_def usable_def)
  have "k = Reads \<Longrightarrow> \<not> IOD_PROPGET q' i IOD_EOF" using assms(7) q(12) q'(5) by simp
  moreover have "count (expirables q') < GH_HEAP_GUARD" using assms(8) q(13) q'(2) by simp
  ultimately obtain r where r: "nsock_pool_add_event H q' e = Some r" "added k i e q' r"
    using add_event_listed [OF assms(6)] by blast
  note a = added_lists [OF assms(6) r(2)] and inv = added_inv [OF assms(6) r(2)]
  have ra: "nevents r = nevents q'" "active_iods r = active_iods q'" "\<And>k'. k' \<noteq> k \<Longrightarrow> evlist k' r = evlist k' q'"
      "events_pending r = events_pending q' + 1" "engine_data r = watch_set (i_sd (niods q' i)) (ev_mask k) (engine_data q')"
      "i_sd (niods r i) = i_sd (niods q' i)"
    using r(2) by (auto simp: added_def)
  have us: "usable r j = usable q' j" for j using added_iods(2,3) [OF r(2)] by (simp add: usable_def ra(2))
  have e: "e_iod (nevents q' e) = Some i" "\<not> event_done (nevents q' e)" using assms(6) by (auto simp: to_add_def)
  have "mset (evlist k r) = add_mset e (mset (evlist k p))" using a(1) by (simp add: q'(1) l(1))
  moreover have "set (nodes (expirables r)) \<subseteq> insert e (set (nodes (expirables q')))"
  proof -
    have "mset (nodes (expirables r)) = mset (nodes (expirables q')) \<or>
        mset (nodes (expirables r)) = add_mset e (mset (nodes (expirables q')))"
      using r(2) by (auto simp: added_def)
    then show ?thesis by (metis mset_eq_setD set_mset_add_mset_insert set_mset_mset subset_insertI subset_refl)
  qed
  then have "set (nodes (expirables r)) \<subseteq> insert e (set (nodes (expirables p)))" using q(14) by (simp add: q'(2))
  ultimately have "requested k i p e r"
    unfolding requested_def using inv e q(10)
    by (cases k) (simp_all add: ra us q' q l watch_set_def ev_mask_def)
  then show ?thesis using r(1) ra(1) by blast
qed

lemma new_to_add:
  assumes "pool_inv p" and "usable p i" and "-1 \<le> ms" and "event_new p t (Some i) ms h u = Some (q, e)" and "kind_of t = Some k"
  shows "to_add k i e q"
proof -
  have "\<And>j. Some i = Some j \<Longrightarrow> usable p j" using assms(2) by simp
  note q = event_new_inv [OF assms(1) this assms(3,4)]
  show ?thesis using q(1-5,11) assms(2,5) by (simp add: to_add_def)
qed


section \<open>Reading and writing\<close>

lemma new_event:
  assumes "pool_inv p" and "usable p i" and "-1 \<le> ms" and "kind_of t = Some k"
  obtains q e where "event_new p t (Some i) ms h u = Some (q, e)" "to_add k i e q"
    "get_event_id_type (e_id (nevents q e)) = Some t" "e_handler (nevents q e) = h" "written_so_far (nevents q e) = 0" "dest (nevents q e) = None"
    "t = NSE_TYPE_READ \<or> t = NSE_TYPE_WRITE \<Longrightarrow> fs_ok (iobuf (nevents q e)) []"
proof -
  have u: "\<And>j. Some i = Some j \<Longrightarrow> usable p j" using assms(2) by simp
  obtain q e where n: "event_new p t (Some i) ms h u = Some (q, e)" using event_new_returns [OF assms(1) u assms(3)] by blast
  note q = event_new_inv [OF assms(1) u assms(3) n]
  show ?thesis
    by (rule that [OF n new_to_add [OF assms(1-3) n assms(4)]]) (use q(7,16,17,19,20) in simp_all)
qed

definition read_request :: "nat \<Rightarrow> nat \<Rightarrow> nsock_read_types \<Rightarrow> 'c npool \<Rightarrow> nat \<Rightarrow> 'c npool \<Rightarrow> bool" where
  "read_request i h rt p e q \<longleftrightarrow> requested Reads i p e q \<and> read_type (nevents q e) = rt \<and>
     e_handler (nevents q e) = h \<and> fs_ok (iobuf (nevents q e)) [] \<and>
     get_event_id_type (e_id (nevents q e)) = Some NSE_TYPE_READ"

definition write_request :: "nat \<Rightarrow> nat \<Rightarrow> sockaddr option \<Rightarrow> string \<Rightarrow> 'c npool \<Rightarrow> nat \<Rightarrow> 'c npool \<Rightarrow> bool" where
  "write_request i h dst data p e q \<longleftrightarrow> requested Writes i p e q \<and> dest (nevents q e) = dst \<and>
     e_handler (nevents q e) = h \<and> fs_ok (iobuf (nevents q e)) data \<and> written_so_far (nevents q e) = 0 \<and>
     get_event_id_type (e_id (nevents q e)) = Some NSE_TYPE_WRITE"

definition can_read :: "'c npool \<Rightarrow> nat \<Rightarrow> bool" where
  "can_read p i \<longleftrightarrow> usable p i \<and> \<not> IOD_PROPGET p i IOD_EOF"

definition room :: "'c npool \<Rightarrow> bool" where
  "room p \<longleftrightarrow> count (expirables p) < GH_HEAP_GUARD"

lemma read_requested:
  assumes "pool_inv p" and "can_read p i" and "room p" and "-1 \<le> ms" and "keeps_place f"
    and "\<And>v. read_type (f v) = rt \<and> e_handler (f v) = e_handler v \<and> iobuf (f v) = iobuf v \<and> e_id (f v) = e_id v"
  shows "\<exists>q e. do {
       (p, nse) \<leftarrow> event_new p NSE_TYPE_READ (Some i) ms h u;
       let p = upd_event nse f p;
       p \<leftarrow> nsock_pool_add_event H p nse;
       Some (p, e_id (nevents p nse)) } = Some (q, e_id (nevents q e)) \<and> read_request i h rt p e q"
proof -
  have u: "usable p i" "\<not> IOD_PROPGET p i IOD_EOF" "count (expirables p) < GH_HEAP_GUARD" using assms(2,3) by (auto simp: can_read_def room_def)
  have k: "kind_of NSE_TYPE_READ = Some Reads" by (simp add: kind_of_def)
  obtain q e where n: "event_new p NSE_TYPE_READ (Some i) ms h u = Some (q, e)" "to_add Reads i e q"
      "e_handler (nevents q e) = h" "fs_ok (iobuf (nevents q e)) []" "get_event_id_type (e_id (nevents q e)) = Some NSE_TYPE_READ"
    using new_event [OF assms(1) u(1) assms(4) k] by metis
  obtain r where r: "nsock_pool_add_event H (upd_event e f q) e = Some r" "requested Reads i p e r" "nevents r = nevents (upd_event e f q)"
    using request_added [OF assms(1) u(1) assms(4) n(1) filled_upd(1) to_add_upd [OF n(2) assms(5)] _ u(3)] u(2) by blast
  have "read_request i h rt p e r" using r(2,3) n(3-5) assms(6) by (simp add: read_request_def)
  then show ?thesis using n(1) r(1) by (intro exI [of _ r] exI [of _ e]) simp
qed

lemma nsock_read_requested:
  assumes "pool_inv p" and "can_read p i" and "room p" and "-1 \<le> ms"
  shows "\<exists>q e. nsock_read H p i h ms u = Some (q, e_id (nevents q e)) \<and> read_request i h NSOCK_READ p e q"
  unfolding nsock_read_def by (rule read_requested [OF assms]) (simp_all add: keeps_place_def)

lemma nsock_readlines_requested:
  assumes "pool_inv p" and "can_read p i" and "room p" and "-1 \<le> ms"
  shows "\<exists>q e. nsock_readlines H p i h ms u n = Some (q, e_id (nevents q e)) \<and> read_request i h NSOCK_READLINES p e q"
  unfolding nsock_readlines_def by (rule read_requested [OF assms]) (simp_all add: keeps_place_def)

lemma nsock_readbytes_requested:
  assumes "pool_inv p" and "can_read p i" and "room p" and "-1 \<le> ms"
  shows "\<exists>q e. nsock_readbytes H p i h ms u n = Some (q, e_id (nevents q e)) \<and> read_request i h NSOCK_READBYTES p e q"
  unfolding nsock_readbytes_def by (rule read_requested [OF assms]) (simp_all add: keeps_place_def)


lemma append_data_new:
  assumes "fs_ok (iobuf (nevents q e)) []" and "0 \<le> n" and "n \<le> int (length data)" and "n \<le> 400000000"
  shows "\<exists>fs. append_data q e data n = Some (upd_event e (\<lambda>v. v\<lparr>iobuf := fs\<rparr>) q) \<and> fs_ok fs (take (nat n) data)"
  using fs_cat_ok [OF assms(1-3)] assms(4) by (auto simp: append_data_def)

definition given_length :: "string \<Rightarrow> int \<Rightarrow> int" where
  "given_length data n = (if n < 0 then int (length (takeWhile (\<lambda>c. c \<noteq> NUL) data)) else n)"

definition fits :: "string \<Rightarrow> int \<Rightarrow> bool" where
  "fits data n \<longleftrightarrow> given_length data n \<le> int (length data) \<and> given_length data n \<le> 400000000"

lemma write_new:
  assumes "pool_inv p" and "usable p i" and "-1 \<le> ms"
  obtains q e where "event_new p NSE_TYPE_WRITE (Some i) ms h u = Some (q, e)" "to_add Writes i e q"
    "e_handler (nevents q e) = h" "fs_ok (iobuf (nevents q e)) []" "written_so_far (nevents q e) = 0" "dest (nevents q e) = None"
    "get_event_id_type (e_id (nevents q e)) = Some NSE_TYPE_WRITE"
proof -
  have "kind_of NSE_TYPE_WRITE = Some Writes" by (simp add: kind_of_def)
  from new_event [OF assms this] that show ?thesis by metis
qed

lemma write_requested:
  assumes "pool_inv p" and "usable p i" and "room p" and "-1 \<le> ms" and "event_new p NSE_TYPE_WRITE (Some i) ms h u = Some (q, e)"
    and "filled e q q'" and "to_add Writes i e q'" and "dest (nevents q' e) = dst" and "e_handler (nevents q' e) = h"
    and "fs_ok (iobuf (nevents q' e)) data" and "written_so_far (nevents q' e) = 0"
    and "get_event_id_type (e_id (nevents q' e)) = Some NSE_TYPE_WRITE"
  shows "\<exists>r. nsock_pool_add_event H q' e = Some r \<and> write_request i h dst data p e r"
proof -
  obtain r where "nsock_pool_add_event H q' e = Some r" "requested Writes i p e r" "nevents r = nevents q'"
    using request_added [OF assms(1,2,4-7)] assms(3) by (auto simp: room_def)
  then show ?thesis using assms(8-12) by (auto simp: write_request_def)
qed

lemma nsock_write_requested:
  assumes "pool_inv p" and "usable p i" and "room p" and "-1 \<le> ms" and "fits data n"
  shows "\<exists>q e. nsock_write H p i h ms u data n = Some (q, e_id (nevents q e)) \<and>
    write_request i h None (take (nat (given_length data n)) data) p e q"
proof -
  obtain q e where n: "event_new p NSE_TYPE_WRITE (Some i) ms h u = Some (q, e)" "to_add Writes i e q"
      "e_handler (nevents q e) = h" "fs_ok (iobuf (nevents q e)) []" "written_so_far (nevents q e) = 0" "dest (nevents q e) = None" "get_event_id_type (e_id (nevents q e)) = Some NSE_TYPE_WRITE"
    using write_new [OF assms(1,2,4)] .
  define f where "f = (\<lambda>v :: nevent. v\<lparr>dest := None\<rparr>)"
  have "0 \<le> given_length data n" by (simp add: given_length_def)
  then obtain fs where fs: "append_data (upd_event e f q) e data (given_length data n) =
      Some (upd_event e (\<lambda>v. v\<lparr>iobuf := fs\<rparr>) (upd_event e f q))" "fs_ok fs (take (nat (given_length data n)) data)"
    using append_data_new [of "upd_event e f q" e "given_length data n" data] n(4) assms(5) by (auto simp: fits_def f_def)
  have "to_add Writes i e (upd_event e (\<lambda>v. v\<lparr>iobuf := fs\<rparr>) (upd_event e f q))"
    by (intro to_add_upd n) (simp_all add: keeps_place_def f_def)
  from write_requested [OF assms(1-4) n(1) filled_upd(2) this, where dst = None] n(3,5,7) fs(2) obtain r where
    "nsock_pool_add_event H (upd_event e (\<lambda>v. v\<lparr>iobuf := fs\<rparr>) (upd_event e f q)) e = Some r"
    "write_request i h None (take (nat (given_length data n)) data) p e r" by (auto simp: f_def)
  then show ?thesis
    using n(1) fs(1) by (intro exI [of _ r] exI [of _ e]) (simp add: nsock_write_def given_length_def f_def)
qed

lemma nsock_sendto_requested:
  assumes "pool_inv p" and "usable p i" and "room p" and "-1 \<le> ms" and "fits data n"
  shows "\<exists>q e. nsock_sendto H p i h ms u a port data n = Some (q, e_id (nevents q e)) \<and>
    write_request i h (Some (set_port port a)) (take (nat (given_length data n)) data) p e q"
proof -
  obtain q e where n: "event_new p NSE_TYPE_WRITE (Some i) ms h u = Some (q, e)" "to_add Writes i e q"
      "e_handler (nevents q e) = h" "fs_ok (iobuf (nevents q e)) []" "written_so_far (nevents q e) = 0" "dest (nevents q e) = None" "get_event_id_type (e_id (nevents q e)) = Some NSE_TYPE_WRITE"
    using write_new [OF assms(1,2,4)] .
  define f where "f = (\<lambda>v :: nevent. v\<lparr>dest := Some (set_port port a)\<rparr>)"
  define q1 where "q1 = upd_iod i (\<lambda>n. n\<lparr>i_peer := Some (set_port port a)\<rparr>) (upd_event e f q)"
  have "0 \<le> given_length data n" by (simp add: given_length_def)
  then obtain fs where fs: "append_data q1 e data (given_length data n) =
      Some (upd_event e (\<lambda>v. v\<lparr>iobuf := fs\<rparr>) q1)" "fs_ok fs (take (nat (given_length data n)) data)"
    using append_data_new [of q1 e "given_length data n" data] n(4) assms(5) by (auto simp: fits_def f_def q1_def)
  have "to_add Writes i e (upd_event e (\<lambda>v. v\<lparr>iobuf := fs\<rparr>) q1)"
    unfolding q1_def by (intro to_add_upd to_add_peer n) (simp_all add: keeps_place_def f_def)
  from write_requested [OF assms(1-4) n(1) filled_upd(3) this [unfolded q1_def], where dst = "Some (set_port port a)"] n(3,5,7) fs(2)
  obtain r where "nsock_pool_add_event H (upd_event e (\<lambda>v. v\<lparr>iobuf := fs\<rparr>) q1) e = Some r"
    "write_request i h (Some (set_port port a)) (take (nat (given_length data n)) data) p e r" by (auto simp: f_def q1_def)
  then show ?thesis
    using n(1) fs(1)
    by (intro exI [of _ r] exI [of _ e]) (simp add: nsock_sendto_def given_length_def f_def [symmetric] q1_def [symmetric])
qed

lemma nsock_printf_requested:
  assumes "pool_inv p" and "usable p i" and "room p" and "-1 \<le> ms" and "s \<noteq> []" and "length s \<le> 400000000"
  shows "\<exists>q e. nsock_printf H p i h ms u (Some s) = Some (q, e_id (nevents q e)) \<and> write_request i h None s p e q"
proof -
  obtain q e where n: "event_new p NSE_TYPE_WRITE (Some i) ms h u = Some (q, e)" "to_add Writes i e q"
      "e_handler (nevents q e) = h" "fs_ok (iobuf (nevents q e)) []" "written_so_far (nevents q e) = 0" "dest (nevents q e) = None" "get_event_id_type (e_id (nevents q e)) = Some NSE_TYPE_WRITE"
    using write_new [OF assms(1,2,4)] .
  obtain fs where fs: "append_data q e s (int (length s)) = Some (upd_event e (\<lambda>v. v\<lparr>iobuf := fs\<rparr>) q)" "fs_ok fs s"
    using append_data_new [of q e "int (length s)" s] n(4) assms(6) by auto
  have "to_add Writes i e (upd_event e (\<lambda>v. v\<lparr>iobuf := fs\<rparr>) q)"
    by (intro to_add_upd n) (simp add: keeps_place_def)
  from write_requested [OF assms(1-4) n(1) filled_upd(1) this, where dst = None] n(3,5-7) fs(2) obtain r where
    "nsock_pool_add_event H (upd_event e (\<lambda>v. v\<lparr>iobuf := fs\<rparr>) q) e = Some r" "write_request i h None s p e r"
    by auto
  then show ?thesis using n(1) fs(1) assms(5) by (intro exI [of _ r] exI [of _ e]) (simp add: nsock_printf_def)
qed

section \<open>Timers\<close>

definition good_time :: "timeval \<Rightarrow> bool" where
  "good_time t \<longleftrightarrow> 0 < tv_sec t \<and> normal_tv t"

definition clock_ok :: "'c npool \<Rightarrow> bool" where
  "clock_ok p \<longleftrightarrow> good_time (nsock_tod p) \<and> (\<forall>t\<in>set (clock (os p)). good_time t)"

lemma gettimeofday_good: "clock_ok p \<Longrightarrow> good_time (nsock_tod (gettimeofday p)) \<and> clock_ok (gettimeofday p)"
  by (auto simp: clock_ok_def gettimeofday_def split: list.split)

lemma good_time_add:
  assumes "good_time t" and "0 \<le> ms"
  shows "good_time (TIMEVAL_MSEC_ADD t ms)"
proof -
  have t: "normal_tv t" "0 < tv_sec t" using assms(1) by (auto simp: good_time_def)
  note a = TIMEVAL_MSEC_ADD_usecs [OF t(1) assms(2)]
  show ?thesis using a t assms(2) by (auto simp: good_time_def normal_tv_def usecs_def)
qed

text \<open>The pool after a timer has been added.\<close>

definition timer_added :: "nat \<Rightarrow> 'c npool \<Rightarrow> 'c npool \<Rightarrow> bool" where
  "timer_added e q r \<longleftrightarrow> (\<exists>h. r = q\<lparr>events_pending := events_pending q + 1, expirables := h\<rparr>) \<and>
     heap_ok (timer_heap r) \<and> mset (nodes (expirables r)) = add_mset e (mset (nodes (expirables q)))"

lemma timer_added_inv:
  assumes "pool_inv_off 0 (\<lambda>_. 0) q" and "fresh_event q e" and "e_type (nevents q e) = NSE_TYPE_TIMER"
    and "e_iod (nevents q e) = None" and "\<not> event_done (nevents q e)" and "tv_sec (e_timeout (nevents q e)) \<noteq> 0"
    and "timer_added e q r"
  shows "pool_inv r"
proof -
  have inv: "lists_ok q" "heap_inv q" "free_ok q" "counts_ok 0 (\<lambda>_. 0) q" "engine_ok q" "serial_ok q"
    using assms(1) by (auto simp: pool_inv_off_def)
  obtain h where h: "r = q\<lparr>events_pending := events_pending q + 1, expirables := h\<rparr>" using assms(7) by (auto simp: timer_added_def)
  have m: "heap_ok (timer_heap r)" "mset (nodes (expirables r)) = add_mset e (mset (nodes (expirables q)))"
    using assms(7) by (auto simp: timer_added_def)
  have s: "set (nodes (expirables r)) = insert e (set (nodes (expirables q)))" using arg_cong [OF m(2), of set_mset] by simp
  have r: "nevents r = nevents q" "niods r = niods q" "active_iods r = active_iods q" "evlist k r = evlist k q"
      "free_events r = free_events q" "next_address r = next_address q" "free_iods r = free_iods q" "engine_data r = engine_data q"
      "events_pending r = events_pending q + 1" "next_event_serial r = next_event_serial q" "listed r = listed q" for k
    by (simp_all add: h listed_def)
  have [simp]: "of_iod r = of_iod q" "live r = live q" by (simp_all add: of_iod_def live_def r fun_eq_iff)
  have "pending_of r = pending_of q" by (simp add: pending_of_def fun_eq_iff)
  moreover have "mset (timers r) = add_mset e (mset (timers q))" using assms(3) by (simp add: timers_mset m(2) r)
  then have "length (filter (live r) (listed r @ timers r)) = length (filter (live q) (listed q @ timers q)) + 1"
    using assms(5) by (simp add: length_filter_mset r(11)) (simp add: live_def)
  ultimately have "counts_ok 0 (\<lambda>_. 0) r" using inv(4) by (simp add: counts_ok_def r)
  moreover have "lists_ok r" using inv(1) by (simp add: lists_ok_def r)
  moreover have "heap_inv r" using inv(2) m(1) assms(3,4,6) by (auto simp: heap_inv_def s r)
  moreover have "free_ok r" using inv(3) assms(2) by (auto simp: free_ok_def fresh_event_def s r)
  moreover have "usable r = usable q" "watch_ok r = watch_ok q"
    by (simp_all add: usable_def watch_ok_def fun_eq_iff r IOD_PROPGET_def)
  then have "engine_ok r" using inv(5) by (simp add: engine_ok_def r)
  ultimately show ?thesis using inv(6) by (simp add: pool_inv_def pool_inv_off_def serial_ok_def r)
qed

text \<open>A timer: it is in the heap, due \<open>ms\<close> milliseconds after the time of the request.\<close>

definition timer_request :: "nat \<Rightarrow> int \<Rightarrow> 'c npool \<Rightarrow> nat \<Rightarrow> 'c npool \<Rightarrow> bool" where
  "timer_request h ms p e q \<longleftrightarrow> pool_inv q \<and> e \<notin> set (listed p) \<union> set (nodes (expirables p)) \<and>
     (\<forall>k. evlist k q = evlist k p) \<and> mset (nodes (expirables q)) = add_mset e (mset (nodes (expirables p))) \<and>
     (\<forall>x. x \<noteq> e \<longrightarrow> nevents q x = nevents p x) \<and> e_type (nevents q e) = NSE_TYPE_TIMER \<and>
     get_event_id_type (e_id (nevents q e)) = Some NSE_TYPE_TIMER \<and> \<not> event_done (nevents q e) \<and> e_handler (nevents q e) = h \<and>
     usecs (e_timeout (nevents q e)) = usecs (nsock_tod q) + ms * 1000 \<and> normal_tv (e_timeout (nevents q e)) \<and>
     events_pending q = events_pending p + 1 \<and> (\<forall>j. usable p j \<longrightarrow> usable q j)"

lemma nsock_timer_create_requested:
  assumes "pool_inv p" and "room p" and "0 \<le> ms" and "clock_ok p"
  shows "\<exists>q e. nsock_timer_create H p h ms u = Some (q, e_id (nevents q e)) \<and> timer_request h ms p e q"
proof -
  have ms: "-1 \<le> ms" using assms(3) by simp
  obtain q e where n: "event_new p NSE_TYPE_TIMER None ms h u = Some (q, e)"
    using event_new_returns [OF assms(1) _ ms, of None] by blast
  note q = event_new_inv [OF assms(1) _ ms n]
  have "free_ok p" "serial_ok p" using assms(1) by (auto simp: pool_inv_def pool_inv_off_def)
  then have tod: "nsock_tod q = nsock_tod (gettimeofday p)"
    using event_new_facts [of p None ms NSE_TYPE_TIMER h u] ms n by auto
  then have gt: "good_time (nsock_tod q)" using gettimeofday_good [OF assms(4)] by simp
  have to: "e_timeout (nevents q e) = TIMEVAL_MSEC_ADD (nsock_tod q) ms" using q(6) assms(3) by simp
  then have nz: "tv_sec (e_timeout (nevents q e)) \<noteq> 0" using good_time_add [OF gt assms(3)] by (simp add: good_time_def)
  have nv: "normal_tv (TIMEVAL_MSEC_ADD (nsock_tod q) ms)" using good_time_add [OF gt assms(3)] by (simp add: good_time_def)
  have "bump None = (\<lambda>_. 0)" by (simp add: bump_def fun_eq_iff)
  then have inv: "pool_inv_off 0 (\<lambda>_. 0) q" using q(1) by simp
  then have "heap_inv q" by (simp add: pool_inv_off_def)
  define p1 where "p1 = q\<lparr>events_pending := events_pending q + 1\<rparr>"
  have p1: "timer_heap p1 = timer_heap q" "nevents p1 = nevents q" "expirables p1 = expirables q"
    by (simp_all add: p1_def timer_heap_def)
  have "count (expirables q) < GH_HEAP_GUARD" using assms(2) q(13) by (simp add: room_def)
  from push_if_spec [OF \<open>heap_inv q\<close> q(2) this p1] nz obtain g where
    g: "push_if p1 e = Some (p1\<lparr>expirables := g\<rparr>)" "heap_ok (g\<lparr>cmp_op := expirable_cmp (\<lambda>e. e_timeout (nevents q e))\<rparr>)"
      "mset (nodes g) = add_mset e (mset (nodes (expirables q)))" by auto
  define r where "r = p1\<lparr>expirables := g\<rparr>"
  have "nsock_pool_add_event H q e = Some r"
    using g(1) nz q(3,5) by (simp add: nsock_pool_add_event_def p1_def [symmetric] p1 push_if_def r_def)
  moreover have ta: "timer_added e q r" using g(2,3) by (auto simp: timer_added_def r_def p1_def timer_heap_def)
  have "pool_inv r" by (rule timer_added_inv [OF inv q(2,3,4,5) nz ta]) simp_all
  moreover have l: "evlist k q = evlist k p" "active_iods q = active_iods p" for k using q(8) by (auto simp: same_events_def)
  have "usable r j = usable p j" for j using q(11) by (simp add: usable_def r_def p1_def)
  moreover have "usecs (TIMEVAL_MSEC_ADD (nsock_tod q) ms) = usecs (nsock_tod q) + ms * 1000"
    using TIMEVAL_MSEC_ADD_usecs(2) [OF _ assms(3)] gt by (simp add: good_time_def)
  ultimately have "timer_request h ms p e r"
    using q(3,5,9,10,14-17) g(3) l to nv unfolding timer_request_def by (simp add: r_def p1_def)
  then show ?thesis using n \<open>nsock_pool_add_event H q e = Some r\<close>
    by (intro exI [of _ r] exI [of _ e]) (simp add: nsock_timer_create_def)
qed

end
