(* ===== verification/Nsock_Del.thy ===== *)
theory Nsock_Del
  imports Nsock_Req
begin

text \<open>
  Finishing, unlinking and deleting an event, in the steps the code takes, and that they keep the invariant.
\<close>

section \<open>Finishing an event\<close>

definition mask_of :: "bool \<Rightarrow> bool \<Rightarrow> int" where
  "mask_of r w = (if r then 1 else 0) + (if w then 2 else 0)"

lemma mask_of_sets: "mask_of r w \<in> {0, 1, 2, 3}" "mask_of r w \<in> {1, 3} \<longleftrightarrow> r" "mask_of r w \<in> {2, 3} \<longleftrightarrow> w"
  "mask_of r w = 0 \<longleftrightarrow> \<not> r \<and> \<not> w"
  by (simp_all add: mask_of_def)

text \<open>The descriptor \<open>i\<close> after it has lost an event of kind \<open>k\<close>, and the descriptor sets.\<close>

definition dropped :: "evkind \<Rightarrow> nat \<Rightarrow> 'c npool \<Rightarrow> 'c npool \<Rightarrow> bool" where
  "dropped k i p q \<longleftrightarrow> (\<exists>w. q = (upd_iod i (\<lambda>n. n\<lparr>readsd_count := readsd_count n - reads k, writesd_count := writesd_count n - writes k,
       watched_events := w\<rparr>) p)
     \<lparr>engine_data := watch_clear (i_sd (niods p i))
       (mask_of (k \<noteq> Writes \<and> readsd_count (niods p i) = 1) (k \<noteq> Reads \<and> writesd_count (niods p i) = 1))
       (i_events_pending (niods p i) = 1) (engine_data p)\<rparr>)"

lemma upd_iod_twice: "upd_iod i f (upd_iod i g p) = upd_iod i (\<lambda>n. f (g n)) p"
  by (simp add: upd_iod_def)

lemma drop_kind:
  assumes "usable p i" and "IOD_PROPGET p i 1"
    and "p1 = upd_iod i (\<lambda>n. n\<lparr>readsd_count := readsd_count n - reads k, writesd_count := writesd_count n - writes k\<rparr>) p"
    and "ev = mask_of (k \<noteq> Writes \<and> readsd_count (niods p i) = 1) (k \<noteq> Reads \<and> writesd_count (niods p i) = 1)"
  shows "\<exists>q. update_events i p1 0 ev = Some q \<and> dropped k i p q"
proof -
  have "usable p1 i" "IOD_PROPGET p1 i 1" using assms(1,2) by (simp_all add: assms(3) usable_def IOD_PROPGET_def)
  moreover have "ev \<in> {0, 1, 2, 3}" unfolding assms(4) by (rule mask_of_sets)
  moreover have "readsd_count (niods p1 i) = 0" if "ev \<in> {1, 3}"
    using that unfolding assms(4) mask_of_sets by (simp add: assms(3) reads_def)
  moreover have "writesd_count (niods p1 i) = 0" if "ev \<in> {2, 3}"
    using that unfolding assms(4) mask_of_sets by (simp add: assms(3) writes_def)
  ultimately obtain w where "update_events i p1 0 ev = Some ((upd_iod i (\<lambda>n. n\<lparr>watched_events := w\<rparr>) p1)
    \<lparr>engine_data := watch_clear (i_sd (niods p1 i)) ev (i_events_pending (niods p1 i) = 1) (engine_data p1)\<rparr>)"
    using update_events_dec by blast
  then show ?thesis
    unfolding dropped_def assms(4) [symmetric] by (simp add: assms(3) upd_iod_twice) blast
qed

lemma drop_read:
  assumes "usable p i" and "IOD_PROPGET p i 1" and "0 < readsd_count (niods p i)"
  shows "\<exists>q. do { (p, ev) \<leftarrow> socket_count_read_dec i p; update_events i p EV_NONE ev } = Some q \<and> dropped Reads i p q"
  using drop_kind [OF assms(1,2) refl refl, of Reads] assms(3)
  by (simp add: socket_count_read_dec_def reads_def writes_def mask_of_def)

lemma drop_write:
  assumes "usable p i" and "IOD_PROPGET p i 1" and "0 < writesd_count (niods p i)"
  shows "\<exists>q. do { (p, ev) \<leftarrow> socket_count_write_dec i p; update_events i p EV_NONE ev } = Some q \<and> dropped Writes i p q"
  using drop_kind [OF assms(1,2) refl refl, of Writes] assms(3)
  by (simp add: socket_count_write_dec_def reads_def writes_def mask_of_def)

lemma drop_connect:
  assumes "usable p i" and "IOD_PROPGET p i 1" and "0 < readsd_count (niods p i)" and "0 < writesd_count (niods p i)"
  shows "\<exists>q. do { (p, ev) \<leftarrow> socket_count_read_dec i p; (p, ev') \<leftarrow> socket_count_write_dec i p;
      update_events i p EV_NONE (ev OR ev') } = Some q \<and> dropped Connects i p q"
proof -
  have "(if readsd_count (niods p i) = 1 then 1 else 0) OR (if writesd_count (niods p i) = 1 then 2 else 0) =
      mask_of (readsd_count (niods p i) = 1) (writesd_count (niods p i) = 1)" by (simp add: mask_of_def)
  then show ?thesis
    using drop_kind [OF assms(1,2) refl refl, of Connects] assms(3,4)
    by (simp add: socket_count_read_dec_def socket_count_write_dec_def reads_def writes_def upd_iod_twice)
qed

text \<open>
  What the handling of a result may change before that: the event itself, though not where it belongs, the
  answers of the system, and the statistics, the peer and the end-of-file flag of descriptors.
\<close>

definition touched :: "nat \<Rightarrow> 'c npool \<Rightarrow> 'c npool \<Rightarrow> bool" where
  "touched e p q \<longleftrightarrow> (\<forall>k. evlist k q = evlist k p) \<and> active_iods q = active_iods p \<and> expirables q = expirables p \<and>
     engine_data q = engine_data p \<and> free_events q = free_events p \<and> free_iods q = free_iods p \<and> next_address q = next_address p \<and>
     next_event_serial q = next_event_serial p \<and> events_pending q = events_pending p \<and>
     (\<forall>x. x \<noteq> e \<longrightarrow> nevents q x = nevents p x) \<and> e_type (nevents q e) = e_type (nevents p e) \<and>
     e_iod (nevents q e) = e_iod (nevents p e) \<and> e_timeout (nevents q e) = e_timeout (nevents p e) \<and>
     e_id (nevents q e) = e_id (nevents p e) \<and> e_handler (nevents q e) = e_handler (nevents p e) \<and>
     (\<forall>j. (\<forall>k. first_ev k (niods q j) = first_ev k (niods p j)) \<and> i_sd (niods q j) = i_sd (niods p j) \<and>
        i_state (niods q j) = i_state (niods p j) \<and> i_events_pending (niods q j) = i_events_pending (niods p j) \<and>
        readsd_count (niods q j) = readsd_count (niods p j) \<and> writesd_count (niods q j) = writesd_count (niods p j) \<and>
        i_flags (niods q j) AND 1 = i_flags (niods p j) AND 1 \<and> i_flags (niods q j) AND 4 = i_flags (niods p j) AND 4)"

lemma touched_trans: "touched e p q \<Longrightarrow> touched e q r \<Longrightarrow> touched e p r"
  by (simp add: touched_def)

lemma touched_fields:
  assumes "touched e p q"
  shows "e_type (nevents q x) = e_type (nevents p x)" "e_iod (nevents q x) = e_iod (nevents p x)"
    "e_timeout (nevents q x) = e_timeout (nevents p x)" "e_id (nevents q x) = e_id (nevents p x)"
    "e_handler (nevents q x) = e_handler (nevents p x)"
  by (cases "x = e"; use assms in \<open>simp add: touched_def\<close>)+

lemma touched_same_events:
  assumes "touched e p q"
  shows "same_events p q"
  unfolding same_events_def touched_fields [OF assms] using assms by (simp add: touched_def)

lemma touched_inv:
  assumes "pool_inv_off d D p" and "touched e p q" and "event_done (nevents q e) = event_done (nevents p e)"
  shows "pool_inv_off d D q"
proof (rule pool_inv_off_cong [OF assms(1) touched_same_events [OF assms(2)]])
  show "live q x = live p x" for x by (cases "x = e") (use assms(2,3) in \<open>simp_all add: touched_def live_def\<close>)
qed (use assms(2) in \<open>simp_all add: touched_def\<close>)

lemma touched_usable: "touched e p q \<Longrightarrow> usable q i = usable p i"
  by (simp add: touched_def usable_def)

lemma filter_without:
  assumes "distinct xs" and "e \<in> set xs" and "P e"
  shows "length (filter P xs) = length (filter (\<lambda>x. x \<noteq> e \<and> P x) xs) + 1"
  using assms by (induction xs) (auto intro!: arg_cong [where f = length] filter_cong)

lemma pending_without:
  assumes "distinct xs" and "\<And>x. live q x \<longleftrightarrow> x \<noteq> e \<and> live p x" and "\<And>x. e_iod (nevents q x) = e_iod (nevents p x)"
    and "live p e" and "of_iod p i e"
  shows "int (pending_of p j xs) = int (pending_of q j xs) + (if j = i \<and> e \<in> set xs then 1 else 0)"
proof -
  have q: "pending_of q j xs = length (filter (\<lambda>x. x \<noteq> e \<and> live p x \<and> of_iod p j x) xs)"
    unfolding pending_of_def by (intro arg_cong [where f = length] filter_cong) (auto simp: assms(2,3) of_iod_def)
  show ?thesis
  proof (cases "j = i \<and> e \<in> set xs")
    case True
    then show ?thesis using filter_without [OF assms(1), of e "\<lambda>x. live p x \<and> of_iod p j x"] assms(4,5)
      unfolding q pending_of_def [of p] by simp
  next
    case False
    have "filter (\<lambda>x. x \<noteq> e \<and> live p x \<and> of_iod p j x) xs = filter (\<lambda>x. live p x \<and> of_iod p j x) xs"
      by (rule filter_cong) (use False assms(5) in \<open>auto simp: of_iod_def\<close>)
    then show ?thesis using False unfolding q pending_of_def [of p] by auto
  qed
qed

text \<open>A live event of a list that is finished: the counters of pending events are one ahead of the lists.\<close>

definition finished :: "evkind \<Rightarrow> nat \<Rightarrow> nat \<Rightarrow> 'c npool \<Rightarrow> 'c npool \<Rightarrow> bool" where
  "finished k i e p q \<longleftrightarrow> (\<exists>p1. touched e p p1 \<and> event_done (nevents p1 e) \<and> dropped k i p1 q)"

definition waiting :: "evkind \<Rightarrow> nat \<Rightarrow> nat \<Rightarrow> 'c npool \<Rightarrow> bool" where
  "waiting k i e p \<longleftrightarrow> pool_inv p \<and> e \<in> set (evlist k p) \<and> live p e \<and> of_iod p i e"

lemma waiting_usable:
  assumes "waiting k i e p"
  shows "usable p i"
proof -
  have "engine_ok p" "e \<in> set (listed p)" "live p e" "of_iod p i e"
    using assms evlist_listed by (auto simp: waiting_def pool_inv_def pool_inv_off_def)
  then show ?thesis unfolding engine_ok_def by blast
qed

lemma finished_fields:
  assumes "finished k i e p q"
  shows "evlist k' q = evlist k' p" "active_iods q = active_iods p" "expirables q = expirables p"
    "free_events q = free_events p" "next_address q = next_address p" "next_event_serial q = next_event_serial p"
    "events_pending q = events_pending p" "listed q = listed p"
    "x \<noteq> e \<Longrightarrow> nevents q x = nevents p x" "e_type (nevents q x) = e_type (nevents p x)"
    "e_iod (nevents q x) = e_iod (nevents p x)" "e_timeout (nevents q x) = e_timeout (nevents p x)"
    "event_done (nevents q e)" "e_id (nevents q x) = e_id (nevents p x)" "e_handler (nevents q x) = e_handler (nevents p x)"
    "free_iods q = free_iods p"
proof -
  obtain p1 where p1: "touched e p p1" "event_done (nevents p1 e)" "dropped k i p1 q" using assms by (auto simp: finished_def)
  note f = touched_fields [OF p1(1)]
  show "evlist k' q = evlist k' p" for k' using p1 by (auto simp: touched_def dropped_def)
  then show "listed q = listed p" by (simp add: listed_def)
  show "active_iods q = active_iods p" "expirables q = expirables p" "free_events q = free_events p" "free_iods q = free_iods p"
    "next_address q = next_address p" "next_event_serial q = next_event_serial p" "events_pending q = events_pending p"
    using p1 by (auto simp: touched_def dropped_def)
  have n: "nevents q = nevents p1" using p1(3) by (auto simp: dropped_def)
  show "x \<noteq> e \<Longrightarrow> nevents q x = nevents p x" "event_done (nevents q e)"
    using p1(1,2) by (simp_all add: n touched_def)
  show "e_type (nevents q x) = e_type (nevents p x)" "e_iod (nevents q x) = e_iod (nevents p x)"
    "e_timeout (nevents q x) = e_timeout (nevents p x)" "e_id (nevents q x) = e_id (nevents p x)"
    "e_handler (nevents q x) = e_handler (nevents p x)" by (simp_all add: n f)
qed

lemma finished_iods:
  assumes "finished k i e p q"
  shows "first_ev k' (niods q j) = first_ev k' (niods p j)" "i_sd (niods q j) = i_sd (niods p j)"
    "i_state (niods q j) = i_state (niods p j)" "i_events_pending (niods q j) = i_events_pending (niods p j)"
    "readsd_count (niods q j) = readsd_count (niods p j) - (if j = i then reads k else 0)"
    "writesd_count (niods q j) = writesd_count (niods p j) - (if j = i then writes k else 0)"
    "IOD_PROPGET q j 1 = IOD_PROPGET p j 1" "IOD_PROPGET q j 4 = IOD_PROPGET p j 4"
    "engine_data q = watch_clear (i_sd (niods p i))
       (mask_of (k \<noteq> Writes \<and> readsd_count (niods p i) = 1) (k \<noteq> Reads \<and> writesd_count (niods p i) = 1))
       (i_events_pending (niods p i) = 1) (engine_data p)"
proof -
  obtain p1 where p1: "touched e p p1" "event_done (nevents p1 e)" "dropped k i p1 q" using assms by (auto simp: finished_def)
  show "engine_data q = watch_clear (i_sd (niods p i))
       (mask_of (k \<noteq> Writes \<and> readsd_count (niods p i) = 1) (k \<noteq> Reads \<and> writesd_count (niods p i) = 1))
       (i_events_pending (niods p i) = 1) (engine_data p)"
    using p1 by (auto simp: dropped_def touched_def)
  show "first_ev k' (niods q j) = first_ev k' (niods p j)" "i_sd (niods q j) = i_sd (niods p j)"
    "i_state (niods q j) = i_state (niods p j)" "i_events_pending (niods q j) = i_events_pending (niods p j)"
    "readsd_count (niods q j) = readsd_count (niods p j) - (if j = i then reads k else 0)"
    "writesd_count (niods q j) = writesd_count (niods p j) - (if j = i then writes k else 0)"
    "IOD_PROPGET q j 1 = IOD_PROPGET p j 1" "IOD_PROPGET q j 4 = IOD_PROPGET p j 4"
    using p1 by (cases "j = i"; auto simp: dropped_def touched_def IOD_PROPGET_def)+
qed

lemma evlist_unique:
  assumes "lists_ok p" and "e \<in> set (evlist k p)"
  shows "e \<in> set (evlist k' p) \<longleftrightarrow> k' = k"
  using assms unfolding lists_ok_def by (metis option.inject)

lemma lists_distinct:
  assumes "lists_ok p"
  shows "distinct (listed p)" "distinct (evlist k p)" "distinct (evlist Connects p @ evlist Reads p)"
    "distinct (evlist Connects p @ evlist Writes p)"
proof -
  show d: "distinct (listed p)" using assms by (simp add: lists_ok_def)
  show "distinct (evlist k p)" using d by (cases k) (simp_all add: listed_def)
  show "distinct (evlist Connects p @ evlist Reads p)" "distinct (evlist Connects p @ evlist Writes p)"
    using d by (auto simp: listed_def)
qed

lemma finished_counts_ok:
  assumes "waiting k i e p" and "finished k i e p q"
  shows "counts_ok 1 (bump (Some i)) q"
proof -
  note f = finished_fields [OF assms(2)] and n = finished_iods [OF assms(2)]
  have inv: "lists_ok p" "counts_ok 0 (\<lambda>_. 0) p" "e \<in> set (evlist k p)" "live p e" "of_iod p i e"
    using assms(1) by (auto simp: waiting_def pool_inv_def pool_inv_off_def)
  note d = lists_distinct [OF inv(1)] and un = evlist_unique [OF inv(1,3)]
  have lv: "live q x \<longleftrightarrow> x \<noteq> e \<and> live p x" for x using f(9) [of x] f(13) by (cases "x = e") (simp_all add: live_def)
  have pw: "int (pending_of p j xs) = int (pending_of q j xs) + (if j = i \<and> e \<in> set xs then 1 else 0)" if "distinct xs" for j xs
    by (rule pending_without [OF that lv f(11) inv(4,5)])
  have nt: "e_type (nevents p e) \<noteq> NSE_TYPE_TIMER" using inv(1,3) kind_not_timer by (auto simp: lists_ok_def)
  have t: "timers q = timers p" by (simp add: timers_def f)
  have "filter (live q) (timers p) = filter (live p) (timers p)"
    by (rule filter_cong) (use nt in \<open>auto simp: lv timers_def\<close>)
  moreover have "length (filter (live p) (listed p)) = length (filter (live q) (listed p)) + 1"
    using filter_without [OF d(1) evlist_listed [OF inv(3)], of "live p"] inv(4) by (simp add: lv cong: filter_cong)
  moreover have "e \<in> set (listed p)" by (rule evlist_listed [OF inv(3)])
  ultimately show ?thesis
    using inv(2) pw [OF d(1)] pw [OF d(3)] pw [OF d(4)]
    by (cases k) (simp_all add: counts_ok_def f n t bump_def un reads_def writes_def del: pending_of_append)
qed

lemma watch_clear_sel:
  "fds_master_r (watch_clear sd (mask_of r w) one s) = (if r then fds_master_r s - {sd} else fds_master_r s)"
  "fds_master_w (watch_clear sd (mask_of r w) one s) = (if w then fds_master_w s - {sd} else fds_master_w s)"
  "max_sd (watch_clear sd (mask_of r w) one s) = (if (r \<or> w) \<and> one \<and> max_sd s = sd then sd - 1 else max_sd s)"
  by (simp_all add: watch_clear_def mask_of_def)

lemma finished_watch_own:
  assumes "waiting k i e p" and "finished k i e p q"
  shows "watch_ok q i"
proof -
  note n = finished_iods [OF assms(2)] and c = finished_counts_ok [OF assms]
  have inv: "lists_ok p" "counts_ok 0 (\<lambda>_. 0) p" "engine_ok p" "e \<in> set (evlist k p)" "live p e" "of_iod p i e"
    using assms(1) by (auto simp: waiting_def pool_inv_def pool_inv_off_def)
  note us = waiting_usable [OF assms(1)]
  then have w: "watch_ok p i" using inv(3) by (auto simp: engine_ok_def usable_def)
  have "i \<in> set (active_iods q)" using us finished_fields(2) [OF assms(2)] by (simp add: usable_def)
  then have cq: "i_events_pending (niods q i) = int (pending_of q i (listed q)) + 1"
      "readsd_count (niods q i) = int (pending_of q i (evlist Connects q @ evlist Reads q))"
      "writesd_count (niods q i) = int (pending_of q i (evlist Connects q @ evlist Writes q))"
    using c by (auto simp: counts_ok_def bump_def)
  have none: "readsd_count (niods q i) = 0 \<and> writesd_count (niods q i) = 0" if "i_events_pending (niods p i) = 1"
    using that cq n(4) by (simp add: listed_def)
  have "0 \<le> readsd_count (niods q i)" "0 \<le> writesd_count (niods q i)" using cq by simp_all
  then show ?thesis
    using w none unfolding watch_ok_def Let_def n
    by (cases k) (auto simp: watch_clear_sel reads_def writes_def)
qed

lemma finished_engine_ok:
  assumes "waiting k i e p" and "finished k i e p q"
  shows "engine_ok q"
proof -
  note f = finished_fields [OF assms(2)] and n = finished_iods [OF assms(2)]
  have inv: "engine_ok p" "e \<in> set (evlist k p)" "of_iod p i e"
    using assms(1) by (auto simp: waiting_def pool_inv_def pool_inv_off_def)
  note us = waiting_usable [OF assms(1)]
  have uq: "usable q j = usable p j" "of_iod q j x = of_iod p j x" for j x by (simp_all add: usable_def f n of_iod_def)
  have "watch_ok q j" if j: "j \<in> set (active_iods p)" "i_sd (niods p j) \<noteq> -1" for j
  proof (cases "j = i")
    case True
    then show ?thesis using finished_watch_own [OF assms] by simp
  next
    case False
    then have ne: "i_sd (niods p j) \<noteq> i_sd (niods p i)"
      using inv(1) j us by (auto simp: engine_ok_def inj_on_def usable_def)
    have "watch_ok p j" using inv(1) j by (auto simp: engine_ok_def)
    then show ?thesis using False ne unfolding watch_ok_def Let_def n by (auto simp: watch_clear_sel)
  qed
  moreover have "fds_master_r (engine_data q) \<union> fds_master_w (engine_data q) \<subseteq> (\<lambda>i. i_sd (niods p i)) ` set (active_iods p)"
    using inv(1) unfolding engine_ok_def n(9) by (auto simp: watch_clear_sel split: if_splits)
  moreover have "live p x" if "live q x" for x
    using that f(9) [of x] f(13) by (cases "x = e") (simp_all add: live_def)
  ultimately show ?thesis using inv(1) unfolding engine_ok_def f n(1-8) uq by simp
qed

lemma finished_inv:
  assumes "waiting k i e p" and "finished k i e p q"
  shows "pool_inv_off 1 (bump (Some i)) q"
proof -
  note f = finished_fields [OF assms(2)] and n = finished_iods [OF assms(2)]
  have inv: "lists_ok p" "heap_inv p" "free_ok p" "serial_ok p"
    using assms(1) by (auto simp: waiting_def pool_inv_def pool_inv_off_def)
  have "same_events p q" by (simp add: same_events_def f n)
  then show ?thesis
    using same_events_lists_ok [OF inv(1)] same_events_heap_inv [OF inv(2)] finished_counts_ok [OF assms]
      finished_engine_ok [OF assms] inv(3,4)
    by (simp add: pool_inv_off_def free_ok_def serial_ok_def f)
qed

section \<open>Timeouts and cancellation\<close>

lemma waiting_iod:
  assumes "waiting k i e p"
  shows "usable p i" "IOD_PROPGET p i 1" "k \<noteq> Writes \<Longrightarrow> 0 < readsd_count (niods p i)"
    "k \<noteq> Reads \<Longrightarrow> 0 < writesd_count (niods p i)"
proof -
  have inv: "lists_ok p" "counts_ok 0 (\<lambda>_. 0) p" "engine_ok p" "e \<in> set (evlist k p)" "live p e" "of_iod p i e"
    using assms by (auto simp: waiting_def pool_inv_def pool_inv_off_def)
  show us: "usable p i" by (rule waiting_usable [OF assms])
  have "0 < pending_of p i (evlist k p)"
    using inv(4-6) unfolding pending_of_def by (auto simp: length_greater_0_conv filter_empty_conv)
  then have "k \<noteq> Writes \<Longrightarrow> 0 < pending_of p i (evlist Connects p @ evlist Reads p)"
      "k \<noteq> Reads \<Longrightarrow> 0 < pending_of p i (evlist Connects p @ evlist Writes p)" by (cases k; simp)+
  moreover have "i \<in> set (active_iods p)" using us by (simp add: usable_def)
  ultimately show r: "k \<noteq> Writes \<Longrightarrow> 0 < readsd_count (niods p i)" "k \<noteq> Reads \<Longrightarrow> 0 < writesd_count (niods p i)"
    using inv(2) by (auto simp: counts_ok_def)
  have "watch_ok p i" using inv(3) us by (auto simp: engine_ok_def usable_def)
  then show "IOD_PROPGET p i 1" using r unfolding watch_ok_def Let_def by (cases k) auto
qed

lemma finish_tail:
  assumes "waiting k i e p" and "touched e p p1"
  shows "k = Reads \<Longrightarrow> \<exists>q. do { (p, ev) \<leftarrow> socket_count_read_dec i p1; update_events i p EV_NONE ev } = Some q \<and> dropped k i p1 q"
    "k = Writes \<Longrightarrow> \<exists>q. do { (p, ev) \<leftarrow> socket_count_write_dec i p1; update_events i p EV_NONE ev } = Some q \<and> dropped k i p1 q"
    "k = Connects \<Longrightarrow> \<exists>q. do { (p, ev) \<leftarrow> socket_count_read_dec i p1; (p, ev') \<leftarrow> socket_count_write_dec i p;
      update_events i p EV_NONE (ev OR ev') } = Some q \<and> dropped k i p1 q"
proof -
  note w = waiting_iod [OF assms(1)]
  have u: "usable p1 i" "IOD_PROPGET p1 i 1" "readsd_count (niods p1 i) = readsd_count (niods p i)"
      "writesd_count (niods p1 i) = writesd_count (niods p i)"
    using w(1,2) assms(2) touched_usable [OF assms(2)] by (simp_all add: touched_def IOD_PROPGET_def)
  show "k = Reads \<Longrightarrow> \<exists>q. do { (p, ev) \<leftarrow> socket_count_read_dec i p1; update_events i p EV_NONE ev } = Some q \<and> dropped k i p1 q"
    using drop_read [OF u(1,2)] u(3) w(3) by auto
  show "k = Writes \<Longrightarrow> \<exists>q. do { (p, ev) \<leftarrow> socket_count_write_dec i p1; update_events i p EV_NONE ev } = Some q \<and> dropped k i p1 q"
    using drop_write [OF u(1,2)] u(4) w(4) by auto
  show "k = Connects \<Longrightarrow> \<exists>q. do { (p, ev) \<leftarrow> socket_count_read_dec i p1; (p, ev') \<leftarrow> socket_count_write_dec i p;
      update_events i p EV_NONE (ev OR ev') } = Some q \<and> dropped k i p1 q"
    using drop_connect [OF u(1,2)] u(3,4) w(3,4) by auto
qed

lemma dropped_finished: "touched e p p1 \<Longrightarrow> event_done (nevents p1 e) \<Longrightarrow> dropped k i p1 q \<Longrightarrow> finished k i e p q"
  by (auto simp: finished_def)

lemma finish_event_touched: "touched e p (finish_event e st p)" "event_done (nevents (finish_event e st p) e)"
  "touched e p (finish_error e err p)" "event_done (nevents (finish_error e err p) e)"
  by (simp_all add: touched_def finish_event_def finish_error_def)

definition result_of :: "evkind \<Rightarrow> 'c npool \<Rightarrow> nat \<Rightarrow> nse_status \<Rightarrow> 'c npool option" where
  "result_of k p e st = (case k of Connects \<Rightarrow> handle_connect_result p e st | Reads \<Rightarrow> handle_read_result p e st
     | Writes \<Rightarrow> handle_write_result p e st)"

text \<open>What the client is told: a read that timed out with data succeeded.\<close>

definition stop_status :: "nevent \<Rightarrow> nse_status \<Rightarrow> nse_status" where
  "stop_status v st = (if e_type v = NSE_TYPE_READ \<and> st = NSE_STATUS_TIMEOUT \<and> fs_length (iobuf v) > 0
     then NSE_STATUS_SUCCESS else st)"

lemma stopped_dropped:
  assumes "waiting k i e p" and "st = NSE_STATUS_TIMEOUT \<or> st = NSE_STATUS_CANCELLED"
  shows "\<exists>q. result_of k p e st = Some q \<and> dropped k i (finish_event e (stop_status (nevents p e) st) p) q"
proof -
  define st' where "st' = stop_status (nevents p e) st"
  have "pool_inv p" "e \<in> set (evlist k p)" using assms(1) by (auto simp: waiting_def)
  then have "kind_of (e_type (nevents p e)) = Some k" by (auto simp: pool_inv_def pool_inv_off_def lists_ok_def)
  then have t: "e_type (nevents p e) = NSE_TYPE_READ \<longleftrightarrow> k = Reads"
    by (cases "e_type (nevents p e)") (auto simp: kind_of_def)
  define p1 where "p1 = finish_event e st' p"
  have i: "e_iod (nevents p e) = Some i" using assms(1) by (simp add: waiting_def of_iod_def)
  have p1: "event_done (nevents p1 e)" "e_iod (nevents p1 e) = Some i" "niods p1 = niods p"
    using i by (simp_all add: p1_def finish_event_def)
  have sd: "0 \<le> i_sd (niods p i)" "i_sd (niods p i) \<noteq> -1" using waiting_iod(1) [OF assms(1)] by (auto simp: usable_def)
  note f = finish_tail [OF assms(1) finish_event_touched(1), of st', folded p1_def]
  have "\<exists>q. result_of k p e st = Some q \<and> dropped k i p1 q"
  proof (cases k)
    case Connects
    have "handle_connect_result p e st = do { (p, ev) \<leftarrow> socket_count_read_dec i p1;
        (p, ev') \<leftarrow> socket_count_write_dec i p; update_events i p EV_NONE (ev OR ev') }"
      using assms(2) i sd Connects p1 by (auto simp: handle_connect_result_def st'_def p1_def stop_status_def t)
    then show ?thesis using f(3) Connects by (simp add: result_of_def)
  next
    case Reads
    have "handle_read_result p e st = do { (p, ev) \<leftarrow> socket_count_read_dec i p1; update_events i p EV_NONE ev }"
      using assms(2) sd Reads p1 by (auto simp: handle_read_result_def st'_def p1_def stop_status_def t)
    then show ?thesis using f(1) Reads by (simp add: result_of_def)
  next
    case Writes
    have "handle_write_result p e st = do { (p, ev) \<leftarrow> socket_count_write_dec i p1; update_events i p EV_NONE ev }"
      using assms(2) sd Writes p1 by (auto simp: handle_write_result_def st'_def p1_def stop_status_def t)
    then show ?thesis using f(2) Writes by (simp add: result_of_def)
  qed
  then show ?thesis by (simp add: p1_def st'_def)
qed

lemma stopped_finished:
  assumes "waiting k i e p" and "st = NSE_STATUS_TIMEOUT \<or> st = NSE_STATUS_CANCELLED"
  shows "\<exists>q. result_of k p e st = Some q \<and> finished k i e p q"
  using stopped_dropped [OF assms] dropped_finished [OF finish_event_touched(1,2)] by blast

section \<open>Unlinking an event\<close>

lemma lnode_next_split: "e \<notin> set as \<Longrightarrow> lnode_next (as @ e # bs) e = Some (case bs of [] \<Rightarrow> None | b # _ \<Rightarrow> Some b)"
  by (induction as) auto

lemma group_remove_other:
  assumes "group_ok f Q xs" and "\<not> Q e"
  shows "group_ok f Q (remove1 e xs)"
proof -
  obtain as bs cs where g: "xs = as @ bs @ cs" "\<forall>y\<in>set bs. Q y" "\<forall>y\<in>set as \<union> set cs. \<not> Q y"
      "f = (case bs of [] \<Rightarrow> None | b # _ \<Rightarrow> Some b)"
    using assms(1) by (rule group_okE)
  have "e \<notin> set bs" using g(2) assms(2) by auto
  then have "remove1 e xs = (if e \<in> set as then remove1 e as @ bs @ cs else as @ bs @ remove1 e cs)"
    by (auto simp: g(1) remove1_append)
  moreover have "\<forall>y\<in>set (remove1 e as) \<union> set cs. \<not> Q y" "\<forall>y\<in>set as \<union> set (remove1 e cs). \<not> Q y"
    using g(3) set_remove1_subset by fastforce+
  ultimately show ?thesis unfolding group_ok_def using g(2,4)
    by (cases "e \<in> set as")
       (rule exI [of _ "remove1 e as"], rule exI [of _ bs], rule exI [of _ cs], simp,
        rule exI [of _ as], rule exI [of _ bs], rule exI [of _ "remove1 e cs"], simp)
qed

lemma group_remove_own:
  assumes "group_ok f P xs" and "P e" and "e \<in> set xs" and "distinct xs"
  shows "\<exists>nxt. lnode_next xs e = Some nxt \<and>
    group_ok (if f = Some e then case nxt of Some y \<Rightarrow> if P y then nxt else None | None \<Rightarrow> None else f) P (remove1 e xs) \<and>
    f \<noteq> None"
proof -
  obtain as bs cs where g: "xs = as @ bs @ cs" "\<forall>y\<in>set bs. P y" "\<forall>y\<in>set as \<union> set cs. \<not> P y"
      "f = (case bs of [] \<Rightarrow> None | b # _ \<Rightarrow> Some b)"
    using assms(1) by (rule group_okE)
  have e: "e \<notin> set as" "e \<in> set bs" using g assms(2,3) by auto
  then obtain b1 b2 where b: "bs = b1 @ e # b2" by (meson split_list)
  have n: "e \<notin> set (as @ b1)" "e \<notin> set (b2 @ cs)" using assms(4) by (auto simp: g(1) b)
  have nx: "lnode_next xs e = Some (case b2 @ cs of [] \<Rightarrow> None | y # _ \<Rightarrow> Some y)"
    using lnode_next_split [OF n(1), of "b2 @ cs"] by (simp add: g(1) b)
  have rm: "remove1 e xs = as @ (b1 @ b2) @ cs" using n by (simp add: g(1) b remove1_append)
  define nxt where "nxt = (case b2 @ cs of [] \<Rightarrow> None | y # _ \<Rightarrow> Some y)"
  have "(if f = Some e then case nxt of Some y \<Rightarrow> if P y then nxt else None | None \<Rightarrow> None else f) =
      (case b1 @ b2 of [] \<Rightarrow> None | y # _ \<Rightarrow> Some y)"
  proof (cases b1)
    case Nil
    then show ?thesis using g(2,3) by (cases b2; cases cs) (simp_all add: nxt_def g(4) b)
  next
    case (Cons y ys)
    then have "y \<noteq> e" using n(1) by auto
    then show ?thesis by (simp add: g(4) b Cons)
  qed
  moreover have "\<forall>y\<in>set (b1 @ b2). P y" using g(2) by (simp add: b)
  ultimately have "group_ok (if f = Some e then case nxt of Some y \<Rightarrow> if P y then nxt else None | None \<Rightarrow> None else f) P (remove1 e xs)"
    unfolding group_ok_def rm using g(3) by (intro exI [of _ as] exI [of _ "b1 @ b2"] exI [of _ cs]) simp
  moreover have "f \<noteq> None" by (cases b1) (simp_all add: g(4) b)
  ultimately show ?thesis using nx [folded nxt_def] by blast
qed

text \<open>The pool after an event has been taken out of its list and of the heap.\<close>

definition unlinked :: "nat \<Rightarrow> 'c npool \<Rightarrow> 'c npool \<Rightarrow> bool" where
  "unlinked e p q \<longleftrightarrow> (\<forall>k. evlist k q = remove1 e (evlist k p)) \<and> active_iods q = active_iods p \<and>
     engine_data q = engine_data p \<and> free_events q = free_events p @ [e] \<and> free_iods q = free_iods p \<and> next_address q = next_address p \<and>
     next_event_serial q = next_event_serial p \<and> events_pending q = events_pending p \<and>
     heap_ok (timer_heap q) \<and> mset (nodes (expirables q)) = mset (nodes (expirables p)) - {#e#} \<and>
     (\<forall>x. x \<noteq> e \<longrightarrow> nevents q x = nevents p x) \<and> e_type (nevents q e) = e_type (nevents p e) \<and>
     e_iod (nevents q e) = e_iod (nevents p e) \<and> event_done (nevents q e) = event_done (nevents p e) \<and>
     p_userdata q = p_userdata p \<and> nsock_tod q = nsock_tod p \<and> quit q = quit p \<and> os q = os p \<and>
     (\<forall>k j. group_ok (first_ev k (niods q j)) (of_iod p j) (evlist k q)) \<and>
     (\<forall>j. i_sd (niods q j) = i_sd (niods p j) \<and> i_flags (niods q j) = i_flags (niods p j) \<and>
        i_state (niods q j) = i_state (niods p j) \<and> i_events_pending (niods q j) = i_events_pending (niods p j) \<and>
        readsd_count (niods q j) = readsd_count (niods p j) \<and> writesd_count (niods q j) = writesd_count (niods p j))"

lemma remove_kind:
  assumes "lists_ok p" and "e \<in> set (evlist k p)"
  shows "remove1 e (evlist k' p) = (if k' = k then remove1 e (evlist k p) else evlist k' p)"
  using evlist_unique [OF assms, of k'] by (auto simp: remove1_idem)

lemma unlinked_fields:
  assumes "unlinked e p q" and "lists_ok p"
  shows "set (evlist k q) = set (evlist k p) - {e}" "set (listed q) = set (listed p) - {e}"
    "filter P (evlist k q) = filter P (remove1 e (evlist k p))"
    "e_type (nevents q x) = e_type (nevents p x)" "e_iod (nevents q x) = e_iod (nevents p x)"
    "event_done (nevents q x) = event_done (nevents p x)"
proof -
  show s: "set (evlist k q) = set (evlist k p) - {e}" for k
    using assms lists_distinct(2) [OF assms(2)] by (simp add: unlinked_def)
  show "set (listed q) = set (listed p) - {e}" by (auto simp: set_listed s)
  show "filter P (evlist k q) = filter P (remove1 e (evlist k p))" using assms(1) by (simp add: unlinked_def)
  show "e_type (nevents q x) = e_type (nevents p x)" "e_iod (nevents q x) = e_iod (nevents p x)"
    "event_done (nevents q x) = event_done (nevents p x)"
    by (cases "x = e"; use assms(1) in \<open>simp add: unlinked_def\<close>)+
qed

lemma filter_remove_dead: "\<not> P e \<Longrightarrow> filter P (remove1 e xs) = filter P xs"
  by (induction xs) auto

lemma set_minus: "distinct xs \<Longrightarrow> mset ys = mset xs - {#e#} \<Longrightarrow> set ys = set xs - {e}"
  by (metis mset_remove1 set_mset_mset set_remove1_eq)

lemma nodes_distinct: "heap_inv p \<Longrightarrow> distinct (nodes (expirables p))"
  using heap_wf_facts(3) [of "timer_heap p"] by (simp add: heap_inv_def heap_ok_def)

lemma unlinked_counts_ok:
  assumes "pool_inv_off d D p" and "unlinked e p q" and "\<not> live p e"
  shows "counts_ok d D q"
proof -
  have inv: "lists_ok p" "counts_ok d D p" using assms(1) by (auto simp: pool_inv_off_def)
  note f = unlinked_fields [OF assms(2) inv(1)]
  have u: "active_iods q = active_iods p" "events_pending q = events_pending p"
      "mset (nodes (expirables q)) = mset (nodes (expirables p)) - {#e#}" "\<And>k. evlist k q = remove1 e (evlist k p)"
    using assms(2) by (auto simp: unlinked_def)
  have lv: "live q = live p" "of_iod q = of_iod p" by (simp_all add: live_def of_iod_def f fun_eq_iff)
  have pe: "pending_of q j (evlist k q) = pending_of p j (evlist k p)" for j k
    using assms(3) by (simp add: pending_of_def lv u(4) filter_remove_dead)
  have le: "filter (live q) (evlist k q) = filter (live p) (evlist k p)" for k
    using assms(3) by (simp add: lv u(4) filter_remove_dead)
  have "size (filter_mset (live p) (mset (timers q))) = size (filter_mset (live p) (mset (timers p)))"
    using assms(3) by (simp add: timers_mset u(3) f(4))
  then have "length (filter (live q) (listed q @ timers q)) = length (filter (live p) (listed p @ timers p))"
    by (simp add: listed_def le) (simp add: lv length_filter_mset)
  then show ?thesis
    using inv(2) by (simp add: counts_ok_def u(1,2) pe listed_def)
      (use assms(2) in \<open>simp add: unlinked_def\<close>)
qed

lemma unlinked_inv:
  assumes "pool_inv_off d D p" and "unlinked e p q" and "\<not> live p e" and "e \<in> set (listed p) \<union> set (nodes (expirables p))"
  shows "pool_inv_off d D q"
proof -
  have inv: "lists_ok p" "heap_inv p" "free_ok p" "engine_ok p" "serial_ok p" using assms(1) by (auto simp: pool_inv_off_def)
  note f = unlinked_fields [OF assms(2) inv(1)]
  have u: "active_iods q = active_iods p" "engine_data q = engine_data p" "free_events q = free_events p @ [e]"
      "next_address q = next_address p" "next_event_serial q = next_event_serial p" "heap_ok (timer_heap q)"
      "mset (nodes (expirables q)) = mset (nodes (expirables p)) - {#e#}" "\<And>k. evlist k q = remove1 e (evlist k p)"
      "\<And>x. x \<noteq> e \<Longrightarrow> nevents q x = nevents p x" "\<And>k j. group_ok (first_ev k (niods q j)) (of_iod p j) (evlist k q)"
      "free_iods q = free_iods p"
    using assms(2) by (auto simp: unlinked_def)
  have oi: "of_iod q = of_iod p" by (simp add: of_iod_def f fun_eq_iff)
  have sn: "set (nodes (expirables q)) = set (nodes (expirables p)) - {e}" by (rule set_minus [OF nodes_distinct [OF inv(2)] u(7)])
  have "distinct (listed q)"
  proof -
    have "distinct (evlist k q)" for k
      unfolding u(8) by (rule distinct_remove1 [OF lists_distinct(2) [OF inv(1)]])
    then show ?thesis using lists_distinct(1) [OF inv(1)] by (simp add: listed_def f(1)) blast
  qed
  then have "lists_ok q" using inv(1) u(10) by (simp add: lists_ok_def f oi u(1)) blast
  moreover have "heap_inv q" using inv(2) u(6,9) by (auto simp: heap_inv_def sn f)
  moreover have "free_ok q" using inv(3) assms(4) by (auto simp: free_ok_def sn f u(1,3,4,11))
  moreover have "engine_ok q"
  proof -
    have "usable q = usable p" "watch_ok q = watch_ok p"
      using assms(2) by (simp_all add: unlinked_def usable_def watch_ok_def fun_eq_iff IOD_PROPGET_def Let_def)
    moreover have "live q = live p" by (simp add: live_def f fun_eq_iff)
    ultimately show ?thesis using inv(4) assms(2) by (simp add: engine_ok_def f oi unlinked_def) blast
  qed
  moreover have "serial_ok q" using inv(5) u(5) by (simp add: serial_ok_def)
  ultimately show ?thesis using unlinked_counts_ok [OF assms(1-3)] by (simp add: pool_inv_off_def)
qed

lemma remove_from_heap:
  assumes "heap_inv p" and "e \<in> set (nodes (expirables p))" and "nevents p2 = (nevents p)(e := v)"
    and "expirables p2 = expirables p"
  shows "\<exists>h. gh_heap_remove (timer_heap p2) e = Some h \<and>
    heap_ok (h\<lparr>cmp_op := expirable_cmp (\<lambda>x. e_timeout (nevents p2 x))\<rparr>) \<and>
    mset (nodes h) = mset (nodes (expirables p)) - {#e#}"
proof -
  have ok: "heap_ok (timer_heap p)" using assms(1) by (simp add: heap_inv_def)
  have same: "nodes (timer_heap p2) = nodes (timer_heap p)" by (simp add: assms(4))
  have wf: "heap_wf (timer_heap p2)" "heap_ordered (cmp_op (timer_heap p)) (nodes (timer_heap p2))"
    using ok by (auto simp: heap_ok_def heap_wf_def stored_def same assms(4))
  have "agree_off e (cmp_op (timer_heap p2)) (cmp_op (timer_heap p))"
    by (simp add: agree_off_def expirable_cmp_def assms(3))
  then obtain h where h: "gh_heap_remove (timer_heap p2) e = Some h" "heap_ok h" "cmp_op h = cmp_op (timer_heap p2)"
      "mset (nodes h) = mset (nodes (timer_heap p2)) - {#e#}"
    using gh_heap_remove_rekeyed [OF wf(1) timer_heap_order wf(2) timer_heap_order] assms(2,4) by auto
  have "h\<lparr>cmp_op := expirable_cmp (\<lambda>x. e_timeout (nevents p2 x))\<rparr> = h" using h(3) by simp
  then have "heap_ok (h\<lparr>cmp_op := expirable_cmp (\<lambda>x. e_timeout (nevents p2 x))\<rparr>)" using h(2) by metis
  then show ?thesis using h(1,4) by (simp add: assms(4))
qed

text \<open>The last part of \<open>nevent_unref\<close>, which takes the event out of the heap and puts it into the free list.\<close>

definition unref_end :: "'c npool \<Rightarrow> nat \<Rightarrow> 'c npool option" where
  "unref_end p nse = do {
     p \<leftarrow> (if tv_sec (e_timeout (nevents p nse)) \<noteq> 0
           then do {
             let p = upd_event nse (\<lambda>e. e\<lparr>e_timeout := \<lparr>tv_sec = 0, tv_usec = 0\<rparr>\<rparr>) p;
             h \<leftarrow> gh_heap_remove (timer_heap p) nse;
             Some (p\<lparr>expirables := h\<rparr>)
           } else Some p);
     Some (p\<lparr>free_events := free_events p @ [nse]\<rparr>)
   }"

lemma unref_end_spec:
  assumes "heap_inv p" and "e \<in> set (listed p) \<union> set (nodes (expirables p))" and "nevents p2 = nevents p"
    and "expirables p2 = expirables p"
  shows "\<exists>h v. unref_end p2 e = Some ((upd_event e (\<lambda>_. v) p2)\<lparr>expirables := h, free_events := free_events p2 @ [e]\<rparr>) \<and>
    heap_ok (h\<lparr>cmp_op := expirable_cmp (\<lambda>x. e_timeout (((nevents p)(e := v)) x))\<rparr>) \<and>
    mset (nodes h) = mset (nodes (expirables p)) - {#e#} \<and> e_type v = e_type (nevents p e) \<and>
    e_iod v = e_iod (nevents p e) \<and> event_done v = event_done (nevents p e)"
proof (cases "tv_sec (e_timeout (nevents p e)) = 0")
  case True
  then have "e \<notin> set (nodes (expirables p))" using assms(1) by (auto simp: heap_inv_def)
  moreover have "upd_event e (\<lambda>_. nevents p e) p2 = p2" by (simp add: upd_event_def flip: assms(3))
  moreover have "heap_ok (timer_heap p)" using assms(1) by (simp add: heap_inv_def)
  ultimately show ?thesis
    using True by (intro exI [of _ "expirables p"] exI [of _ "nevents p e"])
      (simp add: unref_end_def assms(3) timer_heap_def flip: assms(4))
next
  case False
  then have "e \<in> set (nodes (expirables p))" using assms(1,2) by (auto simp: heap_inv_def)
  moreover define v where "v = (nevents p e)\<lparr>e_timeout := \<lparr>tv_sec = 0, tv_usec = 0\<rparr>\<rparr>"
  moreover define p3 where "p3 = upd_event e (\<lambda>_. v) p2"
  have "nevents p3 = (nevents p)(e := v)" "expirables p3 = expirables p" by (simp_all add: p3_def assms(3,4))
  ultimately obtain h where h: "gh_heap_remove (timer_heap p3) e = Some h"
      "heap_ok (h\<lparr>cmp_op := expirable_cmp (\<lambda>x. e_timeout (nevents p3 x))\<rparr>)" "mset (nodes h) = mset (nodes (expirables p)) - {#e#}"
    using remove_from_heap [OF assms(1), of e p3 v] by auto
  have "upd_event e (\<lambda>e. e\<lparr>e_timeout := \<lparr>tv_sec = 0, tv_usec = 0\<rparr>\<rparr>) p2 = p3"
    by (simp add: p3_def v_def upd_event_def assms(3))
  then have "unref_end p2 e = Some (p3\<lparr>expirables := h, free_events := free_events p2 @ [e]\<rparr>)"
    using False h(1) by (simp add: unref_end_def assms(3)) (simp add: p3_def)
  then show ?thesis
    using h(2,3) unfolding \<open>nevents p3 = (nevents p)(e := v)\<close>
    by (intro exI [of _ h] exI [of _ v]) (simp add: p3_def v_def)
qed

lemma unref_timer:
  assumes "pool_inv_off d D p" and "e \<in> set (nodes (expirables p))" and "e_type (nevents p e) = NSE_TYPE_TIMER"
  shows "\<exists>q. nevent_unref p e = Some q \<and> unlinked e p q"
proof -
  have inv: "heap_inv p" "lists_ok p" using assms(1) by (auto simp: pool_inv_off_def)
  obtain h v where r: "unref_end p e = Some ((upd_event e (\<lambda>_. v) p)\<lparr>expirables := h, free_events := free_events p @ [e]\<rparr>)"
      "heap_ok (h\<lparr>cmp_op := expirable_cmp (\<lambda>x. e_timeout (((nevents p)(e := v)) x))\<rparr>)"
      "mset (nodes h) = mset (nodes (expirables p)) - {#e#}" "e_type v = e_type (nevents p e)"
      "e_iod v = e_iod (nevents p e)" "event_done v = event_done (nevents p e)"
    using unref_end_spec [OF inv(1) _ refl refl, of e] assms(2) by auto
  have "nevent_unref p e = unref_end p e"
    using assms(3) by (simp add: nevent_unref_def update_first_events_def unref_end_def)
  moreover have "e \<notin> set (evlist k p)" for k using inv(2) assms(3) kind_not_timer by (auto simp: lists_ok_def)
  then have "unlinked e p ((upd_event e (\<lambda>_. v) p)\<lparr>expirables := h, free_events := free_events p @ [e]\<rparr>)"
    using r(2-6) inv(2) by (simp add: unlinked_def timer_heap_def remove1_idem lists_ok_def)
  ultimately show ?thesis using r(1) by auto
qed

lemma first_ev_next_group:
  assumes "lists_ok p" and "e \<in> set (evlist k p)" and "of_iod p i e"
  shows "\<exists>x. first_ev_next k p e (first_ev k (niods p i)) = Some x \<and>
    group_ok x (of_iod p i) (remove1 e (evlist k p))"
proof -
  define f where "f = first_ev k (niods p i)"
  have "group_ok f (of_iod p i) (evlist k p)" using assms(1) by (simp add: lists_ok_def f_def)
  then obtain nxt where n: "lnode_next (evlist k p) e = Some nxt" "f \<noteq> None"
      "group_ok (if f = Some e then case nxt of Some y \<Rightarrow> if of_iod p i y then nxt else None | None \<Rightarrow> None else f)
        (of_iod p i) (remove1 e (evlist k p))"
    using group_remove_own [of f "of_iod p i" "evlist k p" e] lists_distinct(2) [OF assms(1)] assms(2,3) by blast
  have "first_ev_next k p e f =
      Some (if f = Some e then case nxt of Some y \<Rightarrow> if of_iod p i y then nxt else None | None \<Rightarrow> None else f)"
    using n(1,2) assms(3) by (cases f; cases nxt) (auto simp: first_ev_next_def of_iod_def)
  then show ?thesis using n(3) by (simp add: f_def)
qed

lemma unref_listed:
  assumes "pool_inv_off d D p" and "e \<in> set (evlist k p)" and "of_iod p i e"
  shows "\<exists>q. nevent_unref p e = Some q \<and> unlinked e p q"
proof -
  have inv: "heap_inv p" "lists_ok p" using assms(1) by (auto simp: pool_inv_off_def)
  have e: "kind_of (e_type (nevents p e)) = Some k" "e_iod (nevents p e) = Some i"
    using inv(2) assms(2,3) by (auto simp: lists_ok_def of_iod_def)
  obtain x where x: "first_ev_next k p e (first_ev k (niods p i)) = Some x" "group_ok x (of_iod p i) (remove1 e (evlist k p))"
    using first_ev_next_group [OF inv(2) assms(2,3)] by blast
  define p2 where "p2 = set_evlist k (remove1 e (evlist k p)) (upd_iod i (set_first_ev k x) p)"
  have p2: "nevents p2 = nevents p" "expirables p2 = expirables p" by (simp_all add: p2_def)
  have el: "evlist k' p2 = remove1 e (evlist k' p)" for k'
    using remove_kind [OF inv(2) assms(2), of k'] by (simp add: p2_def)
  obtain h v where r: "unref_end p2 e = Some ((upd_event e (\<lambda>_. v) p2)\<lparr>expirables := h, free_events := free_events p2 @ [e]\<rparr>)"
      "heap_ok (h\<lparr>cmp_op := expirable_cmp (\<lambda>x. e_timeout (((nevents p)(e := v)) x))\<rparr>)"
      "mset (nodes h) = mset (nodes (expirables p)) - {#e#}" "e_type v = e_type (nevents p e)"
      "e_iod v = e_iod (nevents p e)" "event_done v = event_done (nevents p e)"
    using unref_end_spec [OF inv(1) _ p2] evlist_listed [OF assms(2)] by blast
  have "nevent_unref p e = unref_end p2 e"
    using e x(1) assms(2) kind_not_timer [OF e(1)]
    by (simp add: nevent_unref_def update_first_events_def unref_end_def list_remove_def p2_def)
  moreover have "group_ok (first_ev k' (niods p2 j)) (of_iod p j) (evlist k' p2)" for k' j
  proof (cases "k' = k")
    case True
    have "group_ok (first_ev k (niods p j)) (of_iod p j) (remove1 e (evlist k p))" if "j \<noteq> i"
      by (rule group_remove_other) (use inv(2) assms(3) that in \<open>auto simp: lists_ok_def of_iod_def\<close>)
    then show ?thesis using True x(2) by (simp add: p2_def)
  next
    case False
    then show ?thesis using inv(2) by (cases "j = i") (simp_all add: p2_def lists_ok_def)
  qed
  then have "unlinked e p ((upd_event e (\<lambda>_. v) p2)\<lparr>expirables := h, free_events := free_events p2 @ [e]\<rparr>)"
    using r(2-6) el by (simp add: unlinked_def timer_heap_def p2) (simp add: p2_def)
  ultimately show ?thesis using r(1) by auto
qed

section \<open>Cancelling an event\<close>

lemma event_delete_fields:
  "evlist k (event_delete p e) = evlist k p" "active_iods (event_delete p e) = active_iods p"
  "expirables (event_delete p e) = expirables p" "engine_data (event_delete p e) = engine_data p"
  "free_events (event_delete p e) = free_events p" "free_iods (event_delete p e) = free_iods p" "next_address (event_delete p e) = next_address p"
  "next_event_serial (event_delete p e) = next_event_serial p" "events_pending (event_delete p e) = events_pending p"
  "niods (event_delete p e) = niods p" "x \<noteq> e \<Longrightarrow> nevents (event_delete p e) x = nevents p x"
  "e_type (nevents (event_delete p e) x) = e_type (nevents p x)" "e_iod (nevents (event_delete p e) x) = e_iod (nevents p x)"
  "e_timeout (nevents (event_delete p e) x) = e_timeout (nevents p x)" "event_done (nevents (event_delete p e) e)"
  "e_id (nevents (event_delete p e) x) = e_id (nevents p x)" "e_handler (nevents (event_delete p e) x) = e_handler (nevents p x)"
  by (simp_all add: event_delete_def Let_def)

lemma event_delete_touched: "touched e p (event_delete p e)"
  by (simp add: touched_def event_delete_fields)

lemma event_delete_inv:
  assumes "pool_inv_off d D q" and "e \<in> set (listed q) \<union> set (nodes (expirables q)) \<Longrightarrow> event_done (nevents q e)"
  shows "pool_inv_off d D (event_delete q e)"
proof (rule pool_inv_off_cong [OF assms(1) touched_same_events [OF event_delete_touched]])
  show "live (event_delete q e) x = live q x" if "x \<in> set (listed q) \<union> set (nodes (expirables q))" for x
    using that assms(2) by (cases "x = e") (simp_all add: live_def event_delete_fields)
qed (simp_all add: event_delete_fields)

text \<open>An event that is waiting, in a list or as a timer, and the pool after it has been finished.\<close>

definition pending_event :: "'c npool \<Rightarrow> nat \<Rightarrow> bool" where
  "pending_event p e \<longleftrightarrow> pool_inv p \<and> live p e \<and> e \<in> set (listed p) \<union> set (nodes (expirables p))"

definition same_iods :: "'c npool \<Rightarrow> 'c npool \<Rightarrow> bool" where
  "same_iods p q \<longleftrightarrow> active_iods q = active_iods p \<and>
     (\<forall>j. i_sd (niods q j) = i_sd (niods p j) \<and> i_state (niods q j) = i_state (niods p j) \<and>
        IOD_PROPGET q j IOD_STDIN = IOD_PROPGET p j IOD_STDIN)"

lemma same_iods_usable: "same_iods p q \<Longrightarrow> usable q j = usable p j"
  by (simp add: same_iods_def usable_def)

lemma same_iods_trans: "same_iods p q \<Longrightarrow> same_iods q r \<Longrightarrow> same_iods p r"
  by (simp add: same_iods_def)

lemma touched_same_iods: "touched e p q \<Longrightarrow> same_iods p q"
  by (simp add: touched_def same_iods_def IOD_PROPGET_def)

lemma unlinked_same_iods: "unlinked e p q \<Longrightarrow> same_iods p q"
  by (simp add: unlinked_def same_iods_def IOD_PROPGET_def)

definition ended :: "nat \<Rightarrow> 'c npool \<Rightarrow> 'c npool \<Rightarrow> bool" where
  "ended e p q \<longleftrightarrow> pool_inv_off 1 (bump (e_iod (nevents p e))) q \<and> event_done (nevents q e) \<and>
     (\<forall>k. evlist k q = evlist k p) \<and> expirables q = expirables p \<and> active_iods q = active_iods p \<and>
     events_pending q = events_pending p \<and> (\<forall>x. x \<noteq> e \<longrightarrow> nevents q x = nevents p x) \<and>
     e_type (nevents q e) = e_type (nevents p e) \<and> e_iod (nevents q e) = e_iod (nevents p e) \<and>
     e_id (nevents q e) = e_id (nevents p e) \<and> e_handler (nevents q e) = e_handler (nevents p e) \<and>
     same_iods p q"

lemma pending_cases:
  assumes "pending_event p e"
  obtains (listed) k i where "waiting k i e p" "kind_of (e_type (nevents p e)) = Some k" "e_iod (nevents p e) = Some i"
  | (timer) "e \<in> set (nodes (expirables p))" "e_type (nevents p e) = NSE_TYPE_TIMER" "e_iod (nevents p e) = None"
proof (cases "e \<in> set (listed p)")
  case True
  then obtain k where k: "e \<in> set (evlist k p)" by (auto simp: set_listed)
  have "lists_ok p" using assms by (simp add: pending_event_def pool_inv_def pool_inv_off_def)
  with k obtain i where "of_iod p i e" "kind_of (e_type (nevents p e)) = Some k"
    unfolding lists_ok_def by blast
  then show ?thesis using k assms by (intro listed) (auto simp: waiting_def pending_event_def of_iod_def)
next
  case False
  then have "e \<in> set (nodes (expirables p))" "heap_inv p" using assms by (auto simp: pending_event_def pool_inv_def pool_inv_off_def)
  then show ?thesis using False by (intro timer) (auto simp: heap_inv_def)
qed

lemma finished_ended: "waiting k i e p \<Longrightarrow> finished k i e p q \<Longrightarrow> ended e p q"
  using finished_inv [of k i e p q] finished_fields [of k i e p q] finished_iods [of k i e p q]
  by (simp add: ended_def waiting_def of_iod_def same_iods_def)

lemma timer_ended:
  assumes "pending_event p e" and "e_type (nevents p e) = NSE_TYPE_TIMER" and "touched e p q" and "event_done (nevents q e)"
  shows "ended e p q"
proof -
  have inv: "lists_ok p" "heap_inv p" "free_ok p" "counts_ok 0 (\<lambda>_. 0) p" "engine_ok p" "serial_ok p" "live p e"
    using assms(1) by (auto simp: pending_event_def pool_inv_def pool_inv_off_def)
  have nl: "e \<notin> set (listed p)" using inv(1) assms(2) kind_not_timer by (auto simp: set_listed lists_ok_def)
  then have e: "e \<in> set (nodes (expirables p))" "e_iod (nevents p e) = None"
    using assms(1) inv(2) by (auto simp: pending_event_def heap_inv_def)
  note se = touched_same_events [OF assms(3)] and f = touched_fields [OF assms(3)]
  have t: "\<And>k. evlist k q = evlist k p" "active_iods q = active_iods p" "expirables q = expirables p"
      "engine_data q = engine_data p" "free_events q = free_events p" "next_address q = next_address p"
      "next_event_serial q = next_event_serial p" "events_pending q = events_pending p"
      "\<And>x. x \<noteq> e \<Longrightarrow> nevents q x = nevents p x" "free_iods q = free_iods p"
    using assms(3) by (auto simp: touched_def)
  have lv: "live q x \<longleftrightarrow> x \<noteq> e \<and> live p x" for x using assms(4) t(9) [of x] by (cases "x = e") (simp_all add: live_def)
  have ll: "listed q = listed p" "timers q = timers p" using same_events_listed [OF se] same_events_timers [OF se] .
  have "distinct (timers p)" "e \<in> set (timers p)"
    using nodes_distinct [OF inv(2)] e(1) assms(2) by (simp_all add: timers_def)
  then have "length (filter (live p) (timers p)) = length (filter (live q) (timers p)) + 1"
    using filter_without [of "timers p" e "live p"] inv(7) by (simp add: lv cong: filter_cong)
  moreover have "filter (live q) (listed p) = filter (live p) (listed p)"
    by (rule filter_cong) (use nl in \<open>auto simp: lv\<close>)
  moreover have "pending_of q i xs = pending_of p i xs" for i xs
    unfolding pending_of_def of_iod_def f(2)
    by (rule arg_cong [where f = length], rule filter_cong) (use e(2) in \<open>auto simp: lv\<close>)
  ultimately have "counts_ok 1 (bump None) q"
    using inv(4) assms(3) by (simp add: counts_ok_def ll t bump_def) (simp add: touched_def)
  moreover have "engine_ok q" by (rule engine_ok_cong [OF inv(5) se t(4)]) (use assms(3) lv in \<open>simp_all add: touched_def\<close>)
  ultimately have "pool_inv_off 1 (bump None) q"
    using same_events_lists_ok [OF inv(1) se] same_events_heap_inv [OF inv(2) se] inv(3,6)
    by (simp add: pool_inv_off_def free_ok_def serial_ok_def t ll)
  then show ?thesis using assms(4) e(2) touched_same_iods [OF assms(3)] by (simp add: ended_def t f)
qed

text \<open>The counters of \<open>event_dispatch_and_delete\<close>.\<close>

definition settle :: "nat option \<Rightarrow> 'c npool \<Rightarrow> 'c npool" where
  "settle iod p = (let p = p\<lparr>events_pending := events_pending p - 1\<rparr> in
     case iod of None \<Rightarrow> p | Some i \<Rightarrow> upd_iod i (\<lambda>n. n\<lparr>i_events_pending := i_events_pending n - 1\<rparr>) p)"

lemma settle_sel [simp]:
  "evlist k (settle iod p) = evlist k p" "active_iods (settle iod p) = active_iods p" "expirables (settle iod p) = expirables p"
  "engine_data (settle iod p) = engine_data p" "free_iods (settle iod p) = free_iods p" "free_events (settle iod p) = free_events p"
  "next_address (settle iod p) = next_address p" "next_event_serial (settle iod p) = next_event_serial p"
  "events_pending (settle iod p) = events_pending p - 1" "nevents (settle iod p) = nevents p"
  "niods (settle iod p) = (\<lambda>i. (niods p i)\<lparr>i_events_pending := i_events_pending (niods p i) - bump iod i\<rparr>)"
  "listed (settle iod p) = listed p" "p_userdata (settle iod p) = p_userdata p" "nsock_tod (settle iod p) = nsock_tod p"
  "os (settle iod p) = os p" "quit (settle iod p) = quit p"
  by (auto simp: settle_def Let_def bump_def listed_def fun_eq_iff split: option.split)

lemma settle_same_iods: "same_iods p (settle iod p)"
  by (simp add: same_iods_def IOD_PROPGET_def)

lemma settle_inv:
  assumes "pool_inv_off 1 (bump iod) p"
  shows "pool_inv (settle iod p)"
proof -
  have inv: "lists_ok p" "heap_inv p" "free_ok p" "counts_ok 1 (bump iod) p" "engine_ok p" "serial_ok p"
    using assms by (auto simp: pool_inv_off_def)
  have se: "same_events p (settle iod p)" by (simp add: same_events_def)
  have "counts_ok (1 + -1) (\<lambda>i. bump iod i + - bump iod i) (settle iod p)"
    by (rule counts_ok_cong [OF inv(4) se]) (simp_all add: live_def)
  moreover have "engine_ok (settle iod p)" by (rule engine_ok_cong [OF inv(5) se]) (simp_all add: live_def)
  ultimately show ?thesis
    using same_events_lists_ok [OF inv(1) se] same_events_heap_inv [OF inv(2) se] inv(3,6)
    by (simp add: pool_inv_def pool_inv_off_def free_ok_def serial_ok_def)
qed

definition notified :: "'c handlers \<Rightarrow> bool \<Rightarrow> 'c npool \<Rightarrow> nat \<Rightarrow> 'c npool option" where
  "notified H notify p e = (if notify then H (e_handler (nevents p e)) p e else Some p)"

lemma dispatch_eq:
  assumes "pool_inv_off 1 (bump iod) p" and "e_iod (nevents p e) = iod" and "event_done (nevents p e)"
    and "\<And>i. iod = Some i \<Longrightarrow> i \<in> set (active_iods p)"
  shows "event_dispatch_and_delete H p e notify =
    do { q \<leftarrow> notified H notify (settle iod p) e; Some (event_delete q e) }"
proof -
  have c: "counts_ok 1 (bump iod) p" using assms(1) by (simp add: pool_inv_off_def)
  then have "0 \<le> events_pending p - 1" by (simp add: counts_ok_def)
  moreover have "0 \<le> i_events_pending (niods p i) - 1" if "iod = Some i" for i
    using c assms(4) [OF that] that by (simp add: counts_ok_def bump_def)
  ultimately show ?thesis
    using assms(2,3) by (cases iod) (simp_all add: event_dispatch_and_delete_def settle_def notified_def)
qed

definition deleted :: "nat \<Rightarrow> 'c npool \<Rightarrow> 'c npool \<Rightarrow> bool" where
  "deleted e p q \<longleftrightarrow> pool_inv q \<and> events_pending q = events_pending p - 1 \<and>
     (\<forall>k. evlist k q = remove1 e (evlist k p)) \<and> mset (nodes (expirables q)) = mset (nodes (expirables p)) - {#e#} \<and>
     (\<forall>x. x \<noteq> e \<longrightarrow> nevents q x = nevents p x) \<and> e_iod (nevents q e) = e_iod (nevents p e) \<and> same_iods p q \<and> e \<in> set (free_events q)"

lemma cancelled_ended:
  assumes "pending_event p e"
  shows "\<exists>q. (case e_type (nevents p e) of
      NSE_TYPE_READ \<Rightarrow> handle_read_result p e NSE_STATUS_CANCELLED
    | NSE_TYPE_WRITE \<Rightarrow> handle_write_result p e NSE_STATUS_CANCELLED
    | NSE_TYPE_TIMER \<Rightarrow> Some (handle_timer_result p e NSE_STATUS_CANCELLED)
    | NSE_TYPE_PCAP_READ \<Rightarrow> None
    | _ \<Rightarrow> handle_connect_result p e NSE_STATUS_CANCELLED) = Some q \<and> ended e p q"
  using assms
proof (cases rule: pending_cases)
  case (listed k i)
  then obtain q where "result_of k p e NSE_STATUS_CANCELLED = Some q" "finished k i e p q"
    using stopped_finished [OF listed(1)] by blast
  then show ?thesis
    using finished_ended [OF listed(1)] listed(2)
    by (cases "e_type (nevents p e)") (auto simp: result_of_def kind_of_def)
next
  case timer
  then show ?thesis
    using timer_ended [OF assms timer(2) finish_event_touched(1,2)] by (simp add: handle_timer_result_def)
qed

lemma ended_unlinked:
  assumes "pending_event p e" and "ended e p q"
  shows "\<exists>r. nevent_unref q e = Some r \<and> unlinked e q r \<and> pool_inv_off 1 (bump (e_iod (nevents p e))) r"
proof -
  have q: "pool_inv_off 1 (bump (e_iod (nevents p e))) q" "event_done (nevents q e)" "\<And>k. evlist k q = evlist k p"
      "expirables q = expirables p" "e_type (nevents q e) = e_type (nevents p e)" "e_iod (nevents q e) = e_iod (nevents p e)"
    using assms(2) by (auto simp: ended_def)
  have lq: "listed q = listed p" by (simp add: listed_def q(3))
  have "\<exists>r. nevent_unref q e = Some r \<and> unlinked e q r"
    using assms(1)
  proof (cases rule: pending_cases)
    case (listed k i)
    then have "e \<in> set (evlist k q)" "of_iod q i e" by (auto simp: waiting_def of_iod_def q)
    then show ?thesis by (rule unref_listed [OF q(1)])
  next
    case timer
    then show ?thesis by (intro unref_timer [OF q(1)]) (simp_all add: q)
  qed
  then obtain r where r: "nevent_unref q e = Some r" "unlinked e q r" by blast
  moreover have "pool_inv_off 1 (bump (e_iod (nevents p e))) r"
    by (rule unlinked_inv [OF q(1) r(2)]) (use assms(1) q(2) in \<open>auto simp: live_def pending_event_def lq q(4)\<close>)
  ultimately show ?thesis by blast
qed

lemma pending_iod_active:
  assumes "pending_event p e" and "e_iod (nevents p e) = Some i"
  shows "i \<in> set (active_iods p)" "usable p i"
proof -
  show "usable p i" using assms(1)
  proof (cases rule: pending_cases)
    case (listed k j)
    then show ?thesis using assms(2) waiting_iod(1) by auto
  qed (use assms(2) in simp)
  then show "i \<in> set (active_iods p)" by (simp add: usable_def)
qed

lemma deleted_touch:
  assumes "deleted e p q" and "pending_event p e"
  shows "deleted e p (event_delete q e)"
proof -
  have q: "pool_inv q" "\<And>k. evlist k q = remove1 e (evlist k p)" "mset (nodes (expirables q)) = mset (nodes (expirables p)) - {#e#}"
    using assms(1) by (auto simp: deleted_def)
  have p: "lists_ok p" "heap_inv p" using assms(2) by (auto simp: pending_event_def pool_inv_def pool_inv_off_def)
  have "e \<notin> set (listed q)" by (simp add: set_listed q(2) lists_distinct(2) [OF p(1)])
  moreover have "e \<notin> set (nodes (expirables q))" using set_minus [OF nodes_distinct [OF p(2)] q(3)] by simp
  ultimately have "pool_inv (event_delete q e)"
    unfolding pool_inv_def by (intro event_delete_inv [OF q(1) [unfolded pool_inv_def]]) simp
  then show ?thesis using assms(1) by (simp add: deleted_def event_delete_fields same_iods_def IOD_PROPGET_def)
qed

lemma nevent_delete_silent:
  assumes "pending_event p e"
  shows "\<exists>q. nevent_delete H p e False = Some (q, True) \<and> deleted e p q"
proof -
  obtain q where q: "(case e_type (nevents p e) of
      NSE_TYPE_READ \<Rightarrow> handle_read_result p e NSE_STATUS_CANCELLED
    | NSE_TYPE_WRITE \<Rightarrow> handle_write_result p e NSE_STATUS_CANCELLED
    | NSE_TYPE_TIMER \<Rightarrow> Some (handle_timer_result p e NSE_STATUS_CANCELLED)
    | NSE_TYPE_PCAP_READ \<Rightarrow> None
    | _ \<Rightarrow> handle_connect_result p e NSE_STATUS_CANCELLED) = Some q" "ended e p q"
    using cancelled_ended [OF assms] by blast
  obtain r where r: "nevent_unref q e = Some r" "unlinked e q r" "pool_inv_off 1 (bump (e_iod (nevents p e))) r"
    using ended_unlinked [OF assms q(2)] by blast
  define iod where "iod = e_iod (nevents p e)"
  have re: "e_iod (nevents r e) = iod" "event_done (nevents r e)" "active_iods r = active_iods p"
    using r(2) q(2) by (auto simp: unlinked_def ended_def iod_def)
  have "i \<in> set (active_iods r)" if "iod = Some i" for i
    using pending_iod_active(1) [OF assms] that re(3) by (simp add: iod_def)
  then have "event_dispatch_and_delete H r e False = Some (event_delete (settle iod r) e)"
    using dispatch_eq [OF r(3) [folded iod_def] re(1,2), of H False] by (simp add: notified_def)
  then have "nevent_delete H p e False = Some (event_delete (settle iod r) e, True)"
    using assms q r(1) by (simp add: nevent_delete_def pending_event_def live_def ended_def)
  moreover have "same_iods p (settle iod r)"
    using q(2) same_iods_trans [OF same_iods_trans [OF _ unlinked_same_iods [OF r(2)]] settle_same_iods]
    by (simp add: ended_def)
  then have "deleted e p (settle iod r)"
    using settle_inv [OF r(3) [folded iod_def]] r(2) q(2) by (simp add: deleted_def unlinked_def ended_def)
  ultimately show ?thesis using deleted_touch [OF _ assms] by blast
qed

lemma find_timer_nodes:
  assumes "heap_inv p"
  shows "\<forall>j\<in>set js. j < count (expirables p) \<Longrightarrow>
    find_timer p ident js = Some (find (\<lambda>e. e_id (nevents p e) = ident) (map ((!) (nodes (expirables p))) js))"
proof (induction js)
  case (Cons j js)
  have "heap_wf (timer_heap p)" using assms by (simp add: heap_inv_def heap_ok_def)
  from gh_heap_find_spec [OF this, of j] show ?case using Cons by simp
qed simp

lemma find_timer_heap:
  assumes "heap_inv p"
  shows "find_timer p ident [0..<gh_heap_count (expirables p)] =
    Some (find (\<lambda>e. e_id (nevents p e) = ident) (nodes (expirables p)))"
proof -
  have "length (nodes (expirables p)) = count (expirables p)"
    using heap_wf_facts(2) [of "timer_heap p"] assms by (simp add: heap_inv_def heap_ok_def)
  then have "map ((!) (nodes (expirables p))) [0..<count (expirables p)] = nodes (expirables p)" using map_nth by metis
  then show ?thesis using find_timer_nodes [OF assms, of "[0..<count (expirables p)]"] by (simp add: gh_heap_count_def)
qed

text \<open>Where \<open>nsock_event_cancel\<close> looks for an event.\<close>

definition searched :: "nse_type \<Rightarrow> 'c npool \<Rightarrow> nat list" where
  "searched t p = (case kind_of t of Some k \<Rightarrow> evlist k p | None \<Rightarrow> nodes (expirables p))"

lemma cancel_eq:
  assumes "heap_inv p" and "get_event_id_type ident = Some t" and "t \<noteq> NSE_TYPE_PCAP_READ"
  shows "nsock_event_cancel H p ident notify =
    (case find (\<lambda>e. e_id (nevents p e) = ident) (searched t p) of
       None \<Rightarrow> Some (p, False) | Some e \<Rightarrow> nevent_delete H p e notify)"
  using assms(2,3) find_timer_heap [OF assms(1)]
  by (cases t) (simp_all add: nsock_event_cancel_def searched_def kind_of_def)

lemma cancel_first:
  assumes "pool_inv p" and "get_event_id_type ident = Some t" and "t \<noteq> NSE_TYPE_PCAP_READ"
  shows "case find (\<lambda>e. e_id (nevents p e) = ident) (searched t p) of
      None \<Rightarrow> nsock_event_cancel H p ident False = Some (p, False)
    | Some e \<Rightarrow>
        if event_done (nevents p e) then nsock_event_cancel H p ident False = Some (p, False)
        else pending_event p e \<and> (\<exists>q. nsock_event_cancel H p ident False = Some (q, True) \<and> deleted e p q)"
proof -
  have hi: "heap_inv p" using assms(1) by (simp add: pool_inv_def pool_inv_off_def)
  show ?thesis
  proof (cases "find (\<lambda>e. e_id (nevents p e) = ident) (searched t p)")
    case None
    then show ?thesis using cancel_eq [OF hi assms(2,3)] by simp
  next
    case (Some e)
    then have e: "e \<in> set (searched t p)" by (auto simp: find_Some_iff)
    have c: "nsock_event_cancel H p ident False = nevent_delete H p e False"
      using cancel_eq [OF hi assms(2,3)] Some by simp
    show ?thesis
    proof (cases "live p e")
      case True
      then have "pending_event p e"
        using e assms(1) evlist_listed by (auto simp: pending_event_def searched_def split: option.splits)
      then show ?thesis using nevent_delete_silent [of p e H] c Some True by (auto simp: live_def)
    next
      case False
      then show ?thesis using c Some by (simp add: nevent_delete_def live_def)
    qed
  qed
qed

lemma cancel_silent:
  assumes "pool_inv p" and "get_event_id_type ident = Some t" and "t \<noteq> NSE_TYPE_PCAP_READ"
  shows "(\<exists>q e. nsock_event_cancel H p ident False = Some (q, True) \<and> pending_event p e \<and> e \<in> set (searched t p) \<and>
      e_id (nevents p e) = ident \<and> deleted e p q) \<or>
    nsock_event_cancel H p ident False = Some (p, False)"
proof (cases "find (\<lambda>e. e_id (nevents p e) = ident) (searched t p)")
  case None
  then show ?thesis using cancel_first [OF assms, of H] by simp
next
  case (Some e)
  then have "e \<in> set (searched t p)" "e_id (nevents p e) = ident" by (auto simp: find_Some_iff)
  then show ?thesis using cancel_first [OF assms, of H] Some by (auto split: if_splits)
qed

lemma cancel_bogus:
  "get_event_id_type ident = None \<or> get_event_id_type ident = Some NSE_TYPE_PCAP_READ \<Longrightarrow> nsock_event_cancel H p ident notify = None"
  by (auto simp: nsock_event_cancel_def kind_of_def)

end
