(* ===== verification/Nsock_Iods.thy ===== *)
theory Nsock_Iods
  imports Nsock_Del
begin

text \<open>
  Creating and deleting descriptors, and that both keep the invariant.
\<close>

section \<open>New descriptors\<close>

definition sd_free :: "'c npool \<Rightarrow> int \<Rightarrow> bool" where
  "sd_free p s \<longleftrightarrow> 0 \<le> s \<and> s < FD_SETSIZE \<and> (\<forall>i\<in>set (active_iods p). i_sd (niods p i) \<noteq> s)"

definition blank_iod :: "'c npool \<Rightarrow> niod \<Rightarrow> bool" where
  "blank_iod p n \<longleftrightarrow> (\<forall>k. first_ev k n = None) \<and> i_events_pending n = 0 \<and> readsd_count n = 0 \<and> writesd_count n = 0 \<and>
     i_flags n = 0 \<and> (i_sd n = -1 \<or> sd_free p (i_sd n) \<and> i_state n \<noteq> NSIOD_STATE_DELETED)"

text \<open>The pool with a new descriptor \<open>i\<close>, whose structure came from the free list or is new.\<close>

definition iod_made :: "nat \<Rightarrow> niod \<Rightarrow> 'c npool \<Rightarrow> 'c npool \<Rightarrow> bool" where
  "iod_made i n p q \<longleftrightarrow> (\<forall>k. evlist k q = evlist k p) \<and> expirables q = expirables p \<and> nevents q = nevents p \<and>
     engine_data q = engine_data p \<and> free_events q = free_events p \<and> events_pending q = events_pending p \<and>
     next_event_serial q = next_event_serial p \<and> niods q = (niods p)(i := n) \<and>
     (active_iods q = active_iods p @ [i] \<or> active_iods q = active_iods p) \<and>
     (free_iods p = i # free_iods q \<and> next_address q = next_address p \<or>
      i = next_address p \<and> free_iods q = free_iods p \<and> next_address q = next_address p + 1)"

lemma fresh_iod:
  assumes "free_ok p" and "iod_made i n p q"
  shows "i \<notin> set (active_iods p)" "distinct (active_iods p @ i # free_iods q)"
    "\<forall>j\<in>insert i (set (active_iods p) \<union> set (free_iods q)). j < next_address q"
    "next_address p \<le> next_address q"
proof -
  consider "free_iods p = i # free_iods q" "next_address q = next_address p"
    | "i = next_address p" "free_iods q = free_iods p" "next_address q = next_address p + 1"
    using assms(2) by (auto simp: iod_made_def)
  then have "i \<notin> set (active_iods p) \<and> distinct (active_iods p @ i # free_iods q) \<and>
    (\<forall>j\<in>insert i (set (active_iods p) \<union> set (free_iods q)). j < next_address q) \<and> next_address p \<le> next_address q"
  proof cases
    case 1
    then show ?thesis using assms(1) by (auto simp: free_ok_def)
  next
    case 2
    then have "\<forall>j\<in>set (active_iods p) \<union> set (free_iods p). j < i" using assms(1) by (simp add: free_ok_def)
    then show ?thesis using 2 assms(1) by (auto simp: free_ok_def less_Suc_eq)
  qed
  then show "i \<notin> set (active_iods p)" "distinct (active_iods p @ i # free_iods q)"
    "\<forall>j\<in>insert i (set (active_iods p) \<union> set (free_iods q)). j < next_address q"
    "next_address p \<le> next_address q" by simp_all
qed

lemma iod_made_inv:
  assumes "pool_inv p" and "iod_made i n p q" and "blank_iod p n"
  shows "pool_inv q" "\<And>j. usable p j \<Longrightarrow> usable q j"
proof -
  have inv: "lists_ok p" "heap_inv p" "free_ok p" "counts_ok 0 (\<lambda>_. 0) p" "engine_ok p" "serial_ok p"
    using assms(1) by (auto simp: pool_inv_def pool_inv_off_def)
  note fr = fresh_iod [OF inv(3) assms(2)]
  have q: "\<And>k. evlist k q = evlist k p" "expirables q = expirables p" "nevents q = nevents p" "engine_data q = engine_data p"
      "free_events q = free_events p" "events_pending q = events_pending p" "next_event_serial q = next_event_serial p"
      "niods q = (niods p)(i := n)" "active_iods q = active_iods p @ [i] \<or> active_iods q = active_iods p"
    using assms(2) by (auto simp: iod_made_def)
  have b: "\<And>k. first_ev k n = None" "i_events_pending n = 0" "readsd_count n = 0" "writesd_count n = 0" "i_flags n = 0"
      "i_sd n = -1 \<or> sd_free p (i_sd n) \<and> i_state n \<noteq> NSIOD_STATE_DELETED"
    using assms(3) by (auto simp: blank_iod_def)
  have l: "listed q = listed p" by (simp add: listed_def q)
  have sel: "of_iod q = of_iod p" "live q = live p" "pending_of q = pending_of p" "timers q = timers p" "timer_heap q = timer_heap p"
    by (simp_all add: of_iod_def live_def pending_of_def timers_def timer_heap_def q fun_eq_iff)
  have a: "set (active_iods q) \<subseteq> insert i (set (active_iods p))" "set (active_iods p) \<subseteq> set (active_iods q)" using q(9) by auto
  have none: "\<not> of_iod p i e" if e: "e \<in> set (listed p)" for e
  proof -
    obtain k where "e \<in> set (evlist k p)" using e by (auto simp: set_listed)
    then obtain j where "j \<in> set (active_iods p)" "of_iod p j e" using inv(1) unfolding lists_ok_def by blast
    then show ?thesis using fr(1) by (auto simp: of_iod_def)
  qed
  have "group_ok (first_ev k (niods q j)) (of_iod q j) (evlist k q)" for k j
  proof (cases "j = i")
    case True
    have "\<forall>y\<in>set (evlist k p). \<not> of_iod p i y" using none evlist_listed by blast
    then show ?thesis unfolding group_ok_def True
      by (intro exI [of _ "evlist k p"] exI [of _ "[]"]) (simp add: q b sel)
  next
    case False
    then show ?thesis using inv(1) by (simp add: lists_ok_def q sel)
  qed
  then have "lists_ok q" using inv(1) a(2) unfolding lists_ok_def by (simp add: l q(1,3) sel) blast
  moreover have "heap_inv q" using inv(2) by (simp add: heap_inv_def sel l q)
  moreover have "free_ok q"
  proof -
    have "x < next_address q" if "x < next_address p" for x using that fr(4) by (rule less_le_trans)
    then show ?thesis using inv(3) fr(1-3) q(9) by (auto simp: free_ok_def l q(2,5))
  qed
  moreover have "counts_ok 0 (\<lambda>_. 0) q"
  proof -
    have "pending_of p i xs = 0" if "set xs \<subseteq> set (listed p)" for xs
      using none that by (auto simp: pending_of_def filter_empty_conv)
    then have "pending_of p i (evlist k p) = 0" for k using evlist_listed by blast
    then show ?thesis using inv(4) a(1) b(2-4) by (auto simp: counts_ok_def l sel q(1,6,8) listed_def)
  qed
  moreover have us: "usable q j = usable p j" if "j \<noteq> i" for j using that q(9) by (auto simp: usable_def q(8))
  moreover have "engine_ok q"
  proof -
    have w: "watch_ok q j = watch_ok p j" if "j \<noteq> i" for j using that by (simp add: watch_ok_def q Let_def IOD_PROPGET_def)
    have ni: "usable q i \<and> watch_ok q i" if "i \<in> set (active_iods q)" "i_sd n \<noteq> -1"
    proof -
      have "i_sd n \<notin> (\<lambda>j. i_sd (niods p j)) ` set (active_iods p)" 
        using b(6) that(2) unfolding sd_free_def image_iff by metis
      moreover have "fds_master_r (engine_data p) \<union> fds_master_w (engine_data p) \<subseteq> (\<lambda>j. i_sd (niods p j)) ` set (active_iods p)"
        using inv(5) by (simp add: engine_ok_def)
      ultimately have "i_sd n \<notin> fds_master_r (engine_data p) \<union> fds_master_w (engine_data p)" by (meson subsetD)
      then show ?thesis using b(3,4,6) that by (auto simp: usable_def watch_ok_def Let_def q(4,8) sd_free_def)
    qed
    have "inj_on (\<lambda>j. i_sd (niods q j)) {j \<in> set (active_iods q). i_sd (niods q j) \<noteq> -1}"
    proof (rule inj_onI)
      fix x y
      assume xy: "x \<in> {j \<in> set (active_iods q). i_sd (niods q j) \<noteq> -1}" "y \<in> {j \<in> set (active_iods q). i_sd (niods q j) \<noteq> -1}"
        and eq: "i_sd (niods q x) = i_sd (niods q y)"
      have old: "z \<in> {j \<in> set (active_iods p). i_sd (niods p j) \<noteq> -1}" "i_sd (niods q z) = i_sd (niods p z)"
        if "z \<in> {j \<in> set (active_iods q). i_sd (niods q j) \<noteq> -1}" "z \<noteq> i" for z
        using that a(1) by (auto simp: q(8))
      have new: "i_sd (niods p z) \<noteq> i_sd n" if "z \<in> {j \<in> set (active_iods p). i_sd (niods p j) \<noteq> -1}" "i_sd n \<noteq> -1" for z
        using that b(6) by (simp add: sd_free_def)
      have ij: "inj_on (\<lambda>j. i_sd (niods p j)) {j \<in> set (active_iods p). i_sd (niods p j) \<noteq> -1}"
        using inv(5) by (simp add: engine_ok_def)
      have qi: "i_sd (niods q i) = i_sd n" by (simp add: q(8))
      show "x = y"
      proof (cases "x = i"; cases "y = i")
        assume "x \<noteq> i" "y \<noteq> i"
        then show ?thesis using inj_onD [OF ij _ old(1) [OF xy(1)] old(1) [OF xy(2)]] eq old(2) [OF xy(1)] old(2) [OF xy(2)] by simp
      next
        assume "x = i" "y \<noteq> i"
        then show ?thesis using new [OF old(1) [OF xy(2)]] eq old(2) [OF xy(2)] qi xy(1) by simp
      next
        assume "x \<noteq> i" "y = i"
        then show ?thesis using new [OF old(1) [OF xy(1)]] eq old(2) [OF xy(1)] qi xy(2) by simp
      qed simp
    qed
    moreover have "usable q j" if "e \<in> set (listed p)" "live p e" "of_iod p j e" for e j
      using inv(5) that us [of j] none [OF that(1)] by (auto simp: engine_ok_def)
    moreover have "(\<lambda>j. i_sd (niods p j)) ` set (active_iods p) \<subseteq> (\<lambda>j. i_sd (niods q j)) ` set (active_iods q)"
      using fr(1) a(2) by (auto simp: q(8) image_iff)
    ultimately show ?thesis
      using inv(5) ni us w a(1) unfolding engine_ok_def l sel q(4) by (auto simp: q(8) split: if_splits)
  qed
  ultimately show "pool_inv q" using inv(6) by (simp add: pool_inv_def pool_inv_off_def serial_ok_def q)
  show "usable p j \<Longrightarrow> usable q j" for j using us [of j] fr(1) by (cases "j = i") (auto simp: usable_def)
qed

text \<open>What \<open>nsock_iod_new2\<close> needs of the system: a free descriptor.\<close>

definition new_sd :: "'c npool \<Rightarrow> int \<Rightarrow> int" where
  "new_sd p sd = (if sd = -1 \<or> sd = 0 then sd else case dups (os p) of [] \<Rightarrow> -1 | d # ds \<Rightarrow> d)"

lemma next_iod_id_sel:
  "next_iod_id p = (q, x) \<Longrightarrow> evlist k q = evlist k p" "next_iod_id p = (q, x) \<Longrightarrow> expirables q = expirables p"
  "next_iod_id p = (q, x) \<Longrightarrow> nevents q = nevents p" "next_iod_id p = (q, x) \<Longrightarrow> engine_data q = engine_data p"
  "next_iod_id p = (q, x) \<Longrightarrow> free_events q = free_events p" "next_iod_id p = (q, x) \<Longrightarrow> events_pending q = events_pending p"
  "next_iod_id p = (q, x) \<Longrightarrow> next_event_serial q = next_event_serial p" "next_iod_id p = (q, x) \<Longrightarrow> niods q = niods p"
  "next_iod_id p = (q, x) \<Longrightarrow> active_iods q = active_iods p" "next_iod_id p = (q, x) \<Longrightarrow> free_iods q = free_iods p"
  "next_iod_id p = (q, x) \<Longrightarrow> next_address q = next_address p"
  by (auto simp: next_iod_id_def Let_def evlist_def split: if_splits evkind.splits)

lemma blank_simps [simp]: "first_ev k niod_zero = None"
  by (simp add: first_ev_def niod_zero_def split: evkind.split)

lemma upd_iod_const: "upd_iod i f (upd_iod i (\<lambda>_. m) p) = upd_iod i (\<lambda>_. f m) p"
  "upd_iod i f ((upd_iod i (\<lambda>_. m) p)\<lparr>os := x\<rparr>) = upd_iod i (\<lambda>_. f m) (p\<lparr>os := x\<rparr>)"
  by (simp_all add: upd_iod_def)

lemma nsock_iod_new2_made:
  assumes "new_sd p sd = -1 \<or> sd_free p (new_sd p sd)" and "nsock_iod_new2 p sd u = (q, res)"
  obtains i n where "iod_made i n p q" "blank_iod p n" "i_sd n = new_sd p sd"
    "res = (if sd = -1 \<or> new_sd p sd \<noteq> -1 then Some i else None)"
    "res = Some i \<Longrightarrow> active_iods q = active_iods p @ [i] \<and> i_state n \<noteq> NSIOD_STATE_DELETED"
proof -
  obtain p1 i where a: "alloc_iod p = (p1, i)" by fastforce
  have p1: "(\<forall>k. evlist k p1 = evlist k p) \<and> expirables p1 = expirables p \<and> nevents p1 = nevents p \<and>
     engine_data p1 = engine_data p \<and> free_events p1 = free_events p \<and> events_pending p1 = events_pending p \<and>
     next_event_serial p1 = next_event_serial p \<and> niods p1 = niods p \<and> active_iods p1 = active_iods p \<and> os p1 = os p \<and>
     (free_iods p = i # free_iods p1 \<and> next_address p1 = next_address p \<or>
      i = next_address p \<and> free_iods p1 = free_iods p \<and> next_address p1 = next_address p + 1)"
    using a by (auto simp: alloc_iod_def split: list.splits)
  define n0 where "n0 = niod_zero\<lparr>i_sd := new_sd p sd, i_state := (if sd = -1 then NSIOD_STATE_INITIAL else NSIOD_STATE_UNKNOWN)\<rparr>"
  show ?thesis
  proof (cases "sd = -1 \<or> new_sd p sd \<noteq> -1")
    case False
    then have "q = upd_iod i (\<lambda>_. n0) (if dups (os p) = [] then p1 else p1\<lparr>os := (os p)\<lparr>dups := tl (dups (os p))\<rparr>\<rparr>)" "res = None"
      using assms(2) a p1 by (auto simp: nsock_iod_new2_def dup_socket_def new_sd_def n0_def upd_iod_def Let_def split: list.splits if_splits)
    moreover have "blank_iod p n0" "i_sd n0 = new_sd p sd"
      using False by (simp_all add: blank_iod_def n0_def first_ev_def niod_zero_def split: evkind.split)
    ultimately show ?thesis using p1 False by (intro that [of i n0]) (auto simp: iod_made_def)
  next
    case True
    define p2 where "p2 = (if sd = -1 \<or> sd = 0 then p1 else p1\<lparr>os := (os p)\<lparr>dups := tl (dups (os p))\<rparr>\<rparr>)"
    define p3 where "p3 = upd_iod i (\<lambda>_. n0\<lparr>i_userdata := u\<rparr>) p2"
    obtain p4 ident where ni: "next_iod_id p3 = (p4, ident)" by fastforce
    define n where "n = n0\<lparr>i_userdata := u, i_id := ident\<rparr>"
    have "nsock_iod_new2 p sd u = ((upd_iod i (\<lambda>n. n\<lparr>i_id := ident\<rparr>) p4)\<lparr>active_iods := active_iods p4 @ [i]\<rparr>, Some i)"
    proof -
      have os: "os p1 = os p" using p1 by simp
      consider "sd = -1" | "sd = 0" | d ds where "sd \<noteq> -1" "sd \<noteq> 0" "dups (os p) = d # ds" "d \<noteq> -1"
        using True by (auto simp: new_sd_def split: if_splits list.splits)
      then show ?thesis
        by cases
           (use a ni os in \<open>simp_all add: nsock_iod_new2_def dup_socket_def new_sd_def n0_def p2_def p3_def upd_iod_const
              IOD_PROPSET_def niod_zero_def\<close>)
    qed
    then have q: "q = (upd_iod i (\<lambda>n. n\<lparr>i_id := ident\<rparr>) p4)\<lparr>active_iods := active_iods p4 @ [i]\<rparr>" "res = Some i"
      using assms(2) by auto
    have nq: "niods q = (niods p)(i := n)" using next_iod_id_sel [OF ni] p1 by (simp add: q n_def p3_def p2_def)
    have "blank_iod p n" "i_sd n = new_sd p sd" "i_state n \<noteq> NSIOD_STATE_DELETED"
      using assms(1) by (auto simp: blank_iod_def n_def n0_def first_ev_def niod_zero_def split: evkind.split)
    moreover have "iod_made i n p q"
      unfolding iod_made_def nq using next_iod_id_sel [OF ni] p1 by (auto simp: q p3_def p2_def)
    moreover have "active_iods q = active_iods p @ [i]" using next_iod_id_sel(9) [OF ni] p1 by (auto simp: q p3_def p2_def)
    ultimately show ?thesis using True q(2) by (intro that [of i n]) auto
  qed
qed

end
