(* ===== verification/Nsock_Close.thy ===== *)
theory Nsock_Close
  imports Nsock_Iods
begin

text \<open>
  Deleting a descriptor together with the events that wait on it, and that it keeps the invariant.
\<close>

section \<open>Cancelling the events of a descriptor\<close>

text \<open>The pool after some events of the descriptor \<open>i\<close>, and no others, have been deleted.\<close>

definition survivors :: "'c npool \<Rightarrow> 'c npool \<Rightarrow> bool" where
  "survivors p q \<longleftrightarrow> (\<forall>x\<in>set (listed q) \<union> set (nodes (expirables q)).
     x \<in> set (listed p) \<union> set (nodes (expirables p)) \<and> live q x = live p x)"

lemma deleted_survivors:
  assumes "pool_inv p" and "deleted e p q"
  shows "survivors p q"
proof -
  have p: "lists_ok p" "heap_inv p" using assms(1) by (auto simp: pool_inv_def pool_inv_off_def)
  have d: "\<And>k. evlist k q = remove1 e (evlist k p)" "mset (nodes (expirables q)) = mset (nodes (expirables p)) - {#e#}"
      "\<And>x. x \<noteq> e \<Longrightarrow> nevents q x = nevents p x"
    using assms(2) by (auto simp: deleted_def)
  have l: "set (listed q) = set (listed p) - {e}"
    by (auto simp: set_listed d(1) lists_distinct(2) [OF p(1)])
  have n: "set (nodes (expirables q)) = set (nodes (expirables p)) - {e}" by (rule set_minus [OF nodes_distinct [OF p(2)] d(2)])
  show ?thesis
    unfolding survivors_def
  proof (intro ballI conjI)
    fix x assume x: "x \<in> set (listed q) \<union> set (nodes (expirables q))"
    then show "x \<in> set (listed p) \<union> set (nodes (expirables p))" by (auto simp: l n)
    have "x \<noteq> e" using x by (auto simp: l n)
    from d(3) [OF this] show "live q x = live p x" by (simp add: live_def)
  qed
qed

definition wiped :: "nat \<Rightarrow> 'c npool \<Rightarrow> 'c npool \<Rightarrow> bool" where
  "wiped i p q \<longleftrightarrow> pool_inv q \<and> same_iods p q \<and> survivors p q \<and> of_iod q i = of_iod p i \<and>
     (\<forall>x. \<not> of_iod p i x \<longrightarrow> nevents q x = nevents p x) \<and>
     (\<forall>k. filter (\<lambda>x. \<not> of_iod p i x) (evlist k q) = filter (\<lambda>x. \<not> of_iod p i x) (evlist k p)) \<and>
     {x \<in> set (nodes (expirables q)). \<not> of_iod p i x} = {x \<in> set (nodes (expirables p)). \<not> of_iod p i x}"

lemma wiped_refl: "pool_inv p \<Longrightarrow> wiped i p p"
  by (simp add: wiped_def same_iods_def survivors_def)

lemma wiped_trans:
  assumes "wiped i p q" and "wiped i q r"
  shows "wiped i p r"
proof -
  have o: "of_iod q i = of_iod p i" using assms(1) by (simp add: wiped_def)
  have "survivors p r" using assms by (auto simp: wiped_def survivors_def)
  then show ?thesis using assms same_iods_trans [of p q r] unfolding wiped_def o by simp
qed

lemma deleted_wiped:
  assumes "pending_event p e" and "deleted e p q" and "of_iod p i e"
  shows "wiped i p q"
proof -
  have hi: "heap_inv p" using assms(1) by (simp add: pending_event_def pool_inv_def pool_inv_off_def)
  have d: "pool_inv q" "same_iods p q" "\<And>k'. evlist k' q = remove1 e (evlist k' p)"
      "mset (nodes (expirables q)) = mset (nodes (expirables p)) - {#e#}" "\<And>x. x \<noteq> e \<Longrightarrow> nevents q x = nevents p x"
      "e_iod (nevents q e) = e_iod (nevents p e)"
    using assms(2) by (auto simp: deleted_def)
  have "e_iod (nevents q x) = e_iod (nevents p x)" for x using d(5) [of x] d(6) by (cases "x = e") simp_all
  then have "of_iod q i = of_iod p i" by (simp add: of_iod_def fun_eq_iff)
  moreover have "nevents q x = nevents p x" if "\<not> of_iod p i x" for x using that assms(3) by (intro d(5)) auto
  moreover have "filter (\<lambda>x. \<not> of_iod p i x) (evlist k q) = filter (\<lambda>x. \<not> of_iod p i x) (evlist k p)" for k
    using assms(3) by (simp add: d(3) filter_remove_dead)
  moreover have "{x \<in> set (nodes (expirables q)). \<not> of_iod p i x} = {x \<in> set (nodes (expirables p)). \<not> of_iod p i x}"
    using assms(3) by (auto simp: set_minus [OF nodes_distinct [OF hi] d(4)])
  moreover have "survivors p q" using assms(1) by (intro deleted_survivors [OF _ assms(2)]) (simp add: pending_event_def)
  ultimately show ?thesis using d(1,2) by (simp add: wiped_def)
qed

lemma listed_pending:
  assumes "pool_inv p" and "live p e" and "e \<in> set (evlist k p)"
  shows "pending_event p e"
  using assms evlist_listed by (auto simp: pending_event_def)

text \<open>
  The loop over the events of one kind: \<open>ys\<close> are the events of the descriptor, \<open>zs\<close> those after them. The live
  ones go, and a finished one, whose handler may be the caller, stays.
\<close>

lemma iod_delete_loop_spec:
  assumes "pool_inv p" and "evlist k p = xs @ ys @ zs" and "\<forall>y\<in>set ys. of_iod p i y" and "\<forall>z\<in>set zs. \<not> of_iod p i z"
  shows "\<exists>q. iod_delete_loop H k i False p (case ys @ zs of [] \<Rightarrow> None | y # _ \<Rightarrow> Some y) = Some q \<and> wiped i p q \<and>
    evlist k q = xs @ filter (\<lambda>y. \<not> live p y) ys @ zs \<and> (\<forall>k'. k' \<noteq> k \<longrightarrow> evlist k' q = evlist k' p) \<and>
    (\<forall>k'. \<forall>x\<in>set (evlist k' q). live q x = live p x)"
  using assms
proof (induction ys arbitrary: p xs)
  case Nil
  have l: "lists_ok p" using Nil.prems(1) by (simp add: pool_inv_def pool_inv_off_def)
  show ?case
  proof (cases zs)
    case Nil
    then show ?thesis using \<open>pool_inv p\<close> \<open>evlist k p = xs @ [] @ zs\<close>
      by (simp add: iod_delete_loop.simps wiped_refl)
  next
    case (Cons z zs')
    have "z \<notin> set xs" using lists_distinct(2) [OF l, of k] \<open>evlist k p = xs @ [] @ zs\<close> by (simp add: Cons)
    then show ?thesis using \<open>pool_inv p\<close> \<open>evlist k p = xs @ [] @ zs\<close> \<open>\<forall>z\<in>set zs. \<not> of_iod p i z\<close>
      by (simp add: iod_delete_loop.simps wiped_refl Cons lnode_next_split of_iod_def)
  qed
next
  case (Cons y ys)
  have l: "lists_ok p" using Cons.prems(1) by (simp add: pool_inv_def pool_inv_off_def)
  have ny: "y \<notin> set xs" "y \<notin> set (ys @ zs)" using lists_distinct(2) [OF l, of k] Cons.prems(2) by auto
  have nx: "lnode_next (evlist k p) y = Some (case ys @ zs of [] \<Rightarrow> None | y # _ \<Rightarrow> Some y)"
    using lnode_next_split [OF ny(1), of "ys @ zs"] Cons.prems(2) by simp
  have o: "e_iod (nevents p y) = Some i" using Cons.prems(3) by (simp add: of_iod_def)
  show ?case
  proof (cases "live p y")
    case False
    then have "nevent_delete H p y False = Some (p, False)" by (simp add: nevent_delete_def live_def)
    then show ?thesis
      using Cons.IH [of p "xs @ [y]"] Cons.prems nx o False by (simp add: iod_delete_loop.simps [of H k i False p "Some y"])
  next
    case True
    then have pe: "pending_event p y" using listed_pending [OF Cons.prems(1) True, of k] Cons.prems(2) by simp
    then obtain p1 where p1: "nevent_delete H p y False = Some (p1, True)" "deleted y p p1"
      using nevent_delete_silent by blast
    have w: "wiped i p p1" by (rule deleted_wiped [OF pe p1(2)]) (use Cons.prems(3) in simp)
    have d: "pool_inv p1" "\<And>k'. evlist k' p1 = remove1 y (evlist k' p)" "\<And>x. x \<noteq> y \<Longrightarrow> nevents p1 x = nevents p x"
      using p1(2) by (auto simp: deleted_def)
    have e1: "evlist k p1 = xs @ ys @ zs" using ny by (simp add: d(2) Cons.prems(2) remove1_append)
    have lv: "live p1 x = live p x" if "x \<noteq> y" for x using d(3) [OF that] by (simp add: live_def)
    have o1: "of_iod p1 i = of_iod p i" using w by (simp add: wiped_def)
    have "\<forall>z\<in>set zs. \<not> of_iod p1 i z" "\<forall>y\<in>set ys. of_iod p1 i y" using Cons.prems(3,4) by (simp_all add: o1)
    from Cons.IH [OF d(1) e1 this(2,1)] obtain q where
      q: "iod_delete_loop H k i False p1 (case ys @ zs of [] \<Rightarrow> None | y # _ \<Rightarrow> Some y) = Some q" "wiped i p1 q"
        "evlist k q = xs @ filter (\<lambda>y. \<not> live p1 y) ys @ zs" "\<forall>k'. k' \<noteq> k \<longrightarrow> evlist k' q = evlist k' p1"
        "\<forall>k'. \<forall>x\<in>set (evlist k' q). live q x = live p1 x" by blast
    have ok: "evlist k' p1 = evlist k' p" if "k' \<noteq> k" for k'
      using remove_kind [OF l, of y k k'] that Cons.prems(2) by (simp add: d(2))
    have "filter (\<lambda>y. \<not> live p1 y) ys = filter (\<lambda>y. \<not> live p y) ys"
    proof (rule filter_cong)
      fix x assume "x \<in> set ys"
      then have "x \<noteq> y" using ny(2) by auto
      then show "(\<not> live p1 x) = (\<not> live p x)" using lv by simp
    qed simp
    moreover have "live q x = live p x" if x: "x \<in> set (evlist k' q)" for k' x
    proof -
      have "y \<notin> set (evlist k' q)"
      proof (cases "k' = k")
        case True
        then show ?thesis using ny by (auto simp: q(3))
      next
        case False
        then show ?thesis using evlist_unique [OF l, of y k k'] Cons.prems(2) q(4) ok by simp
      qed
      then have "x \<noteq> y" using x by auto
      then show ?thesis using q(5) x lv by simp
    qed
    ultimately show ?thesis
      using q(1,3,4) wiped_trans [OF w q(2)] ok True nx o p1(1)
      by (simp add: iod_delete_loop.simps [of H k i False p "Some y"])
  qed
qed

definition all_dead :: "nat \<Rightarrow> 'c npool \<Rightarrow> evkind \<Rightarrow> bool" where
  "all_dead i p k \<longleftrightarrow> (\<forall>x\<in>set (evlist k p). of_iod p i x \<longrightarrow> \<not> live p x)"

lemma none_pending:
  assumes "pool_inv p" and "i \<in> set (active_iods p)"
  shows "i_events_pending (niods p i) \<ge> 0" and "i_events_pending (niods p i) = 0 \<longleftrightarrow> (\<forall>k. all_dead i p k)"
proof -
  have c: "i_events_pending (niods p i) = int (pending_of p i (listed p))"
    using assms by (simp add: pool_inv_def pool_inv_off_def counts_ok_def)
  then show "i_events_pending (niods p i) \<ge> 0" by simp
  have "(\<forall>k. all_dead i p k) \<longleftrightarrow> (\<forall>x\<in>set (listed p). of_iod p i x \<longrightarrow> \<not> live p x)"
    using evlist_listed by (fastforce simp: all_dead_def set_listed)
  then show "i_events_pending (niods p i) = 0 \<longleftrightarrow> (\<forall>k. all_dead i p k)"
    by (auto simp: c pending_of_def filter_empty_conv)
qed

lemma wipe_kind:
  assumes "pool_inv p" and "group_ok f (of_iod p i) (evlist k p)"
  shows "\<exists>q. iod_delete_loop H k i False p f = Some q \<and> wiped i p q \<and> all_dead i q k \<and>
    (\<forall>k'. k' \<noteq> k \<longrightarrow> evlist k' q = evlist k' p \<and> all_dead i q k' = all_dead i p k')"
proof -
  obtain as bs cs where g: "evlist k p = as @ bs @ cs" "\<forall>y\<in>set bs. of_iod p i y" "\<forall>y\<in>set as \<union> set cs. \<not> of_iod p i y"
      "f = (case bs of [] \<Rightarrow> None | b # _ \<Rightarrow> Some b)"
    using assms(2) by (rule group_okE)
  show ?thesis
  proof (cases bs)
    case Nil
    then show ?thesis using g assms(1) by (auto simp: iod_delete_loop.simps wiped_refl all_dead_def)
  next
    case (Cons b bs')
    then have f: "f = (case bs @ cs of [] \<Rightarrow> None | y # _ \<Rightarrow> Some y)" by (simp add: g(4))
    have "\<forall>z\<in>set cs. \<not> of_iod p i z" using g(3) by simp
    from iod_delete_loop_spec [OF assms(1) g(1,2) this, of H] obtain q where
      q: "iod_delete_loop H k i False p f = Some q" "wiped i p q" "evlist k q = as @ filter (\<lambda>y. \<not> live p y) bs @ cs"
        "\<forall>k'. k' \<noteq> k \<longrightarrow> evlist k' q = evlist k' p" "\<forall>k'. \<forall>x\<in>set (evlist k' q). live q x = live p x"
      unfolding f by blast
    have o: "of_iod q i = of_iod p i" using q(2) by (simp add: wiped_def)
    have "\<not> live q x" if x: "x \<in> set (evlist k q)" "of_iod p i x" for x
    proof -
      have "\<not> live p x" using x g(3) by (auto simp: q(3))
      then show ?thesis using q(5) x(1) by simp
    qed
    then have "all_dead i q k" by (simp add: all_dead_def o)
    moreover have "all_dead i q k' = all_dead i p k'" if "k' \<noteq> k" for k'
    proof -
      have e: "evlist k' q = evlist k' p" using q(4) that by simp
      have "\<forall>x\<in>set (evlist k' p). live q x = live p x" using q(5) unfolding e [symmetric] by blast
      then show ?thesis by (simp add: all_dead_def o e)
    qed
    ultimately show ?thesis using q by auto
  qed
qed

lemma iod_delete_lists_spec:
  assumes "pool_inv p" and "wiped i p0 p" and "i \<in> set (active_iods p)" and "lists_ok p0"
    and "\<forall>(k, f)\<in>set ks. f = first_ev k (niods p0 i) \<and> evlist k p = evlist k p0"
    and "\<forall>k. k \<notin> fst ` set ks \<longrightarrow> all_dead i p k" and "distinct (map fst ks)"
  shows "\<exists>q. iod_delete_lists H i False ks p = Some q \<and> wiped i p0 q \<and> (\<forall>k. all_dead i q k)"
  using assms
proof (induction ks arbitrary: p)
  case (Cons kf ks)
  obtain k f where kf: "kf = (k, f)" by fastforce
  show ?case
  proof (cases "i_events_pending (niods p i) > 0")
    case False
    then have "\<forall>k. all_dead i p k" using none_pending [OF Cons.prems(1,3)] by simp
    then show ?thesis using False Cons.prems(2) by (simp add: kf)
  next
    case True
    have o: "of_iod p i = of_iod p0 i" using Cons.prems(2) by (simp add: wiped_def)
    have "group_ok f (of_iod p i) (evlist k p)" using Cons.prems(4,5) by (simp add: kf lists_ok_def o)
    from wipe_kind [OF Cons.prems(1) this, of H] obtain q where
      q: "iod_delete_loop H k i False p f = Some q" "wiped i p q" "all_dead i q k"
        "\<forall>k'. k' \<noteq> k \<longrightarrow> evlist k' q = evlist k' p \<and> all_dead i q k' = all_dead i p k'" by blast
    have "pool_inv q" "i \<in> set (active_iods q)" using q(2) Cons.prems(3) by (simp_all add: wiped_def same_iods_def)
    moreover have "\<forall>(k', f)\<in>set ks. f = first_ev k' (niods p0 i) \<and> evlist k' q = evlist k' p0"
      using Cons.prems(5,7) q(4) by (fastforce simp: kf)
    moreover have "\<forall>k'. k' \<notin> fst ` set ks \<longrightarrow> all_dead i q k'" using Cons.prems(6) q(3,4) by (auto simp: kf)
    ultimately show ?thesis
      using Cons.IH [of q] wiped_trans [OF Cons.prems(2) q(2)] Cons.prems(4,7) True q(1) by (simp add: kf)
  qed
qed simp

section \<open>Closing the descriptor\<close>

text \<open>The pool after the descriptor \<open>i\<close>, none of whose events is pending, has been closed.\<close>

definition closed_iod :: "nat \<Rightarrow> 'c npool \<Rightarrow> 'c npool \<Rightarrow> bool" where
  "closed_iod i p q \<longleftrightarrow> (\<forall>k. evlist k q = evlist k p) \<and> expirables q = expirables p \<and> nevents q = nevents p \<and>
     free_events q = free_events p \<and> free_iods q = free_iods p \<and> active_iods q = active_iods p \<and>
     events_pending q = events_pending p \<and> next_address q = next_address p \<and> next_event_serial q = next_event_serial p \<and>
     (\<forall>j. j \<noteq> i \<longrightarrow> niods q j = niods p j) \<and>
     (\<forall>k. first_ev k (niods q i) = first_ev k (niods p i)) \<and> i_sd (niods q i) = -1 \<and>
     i_state (niods q i) = NSIOD_STATE_DELETED \<and> i_events_pending (niods q i) = i_events_pending (niods p i) \<and>
     readsd_count (niods q i) = 0 \<and> writesd_count (niods q i) = 0 \<and>
     fds_master_r (engine_data q) = fds_master_r (engine_data p) - ({i_sd (niods p i)} - {-1}) \<and>
     fds_master_w (engine_data q) = fds_master_w (engine_data p) - ({i_sd (niods p i)} - {-1}) \<and>
     (max_sd (engine_data q) = max_sd (engine_data p) \<or>
      max_sd (engine_data p) = i_sd (niods p i) \<and> max_sd (engine_data q) = i_sd (niods p i) - 1)"

lemma closed_inv:
  assumes "pool_inv p" and "\<forall>k. all_dead i p k" and "i \<in> set (active_iods p)" and "closed_iod i p q"
  shows "pool_inv q" "\<And>j. j \<noteq> i \<Longrightarrow> usable q j = usable p j"
proof -
  have inv: "lists_ok p" "heap_inv p" "free_ok p" "counts_ok 0 (\<lambda>_. 0) p" "engine_ok p" "serial_ok p"
    using assms(1) by (auto simp: pool_inv_def pool_inv_off_def)
  have q: "\<And>k. evlist k q = evlist k p" "expirables q = expirables p" "nevents q = nevents p" "active_iods q = active_iods p"
      "free_events q = free_events p" "free_iods q = free_iods p" "events_pending q = events_pending p"
      "next_address q = next_address p" "next_event_serial q = next_event_serial p" "\<And>j. j \<noteq> i \<Longrightarrow> niods q j = niods p j"
      "i_sd (niods q i) = -1" "readsd_count (niods q i) = 0" "writesd_count (niods q i) = 0"
      "i_events_pending (niods q i) = i_events_pending (niods p i)"
      "fds_master_r (engine_data q) = fds_master_r (engine_data p) - ({i_sd (niods p i)} - {-1})"
      "fds_master_w (engine_data q) = fds_master_w (engine_data p) - ({i_sd (niods p i)} - {-1})"
      "max_sd (engine_data q) = max_sd (engine_data p) \<or>
       max_sd (engine_data p) = i_sd (niods p i) \<and> max_sd (engine_data q) = i_sd (niods p i) - 1"
    using assms(4) by (auto simp: closed_iod_def)
  have fe: "first_ev k (niods q j) = first_ev k (niods p j)" for k j
    using assms(4) q(10) by (cases "j = i") (auto simp: closed_iod_def)
  have l: "listed q = listed p" by (simp add: listed_def q)
  have sel: "of_iod q = of_iod p" "live q = live p" "pending_of q = pending_of p" "timers q = timers p" "timer_heap q = timer_heap p"
    by (simp_all add: of_iod_def live_def pending_of_def timers_def timer_heap_def q fun_eq_iff)
  have dead: "\<not> (live p e \<and> of_iod p i e)" if "e \<in> set (evlist k p)" for e k
    using assms(2) that by (auto simp: all_dead_def)
  show us: "usable q j = usable p j" if "j \<noteq> i" for j using q(10) [OF that] by (simp add: usable_def q(4))
  have "lists_ok q" using inv(1) by (simp add: lists_ok_def l q sel fe)
  moreover have "heap_inv q" using inv(2) by (simp add: heap_inv_def sel l q)
  moreover have "free_ok q" using inv(3) by (simp add: free_ok_def l q)
  moreover have "counts_ok 0 (\<lambda>_. 0) q"
  proof -
    have z: "pending_of p i (evlist k p) = 0" for k using dead by (auto simp: pending_of_def filter_empty_conv)
    have "i_events_pending (niods q j) = int (pending_of p j (listed p)) \<and>
        readsd_count (niods q j) = int (pending_of p j (evlist Connects p @ evlist Reads p)) \<and>
        writesd_count (niods q j) = int (pending_of p j (evlist Connects p @ evlist Writes p))" if "j \<in> set (active_iods p)" for j
    proof (cases "j = i")
      case True
      then show ?thesis using inv(4) assms(3) by (simp add: counts_ok_def q(12-14) z)
    next
      case False
      then show ?thesis using inv(4) that by (simp add: counts_ok_def q(10))
    qed
    then show ?thesis using inv(4) by (simp add: counts_ok_def l sel q(1,2,4,7))
  qed
  moreover have "engine_ok q"
  proof -
    have ne: "i_sd (niods p j) \<noteq> i_sd (niods p i)" if "j \<in> set (active_iods p)" "i_sd (niods p j) \<noteq> -1" "j \<noteq> i" for j
      using inv(5) assms(3) that unfolding engine_ok_def inj_on_def by (metis (mono_tags, lifting) mem_Collect_eq)
    have w: "watch_ok q j" if j: "j \<in> set (active_iods p)" "i_sd (niods p j) \<noteq> -1" "j \<noteq> i" for j
    proof -
      have "watch_ok p j" using inv(5) j by (simp add: engine_ok_def)
      then show ?thesis using ne [OF j] q(17) unfolding watch_ok_def Let_def IOD_PROPGET_def q(10) [OF j(3)] q(15,16) by auto
    qed
    have sd: "i_sd (niods q j) = (if j = i then -1 else i_sd (niods p j))" for j using q(10,11) by simp
    have "inj_on (\<lambda>j. i_sd (niods q j)) {j \<in> set (active_iods p). i_sd (niods q j) \<noteq> -1}"
      using inv(5) unfolding engine_ok_def inj_on_def sd by auto
    moreover have "usable q j" if e: "e \<in> set (listed p)" "live p e" "of_iod p j e" for e j
    proof -
      have "j \<noteq> i" using dead e by (auto simp: set_listed)
      moreover have "usable p j" using inv(5) e by (auto simp: engine_ok_def)
      ultimately show ?thesis using us by simp
    qed
    moreover have "s \<in> (\<lambda>j. i_sd (niods q j)) ` set (active_iods p)"
      if s: "s \<in> fds_master_r (engine_data q) \<union> fds_master_w (engine_data q)" for s
    proof -
      have "s \<in> (\<lambda>j. i_sd (niods p j)) ` set (active_iods p)" "s \<noteq> i_sd (niods p i) \<or> s = -1"
        using inv(5) s unfolding engine_ok_def q(15,16) by auto
      then show ?thesis by (auto simp: sd intro!: rev_image_eqI)
    qed
    ultimately show ?thesis using inv(5) w us unfolding engine_ok_def l sel q(4) sd by (auto simp: subset_iff)
  qed
  ultimately show "pool_inv q" using inv(6) by (simp add: pool_inv_def pool_inv_off_def serial_ok_def q)
qed

text \<open>The end of \<open>nsock_iod_delete\<close>.\<close>

definition close_iod :: "'c npool \<Rightarrow> nat \<Rightarrow> 'c npool option" where
  "close_iod p nsi = do {
     p \<leftarrow> (if i_sd (niods p nsi) \<ge> 0 then socket_count_zero nsi p else Some p);
     let p = (if i_sd (niods p nsi) \<ge> 0 \<and> \<not> IOD_PROPGET p nsi IOD_STDIN
              then upd_iod nsi (\<lambda>n. n\<lparr>i_sd := -1\<rparr>)
                     (p\<lparr>os := (os p)\<lparr>closed := closed (os p) @ [i_sd (niods p nsi)]\<rparr>\<rparr>)
              else p);
     Some (upd_iod nsi (\<lambda>n. n\<lparr>i_state := NSIOD_STATE_DELETED, i_userdata := 0\<rparr>) p)
   }"

lemma stdin_flag: "((x :: u8) AND -2) AND 4 = x AND 4"
  by (simp add: and.assoc)

lemma clear_all_spec:
  assumes "0 \<le> sd" and "sd < 1024"
  shows "\<exists>s'. clear_all sd s = Some s' \<and> fds_master_r s' = fds_master_r s - {sd} \<and> fds_master_w s' = fds_master_w s - {sd} \<and>
    max_sd s' = (if max_sd s = sd then sd - 1 else max_sd s)"
  using assms by (simp add: clear_all_def checked_fd_clr_def)

lemma close_iod_spec:
  assumes "pool_inv p" and "\<forall>k. all_dead i p k" and "i \<in> set (active_iods p)" and "\<not> IOD_PROPGET p i IOD_STDIN"
  shows "\<exists>q. close_iod p i = Some q \<and> closed_iod i p q \<and>
    closed (os q) = closed (os p) @ (if i_sd (niods p i) = -1 then [] else [i_sd (niods p i)])"
proof -
  have inv: "engine_ok p" "counts_ok 0 (\<lambda>_. 0) p" using assms(1) by (auto simp: pool_inv_def pool_inv_off_def)
  have "pending_of p i (evlist k p) = 0" for k using assms(2) by (auto simp: pending_of_def filter_empty_conv all_dead_def)
  then have c: "readsd_count (niods p i) = 0" "writesd_count (niods p i) = 0" using inv(2) assms(3) by (auto simp: counts_ok_def)
  show ?thesis
  proof (cases "i_sd (niods p i) = -1")
    case True
    then show ?thesis using True c by (simp add: close_iod_def closed_iod_def first_ev_def split: evkind.split)
  next
    case False
    have us: "usable p i" "watch_ok p i" using inv(1) assms(3) False by (auto simp: engine_ok_def)
    then have sd: "0 \<le> i_sd (niods p i)" "i_sd (niods p i) < 1024" by (auto simp: usable_def)
    obtain s where s: "clear_all (i_sd (niods p i)) (engine_data p) = Some s"
        "fds_master_r s = fds_master_r (engine_data p) - {i_sd (niods p i)}"
        "fds_master_w s = fds_master_w (engine_data p) - {i_sd (niods p i)}"
        "max_sd s = (if max_sd (engine_data p) = i_sd (niods p i) then i_sd (niods p i) - 1 else max_sd (engine_data p))"
      using clear_all_spec [OF sd] by blast
    have ns: "i_sd (niods p i) \<notin> fds_master_r (engine_data p)" "i_sd (niods p i) \<notin> fds_master_w (engine_data p)"
      using us(2) c by (auto simp: watch_ok_def Let_def)
    show ?thesis
    proof (cases "IOD_PROPGET p i 1")
      case True
      then show ?thesis using assms(4) sd s c
        by (simp add: close_iod_def socket_count_zero_def select_iod_unregister_def IOD_PROPGET_def IOD_PROPCLR_def stdin_flag
            closed_iod_def first_ev_def split: evkind.split)
    next
      case unreg: False
      then show ?thesis using assms(4) sd c ns
        by (simp add: close_iod_def socket_count_zero_def select_iod_unregister_def IOD_PROPGET_def
            closed_iod_def first_ev_def split: evkind.split)
    qed
  qed
qed

definition iod_deleted :: "nat \<Rightarrow> 'c npool \<Rightarrow> 'c npool \<Rightarrow> bool" where
  "iod_deleted i p q \<longleftrightarrow> pool_inv q \<and> i_state (niods q i) = NSIOD_STATE_DELETED \<and> i_sd (niods q i) = -1 \<and>
     (\<forall>k. all_dead i q k) \<and> survivors p q \<and> (\<forall>x. \<not> of_iod p i x \<longrightarrow> nevents q x = nevents p x) \<and>
     (\<forall>k. filter (\<lambda>x. \<not> of_iod p i x) (evlist k q) = filter (\<lambda>x. \<not> of_iod p i x) (evlist k p)) \<and>
     {x \<in> set (nodes (expirables q)). \<not> of_iod p i x} = {x \<in> set (nodes (expirables p)). \<not> of_iod p i x} \<and>
     (\<forall>j. j \<noteq> i \<longrightarrow> usable q j = usable p j) \<and>
     (i_sd (niods p i) \<noteq> -1 \<longrightarrow> i_sd (niods p i) \<in> set (closed (os q)))"

lemma nsock_iod_delete_silent:
  assumes "pool_inv p" and "i \<in> set (active_iods p)" and "i_state (niods p i) \<noteq> NSIOD_STATE_DELETED"
    and "\<not> IOD_PROPGET p i IOD_STDIN"
  shows "\<exists>q. nsock_iod_delete H p i NSOCK_PENDING_SILENT = Some q \<and> iod_deleted i p q"
proof -
  have l: "lists_ok p" using assms(1) by (simp add: pool_inv_def pool_inv_off_def)
  define ks where "ks = [(Connects, first_connect (niods p i)), (Reads, first_read (niods p i)), (Writes, first_write (niods p i))]"
  have "\<forall>(k, f)\<in>set ks. f = first_ev k (niods p i) \<and> evlist k p = evlist k p" by (simp add: ks_def first_ev_def)
  moreover have "k \<in> fst ` set ks" for k by (cases k) (simp_all add: ks_def)
  moreover have "distinct (map fst ks)" by (simp add: ks_def)
  ultimately obtain p1 where p1: "iod_delete_lists H i False ks p = Some p1" "wiped i p p1" "\<forall>k. all_dead i p1 k"
    using iod_delete_lists_spec [OF assms(1) wiped_refl [OF assms(1)] assms(2) l, of ks H] by blast
  have inv: "pool_inv p1" and si: "same_iods p p1" using p1(2) by (auto simp: wiped_def)
  have a: "i \<in> set (active_iods p1)" "\<not> IOD_PROPGET p1 i IOD_STDIN" "i_sd (niods p1 i) = i_sd (niods p i)"
    using si assms(2,4) by (auto simp: same_iods_def)
  have z: "i_events_pending (niods p1 i) = 0" using none_pending(2) [OF inv a(1)] p1(3) by simp
  have step: "(if i_events_pending (niods p i) > 0 then do {
      assert (NSOCK_PENDING_SILENT \<noteq> NSOCK_PENDING_ERROR);
      iod_delete_lists H i (NSOCK_PENDING_SILENT = NSOCK_PENDING_NOTIFY) ks p } else Some p) = Some p1"
  proof (cases "i_events_pending (niods p i) > 0")
    case True
    then show ?thesis using p1(1) by simp
  next
    case False
    then show ?thesis using p1(1) by (simp add: ks_def)
  qed
  obtain q where q: "close_iod p1 i = Some q" "closed_iod i p1 q"
      "closed (os q) = closed (os p1) @ (if i_sd (niods p1 i) = -1 then [] else [i_sd (niods p1 i)])"
    using close_iod_spec [OF inv p1(3) a(1,2)] by blast
  have "nsock_iod_delete H p i NSOCK_PENDING_SILENT = close_iod p1 i"
    using assms(3) step z by (simp add: nsock_iod_delete_def ks_def [symmetric] close_iod_def cong: if_cong)
  moreover have "iod_deleted i p q"
  proof -
    note cl = closed_inv [OF inv p1(3) a(1) q(2)]
    have n: "nevents q = nevents p1" "\<And>k. evlist k q = evlist k p1" "expirables q = expirables p1"
        "i_state (niods q i) = NSIOD_STATE_DELETED" "i_sd (niods q i) = -1"
      using q(2) by (auto simp: closed_iod_def)
    have "all_dead i q k" for k using p1(3) by (simp add: all_dead_def n of_iod_def live_def)
    moreover have "usable q j = usable p j" if "j \<noteq> i" for j using cl(2) [OF that] same_iods_usable [OF si] by simp
    moreover have "survivors p q" using p1(2) by (simp add: wiped_def survivors_def n live_def listed_def)
    ultimately show ?thesis
      using cl(1) p1(2) q(3) a(3) by (simp add: iod_deleted_def n wiped_def)
  qed
  ultimately show ?thesis using q(1) by simp
qed

end
