(* ===== verification/Nsock_Steps.thy ===== *)
theory Nsock_Steps
  imports Nsock_Close
begin

text \<open>
  The states of a pool that a client can reach, and what holds in each of them.
\<close>

section \<open>A new pool\<close>

lemma new_heap:
  assumes "h0 = \<lparr>cmp_op = c0, count = 0, highwm = 0, slots = [], nindex = ix\<rparr>"
  shows "\<exists>h rc. gh_heap_init h0 (Some cmp) = Some (h, rc) \<and> heap_ok (h\<lparr>cmp_op := c\<rparr>) \<and> nodes h = [] \<and> count h = 0"
  unfolding assms
  by (simp add: gh_heap_init_def heap_grow_def GH_SLOTS_def GH_HEAP_GUARD_def heap_ok_def heap_wf_def stored_def
      heap_ordered_def nodes_def)

lemma new_pool_inv:
  assumes "nsock_pool_new u answers now = Some p"
  shows "pool_inv p" "count (expirables p) = 0" "active_iods p = []" "free_iods p = []" "next_address p = 0"
    "listed p = []" "nodes (expirables p) = []" "os p = answers\<lparr>clock := tl (clock answers)\<rparr>"
    "nsock_tod p = (case clock answers of [] \<Rightarrow> now | t # _ \<Rightarrow> t)"
proof -
  obtain h rc where h: "gh_heap_init \<lparr>cmp_op = (\<lambda>_ _. False), count = 0, highwm = 0, slots = [], nindex = (\<lambda>_. GH_HEAP_GUARD)\<rparr>
      (Some (expirable_cmp (\<lambda>_. \<lparr>tv_sec = 0, tv_usec = 0\<rparr>))) = Some (h, rc)"
      "heap_ok (h\<lparr>cmp_op := expirable_cmp (\<lambda>e. e_timeout nevent_zero)\<rparr>)" "nodes h = []" "count h = 0"
    using new_heap [OF refl] by blast
  define q where "q = \<lparr>p_userdata = u, engine_data = select_init, connect_events = [], read_events = [],
       write_events = [], expirables = h, active_iods = [], free_iods = [], free_events = [],
       events_pending = 0, next_event_serial = 1, next_iod_serial = 0, p_errnum = 0, quit = False,
       nevents = (\<lambda>_. nevent_zero), niods = (\<lambda>_. niod_zero), next_address = 0, nsock_tod = now, os = answers\<rparr>"
  have p: "p = gettimeofday q" using assms h(1) by (simp add: nsock_pool_new_def q_def)
  have s: "evlist k p = []" "expirables p = h" "active_iods p = []" "free_iods p = []" "free_events p = []"
      "events_pending p = 0" "next_event_serial p = 1" "nevents p = (\<lambda>_. nevent_zero)" "niods p = (\<lambda>_. niod_zero)"
      "engine_data p = select_init" for k
    by (simp_all add: p) (simp_all add: q_def evlist_def split: evkind.split)
  have l: "listed p = []" by (simp add: listed_def s)
  have "lists_ok p" by (simp add: lists_ok_def l s group_ok_def)
  moreover have "heap_inv p" using h(2,3) by (simp add: heap_inv_def l s timer_heap_def)
  moreover have "free_ok p" using h(3) by (simp add: free_ok_def l s)
  moreover have "counts_ok 0 (\<lambda>_. 0) p" using h(3) by (simp add: counts_ok_def l s timers_def)
  moreover have "engine_ok p" by (simp add: engine_ok_def l s select_init_def)
  moreover have "serial_ok p" by (simp add: serial_ok_def s)
  ultimately show "pool_inv p" by (simp add: pool_inv_def pool_inv_off_def)
  show "count (expirables p) = 0" "active_iods p = []" "free_iods p = []" "listed p = []" "nodes (expirables p) = []"
    by (simp_all add: s h(3,4) l)
  show "next_address p = 0" by (simp add: p) (simp add: q_def)
  show "os p = answers\<lparr>clock := tl (clock answers)\<rparr>" "nsock_tod p = (case clock answers of [] \<Rightarrow> now | t # _ \<Rightarrow> t)"
    unfolding p by (cases "clock answers"; simp add: gettimeofday_def q_def)+
qed

lemma new_pool_returns: "\<exists>p. nsock_pool_new u answers now = Some p"
  by (simp add: nsock_pool_new_def gh_heap_init_def heap_grow_def GH_SLOTS_def GH_HEAP_GUARD_def)

section \<open>Reachable states\<close>

text \<open>
  A client starts from a new pool and makes requests, of which each returned. The side conditions are those of the
  interface: a request names a descriptor that is open, and a read one that is not at its end; a deadline is \<open>-1\<close> or
  not negative (and given, for a timer); the system hands out unused descriptors and a clock past the epoch.
  The last event the heap has room for is \<open>room\<close>.
\<close>

inductive pool_reached :: "'c handlers \<Rightarrow> 'c npool \<Rightarrow> bool" for H where
  new_pool: "nsock_pool_new u answers now = Some p \<Longrightarrow> pool_reached H p"
| iod_new: "pool_reached H p \<Longrightarrow> new_sd p sd = -1 \<or> sd_free p (new_sd p sd) \<Longrightarrow> nsock_iod_new2 p sd u = (q, res) \<Longrightarrow>
    pool_reached H q"
| iod_delete: "pool_reached H p \<Longrightarrow> i \<in> set (active_iods p) \<Longrightarrow> \<not> IOD_PROPGET p i IOD_STDIN \<Longrightarrow>
    nsock_iod_delete H p i NSOCK_PENDING_SILENT = Some q \<Longrightarrow> pool_reached H q"
| read_step: "pool_reached H p \<Longrightarrow> can_read p i \<Longrightarrow> room p \<Longrightarrow> -1 \<le> ms \<Longrightarrow>
    nsock_read H p i h ms u = Some (q, ident) \<Longrightarrow> pool_reached H q"
| readlines_step: "pool_reached H p \<Longrightarrow> can_read p i \<Longrightarrow> room p \<Longrightarrow> -1 \<le> ms \<Longrightarrow>
    nsock_readlines H p i h ms u n = Some (q, ident) \<Longrightarrow> pool_reached H q"
| readbytes_step: "pool_reached H p \<Longrightarrow> can_read p i \<Longrightarrow> room p \<Longrightarrow> -1 \<le> ms \<Longrightarrow>
    nsock_readbytes H p i h ms u n = Some (q, ident) \<Longrightarrow> pool_reached H q"
| write_step: "pool_reached H p \<Longrightarrow> usable p i \<Longrightarrow> room p \<Longrightarrow> -1 \<le> ms \<Longrightarrow> fits data n \<Longrightarrow>
    nsock_write H p i h ms u data n = Some (q, ident) \<Longrightarrow> pool_reached H q"
| sendto_step: "pool_reached H p \<Longrightarrow> usable p i \<Longrightarrow> room p \<Longrightarrow> -1 \<le> ms \<Longrightarrow> fits data n \<Longrightarrow>
    nsock_sendto H p i h ms u a port data n = Some (q, ident) \<Longrightarrow> pool_reached H q"
| printf_step: "pool_reached H p \<Longrightarrow> usable p i \<Longrightarrow> room p \<Longrightarrow> -1 \<le> ms \<Longrightarrow> s \<noteq> [] \<Longrightarrow> length s \<le> 400000000 \<Longrightarrow>
    nsock_printf H p i h ms u (Some s) = Some (q, ident) \<Longrightarrow> pool_reached H q"
| timer_step: "pool_reached H p \<Longrightarrow> clock_ok p \<Longrightarrow> room p \<Longrightarrow> 0 \<le> ms \<Longrightarrow>
    nsock_timer_create H p h ms u = Some (q, ident) \<Longrightarrow> pool_reached H q"
| cancel_step: "pool_reached H p \<Longrightarrow> get_event_id_type ident = Some t \<Longrightarrow> t \<noteq> NSE_TYPE_PCAP_READ \<Longrightarrow>
    nsock_event_cancel H p ident False = Some (q, found) \<Longrightarrow> pool_reached H q"

lemma iod_delete_inv:
  assumes "pool_inv p" and "i \<in> set (active_iods p)" and "\<not> IOD_PROPGET p i IOD_STDIN"
  shows "\<exists>q. nsock_iod_delete H p i NSOCK_PENDING_SILENT = Some q \<and> pool_inv q"
proof (cases "i_state (niods p i) = NSIOD_STATE_DELETED")
  case True
  then show ?thesis using assms(1) by (simp add: nsock_iod_delete_def)
next
  case False
  then show ?thesis using nsock_iod_delete_silent [OF assms(1,2) _ assms(3), of H] by (auto simp: iod_deleted_def)
qed

lemma iod_new2_inv:
  assumes "pool_inv p" and "new_sd p sd = -1 \<or> sd_free p (new_sd p sd)" and "nsock_iod_new2 p sd u = (q, res)"
  shows "pool_inv q"
proof -
  obtain i n where "iod_made i n p q" "blank_iod p n" using nsock_iod_new2_made [OF assms(2,3)] .
  then show ?thesis by (rule iod_made_inv(1) [OF assms(1)])
qed

lemma reached_inv: "pool_reached H p \<Longrightarrow> pool_inv p"
proof (induction rule: pool_reached.induct)
  case (new_pool u answers now p)
  then show ?case by (rule new_pool_inv(1))
next
  case (iod_new p sd u q res)
  then show ?case by (metis iod_new2_inv)
next
  case (iod_delete p i q)
  then show ?case using iod_delete_inv [of p i H] by auto
next
  case (read_step p i ms h u q ident)
  then show ?case using nsock_read_requested [of p i ms H h u] by (auto simp: read_request_def requested_def)
next
  case (readlines_step p i ms h u n q ident)
  then show ?case using nsock_readlines_requested [of p i ms H h u n] by (auto simp: read_request_def requested_def)
next
  case (readbytes_step p i ms h u n q ident)
  then show ?case using nsock_readbytes_requested [of p i ms H h u n] by (auto simp: read_request_def requested_def)
next
  case (write_step p i ms data n h u q ident)
  then show ?case using nsock_write_requested [of p i ms data n H h u] by (auto simp: write_request_def requested_def)
next
  case (sendto_step p i ms data n h u a port q ident)
  then show ?case using nsock_sendto_requested [of p i ms data n H h u a port] by (auto simp: write_request_def requested_def)
next
  case (printf_step p i ms s h u q ident)
  then show ?case using nsock_printf_requested [of p i ms s H h u] by (auto simp: write_request_def requested_def)
next
  case (timer_step p ms h u q ident)
  then show ?case using nsock_timer_create_requested [of p ms H h u] by (auto simp: timer_request_def)
next
  case (cancel_step p ident t q found)
  then show ?case using cancel_silent [of p ident t H] by (auto simp: deleted_def)
qed

section \<open>A pool for the witnesses\<close>

text \<open>A pool with one descriptor, number 7, on a clock that stands at 1000 seconds.\<close>

definition demo_answers :: sys_answers where
  "demo_answers = \<lparr>clock = [], recvs = [], sends = [], so_errors = [], selects = [], dups = [7], sent = [], closed = []\<rparr>"

definition demo_start :: "unit npool" where
  "demo_start = the (nsock_pool_new () demo_answers \<lparr>tv_sec = 1000, tv_usec = 0\<rparr>)"

definition demo_client :: "unit npool" where
  "demo_client = fst (nsock_iod_new2 demo_start 5 0)"

definition demo_handlers :: "unit handlers" where
  "demo_handlers = (\<lambda>_ p _. Some p)"

lemma demo_start: "nsock_pool_new () demo_answers \<lparr>tv_sec = 1000, tv_usec = 0\<rparr> = Some demo_start"
  using new_pool_returns [of "()" demo_answers "\<lparr>tv_sec = 1000, tv_usec = 0\<rparr>"] by (auto simp: demo_start_def)

definition same_clock :: "'c npool \<Rightarrow> 'c npool \<Rightarrow> bool" where
  "same_clock p q \<longleftrightarrow> nsock_tod q = nsock_tod p \<and> clock (os q) = clock (os p)"

lemma same_clock_trans: "same_clock p q \<Longrightarrow> same_clock q r \<Longrightarrow> same_clock p r"
  by (simp add: same_clock_def)

lemma same_clock_parts:
  shows "alloc_iod p = (q, i) \<Longrightarrow> same_clock p q" and "dup_socket p = (q, d) \<Longrightarrow> same_clock p q"
    and "next_iod_id p = (q, x) \<Longrightarrow> same_clock p q" and "same_clock p (upd_iod i f p)"
proof -
  show "alloc_iod p = (q, i) \<Longrightarrow> same_clock p q" by (cases "free_iods p") (auto simp: alloc_iod_def same_clock_def)
  show "dup_socket p = (q, d) \<Longrightarrow> same_clock p q" by (cases "dups (os p)") (auto simp: dup_socket_def same_clock_def)
  show "next_iod_id p = (q, x) \<Longrightarrow> same_clock p q"
    by (cases "next_iod_serial p = 0") (auto simp: next_iod_id_def same_clock_def Let_def)
  show "same_clock p (upd_iod i f p)" by (simp add: same_clock_def)
qed

lemma iod_new2_clock:
  assumes "nsock_iod_new2 p sd u = (q, res)"
  shows "same_clock p q"
proof -
  obtain p1 i where a: "alloc_iod p = (p1, i)" by fastforce
  define p2 where "p2 = upd_iod i (\<lambda>_. niod_zero) p1"
  obtain p3 ok where b: "(if sd = -1 then (upd_iod i (\<lambda>n. n\<lparr>i_sd := -1, i_state := NSIOD_STATE_INITIAL\<rparr>) p2, True)
      else if sd = 0 then
        (upd_iod i (\<lambda>n. n\<lparr>i_state := NSIOD_STATE_UNKNOWN\<rparr>) (IOD_PROPSET i IOD_STDIN (upd_iod i (\<lambda>n. n\<lparr>i_sd := 0\<rparr>) p2)), True)
      else let (p, d) = dup_socket p2
        in (upd_iod i (\<lambda>n. n\<lparr>i_sd := d, i_state := NSIOD_STATE_UNKNOWN\<rparr>) p, d \<noteq> -1)) = (p3, ok)" by fastforce
  obtain p4 d where d: "dup_socket p2 = (p4, d)" by fastforce
  note tr = same_clock_trans
  have c3: "same_clock p2 p3"
    using b same_clock_parts(2) [OF d] by (auto simp: d same_clock_def IOD_PROPSET_def split: if_splits)
  define f where "f = (\<lambda>n :: niod. n\<lparr>first_connect := None, first_read := None, first_write := None,
                     readsd_count := 0, i_userdata := u, i_flags := 0,
                     read_count := 0, write_count := 0, i_hostname := None\<rparr>)"
  obtain p5 x where n: "next_iod_id (upd_iod i f p3) = (p5, x)" by fastforce
  have "q = p3 \<or> q = (upd_iod i (\<lambda>n. n\<lparr>i_id := x\<rparr>) p5)\<lparr>active_iods := active_iods p5 @ [i]\<rparr>"
    using assms a b n by (auto simp: nsock_iod_new2_def p2_def [symmetric] f_def [symmetric] split: if_splits)
  moreover have "same_clock p3 p5" using tr [OF same_clock_parts(4) same_clock_parts(3) [OF n]] .
  then have "same_clock p3 ((upd_iod i (\<lambda>n. n\<lparr>i_id := x\<rparr>) p5)\<lparr>active_iods := active_iods p5 @ [i]\<rparr>)"
    by (simp add: same_clock_def)
  ultimately have "same_clock p3 q" by (auto simp: same_clock_def)
  then show ?thesis
    using tr [OF tr [OF same_clock_parts(1) [OF a] same_clock_parts(4)] tr [OF c3 [unfolded p2_def]]] by blast
qed

lemma iod_new2_made_ex:
  assumes "new_sd p sd = -1 \<or> sd_free p (new_sd p sd)" and "nsock_iod_new2 p sd u = (q, res)"
  shows "\<exists>i n. iod_made i n p q \<and> blank_iod p n \<and> i_sd n = new_sd p sd \<and>
    res = (if sd = -1 \<or> new_sd p sd \<noteq> -1 then Some i else None) \<and>
    (res = Some i \<longrightarrow> active_iods q = active_iods p @ [i] \<and> i_state n \<noteq> NSIOD_STATE_DELETED)"
  by (rule nsock_iod_new2_made [OF assms]) blast

lemma demo_client_facts:
  "pool_reached demo_handlers demo_client" "can_read demo_client 0" "room demo_client" "clock_ok demo_client"
  "active_iods demo_client = [0]" "i_sd (niods demo_client 0) = 7" "i_flags (niods demo_client 0) = 0"
  "listed demo_client = []" "nodes (expirables demo_client) = []"
proof -
  note s = new_pool_inv [OF demo_start]
  obtain q res where q: "nsock_iod_new2 demo_start 5 0 = (q, res)" by fastforce
  then have c: "demo_client = q" by (simp add: demo_client_def)
  have sd: "new_sd demo_start 5 = 7" by (simp add: new_sd_def s(8) demo_answers_def)
  have "sd_free demo_start 7" by (simp add: sd_free_def s(3))
  then have ok: "new_sd demo_start 5 = -1 \<or> sd_free demo_start (new_sd demo_start 5)" by (simp add: sd)
  obtain i n where m0: "iod_made i n demo_start q" "blank_iod demo_start n" "i_sd n = new_sd demo_start 5"
      "res = (if (5 :: int) = -1 \<or> new_sd demo_start 5 \<noteq> -1 then Some i else None)"
      "res = Some i \<longrightarrow> active_iods q = active_iods demo_start @ [i] \<and> i_state n \<noteq> NSIOD_STATE_DELETED"
    using iod_new2_made_ex [OF ok q] by (elim exE conjE)
  then have m: "iod_made i n demo_start q" "blank_iod demo_start n" "i_sd n = 7" "res = Some i"
      "active_iods q = [i]" "i_state n \<noteq> NSIOD_STATE_DELETED"
    by (simp_all add: sd s(3))
  then have i: "i = 0" using s(4,5) by (auto simp: iod_made_def)
  have n: "niods q 0 = n" "evlist k q = evlist k demo_start" "expirables q = expirables demo_start" for k
    using m(1) by (auto simp: iod_made_def i)
  show "active_iods demo_client = [0]" "i_sd (niods demo_client 0) = 7" "i_flags (niods demo_client 0) = 0"
    using m(2,3,5) by (simp_all add: c i n blank_iod_def)
  show "can_read demo_client 0" using m(2,3,5,6) by (simp add: can_read_def usable_def IOD_PROPGET_def c i n blank_iod_def)
  show "room demo_client" using s(2) by (simp add: room_def c n GH_HEAP_GUARD_def)
  show "clock_ok demo_client"
    using iod_new2_clock [OF q] by (simp add: same_clock_def c clock_ok_def s(8,9) demo_answers_def good_time_def normal_tv_def)
  show "listed demo_client = []" using s(6) by (simp add: c listed_def n)
  show "nodes (expirables demo_client) = []" using s(7) by (simp add: c n)
  show "pool_reached demo_handlers demo_client"
    unfolding c by (rule iod_new [OF new_pool [OF demo_start] ok q])
qed

section \<open>Properties of reachable pools\<close>

text \<open>C2: in every pool a client can reach, the counters and the descriptor sets are right: \<open>events_pending\<close> is the
  number of events that wait, a descriptor is in the set given to \<open>select\<close> for reading (writing) exactly if a
  connect or a read (a write) waits on it, and then its number is at most \<open>max_sd\<close>.\<close>

theorem reachable_pool_consistent:
  assumes "pool_reached H p"
  shows "pool_inv p \<and> events_pending p = int (length (filter (live p) (listed p @ timers p))) \<and>
    (\<forall>i\<in>set (active_iods p). i_sd (niods p i) \<noteq> -1 \<longrightarrow>
       (i_sd (niods p i) \<in> fds_master_r (engine_data p) \<longleftrightarrow>
          (\<exists>e\<in>set (connect_events p) \<union> set (read_events p). \<not> event_done (nevents p e) \<and> e_iod (nevents p e) = Some i)) \<and>
       (i_sd (niods p i) \<in> fds_master_w (engine_data p) \<longleftrightarrow>
          (\<exists>e\<in>set (connect_events p) \<union> set (write_events p). \<not> event_done (nevents p e) \<and> e_iod (nevents p e) = Some i)) \<and>
       (i_sd (niods p i) \<in> fds_master_r (engine_data p) \<union> fds_master_w (engine_data p) \<longrightarrow>
          i_sd (niods p i) \<le> max_sd (engine_data p)))"
proof -
  have inv: "pool_inv p" by (rule reached_inv [OF assms])
  then have c: "counts_ok 0 (\<lambda>_. 0) p" and g: "engine_ok p" by (auto simp: pool_inv_def pool_inv_off_def)
  have ev: "evlist Connects p = connect_events p" "evlist Reads p = read_events p" "evlist Writes p = write_events p"
    by (simp_all add: evlist_def)
  have pos: "0 < pending_of p i xs \<longleftrightarrow> (\<exists>e\<in>set xs. \<not> event_done (nevents p e) \<and> e_iod (nevents p e) = Some i)" for i xs
    by (auto simp: pending_of_def live_def of_iod_def filter_empty_conv)
  have "watch_ok p i" if "i \<in> set (active_iods p)" "i_sd (niods p i) \<noteq> -1" for i using g that by (simp add: engine_ok_def)
  then show ?thesis
    using inv c by (auto simp: counts_ok_def watch_ok_def Let_def ev pos simp del: pending_of_append of_nat_add)
qed

theorem reachable_pool_consistent_witness:
  "pool_reached demo_handlers demo_client \<and> pool_inv demo_client \<and> events_pending demo_client = 0 \<and>
   7 \<notin> fds_master_r (engine_data demo_client)"
  using reachable_pool_consistent [OF demo_client_facts(1)] demo_client_facts
  by (auto simp: timers_def listed_def evlist_def split: evkind.splits)

text \<open>C4: in every reachable pool, a read request on an open descriptor that is not at its end, and whose number fits
  in an \<open>fd_set\<close>, returns: no assertion fails (there is room for another timeout, and the timeout is -1 or more). It returns the number of a new event, which is in the list of reads with an empty buffer; the descriptor is
  watched for reading; all other events are left alone; and the pool is consistent again.\<close>

theorem read_requests_served:
  assumes "pool_reached H p" and "can_read p i" and "room p" and "-1 \<le> ms"
  shows "(\<exists>q e. nsock_read H p i h ms u = Some (q, e_id (nevents q e)) \<and> read_request i h NSOCK_READ p e q) \<and>
    (\<exists>q e. nsock_readlines H p i h ms u n = Some (q, e_id (nevents q e)) \<and> read_request i h NSOCK_READLINES p e q) \<and>
    (\<exists>q e. nsock_readbytes H p i h ms u n = Some (q, e_id (nevents q e)) \<and> read_request i h NSOCK_READBYTES p e q)"
  using nsock_read_requested [OF reached_inv [OF assms(1)] assms(2-4)]
    nsock_readlines_requested [OF reached_inv [OF assms(1)] assms(2-4)]
    nsock_readbytes_requested [OF reached_inv [OF assms(1)] assms(2-4)] by blast

theorem read_requests_served_witness:
  "can_read demo_client 0 \<and> (\<exists>q e. nsock_read demo_handlers demo_client 0 3 (-1) 9 = Some (q, e_id (nevents q e)) \<and>
     read_request 0 3 NSOCK_READ demo_client e q \<and> read_events q = [e] \<and> i_sd (niods q 0) \<in> fds_master_r (engine_data q))"
proof -
  note d = demo_client_facts
  obtain q e where q: "nsock_read demo_handlers demo_client 0 3 (-1) 9 = Some (q, e_id (nevents q e))"
      "read_request 0 3 NSOCK_READ demo_client e q"
    using read_requests_served [OF d(1-3), where ms = "-1" and h = 3 and u = 9 and n = 1] by auto
  have r: "requested Reads 0 demo_client e q" using q(2) by (simp add: read_request_def)
  then have "mset (read_events q) = {#e#}" using d(8) by (simp add: requested_def listed_def evlist_def)
  then show ?thesis using q r d(2) by (auto simp: requested_def)
qed

text \<open>C7: in every reachable pool, a write request on an open descriptor returns: no assertion fails, and no buffer
  overflows. The new event is in the list of writes, it carries exactly the bytes given (up to the first NUL if the
  length is negative) and the destination of \<open>nsock_sendto\<close>, nothing of it counts as sent, the descriptor is watched for
  writing, and the pool is consistent again.\<close>

theorem write_requests_served:
  assumes "pool_reached H p" and "usable p i" and "room p" and "-1 \<le> ms" and "fits data n"
  shows "(\<exists>q e. nsock_write H p i h ms u data n = Some (q, e_id (nevents q e)) \<and>
      write_request i h None (take (nat (given_length data n)) data) p e q) \<and>
    (\<exists>q e. nsock_sendto H p i h ms u a port data n = Some (q, e_id (nevents q e)) \<and>
      write_request i h (Some (set_port port a)) (take (nat (given_length data n)) data) p e q) \<and>
    (data \<noteq> [] \<and> length data \<le> 400000000 \<longrightarrow>
      (\<exists>q e. nsock_printf H p i h ms u (Some data) = Some (q, e_id (nevents q e)) \<and> write_request i h None data p e q))"
  using nsock_write_requested [OF reached_inv [OF assms(1)] assms(2-5)]
    nsock_sendto_requested [OF reached_inv [OF assms(1)] assms(2-5)]
    nsock_printf_requested [OF reached_inv [OF assms(1)] assms(2-4)] by blast

theorem write_requests_served_witness:
  "usable demo_client 0 \<and> (\<exists>q e. nsock_sendto demo_handlers demo_client 0 3 (-1) 9 (Sin ''0.0.0.1'' 0) 53 ''query'' (-1) =
     Some (q, e_id (nevents q e)) \<and> write_request 0 3 (Some (Sin ''0.0.0.1'' 53)) ''query'' demo_client e q)"
proof -
  note d = demo_client_facts
  have us: "usable demo_client 0" using d(2) by (simp add: can_read_def)
  have f: "fits ''query'' (-1)" "take (nat (given_length ''query'' (-1))) ''query'' = ''query''"
    by (simp_all add: fits_def given_length_def)
  show ?thesis
    using write_requests_served [OF d(1) us d(3) _ f(1), where ms = "-1" and h = 3 and u = 9 and a = "Sin ''0.0.0.1'' 0" and port = 53]
      us by (simp add: f(2))
qed

text \<open>C8: in every reachable pool, a timer request returns, with a new event in the heap that is due exactly the given
  number of milliseconds after the time of the request.\<close>

theorem timer_requests_served:
  assumes "pool_reached H p" and "clock_ok p" and "room p" and "0 \<le> ms"
  shows "\<exists>q e. nsock_timer_create H p h ms u = Some (q, e_id (nevents q e)) \<and> timer_request h ms p e q"
  by (rule nsock_timer_create_requested [OF reached_inv [OF assms(1)] assms(3,4,2)])

theorem timer_requests_served_witness:
  "clock_ok demo_client \<and> (\<exists>q e. nsock_timer_create demo_handlers demo_client 4 250 9 = Some (q, e_id (nevents q e)) \<and>
     timer_request 4 250 demo_client e q)"
  using timer_requests_served [OF demo_client_facts(1,4,3), of 250] demo_client_facts(4) by simp

text \<open>C5: what cancelling without notification does in every reachable pool, for every number. A number whose type code
  is no type, or that of a packet capture (which the build does not have), is fatal. For any other it returns, and acts on the first event
  with the number in the list of its type, which is the heap for timers: if there is none, or if the event is done already, nothing changes and the
  answer is 0; otherwise the event is gone from its list, the heap and the counters, every other event is left alone,
  the pool is consistent again, and the answer is 1.\<close>

theorem cancel_removes_event:
  assumes "pool_reached H p"
  shows "case get_event_id_type ident of
      None \<Rightarrow> nsock_event_cancel H p ident False = None
    | Some t \<Rightarrow>
        if t = NSE_TYPE_PCAP_READ then nsock_event_cancel H p ident False = None
        else (case find (\<lambda>e. e_id (nevents p e) = ident) (searched t p) of
            None \<Rightarrow> nsock_event_cancel H p ident False = Some (p, False)
          | Some e \<Rightarrow>
              if event_done (nevents p e) then nsock_event_cancel H p ident False = Some (p, False)
              else pending_event p e \<and> (\<exists>q. nsock_event_cancel H p ident False = Some (q, True) \<and> deleted e p q))"
proof (cases "get_event_id_type ident")
  case None
  then show ?thesis using cancel_bogus [of ident H p False] by simp
next
  case (Some t)
  then show ?thesis
    using cancel_first [OF reached_inv [OF assms] Some, of H] cancel_bogus [of ident H p False] by (cases "t = NSE_TYPE_PCAP_READ") simp_all
qed

theorem cancel_removes_event_witness:
  "\<exists>p e q. nsock_read demo_handlers demo_client 0 3 (-1) 9 = Some (p, e_id (nevents p e)) \<and> pool_reached demo_handlers p \<and>
     nsock_event_cancel demo_handlers p (e_id (nevents p e)) False = Some (q, True) \<and> deleted e p q"
proof -
  note d = demo_client_facts
  obtain p e where p: "nsock_read demo_handlers demo_client 0 3 (-1) 9 = Some (p, e_id (nevents p e))"
      "read_request 0 3 NSOCK_READ demo_client e p"
    using nsock_read_requested [OF reached_inv [OF d(1)] d(2,3), where ms = "-1" and h = 3 and u = 9 and H = demo_handlers]
    by auto
  have rp: "pool_reached demo_handlers p" by (rule read_step [OF d(1-3) _ p(1)]) simp
  have r: "requested Reads 0 demo_client e p" "get_event_id_type (e_id (nevents p e)) = Some NSE_TYPE_READ"
    using p(2) by (simp_all add: read_request_def)
  then have "mset (read_events p) = {#e#}" using d(8) by (simp add: requested_def listed_def evlist_def)
  then have s: "searched NSE_TYPE_READ p = [e]" by (simp add: searched_def kind_of_def evlist_def)
  have "\<not> event_done (nevents p e)" using r(1) by (simp add: requested_def)
  then obtain q where "nsock_event_cancel demo_handlers p (e_id (nevents p e)) False = Some (q, True)"
      "deleted e p q"
    using cancel_removes_event [OF rp, of "e_id (nevents p e)"] r(2) by (auto simp: s)
  then show ?thesis using p(1) rp by blast
qed

text \<open>C6: in every reachable pool, deleting an open descriptor without notification returns: the events that wait on it
  are gone from the lists, the heap and the counters, all others are left alone, the system is asked to close the
  descriptor, no other becomes unusable, and the pool is consistent again.\<close>

theorem iod_delete_cancels_events:
  assumes "pool_reached H p" and "i \<in> set (active_iods p)" and "i_state (niods p i) \<noteq> NSIOD_STATE_DELETED"
    and "\<not> IOD_PROPGET p i IOD_STDIN"
  shows "\<exists>q. nsock_iod_delete H p i NSOCK_PENDING_SILENT = Some q \<and> iod_deleted i p q"
  by (rule nsock_iod_delete_silent [OF reached_inv [OF assms(1)] assms(2-4)])

theorem iod_delete_cancels_events_witness:
  "\<exists>q. nsock_iod_delete demo_handlers demo_client 0 NSOCK_PENDING_SILENT = Some q \<and> iod_deleted 0 demo_client q \<and>
     7 \<in> set (closed (os q))"
proof -
  note d = demo_client_facts
  have "i_state (niods demo_client 0) \<noteq> NSIOD_STATE_DELETED" using d(2) by (simp add: can_read_def usable_def)
  then obtain q where q: "nsock_iod_delete demo_handlers demo_client 0 NSOCK_PENDING_SILENT = Some q" "iod_deleted 0 demo_client q"
    using iod_delete_cancels_events [OF d(1), of 0] d(5,7) by (auto simp: IOD_PROPGET_def)
  then show ?thesis using d(6) by (auto simp: iod_deleted_def)
qed

text \<open>C40: \<open>nsock_iod_new2\<close> marks standard input as not to be closed, and then clears all marks; so deleting the
  descriptor closes standard input.\<close>

theorem stdin_closed_on_delete:
  assumes "pool_reached H p" and "sd_free p 0"
  shows "\<exists>q i r. nsock_iod_new2 p 0 u = (q, Some i) \<and> i_sd (niods q i) = 0 \<and> \<not> IOD_PROPGET q i IOD_STDIN \<and>
    nsock_iod_delete H q i NSOCK_PENDING_SILENT = Some r \<and> 0 \<in> set (closed (os r))"
proof -
  obtain q res where n: "nsock_iod_new2 p 0 u = (q, res)" by fastforce
  have sd: "new_sd p 0 = 0" by (simp add: new_sd_def)
  then have ok: "new_sd p 0 = -1 \<or> sd_free p (new_sd p 0)" using assms(2) by simp
  obtain i m where m: "iod_made i m p q" "blank_iod p m" "i_sd m = 0" "res = Some i"
      "active_iods q = active_iods p @ [i]" "i_state m \<noteq> NSIOD_STATE_DELETED"
    using iod_new2_made_ex [OF ok n] by (auto simp: sd)
  have inv: "pool_inv q" by (rule iod_new2_inv [OF reached_inv [OF assms(1)] ok n])
  have q: "niods q i = m" using m(1) by (simp add: iod_made_def)
  have f: "\<not> IOD_PROPGET q i IOD_STDIN" using m(2) by (simp add: IOD_PROPGET_def q blank_iod_def)
  obtain r where "nsock_iod_delete H q i NSOCK_PENDING_SILENT = Some r" "iod_deleted i q r"
    using nsock_iod_delete_silent [OF inv _ _ f, of H] m(5,6) by (auto simp: q)
  then show ?thesis using n m(3,4) f by (auto simp: iod_deleted_def q)
qed

theorem stdin_closed_on_delete_witness:
  "\<exists>q i r. nsock_iod_new2 demo_client 0 5 = (q, Some i) \<and> nsock_iod_delete demo_handlers q i NSOCK_PENDING_SILENT = Some r \<and>
     0 \<in> set (closed (os r))"
proof -
  have "sd_free demo_client 0" using demo_client_facts(5,6) by (simp add: sd_free_def)
  then show ?thesis using stdin_closed_on_delete [OF demo_client_facts(1), of 5] by blast
qed

end
