(* ===== verification/Nsock_Expire.thy ===== *)
theory Nsock_Expire
  imports Nsock_Steps
begin

text \<open>
  The delivery of events whose timeout has passed.
\<close>

section \<open>No finished event between calls\<close>

definition all_live :: "'c npool \<Rightarrow> bool" where
  "all_live p \<longleftrightarrow> (\<forall>x\<in>set (listed p) \<union> set (nodes (expirables p)). live p x)"

lemma all_live_survivors: "all_live p \<Longrightarrow> survivors p q \<Longrightarrow> all_live q"
  by (auto simp: all_live_def survivors_def)

lemma all_live_one:
  assumes "all_live p" and "\<And>x. x \<noteq> e \<Longrightarrow> nevents q x = nevents p x" and "\<not> event_done (nevents q e)"
    and "set (listed q) \<subseteq> insert e (set (listed p))"
    and "set (nodes (expirables q)) \<subseteq> insert e (set (nodes (expirables p)))"
  shows "all_live q"
  unfolding all_live_def
proof
  fix x assume x: "x \<in> set (listed q) \<union> set (nodes (expirables q))"
  show "live q x"
  proof (cases "x = e")
    case True
    then show ?thesis using assms(3) by (simp add: live_def)
  next
    case False
    then have "x \<in> set (listed p) \<union> set (nodes (expirables p))" using x assms(4,5) by blast
    then show ?thesis using assms(1,2) False by (simp add: all_live_def live_def)
  qed
qed

lemma requested_all_live:
  assumes "all_live p" and "requested k i p e q"
  shows "all_live q"
proof -
  have q: "mset (evlist k q) = add_mset e (mset (evlist k p))" "\<And>k'. k' \<noteq> k \<Longrightarrow> evlist k' q = evlist k' p"
      "set (nodes (expirables q)) \<subseteq> insert e (set (nodes (expirables p)))" "\<And>x. x \<noteq> e \<Longrightarrow> nevents q x = nevents p x"
      "\<not> event_done (nevents q e)"
    using assms(2) by (auto simp: requested_def)
  have l: "set (listed q) = insert e (set (listed p))" by (rule listed_add(2) [OF refl q(2,1)])
  show ?thesis by (rule all_live_one [OF assms(1) q(4,5) equalityD1 [OF l] q(3)])
qed

lemma timer_all_live:
  assumes "all_live p" and "timer_request h ms p e q"
  shows "all_live q"
proof -
  have q: "\<And>k. evlist k q = evlist k p" "mset (nodes (expirables q)) = add_mset e (mset (nodes (expirables p)))"
      "\<And>x. x \<noteq> e \<Longrightarrow> nevents q x = nevents p x" "\<not> event_done (nevents q e)"
    using assms(2) by (auto simp: timer_request_def)
  have n: "set (nodes (expirables q)) = insert e (set (nodes (expirables p)))" using arg_cong [OF q(2), of set_mset] by simp
  have l: "listed q = listed p" by (simp add: listed_def q(1))
  have s: "set (listed q) \<subseteq> insert e (set (listed p))" by (subst l) (rule subset_insertI)
  show ?thesis by (rule all_live_one [OF assms(1) q(3,4) s equalityD1 [OF n]])
qed

lemma reached_live: "pool_reached H p \<Longrightarrow> all_live p"
proof (induction rule: pool_reached.induct)
  case (new_pool u answers now p)
  then show ?case by (simp add: all_live_def new_pool_inv(6,7))
next
  case (iod_new p sd u q res)
  obtain i n where "iod_made i n p q" using iod_new2_made_ex [OF iod_new(2,3)] by blast
  then have "listed q = listed p" "expirables q = expirables p" "live q = live p"
    by (auto simp: iod_made_def listed_def live_def fun_eq_iff)
  then show ?case using iod_new.IH by (simp add: all_live_def)
next
  case (iod_delete p i q)
  have inv: "pool_inv p" by (rule reached_inv [OF iod_delete.hyps(1)])
  show ?case
  proof (cases "i_state (niods p i) = NSIOD_STATE_DELETED")
    case True
    then show ?thesis using iod_delete by (simp add: nsock_iod_delete_def)
  next
    case False
    then have "iod_deleted i p q" using nsock_iod_delete_silent [OF inv iod_delete.hyps(2) False iod_delete.hyps(3), of H] iod_delete by auto
    then show ?thesis using all_live_survivors [OF iod_delete.IH] by (simp add: iod_deleted_def)
  qed
next
  case (read_step p i ms h u q ident)
  then show ?case using nsock_read_requested [OF reached_inv, of H p i ms H h u]
    by (auto simp: read_request_def intro: requested_all_live)
next
  case (readlines_step p i ms h u n q ident)
  then show ?case using nsock_readlines_requested [OF reached_inv, of H p i ms H h u n]
    by (auto simp: read_request_def intro: requested_all_live)
next
  case (readbytes_step p i ms h u n q ident)
  then show ?case using nsock_readbytes_requested [OF reached_inv, of H p i ms H h u n]
    by (auto simp: read_request_def intro: requested_all_live)
next
  case (write_step p i ms data n h u q ident)
  then show ?case using nsock_write_requested [OF reached_inv, of H p i ms data n H h u]
    by (auto simp: write_request_def intro: requested_all_live)
next
  case (sendto_step p i ms data n h u a port q ident)
  then show ?case using nsock_sendto_requested [OF reached_inv, of H p i ms data n H h u a port]
    by (auto simp: write_request_def intro: requested_all_live)
next
  case (printf_step p i ms s h u q ident)
  then show ?case using nsock_printf_requested [OF reached_inv, of H p i ms s H h u]
    by (auto simp: write_request_def intro: requested_all_live)
next
  case (timer_step p ms h u q ident)
  then show ?case using nsock_timer_create_requested [OF reached_inv, of H p ms H h u] by (auto intro: timer_all_live)
next
  case (cancel_step p ident t q found)
  have inv: "pool_inv p" by (rule reached_inv [OF cancel_step.hyps(1)])
  from cancel_silent [OF inv cancel_step.hyps(2,3), of H] cancel_step.hyps(4) cancel_step.IH show ?case
    using deleted_survivors [OF inv] all_live_survivors by auto
qed
section \<open>One event\<close>

text \<open>A client whose handlers only note what they are told: they call nothing in the library.\<close>

definition quiet :: "'c handlers \<Rightarrow> (nat \<Rightarrow> nevent \<Rightarrow> 'c \<Rightarrow> 'c) \<Rightarrow> bool" where
  "quiet H F \<longleftrightarrow> (\<forall>h p e. H h p e = Some (p\<lparr>p_userdata := F h (nevents p e) (p_userdata p)\<rparr>))"

text \<open>The event as the handler sees it when its time is over.\<close>

definition told :: "nevent \<Rightarrow> nevent" where
  "told v = v\<lparr>event_done := True,
     e_status := stop_status v (if e_type v = NSE_TYPE_TIMER then NSE_STATUS_SUCCESS else NSE_STATUS_TIMEOUT)\<rparr>"

lemma userdata_inv:
  assumes "pool_inv_off d D p"
  shows "pool_inv_off d D (p\<lparr>p_userdata := c\<rparr>)"
  by (rule pool_inv_off_cong [OF assms]) (simp_all add: same_events_def live_def)

definition timeout_result :: "'c npool \<Rightarrow> nat \<Rightarrow> 'c npool option" where
  "timeout_result p e = (case e_type (nevents p e) of
      NSE_TYPE_READ \<Rightarrow> handle_read_result p e NSE_STATUS_TIMEOUT
    | NSE_TYPE_WRITE \<Rightarrow> handle_write_result p e NSE_STATUS_TIMEOUT
    | NSE_TYPE_TIMER \<Rightarrow> Some (handle_timer_result p e NSE_STATUS_SUCCESS)
    | NSE_TYPE_PCAP_READ \<Rightarrow> None
    | _ \<Rightarrow> handle_connect_result p e NSE_STATUS_TIMEOUT)"

text \<open>What an event in its time leaves alone: the clock, the answers of the system, the flag \<open>quit\<close> and the descriptors.\<close>

definition same_env :: "'c npool \<Rightarrow> 'c npool \<Rightarrow> bool" where
  "same_env p q \<longleftrightarrow> nsock_tod q = nsock_tod p \<and> quit q = quit p \<and> os q = os p \<and> active_iods q = active_iods p"

lemma same_env_refl [simp]: "same_env p p"
  by (simp add: same_env_def)

lemma same_env_trans: "same_env p q \<Longrightarrow> same_env q r \<Longrightarrow> same_env p r"
  by (simp add: same_env_def)

lemma timeout_ended:
  assumes "pending_event p e"
  shows "\<exists>q. timeout_result p e = Some q \<and> ended e p q \<and> nevents q e = told (nevents p e) \<and> same_env p q \<and>
    p_userdata q = p_userdata p"
  using assms
proof (cases rule: pending_cases)
  case (listed k i)
  define st where "st = stop_status (nevents p e) NSE_STATUS_TIMEOUT"
  obtain q where q: "result_of k p e NSE_STATUS_TIMEOUT = Some q" "dropped k i (finish_event e st p) q"
    using stopped_dropped [OF listed(1)] unfolding st_def by blast
  have "ended e p q"
    by (rule finished_ended [OF listed(1) dropped_finished [OF finish_event_touched(1,2) q(2)]])
  moreover have "timeout_result p e = Some q"
    using q(1) listed(2) by (cases "e_type (nevents p e)") (auto simp: timeout_result_def result_of_def kind_of_def)
  moreover have "e_type (nevents p e) \<noteq> NSE_TYPE_TIMER" using listed(2) by (auto simp: kind_of_def)
  then have "nevents q e = told (nevents p e)" "same_env p q" "p_userdata q = p_userdata p"
    using q(2) by (auto simp: dropped_def finish_event_def told_def st_def same_env_def)
  ultimately show ?thesis by blast
next
  case timer
  then show ?thesis
    using timer_ended [OF assms timer(2) finish_event_touched(1,2), of NSE_STATUS_SUCCESS]
    by (simp add: timeout_result_def handle_timer_result_def finish_event_def told_def stop_status_def same_env_def)
qed

lemma process_expired:
  assumes "pending_event p e" and "event_timedout p e" and "timeout_result p e = Some q" and "ended e p q"
    and "nevents q e = told (nevents p e)"
  shows "process_event H p e EV_NONE = event_dispatch_and_delete H q e True"
proof -
  have "event_done (nevents q e)" "e_type (nevents q e) = e_type (nevents p e)" "\<not> event_done (nevents p e)"
    using assms(1,4) by (auto simp: ended_def pending_event_def live_def)
  moreover have "e_status (nevents q e) \<noteq> NSE_STATUS_SUCCESS" if "e_type (nevents p e) = NSE_TYPE_CONNECT_SSL"
    using that by (simp add: assms(5) told_def stop_status_def)
  ultimately show ?thesis
    using assms(2,3) by (cases "e_type (nevents p e)") (auto simp: process_event_def timeout_result_def)
qed

section \<open>Delivering an event\<close>

definition delivered :: "(nat \<Rightarrow> nevent \<Rightarrow> 'c \<Rightarrow> 'c) \<Rightarrow> nat \<Rightarrow> 'c npool \<Rightarrow> 'c npool \<Rightarrow> bool" where
  "delivered F e p r \<longleftrightarrow> deleted e p r \<and> same_env p r \<and>
     p_userdata r = F (e_handler (nevents p e)) (told (nevents p e)) (p_userdata p)"

lemma ended_delivered:
  assumes "quiet H F" and "pending_event p e" and "ended e p q" and "nevents q e = told (nevents p e)"
    and "same_env p q" and "p_userdata q = p_userdata p"
  shows "\<exists>q' r. event_dispatch_and_delete H q e True = Some q' \<and> event_done (nevents q' e) \<and>
    nevent_unref q' e = Some r \<and> delivered F e p r"
proof -
  define iod where "iod = e_iod (nevents p e)"
  have q: "pool_inv_off 1 (bump iod) q" "event_done (nevents q e)" "\<And>k. evlist k q = evlist k p"
      "expirables q = expirables p" "active_iods q = active_iods p" "e_type (nevents q e) = e_type (nevents p e)"
      "e_iod (nevents q e) = iod" "same_iods p q" "events_pending q = events_pending p"
      "\<And>x. x \<noteq> e \<Longrightarrow> nevents q x = nevents p x" "e_handler (nevents q e) = e_handler (nevents p e)"
    using assms(3) by (auto simp: ended_def iod_def)
  define u where "u = F (e_handler (nevents p e)) (told (nevents p e)) (p_userdata p)"
  define s where "s = (settle iod q)\<lparr>p_userdata := u\<rparr>"
  have "i \<in> set (active_iods q)" if "iod = Some i" for i
    using pending_iod_active(1) [OF assms(2)] that q(5) by (simp add: iod_def)
  then have d: "event_dispatch_and_delete H q e True = Some (event_delete s e)"
    using dispatch_eq [OF q(1,7,2), of H True] assms(1,4,6) q(11)
    by (simp add: notified_def quiet_def s_def u_def)
  have si: "pool_inv_off 0 (\<lambda>_. 0) (event_delete s e)"
    using event_delete_inv [OF userdata_inv [OF settle_inv [OF q(1), unfolded pool_inv_def]], of e u] q(2)
    by (simp add: s_def)
  have f: "evlist k (event_delete s e) = evlist k p" "expirables (event_delete s e) = expirables p"
      "e_type (nevents (event_delete s e) e) = e_type (nevents p e)" "e_iod (nevents (event_delete s e) e) = iod"
      "event_done (nevents (event_delete s e) e)" "events_pending (event_delete s e) = events_pending p - 1"
      "x \<noteq> e \<Longrightarrow> nevents (event_delete s e) x = nevents p x" "same_iods p (event_delete s e)" for k x
    using q by (simp_all add: event_delete_fields s_def) (simp add: same_iods_def event_delete_fields IOD_PROPGET_def)
  have p: "same_env p (event_delete s e)" "p_userdata (event_delete s e) = u"
    using assms(5) by (simp_all add: event_delete_def s_def Let_def same_env_def)
  have l: "listed (event_delete s e) = listed p" by (simp add: listed_def f(1))
  obtain r where r: "nevent_unref (event_delete s e) e = Some r" "unlinked e (event_delete s e) r"
  proof (rule pending_cases [OF assms(2)])
    fix k i assume "waiting k i e p" "e_iod (nevents p e) = Some i"
    then have "e \<in> set (evlist k (event_delete s e))" "of_iod (event_delete s e) i e"
      by (auto simp: waiting_def of_iod_def f iod_def)
    then show ?thesis using unref_listed [OF si] that by blast
  next
    assume "e \<in> set (nodes (expirables p))" "e_type (nevents p e) = NSE_TYPE_TIMER"
    then show ?thesis using unref_timer [OF si] that f(2,3) by simp blast
  qed
  have "pool_inv_off 0 (\<lambda>_. 0) r"
    by (rule unlinked_inv [OF si r(2)]) (use assms(2) f(5) in \<open>simp_all add: live_def l f(2) pending_event_def\<close>)
  moreover have "same_iods p r" using same_iods_trans [OF f(8) unlinked_same_iods [OF r(2)]] .
  moreover have "same_env (event_delete s e) r" using r(2) by (simp add: same_env_def unlinked_def)
  then have "same_env p r" by (rule same_env_trans [OF p(1)])
  ultimately have "delivered F e p r"
    using r(2) f p(2) by (simp add: delivered_def deleted_def unlinked_def pool_inv_def u_def iod_def)
  then show ?thesis using d f(5) r(1) by blast
qed

lemma deliver_one:
  assumes "quiet H F" and "pending_event p e" and "event_timedout p e"
  shows "\<exists>q r. process_event H p e EV_NONE = Some q \<and> event_done (nevents q e) \<and>
    nevent_unref q e = Some r \<and> delivered F e p r"
proof -
  obtain q where q: "timeout_result p e = Some q" "ended e p q" "nevents q e = told (nevents p e)"
      "same_env p q" "p_userdata q = p_userdata p"
    using timeout_ended [OF assms(2)] by blast
  show ?thesis
    using ended_delivered [OF assms(1,2) q(2-5)] process_expired [OF assms(2,3) q(1-3), of H] by simp
qed

section \<open>All of them\<close>

definition due :: "'c npool \<Rightarrow> nat set" where
  "due p = {e \<in> set (nodes (expirables p)). event_timedout p e}"

text \<open>The events \<open>es\<close> have been delivered, one after the other.\<close>

definition served :: "(nat \<Rightarrow> nevent \<Rightarrow> 'c \<Rightarrow> 'c) \<Rightarrow> nat list \<Rightarrow> 'c npool \<Rightarrow> 'c npool \<Rightarrow> bool" where
  "served F es p q \<longleftrightarrow> pool_inv q \<and> all_live q \<and>
     events_pending q = events_pending p - int (length es) \<and>
     set (nodes (expirables q)) = set (nodes (expirables p)) - set es \<and>
     (\<forall>k. evlist k q = filter (\<lambda>e. e \<notin> set es) (evlist k p)) \<and>
     (\<forall>x. x \<notin> set es \<longrightarrow> nevents q x = nevents p x) \<and>
     p_userdata q = fold (\<lambda>e. F (e_handler (nevents p e)) (told (nevents p e))) es (p_userdata p)"

definition by_timeout :: "'c npool \<Rightarrow> nat list \<Rightarrow> bool" where
  "by_timeout p es \<longleftrightarrow> sorted_wrt (\<lambda>a b. \<not> TIMEVAL_BEFORE (e_timeout (nevents p b)) (e_timeout (nevents p a))) es"

lemma next_expirable:
  assumes "heap_inv p"
  shows "gh_heap_min (timer_heap p) = Some (case nodes (expirables p) of [] \<Rightarrow> None | e # _ \<Rightarrow> Some e)"
    and "x \<in> set (nodes (expirables p)) \<Longrightarrow>
      \<not> TIMEVAL_BEFORE (e_timeout (nevents p x)) (e_timeout (nevents p (hd (nodes (expirables p)))))"
proof -
  have h: "heap_wf (timer_heap p)" "heap_ordered (cmp_op (timer_heap p)) (nodes (expirables p))"
    using assms by (auto simp: heap_inv_def heap_ok_def)
  have l: "length (nodes (expirables p)) = count (expirables p)" using heap_wf_facts(2) [OF h(1)] by simp
  show "gh_heap_min (timer_heap p) = Some (case nodes (expirables p) of [] \<Rightarrow> None | e # _ \<Rightarrow> Some e)"
    using gh_heap_find_spec [OF h(1), of 0] l by (cases "nodes (expirables p)") (auto simp: gh_heap_min_def)
  assume "x \<in> set (nodes (expirables p))"
  then obtain i where i: "i < length (nodes (expirables p))" "nodes (expirables p) ! i = x" by (auto simp: in_set_conv_nth)
  then have "nodes (expirables p) ! 0 = hd (nodes (expirables p))" by (cases "nodes (expirables p)") auto
  then show "\<not> TIMEVAL_BEFORE (e_timeout (nevents p x)) (e_timeout (nevents p (hd (nodes (expirables p)))))"
    using expire.head_minimal [of "\<lambda>e. e_timeout (nevents p e)" "nodes (expirables p)" i] h(2) i
    by (simp add: expirable_cmp_def)
qed

lemma timedout_nodes:
  assumes "heap_inv p" and "all_live p" and "e \<in> set (nodes (expirables p))"
  shows "event_timedout p e \<longleftrightarrow> \<not> TIMEVAL_AFTER (e_timeout (nevents p e)) (nsock_tod p)"
  using assms by (auto simp: event_timedout_def heap_inv_def all_live_def live_def)

lemma after_mono: "TIMEVAL_AFTER a t \<Longrightarrow> \<not> TIMEVAL_BEFORE b a \<Longrightarrow> TIMEVAL_AFTER b t"
  by (auto simp: TIMEVAL_AFTER_def TIMEVAL_BEFORE_def)

lemma delivered_all:
  assumes "lists_ok p" and "heap_inv p" and "delivered F e p r" and "all_live p" and "served F es r q" and "e \<notin> set es"
  shows "served F (e # es) p q"
proof -
  have r: "events_pending r = events_pending p - 1" "\<And>k. evlist k r = remove1 e (evlist k p)"
      "mset (nodes (expirables r)) = mset (nodes (expirables p)) - {#e#}" "\<And>x. x \<noteq> e \<Longrightarrow> nevents r x = nevents p x"
      "p_userdata r = F (e_handler (nevents p e)) (told (nevents p e)) (p_userdata p)"
    using assms(3) by (auto simp: delivered_def deleted_def)
  have n: "set (nodes (expirables r)) = set (nodes (expirables p)) - {e}" by (rule set_minus [OF nodes_distinct [OF assms(2)] r(3)])
  have e: "evlist k r = filter (\<lambda>x. x \<noteq> e) (evlist k p)" for k
    using distinct_remove1_removeAll [OF lists_distinct(2) [OF assms(1)], of e k] by (simp add: r(2) removeAll_filter_not_eq eq_commute)
  have f: "fold (\<lambda>e. F (e_handler (nevents r e)) (told (nevents r e))) es c =
      fold (\<lambda>e. F (e_handler (nevents p e)) (told (nevents p e))) es c" for c
  proof (rule fold_cong [OF refl refl])
    fix x assume "x \<in> set es"
    then have "nevents r x = nevents p x" using assms(6) by (intro r(4)) auto
    then show "F (e_handler (nevents r x)) (told (nevents r x)) = F (e_handler (nevents p x)) (told (nevents p x))"
      by (rule arg_cong)
  qed
  have "evlist k q = filter (\<lambda>x. x \<notin> set (e # es)) (evlist k p)" for k
    using assms(5) by (simp add: served_def e conj_commute)
  moreover have "nevents q x = nevents p x" if "x \<notin> set (e # es)" for x
    using assms(5) that r(4) by (simp add: served_def)
  ultimately show ?thesis
    using assms(5) unfolding served_def by (simp add: r(1,5) n f) blast
qed

lemma expired_loop:
  assumes "quiet H F"
  shows "pool_inv p \<Longrightarrow> all_live p \<Longrightarrow>
    \<exists>q es. process_expired_events H p = Some q \<and> served F es p q \<and> same_env p q \<and> distinct es \<and> set es = due p \<and> by_timeout p es"
proof (induction "length (nodes (expirables p))" arbitrary: p)
  case 0
  then have "heap_inv p" "nodes (expirables p) = []" by (auto simp: pool_inv_def pool_inv_off_def)
  then have "process_expired_events H p = Some p" using next_expirable(1) [of p] by (subst process_expired_events.simps) simp
  moreover have "served F [] p p" using 0 by (simp add: served_def)
  ultimately show ?case using \<open>nodes (expirables p) = []\<close> by (intro exI [of _ p] exI [of _ "[]"]) (simp add: due_def by_timeout_def)
next
  case (Suc n)
  have inv: "heap_inv p" "lists_ok p" using Suc.prems(1) by (auto simp: pool_inv_def pool_inv_off_def)
  obtain e ns where ns: "nodes (expirables p) = e # ns" using Suc.hyps(2) by (cases "nodes (expirables p)") auto
  then have en: "e \<in> set (nodes (expirables p))" "gh_heap_min (timer_heap p) = Some (Some e)" using next_expirable(1) [OF inv(1)] by simp_all
  note t = timedout_nodes [OF inv(1) Suc.prems(2)]
  have first: "\<not> TIMEVAL_BEFORE (e_timeout (nevents p x)) (e_timeout (nevents p e))" if "x \<in> set (nodes (expirables p))" for x
    using next_expirable(2) [OF inv(1) that] by (simp add: ns)
  show ?case
  proof (cases "event_timedout p e")
    case False
    then have "process_expired_events H p = Some p" using en(2) by (subst process_expired_events.simps) simp
    moreover have "due p = {}" using False first t en(1) after_mono unfolding due_def by blast
    moreover have "served F [] p p" using Suc.prems by (simp add: served_def)
    ultimately show ?thesis by (intro exI [of _ p] exI [of _ "[]"]) (simp add: by_timeout_def)
  next
    case True
    have pe: "pending_event p e" using Suc.prems en(1) by (simp add: pending_event_def all_live_def)
    obtain q' r where r: "process_event H p e EV_NONE = Some q'" "event_done (nevents q' e)" "nevent_unref q' e = Some r"
        "delivered F e p r"
      using deliver_one [OF assms pe True] by blast
    have d: "deleted e p r" "nsock_tod r = nsock_tod p" using r(4) by (auto simp: delivered_def same_env_def)
    have ri: "pool_inv r" "mset (nodes (expirables r)) = mset (nodes (expirables p)) - {#e#}" "\<And>x. x \<noteq> e \<Longrightarrow> nevents r x = nevents p x"
      using d(1) by (auto simp: deleted_def)
    have rl: "all_live r" by (rule all_live_survivors [OF Suc.prems(2) deleted_survivors [OF Suc.prems(1) d(1)]])
    have rn: "set (nodes (expirables r)) = set (nodes (expirables p)) - {e}" by (rule set_minus [OF nodes_distinct [OF inv(1)] ri(2)])
    have "length (nodes (expirables r)) = n" using arg_cong [OF ri(2), of size] Suc.hyps(2) by (simp add: ns)
    then obtain q es where q: "process_expired_events H r = Some q" "served F es r q" "distinct es" "set es = due r" "by_timeout r es"
        "same_env r q"
      using Suc.hyps(1) [OF _ ri(1) rl] by blast
    have ed: "event_timedout r x = event_timedout p x" if "x \<noteq> e" for x using ri(3) [OF that] d(2) by (simp add: event_timedout_def)
    have dr: "due r = due p - {e}" "e \<in> due p" using ed True en(1) by (auto simp: due_def rn)
    have "process_expired_events H p = Some q"
      using en(2) True r(1-3) q(1) by (subst process_expired_events.simps) simp
    moreover have "served F (e # es) p q"
      by (rule delivered_all [OF inv(2,1) r(4) Suc.prems(2) q(2)]) (simp add: q(4) dr)
    moreover have "by_timeout p es"
      using q(5) unfolding by_timeout_def by (rule sorted_wrt_mono_rel [rotated]) (use ri(3) q(4) dr in auto)
    then have "by_timeout p (e # es)" using first q(4) dr by (auto simp: by_timeout_def due_def)
    moreover have "same_env p q" using same_env_trans [OF _ q(6)] r(4) by (simp add: delivered_def)
    ultimately show ?thesis using q(3,4) dr by (intro exI [of _ q] exI [of _ "e # es"]) (simp add: insert_absorb)
  qed
qed

lemma expired_delivered:
  assumes "quiet H F" and "pool_inv p" and "all_live p"
  shows "\<exists>q es. process_expired_events H p = Some q \<and> served F es p q \<and> same_env p q \<and> distinct es \<and> set es = due p \<and>
    by_timeout p es \<and> due q = {}"
proof -
  obtain q es where q: "process_expired_events H p = Some q" "served F es p q" "same_env p q" "distinct es" "set es = due p"
      "by_timeout p es"
    using expired_loop [OF assms] by blast
  have "event_timedout q e = event_timedout p e" if "e \<notin> set es" for e
    using q(2,3) that by (simp add: event_timedout_def served_def same_env_def)
  then have "due q = {}" using q(2,5) by (auto simp: due_def served_def)
  then show ?thesis using q by blast
qed

section \<open>A pool with timers only\<close>

lemma served_trans:
  assumes "served F as p q" and "served F bs q r" and "set bs \<inter> set as = {}"
  shows "served F (as @ bs) p r"
proof -
  have f: "fold (\<lambda>e. F (e_handler (nevents q e)) (told (nevents q e))) bs c =
      fold (\<lambda>e. F (e_handler (nevents p e)) (told (nevents p e))) bs c" for c
  proof (rule fold_cong [OF refl refl])
    fix x assume "x \<in> set bs"
    then have "nevents q x = nevents p x" using assms(1,3) by (auto simp: served_def)
    then show "F (e_handler (nevents q x)) (told (nevents q x)) = F (e_handler (nevents p x)) (told (nevents p x))"
      by (rule arg_cong)
  qed
  have "evlist k r = filter (\<lambda>e. e \<notin> set (as @ bs)) (evlist k p)" for k
    using assms(1,2) by (simp add: served_def)
  then show ?thesis using assms(1,2) unfolding served_def by (simp add: f) blast
qed

text \<open>The last time the clock will show.\<close>

definition final_time :: "'c npool \<Rightarrow> timeval" where
  "final_time p = last (nsock_tod p # clock (os p))"

lemma gettimeofday_fields:
  "listed (gettimeofday p) = listed p"
  "selects (os (gettimeofday p)) = selects (os p)" "clock (os (gettimeofday p)) = tl (clock (os p))"
  "final_time (gettimeofday p) = final_time p"
  "clock (os p) = [] \<Longrightarrow> gettimeofday p = p"
  by (cases "clock (os p)"; simp add: gettimeofday_def listed_def final_time_def)+

lemma gettimeofday_served: "served F es (gettimeofday p) q = served F es p q" "by_timeout (gettimeofday p) es = by_timeout p es"
  by (simp_all add: served_def by_timeout_def gettimeofday_fields)

lemma gettimeofday_inv: "pool_inv p \<Longrightarrow> pool_inv (gettimeofday p)" "all_live p \<Longrightarrow> all_live (gettimeofday p)"
proof -
  show "pool_inv p \<Longrightarrow> pool_inv (gettimeofday p)" unfolding pool_inv_def
    by (erule pool_inv_off_cong; cases "clock (os p)"; simp add: gettimeofday_def same_events_def live_def)
  show "all_live p \<Longrightarrow> all_live (gettimeofday p)" by (simp add: all_live_def live_def gettimeofday_fields)
qed

definition timers_only :: "'c npool \<Rightarrow> bool" where
  "timers_only p \<longleftrightarrow> pool_inv p \<and> all_live p \<and> active_iods p = [] \<and> \<not> quit p \<and>
     (\<forall>e\<in>set (nodes (expirables p)). \<not> TIMEVAL_AFTER (e_timeout (nevents p e)) (final_time p))"

lemma timers_only_pending:
  assumes "timers_only p"
  shows "events_pending p = int (length (nodes (expirables p)))"
proof -
  have inv: "lists_ok p" "heap_inv p" "counts_ok 0 (\<lambda>_. 0) p" "all_live p" "active_iods p = []"
    using assms by (auto simp: timers_only_def pool_inv_def pool_inv_off_def)
  have l: "listed p = []" using inv(1,5) by (auto simp: lists_ok_def listed_def neq_Nil_conv)
  have "filter (\<lambda>e. e_type (nevents p e) = NSE_TYPE_TIMER) (nodes (expirables p)) = nodes (expirables p)"
    using inv(2) by (auto simp: filter_id_conv heap_inv_def l)
  moreover have "filter (live p) (nodes (expirables p)) = nodes (expirables p)"
    using inv(4) by (auto simp: filter_id_conv all_live_def)
  ultimately show ?thesis using inv(3) by (simp add: counts_ok_def l timers_def)
qed

lemma not_yet: "TIMEVAL_AFTER b t \<Longrightarrow> \<not> TIMEVAL_AFTER a t \<Longrightarrow> \<not> TIMEVAL_BEFORE b a"
  by (auto simp: TIMEVAL_AFTER_def TIMEVAL_BEFORE_def)

lemma later_after:
  assumes "pool_inv p" and "all_live p" and "served F es p q" and "by_timeout p es" and "set es = due (gettimeofday p)"
    and "due q = {}" and "nsock_tod q = nsock_tod (gettimeofday p)" and "set fs = set (nodes (expirables q))" and "by_timeout q fs"
  shows "by_timeout p (es @ fs)"
proof -
  have same: "nevents q x = nevents p x" if "x \<in> set fs" for x
    using assms(3,8) that by (auto simp: served_def)
  have "by_timeout p fs" unfolding by_timeout_def
    by (rule sorted_wrt_mono_rel [OF _ assms(9) [unfolded by_timeout_def]]) (use same in auto)
  moreover have "\<not> TIMEVAL_BEFORE (e_timeout (nevents p b)) (e_timeout (nevents p a))" if "a \<in> set es" "b \<in> set fs" for a b
  proof -
    have q: "heap_inv q" "all_live q" using assms(3) by (auto simp: served_def pool_inv_def pool_inv_off_def)
    have "TIMEVAL_AFTER (e_timeout (nevents q b)) (nsock_tod q)"
      using timedout_nodes [OF q, of b] that(2) assms(6,8) by (auto simp: due_def)
    moreover have "\<not> TIMEVAL_AFTER (e_timeout (nevents p a)) (nsock_tod q)"
      using that(1) assms(5,7) by (auto simp: due_def event_timedout_def)
    ultimately have "\<not> TIMEVAL_BEFORE (e_timeout (nevents q b)) (e_timeout (nevents p a))" by (rule not_yet)
    then show ?thesis by (subst (asm) same [OF that(2)])
  qed
  ultimately show ?thesis using assms(4) by (auto simp: by_timeout_def sorted_wrt_append)
qed

lemma timers_round:
  assumes "quiet H F" and "timers_only p" and "events_pending p \<noteq> 0"
  shows "\<exists>q es. select_loop H p (-1) = Some (q, 1) \<and> served F es p q \<and> distinct es \<and> by_timeout p es \<and>
    set es = due (gettimeofday p) \<and> timers_only (gettimeofday q) \<and> (nodes (expirables q) \<noteq> [] \<longrightarrow> clock (os p) \<noteq> []) \<and>
    clock (os (gettimeofday q)) = tl (tl (clock (os p))) \<and> due q = {} \<and> nsock_tod q = nsock_tod (gettimeofday p)"
proof -
  define g where "g = gettimeofday p"
  have p: "pool_inv p" "all_live p" "active_iods p = []" "\<not> quit p"
      "\<forall>e\<in>set (nodes (expirables p)). \<not> TIMEVAL_AFTER (e_timeout (nevents p e)) (final_time p)"
    using assms(2) by (auto simp: timers_only_def)
  have hi: "heap_inv p" using p(1) by (simp add: pool_inv_def pool_inv_off_def)
  obtain q es where q: "process_expired_events H g = Some q" "served F es g q" "same_env g q" "distinct es" "set es = due g"
      "by_timeout g es" "due q = {}"
    using expired_delivered [OF assms(1) gettimeofday_inv [of p]] p(1,2) unfolding g_def by blast
  have ev: "\<exists>n. event_msecs p = Some n"
    using next_expirable(1) [OF hi] by (simp add: event_msecs_def next_expirable_event_def)
  then have "select_wait (selects (os p)) 0 (-1) p = Some (selects (os p), g, None)"
    by (cases "selects (os p)") (auto simp: g_def)
  moreover have "selects (os p) = selects (os g)" by (simp add: g_def gettimeofday_fields(2))
  then have "g\<lparr>os := (os g)\<lparr>selects := selects (os p)\<rparr>\<rparr> = g" by simp
  moreover have "active_iods_loop H lst g None = Some g" for lst by (subst active_iods_loop.simps) simp
  then have "iterate_through_event_lists H g = Some q"
    using q(1) p(3) by (simp add: iterate_through_event_lists_def g_def)
  ultimately have "select_loop H p (-1) = Some (q, 1)"
    using assms(3) p(3) by (simp add: select_loop_def del: select_wait.simps)
  moreover have sp: "served F es p q" "by_timeout p es" using q(2,6) by (simp_all add: g_def gettimeofday_served)
  moreover have env: "quit q = quit p" "active_iods q = []" "os q = os g" "nsock_tod q = nsock_tod g"
    using q(3) p(3) by (simp_all add: same_env_def g_def)
  have l: "final_time q = final_time p"
    using gettimeofday_fields(4) [of p] by (simp add: final_time_def env(3,4) g_def)
  have "timers_only q"
    using sp(1) env(1,2) p(4,5) unfolding timers_only_def l by (auto simp: served_def)
  then have "timers_only (gettimeofday q)"
    using gettimeofday_inv [of q] by (simp add: timers_only_def gettimeofday_fields(4))
  moreover have "clock (os p) \<noteq> []" if n: "nodes (expirables q) \<noteq> []"
  proof
    assume c: "clock (os p) = []"
    then have "g = p" by (simp add: g_def gettimeofday_fields(5))
    obtain e where e: "e \<in> set (nodes (expirables q))" using hd_in_set [OF n] ..
    have "e \<in> set (nodes (expirables p)) - set es" using e sp(1) by (simp add: served_def)
    then have e: "e \<in> set (nodes (expirables p))" "e \<notin> due p" using q(5) [unfolded \<open>g = p\<close>] by simp_all
    then have "TIMEVAL_AFTER (e_timeout (nevents p e)) (nsock_tod p)"
      using timedout_nodes [OF hi p(2) e(1)] by (simp add: due_def)
    moreover have "final_time p = nsock_tod p" by (simp add: final_time_def c)
    ultimately show False using p(5) e(1) by auto
  qed
  ultimately show ?thesis
    using q(4,5,7) env(3,4) by (intro exI [of _ q] exI [of _ es]) (simp add: g_def gettimeofday_fields(3))
qed

lemma timers_rounds:
  assumes "quiet H F"
  shows "timers_only p \<Longrightarrow> \<exists>q es. nsock_loop_rounds H lt (-1) n p = Some (q, NSOCK_LOOP_NOEVENTS) \<and> served F es p q \<and>
    distinct es \<and> set es = set (nodes (expirables p)) \<and> by_timeout p es"
proof (induction "length (clock (os p))" arbitrary: p n rule: less_induct)
  case less
  have p: "\<not> quit p" "pool_inv p" "all_live p" "heap_inv p" using less.prems by (auto simp: timers_only_def pool_inv_def pool_inv_off_def)
  have stop: "nsock_loop_rounds H lt (-1) n p = Some (p, NSOCK_LOOP_NOEVENTS)" if "timers_only p" "nodes (expirables p) = []" for p n
    using that timers_only_pending [OF that(1)] by (subst nsock_loop_rounds.simps) (simp add: timers_only_def)
  show ?case
  proof (cases "nodes (expirables p) = []")
    case True
    then show ?thesis
      using stop [OF less.prems] p by (intro exI [of _ p] exI [of _ "[]"]) (simp add: served_def by_timeout_def)
  next
    case False
    then have ev: "events_pending p \<noteq> 0" using timers_only_pending [OF less.prems] by simp
    obtain q es where q: "select_loop H p (-1) = Some (q, 1)" "served F es p q" "distinct es" "by_timeout p es"
        "set es = due (gettimeofday p)" "timers_only (gettimeofday q)" "nodes (expirables q) \<noteq> [] \<longrightarrow> clock (os p) \<noteq> []"
        "clock (os (gettimeofday q)) = tl (tl (clock (os p)))" "due q = {}" "nsock_tod q = nsock_tod (gettimeofday p)"
      using timers_round [OF assms less.prems ev] by blast
    have step: "nsock_loop_rounds H lt (-1) n p = nsock_loop_rounds H lt (-1) (n + 1) (gettimeofday q)"
      using p(1) ev q(1) by (subst nsock_loop_rounds.simps) simp
    have nq: "set (nodes (expirables q)) = set (nodes (expirables p)) - set es" using q(2) by (simp add: served_def)
    have "\<exists>r fs. nsock_loop_rounds H lt (-1) (n + 1) (gettimeofday q) = Some (r, NSOCK_LOOP_NOEVENTS) \<and>
        served F fs (gettimeofday q) r \<and> distinct fs \<and> set fs = set (nodes (expirables (gettimeofday q))) \<and>
        by_timeout (gettimeofday q) fs"
    proof (cases "nodes (expirables q) = []")
      case True
      then show ?thesis using stop [OF q(6)] q(6)
        by (intro exI [of _ "gettimeofday q"] exI [of _ "[]"]) (simp add: served_def by_timeout_def timers_only_def)
    next
      case False
      then have "length (clock (os (gettimeofday q))) < length (clock (os p))" using q(7,8) by (cases "clock (os p)") auto
      then show ?thesis by (rule less.hyps [OF _ q(6)])
    qed
    then obtain r fs where r: "nsock_loop_rounds H lt (-1) (n + 1) (gettimeofday q) = Some (r, NSOCK_LOOP_NOEVENTS)"
        "served F fs q r" "distinct fs" "set fs = set (nodes (expirables q))" "by_timeout q fs"
      by (auto simp: gettimeofday_served)
    have dis: "set fs \<inter> set es = {}" using r(4) nq by auto
    have "served F (es @ fs) p r" by (rule served_trans [OF q(2) r(2) dis])
    moreover have "set es \<subseteq> set (nodes (expirables p))" using q(5) by (auto simp: due_def)
    then have "set (es @ fs) = set (nodes (expirables p))" using r(4) nq by auto
    moreover have "by_timeout p (es @ fs)" using later_after [OF p(2,3) q(2,4,5,9,10) r(4,5)] .
    moreover have "distinct (es @ fs)" using q(3) r(3) dis by auto
    ultimately show ?thesis using step r(1) by auto
  qed
qed

lemma timer_create_env:
  assumes "nsock_timer_create H p h ms u = Some (q, ident)"
  shows "same_env (gettimeofday p) q \<and> p_userdata q = p_userdata p"
proof -
  obtain r e where r: "event_new p NSE_TYPE_TIMER None ms h u = Some (r, e)" "nsock_pool_add_event H r e = Some q"
    using assms unfolding nsock_timer_create_def bind_eq_Some_conv by (elim exE conjE) (auto simp: bind_eq_Some_conv split: prod.splits)
  obtain p1 e1 where a: "alloc_event (gettimeofday p) = (p1, e1)" by fastforce
  obtain p2 x where g: "get_new_event_id p1 NSE_TYPE_TIMER = (p2, x)" by fastforce
  have p2: "same_env (gettimeofday p) p2" "p_userdata p2 = p_userdata p"
    by (simp_all add: same_env_def alloc_event_sel [OF a] get_new_event_id_sel [OF g])
  have rq: "same_env p2 r" "p_userdata r = p_userdata p2" "e_type (nevents r e) = NSE_TYPE_TIMER" "\<not> event_done (nevents r e)"
    using r(1) a g by (auto simp: event_new_def Let_def same_env_def nevent_zero_def split: bind_splits if_splits)
  then have "same_env r q \<and> p_userdata q = p_userdata r"
    using r(2) by (auto simp: nsock_pool_add_event_def Let_def same_env_def split: bind_splits if_splits)
  then show ?thesis using p2 rq(1,2) same_env_trans by metis
qed

section \<open>A client that keeps a log\<close>

definition log_handlers :: "nat list handlers" where
  "log_handlers = (\<lambda>h p _. Some (p\<lparr>p_userdata := p_userdata p @ [h]\<rparr>))"

text \<open>The clock stands at 1000 seconds when the pool and a timer are made, and at 1002 later.\<close>

definition log_answers :: sys_answers where
  "log_answers = demo_answers\<lparr>clock := [\<lparr>tv_sec = 1000, tv_usec = 0\<rparr>, \<lparr>tv_sec = 1000, tv_usec = 0\<rparr>, \<lparr>tv_sec = 1002, tv_usec = 0\<rparr>]\<rparr>"

definition log_pool :: "nat list npool" where
  "log_pool = the (nsock_pool_new [] log_answers \<lparr>tv_sec = 0, tv_usec = 0\<rparr>)"

lemma log_pool: "nsock_pool_new [] log_answers \<lparr>tv_sec = 0, tv_usec = 0\<rparr> = Some log_pool"
  using new_pool_returns [of "[] :: nat list" log_answers "\<lparr>tv_sec = 0, tv_usec = 0\<rparr>"] by (auto simp: log_pool_def)

lemma new_pool_userdata:
  assumes "nsock_pool_new u answers now = Some p"
  shows "p_userdata p = u" "\<not> quit p"
  using assms by (auto simp: nsock_pool_new_def split: bind_splits)

lemma log_quiet: "quiet log_handlers (\<lambda>h _ c. c @ [h])"
  by (simp add: quiet_def log_handlers_def)

lemma log_timer:
  "\<exists>p e. nsock_timer_create log_handlers log_pool 4 250 9 = Some (p, e_id (nevents p e)) \<and> pool_reached log_handlers p \<and>
     nodes (expirables p) = [e] \<and> e_handler (nevents p e) = 4 \<and> p_userdata p = [] \<and> active_iods p = [] \<and> \<not> quit p \<and>
     final_time p = \<lparr>tv_sec = 1002, tv_usec = 0\<rparr> \<and>
     \<not> TIMEVAL_AFTER (e_timeout (nevents p e)) \<lparr>tv_sec = 1002, tv_usec = 0\<rparr>"
proof -
  note n = new_pool_inv [OF log_pool]
  have rp: "pool_reached log_handlers log_pool" by (rule new_pool [OF log_pool])
  have c: "clock (os log_pool) = [\<lparr>tv_sec = 1000, tv_usec = 0\<rparr>, \<lparr>tv_sec = 1002, tv_usec = 0\<rparr>]"
      "nsock_tod log_pool = \<lparr>tv_sec = 1000, tv_usec = 0\<rparr>"
    by (simp_all add: n(8,9) log_answers_def)
  have ck: "clock_ok log_pool" by (simp add: clock_ok_def c good_time_def normal_tv_def)
  have rm: "room log_pool" using n(2) by (simp add: room_def GH_HEAP_GUARD_def)
  obtain p e where p: "nsock_timer_create log_handlers log_pool 4 250 9 = Some (p, e_id (nevents p e))"
      "timer_request 4 250 log_pool e p"
    using nsock_timer_create_requested [OF n(1) rm _ ck, of 250 log_handlers 4 9] by auto
  have env: "same_env (gettimeofday log_pool) p" "p_userdata p = []"
    using timer_create_env [OF p(1)] new_pool_userdata(1) [OF log_pool] by simp_all
  then have o: "nsock_tod p = \<lparr>tv_sec = 1000, tv_usec = 0\<rparr>" "clock (os p) = [\<lparr>tv_sec = 1002, tv_usec = 0\<rparr>]"
      "active_iods p = []" "\<not> quit p"
    using c n(3) new_pool_userdata(2) [OF log_pool] by (simp_all add: same_env_def gettimeofday_def)
  have t: "usecs (e_timeout (nevents p e)) = 1000250000" "normal_tv (e_timeout (nevents p e))"
      "mset (nodes (expirables p)) = {#e#}" "e_handler (nevents p e) = 4"
    using p(2) n(7) by (simp_all add: timer_request_def o usecs_def)
  have "nodes (expirables p) = [e]" using t(3) by simp
  moreover have "\<not> TIMEVAL_AFTER (e_timeout (nevents p e)) \<lparr>tv_sec = 1002, tv_usec = 0\<rparr>"
    using t(1,2) by (simp add: TIMEVAL_AFTER_def usecs_def normal_tv_def)
  moreover have "pool_reached log_handlers p" by (rule timer_step [OF rp ck rm _ p(1)]) simp
  ultimately show ?thesis using p(1) o env(2) t(4) by (auto simp: final_time_def)
qed

lemma only_event: "distinct es \<Longrightarrow> set es = {e} \<Longrightarrow> es = [e]"
  by (cases es; cases "tl es") auto

section \<open>Properties\<close>

text \<open>C12: in every reachable pool, whatever the time \<open>t\<close> is, processing the expired events returns: no assertion fails.
  The events whose timeout is not after \<open>t\<close>, and no others, are delivered to their handlers, each once, in the order
  of their timeouts, timers with success, the other events with a timeout (a read that has data with success); they
  are then in no list, not in the heap and not counted, and all other events are left alone. The handlers are those
  of a client that only notes what it is told.\<close>

theorem expired_events_delivered:
  assumes "pool_reached H p" and "quiet H F"
  shows "\<exists>q es. process_expired_events H (p\<lparr>nsock_tod := t\<rparr>) = Some q \<and> distinct es \<and>
    set es = {e \<in> set (nodes (expirables p)). \<not> TIMEVAL_AFTER (e_timeout (nevents p e)) t} \<and> by_timeout p es \<and> served F es p q"
proof -
  define g where "g = p\<lparr>nsock_tod := t\<rparr>"
  have g: "nevents g = nevents p" "expirables g = expirables p" "listed g = listed p" "nsock_tod g = t"
    by (simp_all add: g_def listed_def)
  have "pool_inv g" unfolding pool_inv_def
    by (rule pool_inv_off_cong [OF reached_inv [OF assms(1), unfolded pool_inv_def]]) (simp_all add: g_def same_events_def live_def)
  moreover have "all_live g" using reached_live [OF assms(1)] by (simp add: all_live_def live_def g)
  ultimately obtain q es where q: "process_expired_events H g = Some q" "served F es g q" "distinct es" "set es = due g" "by_timeout g es"
    using expired_delivered [OF assms(2)] by blast
  have "due g = {e \<in> set (nodes (expirables p)). \<not> TIMEVAL_AFTER (e_timeout (nevents p e)) t}"
    using timedout_nodes [OF _ \<open>all_live g\<close>] \<open>pool_inv g\<close> by (auto simp: due_def g pool_inv_def pool_inv_off_def)
  moreover have "served F es p q" using q(2) by (simp add: served_def g) (simp add: g_def)
  moreover have "by_timeout p es" using q(5) by (simp add: by_timeout_def g)
  ultimately show ?thesis using q(1,3,4) by (auto simp: g_def)
qed

theorem expired_events_delivered_witness:
  "\<exists>p e q. nsock_timer_create log_handlers log_pool 4 250 9 = Some (p, e_id (nevents p e)) \<and>
     process_expired_events log_handlers (p\<lparr>nsock_tod := \<lparr>tv_sec = 1002, tv_usec = 0\<rparr>\<rparr>) = Some q \<and>
     p_userdata q = [4] \<and> nodes (expirables q) = []"
proof -
  obtain p e where p: "nsock_timer_create log_handlers log_pool 4 250 9 = Some (p, e_id (nevents p e))" "pool_reached log_handlers p"
      "nodes (expirables p) = [e]" "e_handler (nevents p e) = 4" "p_userdata p = []"
      "\<not> TIMEVAL_AFTER (e_timeout (nevents p e)) \<lparr>tv_sec = 1002, tv_usec = 0\<rparr>"
    using log_timer by blast
  obtain q es where q: "process_expired_events log_handlers (p\<lparr>nsock_tod := \<lparr>tv_sec = 1002, tv_usec = 0\<rparr>\<rparr>) = Some q"
      "distinct es" "set es = {e}" "served (\<lambda>h _ c. c @ [h]) es p q"
    using expired_events_delivered [OF p(2) log_quiet, of "\<lparr>tv_sec = 1002, tv_usec = 0\<rparr>"] p(3,6) by auto
  have "p_userdata q = [4]" "nodes (expirables q) = []"
    using q(4) only_event [OF q(2,3)] p(3-5) by (simp_all add: served_def)
  then show ?thesis using p(1) q(1) by blast
qed

text \<open>C11: every timer fires. If the pool of a client has timers only and the clock gets as far as the last of them,
  \<open>nsock_loop\<close> without a timeout returns, and says that there are no events left: each timer was delivered to its
  handler, once and in the order of the timeouts.\<close>

theorem timers_all_fire:
  assumes "pool_reached H p" and "quiet H F" and "active_iods p = []" and "\<not> quit p"
    and "\<forall>e\<in>set (nodes (expirables p)). \<not> TIMEVAL_AFTER (e_timeout (nevents p e)) (final_time p)"
  shows "\<exists>q es. nsock_loop H p (-1) = Some (q, NSOCK_LOOP_NOEVENTS) \<and> distinct es \<and> set es = set (nodes (expirables p)) \<and>
    by_timeout p es \<and> served F es p q \<and> nodes (expirables q) = [] \<and> events_pending q = 0"
proof -
  have to: "timers_only (gettimeofday p)"
    using assms(3-5) gettimeofday_inv(1) [OF reached_inv [OF assms(1)]] gettimeofday_inv(2) [OF reached_live [OF assms(1)]]
    by (simp add: timers_only_def gettimeofday_fields(4))
  obtain q es where q: "nsock_loop H p (-1) = Some (q, NSOCK_LOOP_NOEVENTS)" "served F es p q" "distinct es"
      "set es = set (nodes (expirables p))" "by_timeout p es"
    using timers_rounds [OF assms(2) to, of "TIMEVAL_MSEC_ADD (nsock_tod (gettimeofday p)) (-1)" 0]
    by (auto simp: nsock_loop_def Let_def gettimeofday_served)
  have n: "nodes (expirables q) = []" using q(2,4) by (simp add: served_def)
  have "heap_inv p" using reached_inv [OF assms(1)] by (simp add: pool_inv_def pool_inv_off_def)
  then have "length es = length (nodes (expirables p))"
    using distinct_card [OF q(3)] distinct_card [OF nodes_distinct, of p] q(4) by simp
  then have "events_pending q = 0" using q(2) timers_only_pending [OF to] by (simp add: served_def)
  then show ?thesis using q n by blast
qed

theorem timers_all_fire_witness:
  "\<exists>p e q. nsock_timer_create log_handlers log_pool 4 250 9 = Some (p, e_id (nevents p e)) \<and>
     nsock_loop log_handlers p (-1) = Some (q, NSOCK_LOOP_NOEVENTS) \<and> p_userdata q = [4] \<and> events_pending q = 0"
proof -
  obtain p e where p: "nsock_timer_create log_handlers log_pool 4 250 9 = Some (p, e_id (nevents p e))" "pool_reached log_handlers p"
      "nodes (expirables p) = [e]" "e_handler (nevents p e) = 4" "p_userdata p = []" "active_iods p = []" "\<not> quit p"
      "final_time p = \<lparr>tv_sec = 1002, tv_usec = 0\<rparr>" "\<not> TIMEVAL_AFTER (e_timeout (nevents p e)) \<lparr>tv_sec = 1002, tv_usec = 0\<rparr>"
    using log_timer by blast
  obtain q es where q: "nsock_loop log_handlers p (-1) = Some (q, NSOCK_LOOP_NOEVENTS)"
      "distinct es" "set es = {e}" "served (\<lambda>h _ c. c @ [h]) es p q" "events_pending q = 0"
    using timers_all_fire [OF p(2) log_quiet p(6,7)] p(3,8,9) by auto
  have "p_userdata q = [4]" using q(4) only_event [OF q(2,3)] p(4,5) by (simp add: served_def)
  then show ?thesis using p(1) q(1,5) by blast
qed

end
