(* ===== verification/Lcg.thy ===== *)
theory Lcg
  imports Nmap_Prelude
begin

text \<open>
  Arithmetic behind the collision-free generators of \<open>nbase/nbase_rnd.c\<close>: an affine map
  modulo a power of two whose multiplier is 1 modulo 4 and whose increment is odd runs
  through all residues before it repeats, and the tweaks applied to its output (odd affine
  maps, rotations, exclusive or with a key) are injective.
\<close>

section \<open>Geometric sums modulo powers of two\<close>

definition geo :: "nat \<Rightarrow> nat \<Rightarrow> nat" where
  "geo a n = (\<Sum>i<n. a ^ i)"

lemma geo_0 [simp]: "geo a 0 = 0"
  by (simp add: geo_def)

lemma geo_Suc: "geo a (Suc n) = 1 + a * geo a n"
  unfolding geo_def by (subst sum.lessThan_Suc_shift) (simp add: sum_distrib_left)

lemma geo_double: "geo a (2 * m) = geo a m * (1 + a ^ m)"
proof -
  have "geo a (m + k) = geo a m + a ^ m * geo a k" for k
    by (induction k) (simp_all add: geo_def algebra_simps power_add)
  from this [of m] show ?thesis unfolding mult_2 by (simp add: algebra_simps)
qed

lemma odd_geo: "odd a \<Longrightarrow> odd (geo a n) = odd n"
  by (induction n) (simp_all add: geo_Suc)

lemma one_plus_power:
  assumes "a mod 4 = (1 :: nat)"
  shows "\<exists>q. odd q \<and> 1 + a ^ m = 2 * q"
proof -
  have "a ^ m mod 4 = (a mod 4) ^ m mod 4" by (simp add: power_mod)
  then have "a ^ m mod 4 = 1" using assms by simp
  then have "(1 + a ^ m) mod 4 = 2" by presburger
  then have "1 + a ^ m = 2 * ((1 + a ^ m) div 2) \<and> odd ((1 + a ^ m) div 2)" by presburger
  then show ?thesis by blast
qed

lemma pow2_dvd_geo:
  assumes "a mod 4 = 1"
  shows "2 ^ k dvd geo a n \<longleftrightarrow> 2 ^ k dvd n"
proof (induction k arbitrary: n)
  case 0
  then show ?case by simp
next
  case (Suc k)
  have odd: "odd a" using assms by presburger
  show ?case
  proof (cases "even n")
    case False
    have "even x" if "2 ^ Suc k dvd x" for x :: nat using that by (auto elim: dvdE)
    with False show ?thesis using odd_geo [OF odd] by blast
  next
    case True
    then obtain m where m: "n = 2 * m" by (auto elim: evenE)
    obtain q where q: "odd q" "1 + a ^ m = 2 * q" using one_plus_power [OF assms] by blast
    have g: "geo a n = 2 * (geo a m * q)" using m q(2) by (simp add: geo_double)
    have "2 ^ k dvd geo a m * q \<longleftrightarrow> 2 ^ k dvd geo a m"
      using q(1) by (simp add: coprime_dvd_mult_left_iff)
    with Suc.IH [of m] show ?thesis unfolding g by (simp add: m)
  qed
qed

section \<open>Full period\<close>

definition lcg :: "'a::len word \<Rightarrow> 'a word \<Rightarrow> 'a word \<Rightarrow> 'a word" where
  "lcg a c x = x * a + c"

lemma lcg_iterate:
  "(lcg a c ^^ n) x = x + ((a - 1) * x + c) * of_nat (geo A n)" if "a = of_nat A"
proof (induction n)
  case 0
  then show ?case by simp
next
  case (Suc n)
  have "(lcg a c ^^ Suc n) x = lcg a c ((lcg a c ^^ n) x)" by simp
  also have "\<dots> = x + ((a - 1) * x + c) * (1 + a * of_nat (geo A n))"
    unfolding Suc.IH by (simp add: lcg_def algebra_simps)
  finally show ?case by (simp add: geo_Suc that)
qed

lemma odd_unat: "odd (unat (u :: 'a::len word)) \<longleftrightarrow> odd u"
  by (metis bit_0 bit_unsigned_iff possible_bit_0)

lemma odd_word_mult_eq_0:
  fixes u :: "'a::len word"
  assumes "odd u" and "u * of_nat m = 0"
  shows "2 ^ LENGTH('a) dvd m"
proof -
  have "of_nat (unat u * m) = (0 :: 'a word)" using assms(2) by simp
  then have "2 ^ LENGTH('a) dvd unat u * m" by (simp only: word_of_nat_eq_0_iff)
  moreover have "odd (unat u)" using assms(1) by (simp add: odd_unat)
  ultimately show ?thesis by (simp add: coprime_dvd_mult_right_iff)
qed

lemma odd_of_nat_word: "A mod 4 = 1 \<Longrightarrow> odd (of_nat A :: 'a::len word)"
proof -
  assume "A mod 4 = 1"
  then obtain k where "A = 2 * k + 1" by (metis mod_mult_div_eq mult.commute mult_2_right
        mult_2 numeral_Bit0 distrib_right add.commute)
  then have "(of_nat A :: 'a word) = 2 * of_nat k + 1" by simp
  then show ?thesis by simp
qed

lemma lcg_returns_iff:
  fixes x :: "'a::len word"
  assumes "A mod 4 = 1" and "odd c"
  shows "(lcg (of_nat A) c ^^ n) x = x \<longleftrightarrow> 2 ^ LENGTH('a) dvd n"
proof -
  let ?u = "(of_nat A - 1) * x + c"
  have "even (A - 1)" using assms(1) by presburger
  then have "even (of_nat (A - 1) :: 'a word)" by (metis dvd_def of_nat_mult of_nat_numeral)
  moreover have "1 \<le> A" using assms(1) by (cases A) auto
  ultimately have "even (of_nat A - 1 :: 'a word)" by simp
  then have odd: "odd ?u" using assms(2) by simp
  have "(lcg (of_nat A) c ^^ n) x = x \<longleftrightarrow> ?u * of_nat (geo A n) = 0"
    by (simp add: lcg_iterate [OF refl])
  also have "\<dots> \<longleftrightarrow> 2 ^ LENGTH('a) dvd geo A n"
    using odd_word_mult_eq_0 [OF odd, of "geo A n"] by (auto simp: word_of_nat_eq_0_iff)
  finally show ?thesis using pow2_dvd_geo [OF assms(1)] by simp
qed

lemma odd_mult_inj:
  fixes a :: "'a::len word"
  assumes "odd a" and "x * a = y * a"
  shows "x = y"
proof -
  have "a * of_nat (unat (x - y)) = 0" using assms(2) by (simp add: algebra_simps)
  then have "2 ^ LENGTH('a) dvd unat (x - y)" by (rule odd_word_mult_eq_0 [OF assms(1)])
  then have "unat (x - y) = 0" using unsigned_less [of "x - y"] nat_dvd_not_less by (metis not_gr0)
  then show ?thesis by (simp add: unat_eq_zero)
qed

lemma lcg_inj: "odd a \<Longrightarrow> lcg a c x = lcg a c y \<Longrightarrow> x = y"
  using odd_mult_inj by (auto simp: lcg_def)

lemma lcg_iterate_inj:
  "odd a \<Longrightarrow> (lcg a c ^^ n) x = (lcg a c ^^ n) y \<Longrightarrow> x = y"
  by (induction n) (auto dest: lcg_inj)

text \<open>Two iterates agree exactly when their distance is a multiple of the modulus.\<close>

lemma lcg_iterates_eq_iff:
  fixes x :: "'a::len word"
  assumes "A mod 4 = 1" and "odd c" and "n \<le> m"
  shows "(lcg (of_nat A) c ^^ m) x = (lcg (of_nat A) c ^^ n) x \<longleftrightarrow> 2 ^ LENGTH('a) dvd m - n"
proof -
  let ?f = "lcg (of_nat A) c :: 'a word \<Rightarrow> 'a word"
  have odd: "odd (of_nat A :: 'a word)"
    using odd_of_nat_word assms(1) by blast
  have "(?f ^^ m) x = (?f ^^ n) ((?f ^^ (m - n)) x)"
    using assms(3) funpow_add [of n "m - n" ?f] by simp
  then have "(?f ^^ m) x = (?f ^^ n) x \<longleftrightarrow> (?f ^^ (m - n)) x = x"
    using lcg_iterate_inj [OF odd] by metis
  then show ?thesis using lcg_returns_iff [OF assms(1,2)] by simp
qed

section \<open>Rotations\<close>

definition rotl :: "nat \<Rightarrow> 'a::len word \<Rightarrow> 'a word" where
  "rotl k x = push_bit k x OR drop_bit (LENGTH('a) - k) x"

lemma rotl_inj:
  fixes x y :: "'a::len word"
  assumes "rotl k x = rotl k y" and "k \<le> LENGTH('a)"
  shows "x = y"
proof (rule bit_word_eqI)
  fix n assume n: "n < LENGTH('a)"
  have b: "bit (rotl k z) i \<longleftrightarrow>
      (if k \<le> i then bit z (i - k) else bit z (LENGTH('a) - k + i))"
    if "i < LENGTH('a)" for z :: "'a word" and i
    using that assms(2) bit_imp_le_length [of z "LENGTH('a) - k + i"]
    by (auto simp: rotl_def bit_or_iff bit_push_bit_iff bit_drop_bit_eq)
  show "bit x n = bit y n"
  proof (cases "n + k < LENGTH('a)")
    case True
    then show ?thesis using b [of "n + k" x] b [of "n + k" y] assms(1) by simp
  next
    case False
    then have "n - (LENGTH('a) - k) < k" "LENGTH('a) - k + (n - (LENGTH('a) - k)) = n"
      using n assms(2) by auto
    then show ?thesis
      using b [of "n - (LENGTH('a) - k)" x] b [of "n - (LENGTH('a) - k)" y] assms(1) n by simp
  qed
qed

lemma xor_key_inj: "x XOR k = y XOR k \<Longrightarrow> x = (y :: 'a::len word)"
  by (metis xor.assoc xor_self_eq xor.right_neutral)

end
