(* ===== verification/Nbase_Rnd.thy ===== *)
theory Nbase_Rnd
  imports Lcg
begin

text \<open>
  The random number generators of \<open>nbase/nbase_rnd.c\<close>: the RC4 stream behind
  \<open>get_random_bytes\<close> and the two collision-free generators. The static variables of the C
  functions are explicit states; the seed the operating system provides is an argument.
  Integers are assembled from bytes in the little-endian order of the host.
\<close>

section \<open>The RC4 stream\<close>

record nrand_h =
  r_i :: u8
  r_j :: u8
  r_s :: "u8 \<Rightarrow> u8"

text \<open>One round of the key schedule, with the key byte \<open>k\<close>.\<close>

definition addrandom_step :: "nrand_h \<Rightarrow> u8 \<Rightarrow> nrand_h" where
  "addrandom_step r k =
     (let i = r_i r + 1; si = r_s r i; j = r_j r + si + k
      in r\<lparr>r_i := i, r_j := j, r_s := (r_s r)(i := r_s r j, j := si)\<rparr>)"

text \<open>An empty key would divide by zero, a key shorter than \<open>len\<close> would be overread.\<close>

definition nrand_addrandom :: "nrand_h \<Rightarrow> u8 list \<Rightarrow> nat \<Rightarrow> nrand_h option" where
  "nrand_addrandom r buf len =
     (if len = 0 \<or> length buf < len then None
      else
        let r' = fold (\<lambda>i r. addrandom_step r (buf ! (i mod len))) [0..<256] (r\<lparr>r_i := r_i r - 1\<rparr>)
        in Some (r'\<lparr>r_j := r_i r'\<rparr>))"

definition nrand_getbyte :: "nrand_h \<Rightarrow> nrand_h \<times> u8" where
  "nrand_getbyte r =
     (let i = r_i r + 1; si = r_s r i; j = r_j r + si; sj = r_s r j;
          s = (r_s r)(i := sj, j := si)
      in (r\<lparr>r_i := i, r_j := j, r_s := s\<rparr>, s ((si + sj) AND 0xff)))"

fun nrand_get :: "nrand_h \<Rightarrow> nat \<Rightarrow> nrand_h \<times> u8 list" where
  "nrand_get r 0 = (r, [])"
| "nrand_get r (Suc n) =
     (let (r1, b) = nrand_getbyte r; (r2, bs) = nrand_get r1 n in (r2, b # bs))"

text \<open>\<open>seed\<close> is the 256-byte array after the operating system filled it.\<close>

definition nrand_init :: "u8 list \<Rightarrow> nrand_h option" where
  "nrand_init seed =
     (case nrand_addrandom \<lparr>r_i = 0, r_j = 0, r_s = (\<lambda>i. i)\<rparr> (take 128 seed) 128 of
        None \<Rightarrow> None
      | Some r1 \<Rightarrow>
          (case nrand_addrandom r1 (drop 128 seed) 128 of
             None \<Rightarrow> None
           | Some r2 \<Rightarrow>
               let r3 = fst (nrand_get r2 256); r4 = fst (nrand_get r3 256);
                   r5 = fst (nrand_get r4 256); r6 = fst (nrand_get r5 256)
               in Some r6))"

text \<open>The static \<open>state\<close>/\<open>state_init\<close> pair: \<open>None\<close> is not yet initialised.\<close>

definition get_random_bytes ::
  "u8 list \<Rightarrow> nrand_h option \<Rightarrow> nat \<Rightarrow> (nrand_h option \<times> u8 list) option" where
  "get_random_bytes seed st numbytes =
     (case (case st of None \<Rightarrow> nrand_init seed | Some r \<Rightarrow> Some r) of
        None \<Rightarrow> None
      | Some r \<Rightarrow> let (r', bs) = nrand_get r numbytes in Some (Some r', bs))"

fun le_word :: "u8 list \<Rightarrow> 'a::len word" where
  "le_word [] = 0"
| "le_word (b # bs) = ucast b OR push_bit 8 (le_word bs)"

definition get_random_u32 :: "u8 list \<Rightarrow> nrand_h option \<Rightarrow> (nrand_h option \<times> u32) option" where
  "get_random_u32 seed st = map_option (apsnd le_word) (get_random_bytes seed st 4)"

definition get_random_uint :: "u8 list \<Rightarrow> nrand_h option \<Rightarrow> (nrand_h option \<times> u32) option" where
  "get_random_uint seed st = map_option (apsnd le_word) (get_random_bytes seed st 4)"

definition get_random_int :: "u8 list \<Rightarrow> nrand_h option \<Rightarrow> (nrand_h option \<times> int) option" where
  "get_random_int seed st =
     map_option (apsnd (\<lambda>bs. sint (le_word bs :: u32))) (get_random_bytes seed st 4)"

definition get_random_u64 :: "u8 list \<Rightarrow> nrand_h option \<Rightarrow> (nrand_h option \<times> u64) option" where
  "get_random_u64 seed st = map_option (apsnd le_word) (get_random_bytes seed st 8)"

definition get_random_u16 :: "u8 list \<Rightarrow> nrand_h option \<Rightarrow> (nrand_h option \<times> u16) option" where
  "get_random_u16 seed st = map_option (apsnd le_word) (get_random_bytes seed st 2)"

definition get_random_ushort :: "u8 list \<Rightarrow> nrand_h option \<Rightarrow> (nrand_h option \<times> u16) option" where
  "get_random_ushort seed st = map_option (apsnd le_word) (get_random_bytes seed st 2)"

definition get_random_u8 :: "u8 list \<Rightarrow> nrand_h option \<Rightarrow> (nrand_h option \<times> u8) option" where
  "get_random_u8 seed st = map_option (apsnd le_word) (get_random_bytes seed st 1)"

section \<open>The collision-free generators\<close>

record 'w unique_state =
  u_state :: 'w
  u_tweak1 :: 'w
  u_tweak2 :: 'w
  u_tweak3 :: 'w

text \<open>The four calls of \<open>get_random_bytes\<close> on the first use.\<close>

definition unique_init ::
  "nat \<Rightarrow> u8 list \<Rightarrow> nrand_h option \<Rightarrow> (nrand_h option \<times> 'a::len word unique_state) option" where
  "unique_init sz seed st =
     (case get_random_bytes seed st sz of None \<Rightarrow> None | Some (st1, b1) \<Rightarrow>
      case get_random_bytes seed st1 sz of None \<Rightarrow> None | Some (st2, b2) \<Rightarrow>
      case get_random_bytes seed st2 sz of None \<Rightarrow> None | Some (st3, b3) \<Rightarrow>
      case get_random_bytes seed st3 sz of None \<Rightarrow> None | Some (st4, b4) \<Rightarrow>
        Some (st4, \<lparr>u_state = le_word b1, u_tweak1 = le_word b2, u_tweak2 = le_word b3,
                    u_tweak3 = le_word b4\<rparr>))"

text \<open>The work of a call once the statics are initialised.\<close>

definition unique_u32_step :: "u32 unique_state \<Rightarrow> u32 unique_state \<times> u32" where
  "unique_u32_step u =
     (let st = (((u_state u * 1664525) AND 0xFFFFFFFF) + 1013904223) AND 0xFFFFFFFF;
          out = st;
          out = (push_bit 7 out OR drop_bit (32 - 7) out);
          out = out XOR u_tweak1 u;
          out = (((out * 1103515245) AND 0xFFFFFFFF) + 12345) AND 0xFFFFFFFF;
          out = (push_bit 15 out OR drop_bit (32 - 15) out);
          out = out XOR u_tweak2 u;
          out = (((out * 214013) AND 0xFFFFFFFF) + 2531011) AND 0xFFFFFFFF;
          out = (push_bit 5 out OR drop_bit (32 - 5) out);
          out = out XOR u_tweak3 u
      in (u\<lparr>u_state := st\<rparr>, out))"

definition unique_u16_step :: "u16 unique_state \<Rightarrow> u16 unique_state \<times> u16" where
  "unique_u16_step u =
     (let st = (((u_state u * 25173) AND 0xFFFF) + 13849) AND 0xFFFF;
          out = st;
          out = (push_bit 7 out OR drop_bit (16 - 7) out);
          out = out XOR u_tweak1 u;
          out = (((out * 4321) AND 0xFFFF) + 12345) AND 0xFFFF;
          out = (push_bit 11 out OR drop_bit (16 - 11) out);
          out = out XOR u_tweak2 u;
          out = (((out * 31337) AND 0xFFFF) + 1997) AND 0xFFFF;
          out = (push_bit 5 out OR drop_bit (16 - 5) out);
          out = out XOR u_tweak3 u
      in (u\<lparr>u_state := st\<rparr>, out))"

definition get_random_unique_u32 ::
  "u8 list \<Rightarrow> nrand_h option \<Rightarrow> u32 unique_state option \<Rightarrow>
   (nrand_h option \<times> u32 unique_state option \<times> u32) option" where
  "get_random_unique_u32 seed st us =
     (case (case us of None \<Rightarrow> unique_init 4 seed st | Some u \<Rightarrow> Some (st, u)) of
        None \<Rightarrow> None
      | Some (st', u) \<Rightarrow> let (u', out) = unique_u32_step u in Some (st', Some u', out))"

definition get_random_unique_u16 ::
  "u8 list \<Rightarrow> nrand_h option \<Rightarrow> u16 unique_state option \<Rightarrow>
   (nrand_h option \<times> u16 unique_state option \<times> u16) option" where
  "get_random_unique_u16 seed st us =
     (case (case us of None \<Rightarrow> unique_init 2 seed st | Some u \<Rightarrow> Some (st, u)) of
        None \<Rightarrow> None
      | Some (st', u) \<Rightarrow> let (u', out) = unique_u16_step u in Some (st', Some u', out))"

text \<open>The first \<open>n\<close> results of a program that only calls one of the two generators.\<close>

fun unique_u32_run ::
  "u8 list \<Rightarrow> nrand_h option \<Rightarrow> u32 unique_state option \<Rightarrow> nat \<Rightarrow> u32 list option" where
  "unique_u32_run seed st us 0 = Some []"
| "unique_u32_run seed st us (Suc n) =
     (case get_random_unique_u32 seed st us of
        None \<Rightarrow> None
      | Some (st', us', out) \<Rightarrow> map_option ((#) out) (unique_u32_run seed st' us' n))"

fun unique_u16_run ::
  "u8 list \<Rightarrow> nrand_h option \<Rightarrow> u16 unique_state option \<Rightarrow> nat \<Rightarrow> u16 list option" where
  "unique_u16_run seed st us 0 = Some []"
| "unique_u16_run seed st us (Suc n) =
     (case get_random_unique_u16 seed st us of
        None \<Rightarrow> None
      | Some (st', us', out) \<Rightarrow> map_option ((#) out) (unique_u16_run seed st' us' n))"

text \<open>Repeated calls of a generator step.\<close>

fun step_run :: "('s \<Rightarrow> 's \<times> 'o) \<Rightarrow> 's \<Rightarrow> nat \<Rightarrow> 'o list" where
  "step_run f s 0 = []"
| "step_run f s (Suc n) = (let (s', out) = f s in out # step_run f s' n)"

lemma distinct_by_index:
  "(\<And>i j. i < j \<Longrightarrow> j < length xs \<Longrightarrow> xs ! i \<noteq> xs ! j) \<Longrightarrow> distinct xs"
  unfolding distinct_conv_nth by (metis nat_neq_iff)

section \<open>The RC4 table stays a permutation\<close>

lemma bij_swap_values:
  fixes s :: "'a \<Rightarrow> 'b"
  assumes "bij s"
  shows "bij (s(i := s j, j := s i))"
proof -
  have "s(i := s j, j := s i) = s \<circ> (\<lambda>k. if k = i then j else if k = j then i else k)"
    by (auto simp: fun_eq_iff)
  moreover have "bij (\<lambda>k. if k = i then j else if k = j then i else k)"
    by (rule o_bij [of "\<lambda>k. if k = i then j else if k = j then i else k"]) (auto simp: fun_eq_iff)
  ultimately show ?thesis using assms by (simp add: bij_comp)
qed

definition rc4_ok :: "nrand_h \<Rightarrow> bool" where
  "rc4_ok r \<longleftrightarrow> bij (r_s r)"

lemma addrandom_step_ok: "rc4_ok r \<Longrightarrow> rc4_ok (addrandom_step r k)"
  using bij_swap_values [of "r_s r" "r_i r + 1" "r_j r + r_s r (r_i r + 1) + k"]
  by (simp add: rc4_ok_def addrandom_step_def Let_def)

lemma nrand_getbyte_ok: "rc4_ok r \<Longrightarrow> rc4_ok (fst (nrand_getbyte r))"
  using bij_swap_values [of "r_s r" "r_i r + 1" "r_j r + r_s r (r_i r + 1)"]
  by (simp add: rc4_ok_def nrand_getbyte_def Let_def)

lemma fold_addrandom_ok:
  "rc4_ok r \<Longrightarrow> rc4_ok (fold (\<lambda>i r. addrandom_step r (f i)) is r)"
  by (induction "is" arbitrary: r) (auto simp: addrandom_step_ok)

lemma nrand_addrandom_ok:
  assumes "rc4_ok r" and "0 < len" and "len \<le> length buf"
  shows "\<exists>r'. nrand_addrandom r buf len = Some r' \<and> rc4_ok r'"
proof -
  have "rc4_ok (fold (\<lambda>i r. addrandom_step r (buf ! (i mod len))) [0..<256] (r\<lparr>r_i := r_i r - 1\<rparr>))"
    using assms(1) by (intro fold_addrandom_ok) (simp add: rc4_ok_def)
  then show ?thesis using assms(2,3) by (auto simp: nrand_addrandom_def Let_def rc4_ok_def)
qed

lemma nrand_get_ok:
  "rc4_ok r \<Longrightarrow> rc4_ok (fst (nrand_get r n)) \<and> length (snd (nrand_get r n)) = n"
proof (induction n arbitrary: r)
  case 0
  then show ?case by simp
next
  case (Suc n)
  obtain r1 b where b: "nrand_getbyte r = (r1, b)" by force
  obtain r2 bs where bs: "nrand_get r1 n = (r2, bs)" by force
  have "rc4_ok r1" using nrand_getbyte_ok [OF Suc.prems] b by simp
  from Suc.IH [OF this] show ?case using b bs by simp
qed

lemma nrand_init_ok:
  assumes "length seed = 256"
  shows "\<exists>r. nrand_init seed = Some r \<and> rc4_ok r"
proof -
  have "rc4_ok \<lparr>r_i = 0, r_j = 0, r_s = (\<lambda>i. i)\<rparr>"
    using bij_id by (simp add: rc4_ok_def id_def)
  then obtain r1 where r1: "nrand_addrandom \<lparr>r_i = 0, r_j = 0, r_s = (\<lambda>i. i)\<rparr> (take 128 seed) 128
      = Some r1" "rc4_ok r1"
    using nrand_addrandom_ok [of _ 128 "take 128 seed"] assms by auto
  then obtain r2 where "nrand_addrandom r1 (drop 128 seed) 128 = Some r2" "rc4_ok r2"
    using nrand_addrandom_ok [of r1 128 "drop 128 seed"] assms by auto
  with r1 show ?thesis by (simp add: nrand_init_def Let_def nrand_get_ok)
qed

lemma get_random_bytes_ok:
  assumes "length seed = 256" and "\<forall>r. st = Some r \<longrightarrow> rc4_ok r"
  shows "\<exists>r' bs. get_random_bytes seed st n = Some (Some r', bs) \<and> rc4_ok r' \<and> length bs = n"
proof -
  obtain r where r: "(case st of None \<Rightarrow> nrand_init seed | Some r \<Rightarrow> Some r) = Some r" "rc4_ok r"
    using nrand_init_ok [OF assms(1)] assms(2) by (cases st) auto
  then show ?thesis
    using nrand_get_ok [OF r(2), of n]
    by (cases "nrand_get r n") (simp add: get_random_bytes_def)
qed

lemma unique_init_ok:
  assumes "length seed = 256" and "\<forall>r. st = Some r \<longrightarrow> rc4_ok r"
  shows "\<exists>r' u. unique_init sz seed st = Some (Some r', u :: 'a::len word unique_state) \<and> rc4_ok r'"
proof -
  obtain r1 b1 where 1: "get_random_bytes seed st sz = Some (Some r1, b1)" "rc4_ok r1"
    using get_random_bytes_ok [OF assms] by blast
  obtain r2 b2 where 2: "get_random_bytes seed (Some r1) sz = Some (Some r2, b2)" "rc4_ok r2"
    using get_random_bytes_ok [OF assms(1), of "Some r1"] 1 by blast
  obtain r3 b3 where 3: "get_random_bytes seed (Some r2) sz = Some (Some r3, b3)" "rc4_ok r3"
    using get_random_bytes_ok [OF assms(1), of "Some r2"] 2 by blast
  obtain r4 b4 where 4: "get_random_bytes seed (Some r3) sz = Some (Some r4, b4)" "rc4_ok r4"
    using get_random_bytes_ok [OF assms(1), of "Some r3"] 3 by blast
  show ?thesis using 1 2 3 4 by (simp add: unique_init_def)
qed

section \<open>The outputs do not repeat\<close>

lemma and_ones_32: "(x :: u32) AND 0xFFFFFFFF = x"
proof -
  have "(0xFFFFFFFF :: u32) = - 1" by simp
  then show ?thesis by (simp only: and.right_neutral)
qed

lemma and_ones_16: "(x :: u16) AND 0xFFFF = x"
proof -
  have "(0xFFFF :: u16) = - 1" by simp
  then show ?thesis by (simp only: and.right_neutral)
qed

definition tweak_u32 :: "u32 \<Rightarrow> u32 \<Rightarrow> u32 \<Rightarrow> u32 \<Rightarrow> u32" where
  "tweak_u32 t1 t2 t3 x =
     rotl 5 (lcg 214013 2531011
       (rotl 15 (lcg 1103515245 12345 (rotl 7 x XOR t1)) XOR t2)) XOR t3"

definition tweak_u16 :: "u16 \<Rightarrow> u16 \<Rightarrow> u16 \<Rightarrow> u16 \<Rightarrow> u16" where
  "tweak_u16 t1 t2 t3 x =
     rotl 5 (lcg 31337 1997
       (rotl 11 (lcg 4321 12345 (rotl 7 x XOR t1)) XOR t2)) XOR t3"

lemma odd_bit_word: "bit (a :: 'a::len word) 0 \<Longrightarrow> odd a"
  by (simp add: bit_0)

lemma tweak_u32_inj: "tweak_u32 t1 t2 t3 x = tweak_u32 t1 t2 t3 y \<Longrightarrow> x = y"
  unfolding tweak_u32_def
  by (auto dest!: xor_key_inj rotl_inj lcg_inj [rotated])

lemma tweak_u16_inj: "tweak_u16 t1 t2 t3 x = tweak_u16 t1 t2 t3 y \<Longrightarrow> x = y"
  unfolding tweak_u16_def
  by (auto dest!: xor_key_inj rotl_inj lcg_inj [rotated])

text \<open>
  The contract both generators meet: the state follows a linear congruential generator of full
  period and the output is an injective function of it.
\<close>

locale unique_generator =
  fixes step :: "'a::len word unique_state \<Rightarrow> 'a word unique_state \<times> 'a word"
    and mult :: nat and inc :: "'a word"
    and tweak :: "'a word unique_state \<Rightarrow> 'a word \<Rightarrow> 'a word"
  assumes step_eq: "step u =
      (u\<lparr>u_state := lcg (of_nat mult) inc (u_state u)\<rparr>,
       tweak u (lcg (of_nat mult) inc (u_state u)))"
    and tweak_keys: "tweak (u\<lparr>u_state := s\<rparr>) = tweak u"
    and tweak_inj: "tweak u x = tweak u y \<Longrightarrow> x = y"
    and mult_mod4: "mult mod 4 = 1"
    and inc_odd: "odd inc"
begin

lemma length_step_run: "length (step_run step u n) = n"
  by (induction n arbitrary: u) (auto simp: step_eq)

lemma nth_step_run:
  "i < n \<Longrightarrow> step_run step u n ! i = tweak u ((lcg (of_nat mult) inc ^^ Suc i) (u_state u))"
proof (induction n arbitrary: u i)
  case 0
  then show ?case by simp
next
  case (Suc n)
  then show ?case
    by (cases i) (auto simp: step_eq tweak_keys funpow_swap1)
qed

lemma outputs_eq_iff:
  assumes "i < n" and "j < n" and "i \<le> j"
  shows "step_run step u n ! j = step_run step u n ! i \<longleftrightarrow> 2 ^ LENGTH('a) dvd j - i"
proof -
  have "step_run step u n ! j = step_run step u n ! i \<longleftrightarrow>
      (lcg (of_nat mult) inc ^^ Suc j) (u_state u) = (lcg (of_nat mult) inc ^^ Suc i) (u_state u)"
    using assms tweak_inj by (metis nth_step_run)
  then show ?thesis
    using lcg_iterates_eq_iff [OF mult_mod4 inc_odd, of "Suc i" "Suc j" "u_state u"] assms(3)
    by (simp del: funpow.simps)
qed

lemma no_repeats:
  assumes "n \<le> 2 ^ LENGTH('a)"
  shows "distinct (step_run step u n)"
proof (rule distinct_by_index)
  fix i j assume ij: "i < j" "j < length (step_run step u n)"
  have "\<not> 2 ^ LENGTH('a) dvd j - i"
    using ij assms by (auto simp: length_step_run dest!: dvd_imp_le)
  then show "step_run step u n ! i \<noteq> step_run step u n ! j"
    using ij outputs_eq_iff [of i n j u] by (auto simp: length_step_run)
qed

lemma full_cycle: "set (step_run step u (2 ^ LENGTH('a))) = UNIV"
proof (rule card_subset_eq)
  have "card (set (step_run step u (2 ^ LENGTH('a)))) = 2 ^ LENGTH('a)"
    using distinct_card [OF no_repeats [of "2 ^ LENGTH('a)"]] by (simp add: length_step_run)
  then show "card (set (step_run step u (2 ^ LENGTH('a)))) = card (UNIV :: 'a word set)"
    by (simp add: card_word)
qed auto

end

lemma unique_u32_step_eq:
  "unique_u32_step u =
     (u\<lparr>u_state := lcg (of_nat 1664525) 1013904223 (u_state u)\<rparr>,
      tweak_u32 (u_tweak1 u) (u_tweak2 u) (u_tweak3 u)
        (lcg (of_nat 1664525) 1013904223 (u_state u)))"
  by (simp add: unique_u32_step_def Let_def and_ones_32 tweak_u32_def rotl_def lcg_def)

lemma unique_u16_step_eq:
  "unique_u16_step u =
     (u\<lparr>u_state := lcg (of_nat 25173) 13849 (u_state u)\<rparr>,
      tweak_u16 (u_tweak1 u) (u_tweak2 u) (u_tweak3 u)
        (lcg (of_nat 25173) 13849 (u_state u)))"
  by (simp add: unique_u16_step_def Let_def and_ones_16 tweak_u16_def rotl_def lcg_def)

interpretation gen32: unique_generator unique_u32_step 1664525 1013904223
  "\<lambda>u. tweak_u32 (u_tweak1 u) (u_tweak2 u) (u_tweak3 u)"
  by unfold_locales (auto simp: unique_u32_step_eq dest: tweak_u32_inj)

interpretation gen16: unique_generator unique_u16_step 25173 13849
  "\<lambda>u. tweak_u16 (u_tweak1 u) (u_tweak2 u) (u_tweak3 u)"
  by unfold_locales (auto simp: unique_u16_step_eq dest: tweak_u16_inj)

lemma unique_u32_run_started:
  "unique_u32_run seed st (Some u) n = Some (step_run unique_u32_step u n)"
  by (induction n arbitrary: u) (auto simp: get_random_unique_u32_def split: prod.splits)

lemma unique_u16_run_started:
  "unique_u16_run seed st (Some u) n = Some (step_run unique_u16_step u n)"
  by (induction n arbitrary: u) (auto simp: get_random_unique_u16_def split: prod.splits)

lemma unique_u32_run_fresh:
  assumes "length seed = 256" and "\<forall>r. st = Some r \<longrightarrow> rc4_ok r"
  shows "\<exists>u. unique_u32_run seed st None n = Some (step_run unique_u32_step u n)"
proof -
  obtain r u where "unique_init 4 seed st = Some (Some r, u :: u32 unique_state)"
    using unique_init_ok [OF assms] by blast
  then have "unique_u32_run seed st None n = Some (step_run unique_u32_step u n)"
    by (cases n)
      (auto simp: get_random_unique_u32_def unique_u32_run_started split: prod.splits)
  then show ?thesis ..
qed

lemma unique_u16_run_fresh:
  assumes "length seed = 256" and "\<forall>r. st = Some r \<longrightarrow> rc4_ok r"
  shows "\<exists>u. unique_u16_run seed st None n = Some (step_run unique_u16_step u n)"
proof -
  obtain r u where "unique_init 2 seed st = Some (Some r, u :: u16 unique_state)"
    using unique_init_ok [OF assms] by blast
  then have "unique_u16_run seed st None n = Some (step_run unique_u16_step u n)"
    by (cases n)
      (auto simp: get_random_unique_u16_def unique_u16_run_started split: prod.splits)
  then show ?thesis ..
qed

section \<open>Properties\<close>

text \<open>C31: however the operating system seeds it, \<open>get_random_bytes\<close> returns exactly the bytes
  asked for and leaves the RC4 table a permutation of the 256 bytes, on the first call (which
  initialises the generator) and on every later one.\<close>

theorem get_random_bytes_permutation:
  assumes "length seed = 256" and "\<forall>r. st = Some r \<longrightarrow> rc4_ok r"
  shows "\<exists>r' bs. get_random_bytes seed st n = Some (Some r', bs) \<and> rc4_ok r' \<and> length bs = n"
  using get_random_bytes_ok [OF assms] .

theorem get_random_bytes_permutation_witness:
  "\<exists>r' bs. get_random_bytes (replicate 256 7) None 5 = Some (Some r', bs) \<and> rc4_ok r'
     \<and> length bs = 5"
  by (rule get_random_bytes_permutation) simp_all

text \<open>C21: the outputs of \<open>get_random_unique_u32\<close> repeat with period exactly \<open>2 ^ 32\<close>, whatever
  the random state and the three random round keys: a run of any length returns, and two of its
  results are equal exactly when their positions differ by a multiple of \<open>2 ^ 32\<close>.\<close>

theorem get_random_unique_u32_period:
  assumes "length seed = 256" and "\<forall>r. st = Some r \<longrightarrow> rc4_ok r"
  shows "\<exists>outs. unique_u32_run seed st None n = Some outs \<and> length outs = n \<and>
    (\<forall>i j. i \<le> j \<and> j < n \<longrightarrow> (outs ! j = outs ! i \<longleftrightarrow> 2 ^ 32 dvd j - i))"
proof -
  obtain u where "unique_u32_run seed st None n = Some (step_run unique_u32_step u n)"
    using unique_u32_run_fresh [OF assms] by blast
  moreover have "step_run unique_u32_step u n ! j = step_run unique_u32_step u n ! i \<longleftrightarrow>
      2 ^ 32 dvd j - i" if "i \<le> j" "j < n" for i j
    using gen32.outputs_eq_iff [of i n j u] that by simp
  ultimately show ?thesis using gen32.length_step_run by blast
qed

theorem get_random_unique_u32_period_witness:
  "\<exists>outs. unique_u32_run (replicate 256 0) None None 1000 = Some outs \<and> length outs = 1000 \<and>
    (\<forall>i j. i \<le> j \<and> j < 1000 \<longrightarrow> (outs ! j = outs ! i \<longleftrightarrow> 2 ^ 32 dvd j - i))"
  by (rule get_random_unique_u32_period) simp_all

text \<open>C30: the first \<open>2 ^ 16\<close> results of \<open>get_random_unique_u16\<close> are pairwise different and are
  all the 16-bit numbers.\<close>

theorem get_random_unique_u16_enumerates:
  assumes "length seed = 256" and "\<forall>r. st = Some r \<longrightarrow> rc4_ok r"
  shows "\<exists>outs. unique_u16_run seed st None (2 ^ 16) = Some outs \<and> distinct outs \<and> set outs = UNIV"
proof -
  obtain u where "unique_u16_run seed st None (2 ^ 16) = Some (step_run unique_u16_step u (2 ^ 16))"
    using unique_u16_run_fresh [OF assms] by blast
  moreover have "distinct (step_run unique_u16_step u (2 ^ 16))"
    using gen16.no_repeats [of "2 ^ 16" u] by simp
  moreover have "set (step_run unique_u16_step u (2 ^ 16)) = UNIV"
    using gen16.full_cycle [of u] by simp
  ultimately show ?thesis by blast
qed

theorem get_random_unique_u16_enumerates_witness:
  "\<exists>outs. unique_u16_run (replicate 256 0) None None (2 ^ 16) = Some outs \<and> distinct outs
     \<and> set outs = UNIV"
  by (rule get_random_unique_u16_enumerates) simp_all

end
