(* ===== verification/Nbase_Str.thy ===== *)
theory Nbase_Str
  imports C_String
begin

text \<open>
  The string utilities of \<open>nbase/nbase_str.c\<close>. Destination arrays are lists of the bytes
  allocated; writing outside of one is \<open>None\<close>. The text a format string produces is an argument
  of the \<open>printf\<close> family.
\<close>

section \<open>strcasestr\<close>

text \<open>
  \<open>i\<close> is the offset \<open>*++p\<close> reads, \<open>j\<close> the offset of \<open>foundto\<close> in the lower-cased needle, whose
  bytes are stored as plain \<open>char\<close> while \<open>tolower\<close> yields a non-negative \<open>int\<close>. The loop never
  has \<open>foundto\<close> on or past the terminator of the needle; the guard states that bound.
\<close>

function strcasestr_loop :: "string \<Rightarrow> string \<Rightarrow> nat \<Rightarrow> nat \<Rightarrow> nat option" where
  "strcasestr_loop haystack needle i j =
     (if length haystack \<le> i \<or> length needle \<le> j then None
      else if int (code (tolower (haystack ! i))) = schar (needle ! j) then
        (if j + 1 = length needle then Some (i + 1 - length needle)
         else strcasestr_loop haystack needle (i + 1) (j + 1))
      else strcasestr_loop haystack needle (i - j + 1) 0)"
  by pat_completeness auto

termination strcasestr_loop
  by (relation "measures [\<lambda>(h, n, i, j). length h - (i - j), \<lambda>(h, n, i, j). length n - j]") auto

text \<open>The length of the needle is kept in an \<open>unsigned int\<close>, from which the size of its lower-cased copy is computed; a copy
  that does not fit, of a needle of four gigabytes, is \<open>None\<close>. \<open>Some None\<close> is \<open>NULL\<close>.\<close>

definition strcasestr :: "string option \<Rightarrow> string \<Rightarrow> nat option option" where
  "strcasestr haystack pneedle =
     (if pneedle = [] then Some (map_option (\<lambda>_. 0) haystack)
      else case haystack of
        None \<Rightarrow> Some None
      | Some h \<Rightarrow>
          let needlelen = of_nat (length pneedle) :: u32;
              room = (if needlelen \<ge> 512 then unat (needlelen + 1) else 512)
          in if room < length pneedle + 1 then None
             else Some (strcasestr_loop h (map tolower pneedle) 0 0))"

section \<open>Copying\<close>

text \<open>The loop of \<open>Strncpy\<close>, entered with the decremented counter; \<open>d\<close> is the offset of \<open>dest\<close>.\<close>

fun Strncpy_loop :: "string \<Rightarrow> nat \<Rightarrow> string \<Rightarrow> nat \<Rightarrow> string \<times> nat \<times> string \<times> nat" where
  "Strncpy_loop dest d src 0 = (dest, d, src, 0)"
| "Strncpy_loop dest d src (Suc n) =
     (if deref src = NUL then (dest[d := NUL], d + 1, src, Suc n)
      else Strncpy_loop (dest[d := deref src]) (d + 1) (tl src) n)"

definition Strncpy :: "string \<Rightarrow> string \<Rightarrow> nat \<Rightarrow> (string \<times> int) option" where
  "Strncpy dest src n =
     (if n = 0 then Some (dest, 0)
      else if length dest < n then None
      else
        let (dest, d, src, n) = Strncpy_loop dest 0 src (n - 1)
        in if n = 0 then Some (dest[d := NUL], if deref src \<noteq> NUL then -1 else 0)
           else Some (dest, 0))"

text \<open>
  \<open>vsnprintf\<close> writes what fits of the text and its terminator at the given offset and returns
  the length of the whole text, or -1 when an \<open>int\<close> cannot hold it.
\<close>

definition vsnprintf :: "string \<Rightarrow> nat \<Rightarrow> nat \<Rightarrow> string \<Rightarrow> string \<times> int" where
  "vsnprintf buf off n text =
     (let ret = (if length text < 2 ^ 31 then int (length text) else -1)
      in if n = 0 then (buf, ret)
         else (take off buf @ take (n - 1) text @ [NUL] @ drop (off + length (take (n - 1) text) + 1) buf, ret))"

definition Vsnprintf :: "string \<Rightarrow> nat \<Rightarrow> nat \<Rightarrow> string \<Rightarrow> (string \<times> int) option" where
  "Vsnprintf buf off n text =
     (if length buf < off + n then None
      else
        let (buf, ret) = vsnprintf buf off n text
        in if ret < 0 \<or> int n \<le> ret
           then (if n = 0 then None else Some (buf[off + n - 1 := NUL], ret))
           else Some (buf, ret))"

text \<open>
  \<open>mkstr(start, end)\<close>: both pointers are suffixes of one string, and the assertion
  \<open>end >= start\<close> says that the second is a suffix of the first. Every caller has scanned from
  \<open>start\<close> to \<open>end\<close>.
\<close>

definition mkstr :: "string \<Rightarrow> string \<Rightarrow> string" where
  "mkstr start limit = take (length start - length limit) start"

fun strchr_p_loop :: "string \<Rightarrow> nat \<Rightarrow> char \<Rightarrow> string option" where
  "strchr_p_loop q 0 c = None"
| "strchr_p_loop q (Suc n) c = (if deref q = c then Some q else strchr_p_loop (tl q) n c)"

definition strchr_p :: "string \<Rightarrow> string \<Rightarrow> char \<Rightarrow> string option option" where
  "strchr_p str limit c =
     (if length limit \<le> length str then Some (strchr_p_loop str (length str - length limit) c)
      else None)"

text \<open>
  The retry loop of \<open>alloc_vsprintf\<close>; \<open>vsn size\<close> is the result of \<open>vsnprintf\<close> for a buffer of
  \<open>size\<close> bytes. The result is the final size and the length returned.
\<close>

fun alloc_vsprintf_loop :: "nat \<Rightarrow> (int \<Rightarrow> int) \<Rightarrow> int \<Rightarrow> (int \<times> int) option" where
  "alloc_vsprintf_loop 0 vsn sz = None"
| "alloc_vsprintf_loop (Suc fuel) vsn sz =
     (let n = vsn sz
      in if n \<ge> sz then alloc_vsprintf_loop fuel vsn (n + 1)
         else if n < 0 then alloc_vsprintf_loop fuel vsn (sz * 2)
         else Some (sz, n))"

definition alloc_vsprintf :: "nat \<Rightarrow> (int \<Rightarrow> int) \<Rightarrow> (int \<times> int) option" where
  "alloc_vsprintf fuel vsn = alloc_vsprintf_loop fuel vsn 32"

section \<open>Windows command lines\<close>

text \<open>The buffer is the bytes written and the allocated size \<open>rsize\<close>, an \<open>unsigned int\<close>. The position \<open>rpos\<close> is the number of
  bytes written; it is always below \<open>rsize\<close> when it is advanced, so that it does not wrap. When the size wraps
  around, \<open>safe_realloc\<close> shrinks the buffer and the store is out of bounds.\<close>

definition safe_append_char :: "string \<times> u32 \<Rightarrow> char \<Rightarrow> (string \<times> u32) option" where
  "safe_append_char b byte =
     (let (buf, rsize) = b;
          rsize = (if unat rsize \<le> length buf then rsize + 512 else rsize)
      in if length buf < unat rsize then Some (buf @ [byte], rsize) else None)"

text \<open>The loops that append \<open>n\<close> backslashes.\<close>

definition safe_append_n :: "u32 \<Rightarrow> char \<Rightarrow> string \<times> u32 \<Rightarrow> (string \<times> u32) option" where
  "safe_append_n n byte b = ((\<lambda>b. Option.bind b (\<lambda>b. safe_append_char b byte)) ^^ unat n) (Some b)"

definition store_direct :: "string \<times> u32 \<Rightarrow> char \<Rightarrow> (string \<times> u32) option" where
  "store_direct b byte =
     (if length (fst b) < unat (snd b) then Some (fst b @ [byte], snd b) else None)"

function escape_loop :: "string \<Rightarrow> string \<times> u32 \<Rightarrow> (string \<times> u32) option" where
  "escape_loop p b =
     (if p = [] then Some b
      else
        let q = dropWhile (\<lambda>c. c = CHR 0x5C) p;
            num_backslashes = of_nat (length p - length q)
        in case q of
             [] \<Rightarrow> safe_append_n (num_backslashes * 2) (CHR 0x5C) b
           | c # q' \<Rightarrow>
               if c = CHR 0x22 then
                 (case Option.bind (safe_append_n (num_backslashes * 2 + 1) (CHR 0x5C) b) (\<lambda>b. store_direct b c) of
                    None \<Rightarrow> None
                  | Some b' \<Rightarrow> escape_loop q' b')
               else
                 (case Option.bind (safe_append_n num_backslashes (CHR 0x5C) b) (\<lambda>b. safe_append_char b c) of
                    None \<Rightarrow> None
                  | Some b' \<Rightarrow> escape_loop q' b'))"
  by pat_completeness auto

termination escape_loop
proof (relation "measure (length \<circ> fst)", goal_cases)
  case 1
  then show ?case by simp
next
  case (2 p b q n c q')
  then have "length (c # q') \<le> length p" by (metis length_dropWhile_le)
  then show ?case by simp
next
  case (3 p b q n c q' b')
  then have "length (c # q') \<le> length p" by (metis length_dropWhile_le)
  then show ?case by simp
qed

definition escape_windows_command_arg :: "string \<Rightarrow> string option" where
  "escape_windows_command_arg arg =
     (case Option.bind (safe_append_char ([], 1) (CHR 0x22)) (escape_loop arg) of
        None \<Rightarrow> None
      | Some b \<Rightarrow>
          map_option (\<lambda>b. cstr (fst b)) (Option.bind (safe_append_char b (CHR 0x22)) (\<lambda>b. safe_append_char b NUL)))"

section \<open>Printable text and paths\<close>

definition replacenonprintable :: "string \<Rightarrow> nat \<Rightarrow> char \<Rightarrow> string option" where
  "replacenonprintable str strlength replchar =
     (if length str < strlength then None
      else Some (fold (\<lambda>i s. if \<not> isprint (s ! i) then s[i := replchar] else s)
                   [0..<strlength] str))"

fun last_separator_loop :: "string \<Rightarrow> nat \<Rightarrow> int" where
  "last_separator_loop path 0 = -1"
| "last_separator_loop path (Suc i) =
     (if strchr ''/'' (path ! i) \<noteq> None then int i else last_separator_loop path i)"

definition find_last_path_separator :: "string \<Rightarrow> int" where
  "find_last_path_separator path = last_separator_loop path (length path)"

definition path_get_dirname :: "string \<Rightarrow> string" where
  "path_get_dirname path =
     (let i = find_last_path_separator path
      in if i = -1 then ''.'' else if i = 0 then ''/'' else take (nat i) path)"

definition path_get_basename :: "string \<Rightarrow> string" where
  "path_get_basename path = drop (nat (find_last_path_separator path + 1)) path"

section \<open>The search finds the first occurrence\<close>

definition ci_match :: "string \<Rightarrow> string \<Rightarrow> nat \<Rightarrow> bool" where
  "ci_match h n k \<longleftrightarrow> map tolower (take (length n) (drop k h)) = map tolower n"

definition match_at :: "string \<Rightarrow> string \<Rightarrow> nat \<Rightarrow> bool" where
  "match_at h n k \<longleftrightarrow> k + length n \<le> length h \<and> (\<forall>m < length n. tolower (h ! (k + m)) = n ! m)"

lemma ci_match_iff:
  assumes "n \<noteq> []"
  shows "ci_match h n k \<longleftrightarrow> match_at h (map tolower n) k"
proof
  assume m: "ci_match h n k"
  then have "length (take (length n) (drop k h)) = length n"
    unfolding ci_match_def by (metis length_map)
  then have len: "k + length n \<le> length h" using assms by (cases "k \<le> length h") auto
  have "tolower (h ! (k + i)) = tolower (n ! i)" if "i < length n" for i
  proof -
    have "map tolower (take (length n) (drop k h)) ! i = map tolower n ! i"
      using m by (simp only: ci_match_def)
    then show ?thesis using that len by simp
  qed
  then show "match_at h (map tolower n) k" using len by (simp add: match_at_def)
next
  assume "match_at h (map tolower n) k"
  then show "ci_match h n k"
    unfolding ci_match_def match_at_def by (intro nth_equalityI) auto
qed

definition first_match :: "string \<Rightarrow> string \<Rightarrow> nat \<Rightarrow> nat option \<Rightarrow> bool" where
  "first_match h n s r \<longleftrightarrow>
     (case r of
        None \<Rightarrow> \<forall>k \<ge> s. \<not> match_at h n k
      | Some k \<Rightarrow> s \<le> k \<and> match_at h n k \<and> (\<forall>k'. s \<le> k' \<and> k' < k \<longrightarrow> \<not> match_at h n k'))"

lemma first_match_skip:
  "\<not> match_at h n s \<Longrightarrow> first_match h n (s + 1) r \<Longrightarrow> first_match h n s r"
proof -
  have step: "s \<le> k \<longleftrightarrow> k = s \<or> s + 1 \<le> k" for k by auto
  assume "\<not> match_at h n s" and "first_match h n (s + 1) r"
  then show ?thesis
    unfolding first_match_def by (cases r) (auto simp: step)
qed

lemma strcasestr_loop_first:
  assumes "\<forall>c\<in>set n. code c < 128"
    and "j \<le> i" and "j < length n" and "\<forall>m<j. tolower (h ! (i - j + m)) = n ! m"
    and "i \<le> length h"
  shows "first_match h n (i - j) (strcasestr_loop h n i j)"
  using assms
proof (induction h n i j rule: strcasestr_loop.induct)
  case (1 h n i j)
  note loop = strcasestr_loop.simps [of h n i j]
  show ?case
  proof (cases "length h \<le> i")
    case True
    then have "\<not> match_at h n k" if "i - j \<le> k" for k
      using that 1(4,5) by (auto simp: match_at_def)
    then show ?thesis using True by (subst loop) (simp add: first_match_def)
  next
    case False
    note inb = False
    show ?thesis
    proof (cases "tolower (h ! i) = n ! j")
      case True
      then have eq: "int (code (tolower (h ! i))) = schar (n ! j)"
        using 1(3,5) schar_eq_iff by auto
      have pre: "\<forall>m<j + 1. tolower (h ! (i - j + m)) = n ! m"
        using 1(4,6) True by (auto simp: less_Suc_eq)
      show ?thesis
      proof (cases "j + 1 = length n")
        case True
        then have "match_at h n (i - j)"
          using pre inb 1(4) by (simp add: match_at_def)
        moreover have "i + 1 - length n = i - j" using True by simp
        ultimately show ?thesis
          using True eq inb by (subst loop) (auto simp: first_match_def)
      next
        case False
        then have "first_match h n (i + 1 - (j + 1)) (strcasestr_loop h n (i + 1) (j + 1))"
          using 1(1) [OF _ eq False] pre inb 1(3,4,5) by simp
        then show ?thesis using False eq inb 1(5) by (subst loop) simp
      qed
    next
      case False
      then have neq: "int (code (tolower (h ! i))) \<noteq> schar (n ! j)"
        using 1(3,5) schar_eq_iff by auto
      have "\<not> match_at h n (i - j)"
        using False 1(4,5) by (auto simp: match_at_def intro!: exI [of _ j])
      moreover have "first_match h n (i - j + 1 - 0) (strcasestr_loop h n (i - j + 1) 0)"
        using 1(2) [OF _ neq] inb 1(3,5) by (intro 1(2)) (auto simp: neq)
      ultimately show ?thesis
        using neq inb 1(5) first_match_skip [of h n "i - j"] by (subst loop) simp
    qed
  qed
qed

lemma strcasestr_loop_high_None:
  assumes "m < length n" and "128 \<le> code (n ! m)" and "j \<le> m"
  shows "strcasestr_loop h n i j = None"
  using assms
proof (induction h n i j rule: strcasestr_loop.induct)
  case (1 h n i j)
  note loop = strcasestr_loop.simps [of h n i j]
  show ?case
  proof (cases "int (code (tolower (h ! i))) = schar (n ! j)")
    case True
    then have "j \<noteq> m" using schar_high 1(4) by metis
    then have "j + 1 \<le> m" "j + 1 \<noteq> length n" using 1(3,5) by auto
    then show ?thesis using True 1(1) [OF _ True] 1(3,4) by (subst loop) auto
  next
    case False
    then show ?thesis using 1(2) [OF _ False] 1(3,4) by (subst loop) auto
  qed
qed

lemma needle_room:
  "(if (of_nat n :: u32) \<ge> 512 then unat ((of_nat n :: u32) + 1) else 512) < n + 1 \<longleftrightarrow> 2 ^ 32 \<le> n + 1"
proof -
  have u: "unat (of_nat k :: u32) = k mod 2 ^ 32" for k by (simp add: unat_of_nat take_bit_eq_mod)
  have s: "(of_nat n :: u32) + 1 = of_nat (n + 1)" by simp
  have c: "(of_nat n :: u32) \<ge> 512 \<longleftrightarrow> 512 \<le> n mod 2 ^ 32" by (simp add: word_le_nat_alt u)
  show ?thesis
  proof (cases "n + 1 < 2 ^ 32")
    case True
    then show ?thesis unfolding c s u by simp
  next
    case False
    have "m mod 2 ^ 32 < 2 ^ 32" for m :: nat by simp
    then have "(n + 1) mod 2 ^ 32 < n + 1" "512 < n + 1" using False by (force intro: less_le_trans)+
    then show ?thesis unfolding c s u using False by simp
  qed
qed

section \<open>Copies and escapes\<close>

lemma Strncpy_loop_eq:
  assumes "NUL \<notin> set src" and "d + n < length dest"
  shows "Strncpy_loop dest d src n =
    (if length src < n
     then (take d dest @ src @ NUL # drop (d + length src + 1) dest, d + length src + 1, [],
           n - length src)
     else (take d dest @ take n src @ drop (d + n) dest, d + n, drop n src, 0))"
  using assms
proof (induction dest d src n rule: Strncpy_loop.induct)
  case (2 dest d src n)
  show ?case
  proof (cases src)
    case Nil
    then show ?thesis using 2(3) by (simp add: upd_conv_take_nth_drop)
  next
    case (Cons c cs)
    moreover have "c \<noteq> NUL" "NUL \<notin> set cs" using 2(2) Cons by auto
    moreover have "dest[d := c] = take d dest @ c # drop (Suc d) dest"
      using 2(3) by (simp add: upd_conv_take_nth_drop)
    ultimately show ?thesis using 2(1) 2(3) by (simp add: take_Cons' add.commute)
  qed
qed simp

lemma Strncpy_eq:
  assumes "NUL \<notin> set src" and "0 < n" and "n \<le> length dest"
  shows "Strncpy dest src n =
    Some (take (n - 1) src @ NUL # drop (length (take (n - 1) src) + 1) dest,
          if length src < n then 0 else - 1)"
proof -
  have loop: "Strncpy_loop dest 0 src (n - 1) =
    (if length src < n - 1
     then (src @ NUL # drop (length src + 1) dest, length src + 1, [], n - 1 - length src)
     else (take (n - 1) src @ drop (n - 1) dest, n - 1, drop (n - 1) src, 0))"
    using Strncpy_loop_eq [of src 0 "n - 1" dest] assms by simp
  show ?thesis
  proof (cases "length src < n - 1")
    case True
    then have "n - 1 - length src \<noteq> 0" "length src < n" by auto
    then show ?thesis using True loop assms by (simp add: Strncpy_def)
  next
    case False
    have "NUL \<notin> set (drop (n - 1) src)" using assms(1) by (meson in_set_dropD)
    then have "deref (drop (n - 1) src) = NUL \<longleftrightarrow> length src < n"
      using assms(2) deref_eq_NUL by fastforce
    moreover have "(take (n - 1) src @ drop (n - 1) dest)[n - 1 := NUL] =
        take (n - 1) src @ NUL # drop n dest"
      using False assms(2,3) by (simp add: list_update_append upd_conv_take_nth_drop)
    ultimately show ?thesis using False loop assms(2,3) by (simp add: Strncpy_def min_def)
  qed
qed

text \<open>Sizes are one more than a multiple of 512. While fewer than \<open>2 ^ 32 - 511\<close> bytes are needed, appending succeeds.\<close>

definition roomy :: "string \<times> u32 \<Rightarrow> bool" where
  "roomy b \<longleftrightarrow> length (fst b) \<le> unat (snd b) \<and> unat (snd b) mod 512 = 1"

lemma safe_append_char_fst: "safe_append_char b c = Some b' \<Longrightarrow> fst b' = fst b @ [c]"
  by (auto simp: safe_append_char_def Let_def split: prod.splits if_splits)

lemma safe_append_char_ok:
  assumes "roomy b" and "length (fst b) + 1 \<le> 2 ^ 32 - 511"
  shows "\<exists>b'. safe_append_char b c = Some b' \<and> roomy b' \<and> fst b' = fst b @ [c]"
proof (cases "unat (snd b) \<le> length (fst b)")
  case True
  then have eq: "length (fst b) = unat (snd b)" using assms(1) by (simp add: roomy_def)
  obtain k where k: "unat (snd b) = 512 * k + 1"
    using assms(1) div_mult_mod_eq [of "unat (snd b)" 512] by (metis roomy_def mult.commute)
  then have "\<not> 8388607 \<le> k" using eq assms(2) by simp
  then have lt: "unat (snd b) + 512 < 2 ^ 32" unfolding k by simp
  have "unat (snd b + 512) = (unat (snd b) + 512) mod 2 ^ 32" by (simp add: unat_word_ariths)
  also have "\<dots> = unat (snd b) + 512" using lt by (rule mod_less)
  finally have s: "unat (snd b + 512) = unat (snd b) + 512" .
  have "safe_append_char b c = Some (fst b @ [c], snd b + 512)"
    using eq s by (cases b) (simp add: safe_append_char_def Let_def)
  then show ?thesis using assms(1) eq s by (simp add: roomy_def)
next
  case False
  then have "safe_append_char b c = Some (fst b @ [c], snd b)"
    by (cases b) (simp add: safe_append_char_def Let_def)
  then show ?thesis using assms(1) False by (simp add: roomy_def)
qed

text \<open>The loop, by the number of its rounds.\<close>

definition appended :: "nat \<Rightarrow> char \<Rightarrow> string \<times> u32 \<Rightarrow> (string \<times> u32) option" where
  "appended n c b = ((\<lambda>b. Option.bind b (\<lambda>b. safe_append_char b c)) ^^ n) (Some b)"

lemma appended_simps [simp]:
  "appended 0 c b = Some b" "appended (Suc n) c b = Option.bind (appended n c b) (\<lambda>b. safe_append_char b c)"
  by (simp_all add: appended_def)

lemma safe_append_n_eq: "safe_append_n n c b = appended (unat n) c b"
  by (simp add: safe_append_n_def appended_def)

lemma appended_fst: "appended n c b = Some b' \<Longrightarrow> fst b' = fst b @ replicate n c"
  by (induction n arbitrary: b') (auto simp: replicate_append_same [symmetric] dest!: safe_append_char_fst split: bind_splits)

lemma appended_ok:
  "roomy b \<Longrightarrow> length (fst b) + n \<le> 2 ^ 32 - 511 \<Longrightarrow>
   \<exists>b'. appended n c b = Some b' \<and> roomy b' \<and> fst b' = fst b @ replicate n c"
proof (induction n)
  case (Suc n)
  then obtain b1 where b1: "appended n c b = Some b1" "roomy b1" "fst b1 = fst b @ replicate n c" by auto
  then show ?case using safe_append_char_ok [of b1 c] Suc.prems(2) by (auto simp: replicate_append_same [symmetric])
qed simp

lemma backslash_counts:
  assumes "n < 2 ^ 31"
  shows "unat (of_nat n :: u32) = n" "unat (of_nat n * 2 :: u32) = n * 2" "unat (of_nat n * 2 + 1 :: u32) = n * 2 + 1"
proof -
  have "unat (of_nat k :: u32) = k" if "k < 2 ^ 32" for k using that by (simp add: unat_of_nat)
  note u = this
  have e: "of_nat n * 2 = (of_nat (n * 2) :: u32)" "of_nat n * 2 + 1 = (of_nat (n * 2 + 1) :: u32)" by simp_all
  show "unat (of_nat n :: u32) = n" by (rule u) (use assms in simp)
  show "unat (of_nat n * 2 :: u32) = n * 2" unfolding e(1) by (rule u) (use assms in simp)
  show "unat (of_nat n * 2 + 1 :: u32) = n * 2 + 1" unfolding e(2) by (rule u) (use assms in simp)
qed

text \<open>
  How the C run-time library documents that it reads back a quoted argument (the page named in
  the source): of the backslashes before a double quote every pair stands for one, and an odd
  one makes the quote literal; other backslashes stand for themselves.
\<close>

function crt_quoted :: "string \<Rightarrow> (string \<times> string) option" where
  "crt_quoted s =
     (let t = dropWhile (\<lambda>c. c = CHR 0x5C) s; n = length s - length t
      in case t of
           [] \<Rightarrow> None
         | c # r \<Rightarrow>
             if c = CHR 0x22 then
               (if even n then Some (replicate (n div 2) (CHR 0x5C), r)
                else map_option (apfst (\<lambda>a. replicate (n div 2) (CHR 0x5C) @ CHR 0x22 # a))
                       (crt_quoted r))
             else map_option (apfst (\<lambda>a. replicate n (CHR 0x5C) @ c # a)) (crt_quoted r))"
  by pat_completeness auto

termination crt_quoted
proof (relation "measure length", goal_cases)
  case 1
  then show ?case by simp
next
  case (2 s t n c r)
  then have "length (c # r) \<le> length s" by (metis length_dropWhile_le)
  then show ?case by simp
next
  case (3 s t n c r)
  then have "length (c # r) \<le> length s" by (metis length_dropWhile_le)
  then show ?case by simp
qed

declare crt_quoted.simps [simp del] escape_loop.simps [simp del]

lemma crt_quoted_run:
  assumes "c \<noteq> CHR 0x5C"
  shows "crt_quoted (replicate n (CHR 0x5C) @ c # r) =
    (if c = CHR 0x22 then
       (if even n then Some (replicate (n div 2) (CHR 0x5C), r)
        else map_option (apfst (\<lambda>a. replicate (n div 2) (CHR 0x5C) @ CHR 0x22 # a))
               (crt_quoted r))
     else map_option (apfst (\<lambda>a. replicate n (CHR 0x5C) @ c # a)) (crt_quoted r))"
proof -
  have "dropWhile (\<lambda>c. c = CHR 0x5C) (replicate n (CHR 0x5C) @ c # r) = c # r"
    using assms by (subst dropWhile_append2) auto
  then show ?thesis by (subst crt_quoted.simps) (simp add: Let_def)
qed

lemma backslash_split:
  assumes "q = dropWhile (\<lambda>c. c = CHR 0x5C) p"
  shows "p = replicate (length p - length q) (CHR 0x5C) @ q"
proof -
  have "takeWhile (\<lambda>c. c = CHR 0x5C) p = replicate (length (takeWhile (\<lambda>c. c = CHR 0x5C) p)) (CHR 0x5C)"
    by (rule replicate_length_same [symmetric]) (auto dest: set_takeWhileD)
  moreover have "p = takeWhile (\<lambda>c. c = CHR 0x5C) p @ q" using assms by simp
  moreover from this have "length (takeWhile (\<lambda>c. c = CHR 0x5C) p) = length p - length q"
    by (metis add_diff_cancel_right' length_append)
  ultimately show ?thesis by metis
qed

text \<open>The loop with its counts as natural numbers.\<close>

lemma escape_loop_nat:
  assumes "length p < 2 ^ 31" and "p \<noteq> []" and "q = dropWhile (\<lambda>c. c = CHR 0x5C) p" and "n = length p - length q"
  shows "escape_loop p b =
    (case q of
       [] \<Rightarrow> appended (n * 2) (CHR 0x5C) b
     | c # q' \<Rightarrow>
         (case (if c = CHR 0x22 then Option.bind (appended (n * 2 + 1) (CHR 0x5C) b) (\<lambda>b. store_direct b c)
                else Option.bind (appended n (CHR 0x5C) b) (\<lambda>b. safe_append_char b c)) of
            None \<Rightarrow> None
          | Some b' \<Rightarrow> escape_loop q' b'))"
proof -
  have "n < 2 ^ 31" using assms(1,4) by simp
  note c = backslash_counts [OF this]
  show ?thesis
    unfolding escape_loop.simps [of p b] assms(3) [symmetric] Let_def assms(4) [symmetric] safe_append_n_eq c
    using assms(2) by (auto split: list.split)
qed

lemma escape_loop_decodes:
  "escape_loop p b = Some b' \<Longrightarrow> length p < 2 ^ 31 \<Longrightarrow>
   \<exists>e. fst b' = fst b @ e \<and> set e \<subseteq> insert (CHR 0x5C) (set p) \<and>
       (\<forall>rest. crt_quoted (e @ CHR 0x22 # rest) = Some (p, rest))"
proof (induction "length p" arbitrary: p b b' rule: less_induct)
  case less
  define q where "q = dropWhile (\<lambda>c. c = CHR 0x5C) p"
  define n where "n = length p - length q"
  have p: "p = replicate n (CHR 0x5C) @ q"
    unfolding n_def by (rule backslash_split [OF q_def])
  show ?case
  proof (cases "p = []")
    case True
    then show ?thesis using less.prems(1) crt_quoted_run [of "CHR 0x22" 0] by (simp add: escape_loop.simps)
  next
    case pne: False
    note loop = less.prems(1) [unfolded escape_loop_nat [OF less.prems(2) pne q_def n_def]]
    show ?thesis
    proof (cases q)
      case Nil
      then have "fst b' = fst b @ replicate (n * 2) (CHR 0x5C)" and "p = replicate n (CHR 0x5C)"
        using loop p appended_fst by auto
      then show ?thesis using crt_quoted_run [of "CHR 0x22" "n * 2"] by auto
    next
      case (Cons c q')
      have "q \<noteq> []" using Cons by simp
      then have c: "c \<noteq> CHR 0x5C"
        using hd_dropWhile [of "\<lambda>c. c = CHR 0x5C" p] Cons unfolding q_def [symmetric] by simp
      have len: "length q' < length p" "length q' < 2 ^ 31" using p Cons less.prems(2) by (simp_all add: p)
      obtain b1 where b1: "(if c = CHR 0x22 then Option.bind (appended (n * 2 + 1) (CHR 0x5C) b) (\<lambda>b. store_direct b c)
                else Option.bind (appended n (CHR 0x5C) b) (\<lambda>b. safe_append_char b c)) = Some b1" "escape_loop q' b1 = Some b'"
        using loop Cons by (auto split: option.splits)
      obtain e where e: "fst b' = fst b1 @ e" "set e \<subseteq> insert (CHR 0x5C) (set q')"
          "\<forall>rest. crt_quoted (e @ CHR 0x22 # rest) = Some (q', rest)"
        using less.hyps [OF len(1) b1(2) len(2)] by blast
      show ?thesis
      proof (cases "c = CHR 0x22")
        case True
        have "fst b1 = fst b @ replicate (n * 2 + 1) (CHR 0x5C) @ [CHR 0x22]"
          using b1(1) True by (auto simp: store_direct_def simp del: appended_simps dest!: appended_fst split: if_splits bind_splits)
        then show ?thesis
          using e p Cons True crt_quoted_run [of "CHR 0x22" "n * 2 + 1"]
          by (intro exI [of _ "replicate (n * 2 + 1) (CHR 0x5C) @ CHR 0x22 # e"]) auto
      next
        case False
        have "fst b1 = fst b @ replicate n (CHR 0x5C) @ [c]"
          using b1(1) False by (auto dest!: appended_fst safe_append_char_fst split: bind_splits)
        then show ?thesis
          using e p Cons False crt_quoted_run [OF c, of n]
          by (intro exI [of _ "replicate n (CHR 0x5C) @ c # e"]) auto
      qed
    qed
  qed
qed

text \<open>The buffer before its first growth, and after it while at most 513 bytes are needed.\<close>

definition small_buf :: "string \<times> u32 \<Rightarrow> bool" where
  "small_buf b \<longleftrightarrow> (length (fst b) = 1 \<and> snd b = 1) \<or> (snd b = 513 \<and> length (fst b) \<le> 513)"

lemma safe_append_char_small:
  "small_buf b \<Longrightarrow> length (fst b) < 513 \<Longrightarrow> safe_append_char b c = Some (fst b @ [c], 513)"
  by (auto simp: small_buf_def safe_append_char_def split: prod.splits)

lemma appended_small:
  "small_buf b \<Longrightarrow> length (fst b) + n \<le> 513 \<Longrightarrow>
   appended n c b = Some (fst b @ replicate n c, if n = 0 then snd b else 513)"
proof (induction n)
  case (Suc n)
  have "small_buf (fst b @ replicate n c, if n = 0 then snd b else 513)"
    using Suc.prems by (auto simp: small_buf_def)
  from safe_append_char_small [OF this, of c] show ?case
    using Suc by (simp add: replicate_append_same [symmetric])
qed simp

lemma escape_loop_returns:
  assumes "length p < 2 ^ 31" and "roomy b" and "length (fst b) + 2 * length p \<le> 2 ^ 32 - 511"
    and "CHR 0x22 \<notin> set p \<or> (small_buf b \<and> length (fst b) + 2 * length p < 513)"
  shows "\<exists>b'. escape_loop p b = Some b' \<and> roomy b' \<and> length (fst b') \<le> length (fst b) + 2 * length p"
  using assms
proof (induction "length p" arbitrary: p b rule: less_induct)
  case less
  define q where "q = dropWhile (\<lambda>c. c = CHR 0x5C) p"
  define n where "n = length p - length q"
  have p: "p = replicate n (CHR 0x5C) @ q"
    unfolding n_def by (rule backslash_split [OF q_def])
  show ?case
  proof (cases "p = []")
    case True
    then show ?thesis using less.prems by (simp add: escape_loop.simps)
  next
    case pne: False
    note loop = escape_loop_nat [OF less.prems(1) pne q_def n_def, of b]
    show ?thesis
    proof (cases q)
      case Nil
      then have "length p = n" using p by simp
      then show ?thesis using appended_ok [OF less.prems(2), of "n * 2" "CHR 0x5C"] less.prems(3) loop Nil by auto
    next
      case (Cons c q')
      have len: "length p = n + 1 + length q'" and sub: "set (c # q') \<subseteq> set p" using Cons p by auto
      have l: "length q' < length p" "length q' < 2 ^ 31" using len less.prems(1) by simp_all
      show ?thesis
      proof (cases "c = CHR 0x22")
        case True
        then have sm: "small_buf b" "length (fst b) + 2 * length p < 513" using less.prems(4) sub by auto
        let ?b1 = "(fst b @ replicate (n * 2 + 1) (CHR 0x5C) @ [c], 513) :: string \<times> u32"
        have "appended (n * 2 + 1) (CHR 0x5C) b = Some (fst b @ replicate (n * 2 + 1) (CHR 0x5C), 513)"
          using appended_small [OF sm(1), of "n * 2 + 1"] sm(2) len by (simp del: appended_simps)
        then have s: "Option.bind (appended (n * 2 + 1) (CHR 0x5C) b) (\<lambda>b. store_direct b c) = Some ?b1"
          using sm(2) len by (simp add: store_direct_def del: appended_simps)
        have b1: "small_buf ?b1" "roomy ?b1" "length (fst ?b1) = length (fst b) + 2 * (n + 1)"
          using sm(2) len by (simp_all add: small_buf_def roomy_def)
        have "\<exists>b'. escape_loop q' ?b1 = Some b' \<and> roomy b' \<and> length (fst b') \<le> length (fst ?b1) + 2 * length q'"
          by (rule less.hyps [OF l b1(2)]) (use b1(1,3) sm(2) len in auto)
        then show ?thesis using loop Cons True s b1(3) len by (auto simp del: appended_simps)
      next
        case False
        obtain b1 where b1: "appended n (CHR 0x5C) b = Some b1" "roomy b1" "fst b1 = fst b @ replicate n (CHR 0x5C)"
          using appended_ok [OF less.prems(2), of n "CHR 0x5C"] less.prems(3) len by auto
        obtain b2 where b2: "safe_append_char b1 c = Some b2" "roomy b2" "fst b2 = fst b1 @ [c]"
          using safe_append_char_ok [OF b1(2), of c] b1(3) less.prems(3) len by auto
        have "small_buf b2" if "small_buf b" "length (fst b) + 2 * length p < 513"
        proof -
          have "small_buf b1" using appended_small [OF that(1), of n "CHR 0x5C"] b1 that len by (auto simp: small_buf_def)
          then show ?thesis using safe_append_char_small [of b1 c] b1(3) b2 that(2) len by (auto simp: small_buf_def)
        qed
        then have "\<exists>b'. escape_loop q' b2 = Some b' \<and> roomy b' \<and> length (fst b') \<le> length (fst b2) + 2 * length q'"
          using b1(3) b2(3) less.prems(3,4) len sub by (intro less.hyps [OF l b2(2)]) auto
        then show ?thesis using loop Cons False b1 b2 len by auto
      qed
    qed
  qed
qed

lemma escape_loop_plain:
  assumes "p \<noteq> []" and "hd p \<noteq> CHR 0x5C" and "hd p \<noteq> CHR 0x22"
  shows "escape_loop p b = Option.bind (safe_append_char b (hd p)) (escape_loop (tl p))"
proof -
  obtain c q where p: "p = c # q" using assms(1) by (cases p) auto
  show ?thesis using assms p
    by (subst escape_loop.simps) (simp add: safe_append_n_eq split: option.split bind_splits)
qed

lemma escape_loop_plain_run:
  "c \<noteq> CHR 0x5C \<Longrightarrow> c \<noteq> CHR 0x22 \<Longrightarrow>
   escape_loop (replicate n c @ p) b = Option.bind (appended n c b) (escape_loop p)"
proof (induction n arbitrary: p)
  case (Suc n)
  have "replicate (Suc n) c @ p = replicate n c @ c # p" by (metis append_Cons replicate_Suc replicate_app_Cons_same)
  moreover have "escape_loop (c # p) = (\<lambda>b. Option.bind (safe_append_char b c) (escape_loop p))"
    using Suc.prems by (intro ext) (simp add: escape_loop_plain)
  ultimately show ?case using Suc by simp
qed simp

section \<open>Paths\<close>

lemma last_separator_loop_none:
  "NUL \<notin> set path \<Longrightarrow> n \<le> length path \<Longrightarrow> CHR ''/'' \<notin> set (take n path) \<Longrightarrow>
   last_separator_loop path n = -1"
proof (induction n)
  case (Suc n)
  have "path ! n \<noteq> NUL" "path ! n \<noteq> CHR ''/''"
    using Suc.prems by (metis Suc_le_lessD nth_mem, auto simp: take_Suc_conv_app_nth)
  then show ?case using Suc by (auto simp: strchr_def take_Suc_conv_app_nth)
qed simp

lemma last_separator_loop_found:
  "NUL \<notin> set b \<Longrightarrow> CHR ''/'' \<notin> set b \<Longrightarrow> n \<le> length b \<Longrightarrow>
   last_separator_loop (d @ CHR ''/'' # b) (length d + 1 + n) = int (length d)"
proof (induction n)
  case 0
  then show ?case by (simp add: strchr_def)
next
  case (Suc n)
  then have "b ! n \<in> set b" by simp
  with Suc.prems have "b ! n \<noteq> NUL" "b ! n \<noteq> CHR ''/''" by metis+
  then show ?case using Suc by (simp add: strchr_def nth_append)
qed

lemma find_last_path_separator_eq:
  assumes "NUL \<notin> set path"
  shows "CHR ''/'' \<notin> set path \<Longrightarrow> find_last_path_separator path = -1"
    and "path = d @ CHR ''/'' # b \<Longrightarrow> CHR ''/'' \<notin> set b \<Longrightarrow>
         find_last_path_separator path = int (length d)"
  using last_separator_loop_none [OF assms, of "length path"]
    last_separator_loop_found [of b "length b" d] assms
  by (auto simp: find_last_path_separator_def)

section \<open>Properties\<close>

text \<open>C32: \<open>strcasestr\<close> returns, and returns the first position at which the needle occurs without
  regard to case, for every needle of 7-bit characters; a needle with another character, which
  the comparison of a signed \<open>char\<close> with \<open>tolower\<close>'s result never matches, is never found. Only a needle
  whose length an \<open>unsigned int\<close> cannot hold with its terminator is copied out of bounds.\<close>

theorem strcasestr_finds_first:
  assumes "pneedle \<noteq> []"
  shows "strcasestr (Some h) pneedle =
    (if 2 ^ 32 \<le> length pneedle + 1 then None
     else Some (if (\<forall>c\<in>set pneedle. code c < 128) \<and> (\<exists>k. ci_match h pneedle k)
                then Some (LEAST k. ci_match h pneedle k) else None))"
proof -
  let ?n = "map tolower pneedle"
  have low: "code (tolower c) < 128 \<longleftrightarrow> code c < 128" for c
    by (simp add: code_tolower isupper_def)
  have loop: "strcasestr_loop h ?n 0 0 =
      (if (\<forall>c\<in>set pneedle. code c < 128) \<and> (\<exists>k. ci_match h pneedle k)
       then Some (LEAST k. ci_match h pneedle k) else None)"
  proof (cases "\<forall>c\<in>set pneedle. code c < 128")
    case True
    then have "first_match h ?n 0 (strcasestr_loop h ?n 0 0)"
      using strcasestr_loop_first [of ?n 0 0 h] assms low by auto
    then show ?thesis
      using True ci_match_iff [OF assms, of h]
      by (cases "strcasestr_loop h ?n 0 0")
        (auto simp: first_match_def not_less intro!: Least_equality [symmetric] leI)
  next
    case False
    then obtain m where "m < length pneedle" "128 \<le> code (pneedle ! m)"
      by (metis in_set_conv_nth not_less)
    then have "strcasestr_loop h ?n 0 0 = None"
      using strcasestr_loop_high_None [of m ?n 0 h 0] low [of "pneedle ! m"] by simp
    then show ?thesis using False by simp
  qed
  show ?thesis
    using assms by (simp only: strcasestr_def loop needle_room Let_def option.case if_False)
qed

theorem strcasestr_finds_first_witness:
  "strcasestr (Some ''xCoNtent'') ''CONT'' =
    (if 2 ^ 32 \<le> length ''CONT'' + 1 then None
     else Some (if (\<forall>c\<in>set ''CONT''. code c < 128) \<and> (\<exists>k. ci_match ''xCoNtent'' ''CONT'' k)
                then Some (LEAST k. ci_match ''xCoNtent'' ''CONT'' k) else None))"
  by (rule strcasestr_finds_first) simp

text \<open>\<open>Strncpy\<close> into a destination of at least \<open>n > 0\<close> bytes always leaves a terminated string,
  the first \<open>n - 1\<close> bytes of the source, reports truncation exactly when bytes were lost, and
  writes nothing after the terminator.\<close>

theorem Strncpy_terminates_string:
  assumes "NUL \<notin> set src" and "0 < n" and "n \<le> length dest"
  shows "\<exists>dest' ret. Strncpy dest src n = Some (dest', ret) \<and> length dest' = length dest \<and>
    cstr dest' = take (n - 1) src \<and> (ret = -1 \<longleftrightarrow> cstr dest' \<noteq> src) \<and>
    drop (length (cstr dest') + 1) dest' = drop (length (cstr dest') + 1) dest"
proof -
  have "NUL \<notin> set (take (n - 1) src)" using assms(1) by (meson in_set_takeD)
  then have "cstr (take (n - 1) src @ NUL # t) = take (n - 1) src" for t by (rule cstr_append_NUL)
  moreover have "take (n - 1) src = src \<longleftrightarrow> length src < n" using assms(2)
    by (metis One_nat_def Suc_pred length_take less_Suc_eq_le min.absorb_iff1 take_all)
  ultimately show ?thesis using assms by (auto simp: Strncpy_eq)
qed

theorem Strncpy_terminates_string_witness:
  "\<exists>dest' ret. Strncpy ''abcdefgh'' ''hello'' 4 = Some (dest', ret) \<and> length dest' = length ''abcdefgh'' \<and>
    cstr dest' = take (4 - 1) ''hello'' \<and> (ret = -1 \<longleftrightarrow> cstr dest' \<noteq> ''hello'') \<and>
    drop (length (cstr dest') + 1) dest' = drop (length (cstr dest') + 1) ''abcdefgh''"
  by (rule Strncpy_terminates_string) simp_all

text \<open>C33: whatever \<open>escape_windows_command_arg\<close> returns is a quoted argument that the documented
  rules of the C run-time library read back as the original string; and it does return when the
  argument has no double quote or is at most 255 bytes long. (The counters have 32 bits, hence the bound on the
  length.)\<close>

theorem escape_windows_command_arg_roundtrip:
  assumes "NUL \<notin> set arg" and "length arg < 2 ^ 31 - 256"
  shows "case escape_windows_command_arg arg of
      None \<Rightarrow> CHR 0x22 \<in> set arg \<and> 255 < length arg
    | Some e \<Rightarrow> \<exists>e'. e = CHR 0x22 # e' \<and> (\<forall>rest. crt_quoted (e' @ rest) = Some (arg, rest))"
proof -
  let ?b = "([CHR 0x22], 1) :: string \<times> u32"
  have start: "safe_append_char ([], 1) (CHR 0x22) = Some ?b" by (simp add: safe_append_char_def)
  have sm: "small_buf ?b" "roomy ?b" by (simp_all add: small_buf_def roomy_def)
  have len: "length arg < 2 ^ 31" using assms(2) by simp
  show ?thesis
  proof (cases "escape_loop arg ?b")
    case None
    then have "CHR 0x22 \<in> set arg \<and> \<not> 1 + 2 * length arg < 513"
      using escape_loop_returns [OF len sm(2)] sm(1) assms(2) by fastforce
    then show ?thesis using None start by (simp add: escape_windows_command_arg_def)
  next
    case (Some b)
    then obtain f where f: "fst b = CHR 0x22 # f" "set f \<subseteq> insert (CHR 0x5C) (set arg)"
        "\<forall>rest. crt_quoted (f @ CHR 0x22 # rest) = Some (arg, rest)"
      using escape_loop_decodes [OF Some len] by auto
    show ?thesis
    proof (cases "Option.bind (safe_append_char b (CHR 0x22)) (\<lambda>b. safe_append_char b NUL)")
      case None
      have "CHR 0x22 \<in> set arg \<and> \<not> 1 + 2 * length arg < 513"
      proof (rule ccontr)
        assume "\<not> (CHR 0x22 \<in> set arg \<and> \<not> 1 + 2 * length arg < 513)"
        then have "\<exists>b'. escape_loop arg ?b = Some b' \<and> roomy b' \<and> length (fst b') \<le> length (fst ?b) + 2 * length arg"
          using sm(1) assms(2) by (intro escape_loop_returns [OF len sm(2)]) auto
        then have r: "roomy b" "length (fst b) \<le> 1 + 2 * length arg" using Some by auto
        obtain b1 where b1: "safe_append_char b (CHR 0x22) = Some b1" "roomy b1" "fst b1 = fst b @ [CHR 0x22]"
          using safe_append_char_ok [OF r(1), of "CHR 0x22"] r(2) assms(2) by auto
        then show False using safe_append_char_ok [OF b1(2), of NUL] r(2) assms(2) None by auto
      qed
      then show ?thesis using None Some start by (simp add: escape_windows_command_arg_def)
    next
      case (Some b2)
      then have "fst b2 = fst b @ [CHR 0x22, NUL]" by (auto dest!: safe_append_char_fst split: bind_splits)
      moreover have "NUL \<notin> set (CHR 0x22 # f @ [CHR 0x22])" using f(2) assms(1) by auto
      ultimately have "cstr (fst b2) = CHR 0x22 # f @ [CHR 0x22]"
        using f(1) cstr_append_NUL [of "CHR 0x22 # f @ [CHR 0x22]" "[]"] by simp
      then show ?thesis
        using Some \<open>escape_loop arg ?b = Some b\<close> start f(3) by (simp add: escape_windows_command_arg_def)
    qed
  qed
qed

theorem escape_windows_command_arg_roundtrip_witness:
  "case escape_windows_command_arg ''C:'' of
      None \<Rightarrow> CHR 0x22 \<in> set ''C:'' \<and> 255 < length ''C:''
    | Some e \<Rightarrow> \<exists>e'. e = CHR 0x22 # e' \<and> (\<forall>rest. crt_quoted (e' @ rest) = Some (''C:'', rest))"
  by (rule escape_windows_command_arg_roundtrip) simp_all

text \<open>the one append of \<open>escape_windows_command_arg\<close> that bypasses \<open>safe_append_char\<close> writes
  one byte past the end of the heap buffer when the buffer is exactly full: an argument of 511
  ordinary characters and a double quote does it.\<close>

theorem escape_windows_command_arg_overflow:
  "escape_windows_command_arg (replicate 511 (CHR ''a'') @ [CHR 0x22]) = None"
proof -
  let ?b = "([CHR 0x22], 1) :: string \<times> u32"
  let ?c = "(CHR 0x22 # replicate 511 (CHR ''a''), 513) :: string \<times> u32"
  have start: "safe_append_char ([], 1) (CHR 0x22) = Some ?b" by (simp add: safe_append_char_def)
  have sm: "small_buf ?b" "small_buf ?c" by (simp_all add: small_buf_def)
  have run: "appended 511 (CHR ''a'') ?b = Some ?c" using appended_small [OF sm(1), of 511 "CHR ''a''"] by (simp del: appended_simps)
  have one: "appended 1 (CHR 0x5C) ?c = Some (fst ?c @ [CHR 0x5C], 513)" using appended_small [OF sm(2), of 1 "CHR 0x5C"] by (simp del: appended_simps)
  have "unat (1 :: u32) = 1" by simp
  then have "safe_append_n (0 * 2 + 1) (CHR 0x5C) ?c = Some (fst ?c @ [CHR 0x5C], 513)"
    using one by (simp only: safe_append_n_eq mult_zero_left add_0)
  then have "escape_loop [CHR 0x22] ?c = None"
    by (subst escape_loop.simps) (simp add: store_direct_def)
  then have "escape_loop (replicate 511 (CHR ''a'') @ [CHR 0x22]) ?b = None"
    using escape_loop_plain_run [of "CHR ''a''" 511 "[CHR 0x22]" ?b] run by simp
  then show ?thesis using start by (simp add: escape_windows_command_arg_def)
qed

text \<open>the directory and base name of a path are its parts around the last slash: the base
  name has no slash and, when there is one that is not the first character, joining the two with
  a slash gives the path back.\<close>

theorem path_split_roundtrip:
  assumes "NUL \<notin> set path"
  shows "CHR ''/'' \<notin> set (path_get_basename path) \<and>
    (if CHR ''/'' \<notin> set path then path_get_dirname path = ''.'' \<and> path_get_basename path = path
     else if hd path = CHR ''/'' \<and> CHR ''/'' \<notin> set (tl path)
     then path_get_dirname path = ''/'' \<and> path = ''/'' @ path_get_basename path
     else path = path_get_dirname path @ ''/'' @ path_get_basename path)"
proof (cases "CHR ''/'' \<in> set path")
  case False
  then show ?thesis
    using find_last_path_separator_eq(1) [OF assms]
    by (simp add: path_get_dirname_def path_get_basename_def)
next
  case True
  then obtain d b where path: "path = d @ CHR ''/'' # b" "CHR ''/'' \<notin> set b"
    by (metis split_list_last)
  then have i: "find_last_path_separator path = int (length d)"
    using find_last_path_separator_eq(2) [OF assms] by blast
  have base: "path_get_basename path = b"
    using path(1) i by (simp add: path_get_basename_def nat_add_distrib)
  show ?thesis
  proof (cases d)
    case Nil
    then show ?thesis using i base path by (simp add: path_get_dirname_def)
  next
    case (Cons c d')
    then have "path_get_dirname path = d" using i path(1) by (simp add: path_get_dirname_def nat_add_distrib)
    then show ?thesis using base path Cons by simp
  qed
qed

end
