(* ===== verification/Nbase_Misc.thy ===== *)
theory Nbase_Misc
  imports C_String
begin

text \<open>
  Checksums, address comparison and the hex dump of \<open>nbase/nbase_misc.c\<close>, with
  the CRC-32C table of \<open>nbase/nbase_crc32ct.h\<close>. \<open>unsigned long\<close> has 64 bits.
\<close>

section \<open>Cyclic redundancy checks\<close>

text \<open>The body of the inner loop of \<open>make_crc_table\<close>, for a reflected polynomial.\<close>

definition crc_step :: "u64 \<Rightarrow> u64 \<Rightarrow> u64" where
  "crc_step poly c = (if c AND 1 \<noteq> 0 then poly XOR drop_bit 1 c else drop_bit 1 c)"

definition make_crc_table :: "u64 list" where
  "make_crc_table = map (\<lambda>n. (crc_step 0xedb88320 ^^ 8) (of_nat n)) [0..<256]"

definition crc_update_byte :: "u64 list \<Rightarrow> u64 \<Rightarrow> u8 \<Rightarrow> u64" where
  "crc_update_byte table c b = table ! unat ((c XOR ucast b) AND 0xff) XOR drop_bit 8 c"

definition update_crc :: "u64 \<Rightarrow> u8 list \<Rightarrow> u64" where
  "update_crc crc buf =
     (let c = crc XOR 0xffffffff;
          c = fold (\<lambda>b c. crc_update_byte make_crc_table c b) buf c
      in c XOR 0xffffffff)"

definition nbase_crc32 :: "u8 list \<Rightarrow> u64" where
  "nbase_crc32 buf = update_crc 0 buf"

definition crc_c :: "u64 list" where
  "crc_c =
     [0x00000000, 0xF26B8303, 0xE13B70F7, 0x1350F3F4, 0xC79A971F, 0x35F1141C,
      0x26A1E7E8, 0xD4CA64EB, 0x8AD958CF, 0x78B2DBCC, 0x6BE22838, 0x9989AB3B,
      0x4D43CFD0, 0xBF284CD3, 0xAC78BF27, 0x5E133C24, 0x105EC76F, 0xE235446C,
      0xF165B798, 0x030E349B, 0xD7C45070, 0x25AFD373, 0x36FF2087, 0xC494A384,
      0x9A879FA0, 0x68EC1CA3, 0x7BBCEF57, 0x89D76C54, 0x5D1D08BF, 0xAF768BBC,
      0xBC267848, 0x4E4DFB4B, 0x20BD8EDE, 0xD2D60DDD, 0xC186FE29, 0x33ED7D2A,
      0xE72719C1, 0x154C9AC2, 0x061C6936, 0xF477EA35, 0xAA64D611, 0x580F5512,
      0x4B5FA6E6, 0xB93425E5, 0x6DFE410E, 0x9F95C20D, 0x8CC531F9, 0x7EAEB2FA,
      0x30E349B1, 0xC288CAB2, 0xD1D83946, 0x23B3BA45, 0xF779DEAE, 0x05125DAD,
      0x1642AE59, 0xE4292D5A, 0xBA3A117E, 0x4851927D, 0x5B016189, 0xA96AE28A,
      0x7DA08661, 0x8FCB0562, 0x9C9BF696, 0x6EF07595, 0x417B1DBC, 0xB3109EBF,
      0xA0406D4B, 0x522BEE48, 0x86E18AA3, 0x748A09A0, 0x67DAFA54, 0x95B17957,
      0xCBA24573, 0x39C9C670, 0x2A993584, 0xD8F2B687, 0x0C38D26C, 0xFE53516F,
      0xED03A29B, 0x1F682198, 0x5125DAD3, 0xA34E59D0, 0xB01EAA24, 0x42752927,
      0x96BF4DCC, 0x64D4CECF, 0x77843D3B, 0x85EFBE38, 0xDBFC821C, 0x2997011F,
      0x3AC7F2EB, 0xC8AC71E8, 0x1C661503, 0xEE0D9600, 0xFD5D65F4, 0x0F36E6F7,
      0x61C69362, 0x93AD1061, 0x80FDE395, 0x72966096, 0xA65C047D, 0x5437877E,
      0x4767748A, 0xB50CF789, 0xEB1FCBAD, 0x197448AE, 0x0A24BB5A, 0xF84F3859,
      0x2C855CB2, 0xDEEEDFB1, 0xCDBE2C45, 0x3FD5AF46, 0x7198540D, 0x83F3D70E,
      0x90A324FA, 0x62C8A7F9, 0xB602C312, 0x44694011, 0x5739B3E5, 0xA55230E6,
      0xFB410CC2, 0x092A8FC1, 0x1A7A7C35, 0xE811FF36, 0x3CDB9BDD, 0xCEB018DE,
      0xDDE0EB2A, 0x2F8B6829, 0x82F63B78, 0x709DB87B, 0x63CD4B8F, 0x91A6C88C,
      0x456CAC67, 0xB7072F64, 0xA457DC90, 0x563C5F93, 0x082F63B7, 0xFA44E0B4,
      0xE9141340, 0x1B7F9043, 0xCFB5F4A8, 0x3DDE77AB, 0x2E8E845F, 0xDCE5075C,
      0x92A8FC17, 0x60C37F14, 0x73938CE0, 0x81F80FE3, 0x55326B08, 0xA759E80B,
      0xB4091BFF, 0x466298FC, 0x1871A4D8, 0xEA1A27DB, 0xF94AD42F, 0x0B21572C,
      0xDFEB33C7, 0x2D80B0C4, 0x3ED04330, 0xCCBBC033, 0xA24BB5A6, 0x502036A5,
      0x4370C551, 0xB11B4652, 0x65D122B9, 0x97BAA1BA, 0x84EA524E, 0x7681D14D,
      0x2892ED69, 0xDAF96E6A, 0xC9A99D9E, 0x3BC21E9D, 0xEF087A76, 0x1D63F975,
      0x0E330A81, 0xFC588982, 0xB21572C9, 0x407EF1CA, 0x532E023E, 0xA145813D,
      0x758FE5D6, 0x87E466D5, 0x94B49521, 0x66DF1622, 0x38CC2A06, 0xCAA7A905,
      0xD9F75AF1, 0x2B9CD9F2, 0xFF56BD19, 0x0D3D3E1A, 0x1E6DCDEE, 0xEC064EED,
      0xC38D26C4, 0x31E6A5C7, 0x22B65633, 0xD0DDD530, 0x0417B1DB, 0xF67C32D8,
      0xE52CC12C, 0x1747422F, 0x49547E0B, 0xBB3FFD08, 0xA86F0EFC, 0x5A048DFF,
      0x8ECEE914, 0x7CA56A17, 0x6FF599E3, 0x9D9E1AE0, 0xD3D3E1AB, 0x21B862A8,
      0x32E8915C, 0xC083125F, 0x144976B4, 0xE622F5B7, 0xF5720643, 0x07198540,
      0x590AB964, 0xAB613A67, 0xB831C993, 0x4A5A4A90, 0x9E902E7B, 0x6CFBAD78,
      0x7FAB5E8C, 0x8DC0DD8F, 0xE330A81A, 0x115B2B19, 0x020BD8ED, 0xF0605BEE,
      0x24AA3F05, 0xD6C1BC06, 0xC5914FF2, 0x37FACCF1, 0x69E9F0D5, 0x9B8273D6,
      0x88D28022, 0x7AB90321, 0xAE7367CA, 0x5C18E4C9, 0x4F48173D, 0xBD23943E,
      0xF36E6F75, 0x0105EC76, 0x12551F82, 0xE03E9C81, 0x34F4F86A, 0xC69F7B69,
      0xD5CF889D, 0x27A40B9E, 0x79B737BA, 0x8BDCB4B9, 0x988C474D, 0x6AE7C44E,
      0xBE2DA0A5, 0x4C4623A6, 0x5F16D052, 0xAD7D5351]"

definition CRC32C :: "u64 \<Rightarrow> u8 \<Rightarrow> u64" where
  "CRC32C c d = drop_bit 8 c XOR crc_c ! unat ((c XOR ucast d) AND 0xFF)"

definition nbase_crc32c :: "u8 list \<Rightarrow> u64" where
  "nbase_crc32c buf =
     (let crc32 = fold (\<lambda>b c. CRC32C c b) buf 0xffffffff;
          result = NOT crc32;
          byte0 = result AND 0xff;
          byte1 = drop_bit 8 result AND 0xff;
          byte2 = drop_bit 16 result AND 0xff;
          byte3 = drop_bit 24 result AND 0xff
      in push_bit 24 byte0 OR push_bit 16 byte1 OR push_bit 8 byte2 OR byte3)"

section \<open>Adler-32\<close>

definition ADLER32_BASE :: u64 where
  "ADLER32_BASE = 65521"

definition update_adler32 :: "u64 \<Rightarrow> u8 list \<Rightarrow> u64" where
  "update_adler32 adler buf =
     (let (s1, s2) =
        fold (\<lambda>b (s1, s2).
            let s1 = (s1 + ucast b) mod ADLER32_BASE; s2 = (s2 + s1) mod ADLER32_BASE
            in (s1, s2))
          buf (adler AND 0xffff, drop_bit 16 adler AND 0xffff)
      in push_bit 16 s2 + s1)"

definition nbase_adler32 :: "u8 list \<Rightarrow> u64" where
  "nbase_adler32 buf = update_adler32 1 buf"

section \<open>Socket addresses\<close>

datatype sockaddr_storage =
    AF_INET u32
  | AF_INET6 "u8 list"
  | AF_OTHER nat

text \<open>The numbers of the address families on Linux.\<close>

fun ss_family :: "sockaddr_storage \<Rightarrow> nat" where
  "ss_family (AF_INET _) = 2"
| "ss_family (AF_INET6 _) = 10"
| "ss_family (AF_OTHER f) = f"

text \<open>The C library's \<open>memcmp\<close> is an argument \<open>mc\<close>: of its result only the sign is specified, that of the difference of the first
  bytes that differ.\<close>

fun first_difference :: "u8 list \<Rightarrow> u8 list \<Rightarrow> int" where
  "first_difference (a # as) (b # bs) = (if a = b then first_difference as bs else uint a - uint b)"
| "first_difference _ _ = 0"

definition memcmp_ok :: "(u8 list \<Rightarrow> u8 list \<Rightarrow> int) \<Rightarrow> bool" where
  "memcmp_ok mc \<longleftrightarrow> (\<forall>a b. length a = length b \<longrightarrow> sgn (mc a b) = sgn (first_difference a b))"

definition sockaddr_storage_cmp ::
  "(u8 list \<Rightarrow> u8 list \<Rightarrow> int) \<Rightarrow> sockaddr_storage \<Rightarrow> sockaddr_storage \<Rightarrow> int option" where
  "sockaddr_storage_cmp mc a b =
     (if ss_family a < ss_family b then Some (-1)
      else if ss_family a > ss_family b then Some 1
      else case (a, b) of
        (AF_INET x, AF_INET y) \<Rightarrow> Some (if x < y then -1 else if x > y then 1 else 0)
      | (AF_INET6 x, AF_INET6 y) \<Rightarrow> Some (mc x y)
      | _ \<Rightarrow> None)"

definition sockaddr_storage_equal ::
  "(u8 list \<Rightarrow> u8 list \<Rightarrow> int) \<Rightarrow> sockaddr_storage \<Rightarrow> sockaddr_storage \<Rightarrow> bool option" where
  "sockaddr_storage_equal mc a b = map_option (\<lambda>c. c = 0) (sockaddr_storage_cmp mc a b)"

section \<open>The hex dump\<close>

abbreviation (input) LINE_LEN :: nat where "LINE_LEN \<equiv> 74"
abbreviation (input) HEX_START :: nat where "HEX_START \<equiv> 7"
abbreviation (input) ASC_START :: nat where "ASC_START \<equiv> 57"

definition hexch :: string where
  "hexch = ''0123456789abcdef''"

definition asciify :: "u8 \<Rightarrow> char" where
  "asciify b = (if unat b < 0xff \<and> isgraph (char_of (unat b)) then char_of (unat b) else CHR ''.'')"

text \<open>A store into the dynamically allocated buffer.\<close>

definition store :: "nat \<Rightarrow> char \<Rightarrow> string \<Rightarrow> string option" where
  "store i c buf = (if i < length buf then Some (buf[i := c]) else None)"

fun stores :: "nat \<Rightarrow> string \<Rightarrow> string \<Rightarrow> string option" where
  "stores i [] buf = Some buf"
| "stores i (c # cs) buf =
     (case store i c buf of None \<Rightarrow> None | Some buf \<Rightarrow> stores (i + 1) cs buf)"

text \<open>\<open>%04x\<close> of a 16-bit number.\<close>

definition hex4 :: "nat \<Rightarrow> string" where
  "hex4 n = [hexch ! (n div 4096 mod 16), hexch ! (n div 256 mod 16), hexch ! (n div 16 mod 16),
             hexch ! (n mod 16)]"

text \<open>
  The bytes of one line: \<open>i\<close> is the index of the next byte, \<open>hex\<close> and \<open>asc\<close> the columns, and
  \<open>fuel\<close> bounds the bytes left in the line, of which there are at most sixteen.
\<close>

fun hexdump_line :: "nat \<Rightarrow> u8 list \<Rightarrow> nat \<Rightarrow> nat \<Rightarrow> nat \<Rightarrow> nat \<Rightarrow> string \<Rightarrow> (nat \<times> string) option" where
  "hexdump_line 0 cp line i hex asc buf = None"
| "hexdump_line (Suc fuel) cp line i hex asc buf =
     (let hex = (if i mod 16 = 8 then hex + 1 else hex) in
      case store (line + hex) (hexch ! unat (drop_bit 4 (cp ! i) AND 0xf)) buf of
        None \<Rightarrow> None
      | Some buf \<Rightarrow>
      case store (line + hex + 1) (hexch ! unat (cp ! i AND 0xf)) buf of
        None \<Rightarrow> None
      | Some buf \<Rightarrow>
      case store (line + asc) (asciify (cp ! i)) buf of
        None \<Rightarrow> None
      | Some buf \<Rightarrow>
          if i + 1 < length cp \<and> (i + 1) mod 16 \<noteq> 0
          then hexdump_line fuel cp line (i + 1) (hex + 3) (asc + 1) buf
          else Some (i + 1, buf))"

fun hexdump_lines :: "nat \<Rightarrow> u8 list \<Rightarrow> nat \<Rightarrow> nat \<Rightarrow> string \<Rightarrow> string option" where
  "hexdump_lines fuel cp line i buf =
     (if i < length cp then
        (case fuel of
           0 \<Rightarrow> None
         | Suc fuel \<Rightarrow>
             (case stores line (hex4 (i mod 65536) @ [CHR '' '']) buf of
                None \<Rightarrow> None
              | Some buf \<Rightarrow>
             (case hexdump_line 16 cp line i HEX_START ASC_START buf of
                None \<Rightarrow> None
              | Some (i', buf) \<Rightarrow>
             (case store (line + LINE_LEN - 1) (CHR 0x0A) buf of
                None \<Rightarrow> None
              | Some buf \<Rightarrow> hexdump_lines fuel cp (line + LINE_LEN) i' buf))))
      else Some buf)"

text \<open>
  The allocated buffer starts as spaces with a final NUL. The outer \<open>None\<close> is a store outside
  of it; the inner one is the \<open>NULL\<close> returned for a length whose dump would overflow an \<open>int\<close>.
\<close>

definition hexdump :: "u8 list \<Rightarrow> string option option" where
  "hexdump cp =
     (if length cp > 16 * ((2 ^ 31 - 2) div LINE_LEN - 1) then Some None
      else
        let bytes2alloc = (if length cp mod 16 = 0 then 1 + LINE_LEN * (length cp div 16)
                           else 1 + LINE_LEN * (1 + length cp div 16))
        in (case hexdump_lines (length cp) cp 0 0 (replicate (bytes2alloc - 1) (CHR '' '') @ [NUL]) of
              None \<Rightarrow> None
            | Some buf \<Rightarrow>
                map_option Some (store (bytes2alloc - 1) NUL buf)))"

definition executable_path_argv0 :: "string option \<Rightarrow> string option" where
  "executable_path_argv0 argv0 =
     (case argv0 of
        None \<Rightarrow> None
      | Some a \<Rightarrow> if strchr a (CHR ''/'') \<noteq> None then Some a else None)"

section \<open>The table drives the bitwise division\<close>

lemma and_1_bit: "(c :: u64) AND 1 \<noteq> 0 \<longleftrightarrow> bit c 0"
  by (simp add: and_one_eq bit_0 odd_iff_mod_2_eq_one)

lemma crc_step_xor: "crc_step p (x XOR y) = crc_step p x XOR crc_step p y"
  unfolding crc_step_def and_1_bit
  by (simp add: bit_xor_iff drop_bit_xor ac_simps)

lemma crc_steps_xor: "(crc_step p ^^ n) (x XOR y) = (crc_step p ^^ n) x XOR (crc_step p ^^ n) y"
  by (induction n) (simp_all add: crc_step_xor)

lemma crc_steps_shift:
  "\<forall>i<k. \<not> bit x i \<Longrightarrow> (crc_step p ^^ k) x = drop_bit k x"
proof (induction k arbitrary: x)
  case (Suc k)
  have "crc_step p x = drop_bit 1 x"
    unfolding crc_step_def and_1_bit using Suc.prems by simp
  moreover have "\<forall>i<k. \<not> bit (drop_bit 1 x) i"
    using Suc.prems by (simp add: bit_drop_bit_eq)
  ultimately show ?case
    using Suc.IH [of "drop_bit 1 x"] by (simp add: funpow_Suc_right del: funpow.simps)
qed simp

lemma low_byte_split: "(x :: u64) = (x AND 0xff) XOR (x AND NOT 0xff)"
  by (simp add: bit_eq_iff bit_simps) blast

lemma mask_8: "(0xff :: u64) = mask 8"
  by (simp add: mask_eq_exp_minus_1)

locale crc_table =
  fixes poly :: u64 and table :: "u64 list"
  assumes table_entry: "i < 256 \<Longrightarrow> table ! i = (crc_step poly ^^ 8) (of_nat i)"
begin

lemma byte_eq: "crc_update_byte table c b = (crc_step poly ^^ 8) (c XOR ucast b)"
proof -
  define x where "x = c XOR ucast b"
  have "unat (x AND 0xff) < 256"
    unfolding mask_8 take_bit_eq_mask [symmetric]
    by (simp add: unsigned_take_bit_eq take_bit_nat_less_exp [where n = 8, simplified])
  then have lo: "table ! unat (x AND 0xff) = (crc_step poly ^^ 8) (x AND 0xff)"
    using table_entry by simp
  have "\<forall>i<8. \<not> bit (x AND NOT 0xff) i"
    unfolding mask_8 by (auto simp: bit_simps)
  then have "(crc_step poly ^^ 8) (x AND NOT 0xff) = drop_bit 8 (x AND NOT 0xff)"
    by (rule crc_steps_shift)
  also have "\<dots> = drop_bit 8 c"
    unfolding mask_8 x_def
    by (rule bit_word_eqI) (auto simp: bit_simps dest: bit_imp_le_length)
  finally have "(crc_step poly ^^ 8) x = table ! unat (x AND 0xff) XOR drop_bit 8 c"
    using low_byte_split [of x] crc_steps_xor [of 8 poly "x AND 0xff" "x AND NOT 0xff"] lo by simp
  then show ?thesis by (simp add: crc_update_byte_def x_def)
qed

end

lemma funpow_8: "(f ^^ 8) x = f (f (f (f (f (f (f (f x)))))))"
  by (simp add: eval_nat_numeral)

fun table_ok :: "u64 \<Rightarrow> u64 \<Rightarrow> u64 list \<Rightarrow> bool" where
  "table_ok p n [] \<longleftrightarrow> True"
| "table_ok p n (x # xs) \<longleftrightarrow> x = (crc_step p ^^ 8) n \<and> table_ok p (n + 1) xs"

lemma table_ok_nth:
  "table_ok p n xs \<Longrightarrow> i < length xs \<Longrightarrow> xs ! i = (crc_step p ^^ 8) (n + of_nat i)"
  by (induction xs arbitrary: n i) (auto simp: nth_Cons' of_nat_diff)

lemma crc_c_ok: "table_ok 0x82F63B78 0 crc_c"
  unfolding crc_c_def by (simp add: funpow_8 crc_step_def)

interpretation crc32: crc_table "0xedb88320" make_crc_table
  by unfold_locales (simp add: make_crc_table_def)

interpretation crc32c: crc_table "0x82F63B78" crc_c
proof
  fix i :: nat assume "i < 256"
  moreover have "length crc_c = 256" by (simp add: crc_c_def)
  ultimately show "crc_c ! i = (crc_step 0x82F63B78 ^^ 8) (of_nat i)"
    using table_ok_nth [OF crc_c_ok, of i] by simp
qed

text \<open>The division of a message by a reflected polynomial, one bit at a time.\<close>

definition crc_bitwise :: "u64 \<Rightarrow> u8 list \<Rightarrow> u64 \<Rightarrow> u64" where
  "crc_bitwise poly buf c = fold (\<lambda>b c. (crc_step poly ^^ 8) (c XOR ucast b)) buf c"

section \<open>Adler-32 sums\<close>

text \<open>The sum of the bytes and the sum of its running values, both starting at \<open>a\<close>, \<open>b\<close>.\<close>

fun adler_sums :: "nat \<Rightarrow> nat \<Rightarrow> u8 list \<Rightarrow> nat \<times> nat" where
  "adler_sums a b [] = (a, b)"
| "adler_sums a b (x # xs) = adler_sums (a + unat x) (b + a + unat x) xs"

definition adler_step :: "u8 \<Rightarrow> u64 \<times> u64 \<Rightarrow> u64 \<times> u64" where
  "adler_step b s =
     ((fst s + ucast b) mod ADLER32_BASE,
      (snd s + (fst s + ucast b) mod ADLER32_BASE) mod ADLER32_BASE)"

lemma word_mod_base:
  "k < 2 ^ 64 \<Longrightarrow> (of_nat k :: u64) mod ADLER32_BASE = of_nat (k mod 65521)"
proof -
  assume k: "k < 2 ^ 64"
  then have "k mod 65521 < 2 ^ 64" by (meson le_less_trans mod_less_eq_dividend)
  then have "unat ((of_nat k :: u64) mod ADLER32_BASE) = unat (of_nat (k mod 65521) :: u64)"
    using k by (simp add: unat_mod unsigned_of_nat take_bit_nat_eq_self ADLER32_BASE_def)
  then show ?thesis by (simp only: word_unat_eq_iff)
qed

lemma adler_step_of_nat:
  "adler_step x (of_nat (a mod 65521), of_nat (b mod 65521)) =
     (of_nat ((a + unat x) mod 65521), of_nat ((b + a + unat x) mod 65521))"
proof -
  have x: "(ucast x :: u64) = of_nat (unat x)" "unat x < 256"
    using unsigned_less [of x] by simp_all
  have a: "a mod 65521 < 65521" "b mod 65521 < 65521" "(a + unat x) mod 65521 < 65521" by simp_all
  have s1: "(of_nat (a mod 65521) + ucast x :: u64) mod ADLER32_BASE = of_nat ((a + unat x) mod 65521)"
    using x a word_mod_base [of "a mod 65521 + unat x"] by (simp add: mod_simps)
  have "(of_nat (b mod 65521) + of_nat ((a + unat x) mod 65521) :: u64) mod ADLER32_BASE
      = of_nat ((b + (a + unat x)) mod 65521)"
    using a word_mod_base [of "b mod 65521 + (a + unat x) mod 65521"] by (simp add: mod_simps)
  with s1 show ?thesis by (simp add: adler_step_def add.assoc)
qed

lemma adler_fold:
  "fold adler_step xs (of_nat (a mod 65521), of_nat (b mod 65521)) =
     (of_nat (fst (adler_sums a b xs) mod 65521), of_nat (snd (adler_sums a b xs) mod 65521))"
  by (induction xs arbitrary: a b) (simp_all add: adler_step_of_nat)

lemma nbase_adler32_eq:
  "nbase_adler32 buf = push_bit 16 (of_nat (snd (adler_sums 1 0 buf) mod 65521))
     + of_nat (fst (adler_sums 1 0 buf) mod 65521)"
proof -
  have "(\<lambda>b (s1, s2). let s1 = (s1 + ucast b) mod ADLER32_BASE; s2 = (s2 + s1) mod ADLER32_BASE
           in (s1, s2)) = adler_step"
    by (auto simp: adler_step_def fun_eq_iff Let_def)
  then show ?thesis
    using adler_fold [of buf 1 0] by (simp add: nbase_adler32_def update_adler32_def)
qed

section \<open>The order of socket addresses\<close>

definition ss_wf :: "sockaddr_storage \<Rightarrow> bool" where
  "ss_wf a \<longleftrightarrow> (case a of AF_INET _ \<Rightarrow> True | AF_INET6 bs \<Rightarrow> length bs = 16 | AF_OTHER _ \<Rightarrow> False)"

lemma difference_antisym: "first_difference a b = - first_difference b a"
  by (induction a b rule: first_difference.induct) auto

lemma difference_eq_0: "length a = length b \<Longrightarrow> first_difference a b = 0 \<longleftrightarrow> a = b"
  by (induction a b rule: list_induct2) (auto simp: word_uint_eq_iff)

lemma difference_trans:
  "length a = length b \<Longrightarrow> length b = length c \<Longrightarrow> first_difference a b \<le> 0 \<Longrightarrow> first_difference b c \<le> 0 \<Longrightarrow>
   first_difference a c \<le> 0"
proof (induction a b c rule: list_induct3)
  case (Cons x xs y ys z zs)
  then show ?case
    by (auto split: if_splits) (smt (verit) word_uint_eqI)+
qed simp

lemma sgn_le_0: "sgn (x :: int) = sgn y \<Longrightarrow> x \<le> 0 \<longleftrightarrow> y \<le> 0"
  by (cases "x = 0"; cases "y = 0"; cases "0 < x"; cases "0 < y") (simp_all add: sgn_if)

lemma memcmp_facts:
  assumes "memcmp_ok mc" and "length a = length b"
  shows "sgn (mc b a) = - sgn (mc a b)" "mc a b = 0 \<longleftrightarrow> a = b" "mc a b \<le> 0 \<longleftrightarrow> first_difference a b \<le> 0"
proof -
  have s: "sgn (mc a b) = sgn (first_difference a b)" "sgn (mc b a) = sgn (first_difference b a)"
    using assms unfolding memcmp_ok_def by auto
  show "sgn (mc b a) = - sgn (mc a b)" unfolding s difference_antisym [of b a] by (rule sgn_minus)
  show "mc a b = 0 \<longleftrightarrow> a = b" using s(1) difference_eq_0 [OF assms(2)] by (metis sgn_0_0)
  show "mc a b \<le> 0 \<longleftrightarrow> first_difference a b \<le> 0" by (rule sgn_le_0 [OF s(1)])
qed

lemma sockaddr_storage_cmp_pair:
  assumes "memcmp_ok mc" and "ss_wf a" and "ss_wf b"
  shows "\<exists>ab ba. sockaddr_storage_cmp mc a b = Some ab \<and> sockaddr_storage_cmp mc b a = Some ba \<and>
    sgn ba = - sgn ab \<and> (ab = 0 \<longleftrightarrow> a = b)"
proof (cases a; cases b)
  fix x y assume ab: "a = AF_INET6 x" "b = AF_INET6 y"
  then have "length x = length y" using assms by (simp add: ss_wf_def)
  then show ?thesis using memcmp_facts(1,2) [OF assms(1), of x y] ab by (simp add: sockaddr_storage_cmp_def)
qed (use assms in \<open>auto simp: ss_wf_def sockaddr_storage_cmp_def\<close>)

lemma sockaddr_storage_cmp_trans:
  assumes "memcmp_ok mc" and "ss_wf a" and "ss_wf b" and "ss_wf c"
    and "sockaddr_storage_cmp mc a b = Some ab" and "sockaddr_storage_cmp mc b c = Some bc"
    and "sockaddr_storage_cmp mc a c = Some ac" and "ab \<le> 0" and "bc \<le> 0"
  shows "ac \<le> 0"
proof (cases a; cases b; cases c)
  fix x y z assume abc: "a = AF_INET6 x" "b = AF_INET6 y" "c = AF_INET6 z"
  then have "length x = length y" "length y = length z" using assms by (simp_all add: ss_wf_def)
  then show ?thesis
    using abc assms(5-9) difference_trans [of x y z] memcmp_facts(3) [OF assms(1), of x y]
      memcmp_facts(3) [OF assms(1), of y z] memcmp_facts(3) [OF assms(1), of x z]
    by (simp add: sockaddr_storage_cmp_def)
qed (use assms in \<open>auto simp: ss_wf_def sockaddr_storage_cmp_def split: if_splits\<close>)

section \<open>The hex dump shows every byte\<close>

definition hex_col :: "nat \<Rightarrow> nat" where
  "hex_col i = HEX_START + 3 * (i mod 16) + (if 8 \<le> i mod 16 then 1 else 0)"

definition shown :: "u8 list \<Rightarrow> string \<Rightarrow> nat \<Rightarrow> bool" where
  "shown cp buf i \<longleftrightarrow>
     buf ! (LINE_LEN * (i div 16) + hex_col i) = hexch ! unat (drop_bit 4 (cp ! i) AND 0xf) \<and>
     buf ! (LINE_LEN * (i div 16) + hex_col i + 1) = hexch ! unat (cp ! i AND 0xf) \<and>
     buf ! (LINE_LEN * (i div 16) + ASC_START + i mod 16) = asciify (cp ! i)"

text \<open>Stores outside the three columns of byte \<open>i\<close> keep it shown.\<close>

lemma cell_eq:
  fixes q c q' c' :: nat
  assumes "c < 74" "c' < 74"
  shows "74 * q + c = 74 * q' + c' \<longleftrightarrow> q = q' \<and> c = c'"
proof
  assume e: "74 * q + c = 74 * q' + c'"
  have "(74 * q + c) div 74 = q" "(74 * q' + c') div 74 = q'" using assms by simp_all
  with e show "q = q' \<and> c = c'" by auto
qed simp

lemma hex_col_bounds: "hex_col i \<le> 53" "5 \<le> hex_col i" "i mod 16 < 16"
proof -
  have "i mod 16 \<le> 15" using mod_less_divisor [of 16 i] by linarith
  then show "hex_col i \<le> 53" "5 \<le> hex_col i" "i mod 16 < 16" by (auto simp: hex_col_def)
qed

lemma shown_update:
  assumes "shown cp buf i" and "c < 74"
    and "q = i div 16 \<Longrightarrow> c \<noteq> hex_col i \<and> c \<noteq> hex_col i + 1 \<and> c \<noteq> ASC_START + i mod 16"
  shows "shown cp (buf[LINE_LEN * q + c := x]) i"
proof -
  note b = hex_col_bounds [of i]
  have "LINE_LEN * q + c \<noteq> LINE_LEN * (i div 16) + hex_col i"
    "LINE_LEN * q + c \<noteq> LINE_LEN * (i div 16) + (hex_col i + 1)"
    "LINE_LEN * q + c \<noteq> LINE_LEN * (i div 16) + (ASC_START + i mod 16)"
    using assms(2,3) b by (subst cell_eq; auto)+
  then show ?thesis using assms(1) by (simp add: shown_def add.assoc)
qed

lemma store_ok:
  "LINE_LEN * q + c < length buf \<Longrightarrow>
   store (LINE_LEN * q + c) x buf = Some (buf[LINE_LEN * q + c := x])"
  by (simp add: store_def)

text \<open>The three stores of byte \<open>i\<close>.\<close>

definition put_byte :: "u8 list \<Rightarrow> nat \<Rightarrow> string \<Rightarrow> string" where
  "put_byte cp i buf =
     buf[LINE_LEN * (i div 16) + hex_col i := hexch ! unat (drop_bit 4 (cp ! i) AND 0xf),
         LINE_LEN * (i div 16) + (hex_col i + 1) := hexch ! unat (cp ! i AND 0xf),
         LINE_LEN * (i div 16) + (ASC_START + i mod 16) := asciify (cp ! i)]"

lemma length_put_byte [simp]: "length (put_byte cp i buf) = length buf"
  by (simp add: put_byte_def)

lemma shown_put_byte_other:
  assumes "shown cp buf k" and "k \<noteq> i"
  shows "shown cp (put_byte cp i buf) k"
proof -
  note b = hex_col_bounds [of i] hex_col_bounds [of k]
  have "k mod 16 \<noteq> i mod 16" if "i div 16 = k div 16"
    using assms(2) that by (metis div_mult_mod_eq)
  then have d: "hex_col i \<noteq> hex_col k \<and> hex_col i + 1 \<noteq> hex_col k \<and> hex_col i \<noteq> hex_col k + 1
      \<and> i mod 16 \<noteq> k mod 16" if "i div 16 = k div 16"
    using that by (auto simp: hex_col_def)
  show ?thesis
    unfolding put_byte_def using b d
    by (intro shown_update assms(1)) auto
qed

lemma shown_put_byte_self:
  assumes "LINE_LEN * (i div 16) + LINE_LEN \<le> length buf"
  shows "shown cp (put_byte cp i buf) i"
proof -
  note b = hex_col_bounds [of i]
  show ?thesis
    unfolding put_byte_def shown_def using b assms
    by (simp add: nth_list_update add.assoc)
qed

lemma hexdump_line_step:
  assumes "LINE_LEN * (i div 16) + LINE_LEN \<le> length buf"
    and "hex + (if i mod 16 = 8 then 1 else 0) = hex_col i"
  shows "hexdump_line (Suc fuel) cp (LINE_LEN * (i div 16)) i hex (ASC_START + i mod 16) buf =
    (if i + 1 < length cp \<and> (i + 1) mod 16 \<noteq> 0
     then hexdump_line fuel cp (LINE_LEN * (i div 16)) (i + 1) (hex_col i + 3)
            (ASC_START + i mod 16 + 1) (put_byte cp i buf)
     else Some (i + 1, put_byte cp i buf))"
proof -
  note b = hex_col_bounds [of i]
  have hex: "(if i mod 16 = 8 then hex + 1 else hex) = hex_col i" using assms(2) by auto
  have s1: "store (LINE_LEN * (i div 16) + hex_col i) x buf =
      Some (buf[LINE_LEN * (i div 16) + hex_col i := x])" for x
    using b assms(1) by (intro store_ok) simp
  have s2: "length buf' = length buf \<Longrightarrow> store (LINE_LEN * (i div 16) + hex_col i + 1) x buf' =
      Some (buf'[LINE_LEN * (i div 16) + (hex_col i + 1) := x])" for x buf'
    using b assms(1) by (simp add: store_def)
  have s3: "length buf' = length buf \<Longrightarrow> store (LINE_LEN * (i div 16) + (ASC_START + i mod 16)) x buf' =
      Some (buf'[LINE_LEN * (i div 16) + (ASC_START + i mod 16) := x])" for x buf'
    using b assms(1) by (simp add: store_def)
  show ?thesis
    unfolding hexdump_line.simps Let_def hex s1
    by (simp only: option.simps s2 s3 length_list_update put_byte_def [symmetric])
qed

lemma hexdump_line_ok:
  assumes "i < length cp" and "LINE_LEN * (i div 16) + LINE_LEN \<le> length buf"
    and "hex + (if i mod 16 = 8 then 1 else 0) = hex_col i" and "16 - i mod 16 \<le> fuel"
    and "\<forall>k<i. shown cp buf k"
  shows "\<exists>i' buf'. hexdump_line fuel cp (LINE_LEN * (i div 16)) i hex (ASC_START + i mod 16) buf
      = Some (i', buf') \<and> length buf' = length buf \<and> (\<forall>k<i'. shown cp buf' k) \<and>
      i < i' \<and> i' \<le> length cp \<and> (i' < length cp \<longrightarrow> i' = 16 * (i div 16) + 16)"
  using assms
proof (induction fuel arbitrary: i hex buf)
  case 0
  then show ?case using hex_col_bounds [of i] by simp
next
  case (Suc fuel)
  note step = hexdump_line_step [OF Suc.prems(2,3), of fuel cp]
  have sh: "\<forall>k<i + 1. shown cp (put_byte cp i buf) k"
    using Suc.prems(2,5) shown_put_byte_self shown_put_byte_other by (auto simp: less_Suc_eq)
  show ?case
  proof (cases "i + 1 < length cp \<and> (i + 1) mod 16 \<noteq> 0")
    case True
    then have m: "(i + 1) mod 16 = i mod 16 + 1" "(i + 1) div 16 = i div 16"
      by (auto simp: mod_Suc div_Suc)
    have "hex_col i + 3 + (if (i + 1) mod 16 = 8 then 1 else 0) = hex_col (i + 1)"
      using m(1) by (auto simp: hex_col_def)
    moreover have "16 - (i + 1) mod 16 \<le> fuel" using m(1) Suc.prems(4) by linarith
    ultimately have "\<exists>i' buf'. hexdump_line fuel cp (LINE_LEN * ((i + 1) div 16)) (i + 1) (hex_col i + 3)
        (ASC_START + (i + 1) mod 16) (put_byte cp i buf) = Some (i', buf') \<and>
      length buf' = length (put_byte cp i buf) \<and> (\<forall>k<i'. shown cp buf' k) \<and>
      i + 1 < i' \<and> i' \<le> length cp \<and> (i' < length cp \<longrightarrow> i' = 16 * ((i + 1) div 16) + 16)"
      using True m Suc.prems(2) sh by (intro Suc.IH) auto
    then show ?thesis using step True m by auto
  next
    case False
    have "i + 1 < length cp \<Longrightarrow> i + 1 = 16 * (i div 16) + 16"
      using False by (auto simp: mod_Suc split: if_splits) presburger
    then show ?thesis using step False sh Suc.prems(1) by auto
  qed
qed

lemma stores_ok:
  "c + length cs \<le> 5 \<Longrightarrow> LINE_LEN * q + 5 \<le> length buf \<Longrightarrow> P \<subseteq> {k. shown cp buf k} \<Longrightarrow>
   \<exists>buf'. stores (LINE_LEN * q + c) cs buf = Some buf' \<and> length buf' = length buf \<and>
     P \<subseteq> {k. shown cp buf' k}"
proof (induction cs arbitrary: c buf)
  case (Cons x cs)
  let ?buf = "buf[LINE_LEN * q + c := x]"
  have "shown cp ?buf k" if "shown cp buf k" for k
    using that Cons.prems(1) hex_col_bounds [of k] by (intro shown_update) auto
  then have "P \<subseteq> {k. shown cp ?buf k}" using Cons.prems(3) by blast
  then obtain buf' where "stores (LINE_LEN * q + (c + 1)) cs ?buf = Some buf'"
      "length buf' = length ?buf" "P \<subseteq> {k. shown cp buf' k}"
    using Cons.IH [of "c + 1" ?buf] Cons.prems(1,2) by auto
  moreover have "store (LINE_LEN * q + c) x buf = Some ?buf"
    using Cons.prems(1,2) by (intro store_ok) simp
  ultimately show ?case by (simp add: add.assoc)
qed simp

lemma hexdump_lines_ok:
  assumes "i mod 16 = 0 \<or> i = length cp" and "i \<le> length cp" and "length cp - i \<le> fuel"
    and "LINE_LEN * ((length cp + 15) div 16) < length buf" and "\<forall>k<i. shown cp buf k"
  shows "\<exists>buf'. hexdump_lines fuel cp (LINE_LEN * (i div 16)) i buf = Some buf' \<and>
    length buf' = length buf \<and> (\<forall>k<length cp. shown cp buf' k)"
  using assms
proof (induction fuel arbitrary: i buf)
  case 0
  then show ?case by simp
next
  case (Suc fuel)
  show ?case
  proof (cases "i < length cp")
    case True
    then have i: "i mod 16 = 0" using Suc.prems(1) by simp
    have "i div 16 + 1 \<le> (length cp + 15) div 16" using True by (simp add: div_le_mono i)
    then have "LINE_LEN * (i div 16 + 1) \<le> LINE_LEN * ((length cp + 15) div 16)"
      by (rule mult_le_mono2)
    then have sp: "LINE_LEN * (i div 16) + LINE_LEN < length buf" using Suc.prems(4) by simp
    obtain b1 where b1: "stores (LINE_LEN * (i div 16) + 0) (hex4 (i mod 65536) @ [CHR '' '']) buf = Some b1"
        "length b1 = length buf" "\<forall>k<i. shown cp b1 k"
      using stores_ok [of 0 "hex4 (i mod 65536) @ [CHR '' '']" "i div 16" buf "{k. k < i}" cp]
        sp Suc.prems(5) by (auto simp: hex4_def)
    obtain i' b2 where b2: "hexdump_line 16 cp (LINE_LEN * (i div 16)) i HEX_START ASC_START b1 = Some (i', b2)"
        "length b2 = length b1" "\<forall>k<i'. shown cp b2 k" "i < i'" "i' \<le> length cp"
        "i' < length cp \<longrightarrow> i' = 16 * (i div 16) + 16"
      using hexdump_line_ok [OF True, of b1 HEX_START 16] i sp b1 by (auto simp: hex_col_def)
    define b3 where "b3 = b2[LINE_LEN * (i div 16) + 73 := CHR 0x0A]"
    have "hex_col k \<noteq> 73 \<and> hex_col k \<noteq> 72 \<and> k mod 16 \<noteq> 16" for k
      using hex_col_bounds [of k] by linarith
    then have "\<forall>k<i'. shown cp b3 k"
      unfolding b3_def using b2(3) by (intro allI impI shown_update) auto
    moreover have "store (LINE_LEN * (i div 16) + LINE_LEN - 1) (CHR 0x0A) b2 = Some b3"
      using sp b1(2) b2(2) by (simp add: store_def b3_def add.commute)
    moreover have "hexdump_lines fuel cp (LINE_LEN * (i div 16) + LINE_LEN) i' b3 =
        hexdump_lines fuel cp (LINE_LEN * (i' div 16)) i' b3"
    proof (cases "i' < length cp")
      case True
      then have "i' div 16 = i div 16 + 1" using b2(6) by simp
      then have "LINE_LEN * (i' div 16) = LINE_LEN * (i div 16) + LINE_LEN" by simp
      then show ?thesis by (simp only:)
    qed simp
    moreover have "\<exists>buf'. hexdump_lines fuel cp (LINE_LEN * (i' div 16)) i' b3 = Some buf' \<and>
        length buf' = length b3 \<and> (\<forall>k<length cp. shown cp buf' k)"
      using Suc.prems(3,4) b1(2) b2 calculation(1) by (intro Suc.IH) (auto simp: b3_def)
    ultimately show ?thesis
      using True b1 b2(1,2) by (auto simp: hexdump_lines.simps [of "Suc fuel"] b3_def)
  qed (use Suc.prems in \<open>auto simp: hexdump_lines.simps [of "Suc fuel"]\<close>)
qed

section \<open>Properties\<close>

lemma fold_crc32: "fold (\<lambda>b c. crc_update_byte make_crc_table c b) buf c = crc_bitwise 0xedb88320 buf c"
  unfolding crc_bitwise_def by (simp add: crc32.byte_eq)

lemma fold_crc32c: "fold (\<lambda>b c. CRC32C c b) buf c = crc_bitwise 0x82F63B78 buf c"
proof -
  have "CRC32C c b = crc_update_byte crc_c c b" for c b
    by (simp add: CRC32C_def crc_update_byte_def xor.commute)
  then show ?thesis unfolding crc_bitwise_def by (simp add: crc32c.byte_eq)
qed

text \<open>C22: the two table-driven checksums are the bit-by-bit divisions by the CRC-32 and the
  CRC-32C polynomial: the table \<open>make_crc_table\<close> computes and the 256 literals of
  \<open>nbase_crc32ct.h\<close> hold exactly the remainders of the single bytes, and \<open>nbase_crc32c\<close> then
  swaps the four bytes of the complement.\<close>

theorem crc_tables_correct:
  "nbase_crc32 buf = crc_bitwise 0xedb88320 buf 0xffffffff XOR 0xffffffff \<and>
   nbase_crc32c buf =
     (let r = NOT (crc_bitwise 0x82F63B78 buf 0xffffffff)
      in push_bit 24 (r AND 0xff) OR push_bit 16 (drop_bit 8 r AND 0xff)
         OR push_bit 8 (drop_bit 16 r AND 0xff) OR (drop_bit 24 r AND 0xff))"
  by (simp add: nbase_crc32_def update_crc_def fold_crc32 nbase_crc32c_def fold_crc32c Let_def)

text \<open>a CRC may be computed in pieces, as the usage example in the source does: updating a
  running value with one buffer and then another is updating it with their concatenation.\<close>

theorem update_crc_incremental: "update_crc (update_crc crc a) b = update_crc crc (a @ b)"
  by (simp add: update_crc_def xor.assoc)

text \<open>the Adler-32 checksum is the pair of the byte sum and the sum of its running values,
  both modulo 65521 and started at 1 and 0, the second in the high half; the machine words
  never overflow on the way.\<close>

theorem nbase_adler32_sums:
  "nbase_adler32 buf =
     of_nat (65536 * (snd (adler_sums 1 0 buf) mod 65521) + fst (adler_sums 1 0 buf) mod 65521)"
  by (simp add: nbase_adler32_eq push_bit_eq_mult)

text \<open>C34: \<open>sockaddr_storage_cmp\<close> is a total order on IPv4 and IPv6 addresses, whatever numbers \<open>memcmp\<close> returns: it trips no
  assertion there, is zero exactly for equal addresses, changes its sign with the order of its arguments, and is
  transitive.\<close>

theorem sockaddr_storage_cmp_total_order:
  assumes "memcmp_ok mc" and "ss_wf a" and "ss_wf b" and "ss_wf c"
  shows "\<exists>ab ba bc ac. sockaddr_storage_cmp mc a b = Some ab \<and> sockaddr_storage_cmp mc b a = Some ba \<and>
    sockaddr_storage_cmp mc b c = Some bc \<and> sockaddr_storage_cmp mc a c = Some ac \<and>
    (ab = 0 \<longleftrightarrow> a = b) \<and> sgn ba = - sgn ab \<and> (ab \<le> 0 \<and> bc \<le> 0 \<longrightarrow> ac \<le> 0)"
  using sockaddr_storage_cmp_pair [OF assms(1,2,3)] sockaddr_storage_cmp_pair [OF assms(1,3,4)]
    sockaddr_storage_cmp_pair [OF assms(1,2,4)] sockaddr_storage_cmp_trans [OF assms]
  by blast

theorem sockaddr_storage_cmp_total_order_witness:
  "\<exists>ab ba bc ac. sockaddr_storage_cmp first_difference (AF_INET 1) (AF_INET6 (replicate 16 0)) = Some ab \<and>
    sockaddr_storage_cmp first_difference (AF_INET6 (replicate 16 0)) (AF_INET 1) = Some ba \<and>
    sockaddr_storage_cmp first_difference (AF_INET6 (replicate 16 0)) (AF_INET6 (replicate 16 1)) = Some bc \<and>
    sockaddr_storage_cmp first_difference (AF_INET 1) (AF_INET6 (replicate 16 1)) = Some ac \<and>
    (ab = 0 \<longleftrightarrow> AF_INET 1 = AF_INET6 (replicate 16 0)) \<and> sgn ba = - sgn ab \<and> (ab \<le> 0 \<and> bc \<le> 0 \<longrightarrow> ac \<le> 0)"
  by (rule sockaddr_storage_cmp_total_order) (simp_all add: ss_wf_def memcmp_ok_def)

lemma ceil_div_16: "(n + 15) div 16 = (if n mod 16 = 0 then n div 16 else 1 + n div 16)" for n :: nat
proof -
  define q r where "q = n div 16" and "r = n mod 16"
  then have n: "n = 16 * q + r" "r < 16" by (simp_all add: mult_div_mod_eq)
  have "(16 * q + r + 15) div 16 = (if r = 0 then q else 1 + q)"
    using n(2) by (auto intro!: div_nat_eqI)
  then show ?thesis unfolding q_def r_def by simp
qed

text \<open>\<open>hexdump\<close> of a buffer short enough for an \<open>int\<close> stores only inside the memory it
  allocates and returns a text in which every byte appears: its two hexadecimal digits and its
  printable form stand at the columns of its line.\<close>

theorem hexdump_shows_bytes:
  assumes "length cp \<le> 16 * ((2 ^ 31 - 2) div 74 - 1)"
  shows "\<exists>buf. hexdump cp = Some (Some buf) \<and> length buf = 1 + 74 * ((length cp + 15) div 16) \<and>
    (\<forall>i<length cp. shown cp buf i)"
proof -
  let ?l = "(length cp + 15) div 16"
  have alloc: "(if length cp mod 16 = 0 then 1 + LINE_LEN * (length cp div 16)
      else 1 + LINE_LEN * (1 + length cp div 16)) = 1 + LINE_LEN * ?l"
    unfolding ceil_div_16 by simp
  obtain buf where buf: "hexdump_lines (length cp) cp 0 0 (replicate (LINE_LEN * ?l) (CHR '' '') @ [NUL])
        = Some buf" "length buf = 1 + LINE_LEN * ?l" "\<forall>k<length cp. shown cp buf k"
    using hexdump_lines_ok [of 0 cp "length cp" "replicate (LINE_LEN * ?l) (CHR '' '') @ [NUL]"] by auto
  have "shown cp (buf[LINE_LEN * ?l + 0 := NUL]) k" if "k < length cp" for k
  proof (rule shown_update)
    show "shown cp buf k" using buf(3) that by blast
    show "?l = k div 16 \<Longrightarrow> 0 \<noteq> hex_col k \<and> 0 \<noteq> hex_col k + 1 \<and> 0 \<noteq> ASC_START + k mod 16"
      using hex_col_bounds [of k] by simp
  qed simp
  moreover have "store (LINE_LEN * ?l) NUL buf = Some (buf[LINE_LEN * ?l := NUL])"
    using buf(2) by (simp add: store_def)
  ultimately have "hexdump cp = Some (Some (buf[LINE_LEN * ?l := NUL]))"
    using assms buf(1) unfolding hexdump_def alloc Let_def by (simp del: hexdump_lines.simps)
  then show ?thesis
    using buf(2) \<open>\<And>k. k < length cp \<Longrightarrow> shown cp (buf[LINE_LEN * ?l + 0 := NUL]) k\<close> by auto
qed

theorem hexdump_shows_bytes_witness:
  "\<exists>buf. hexdump (replicate 20 (65 :: u8)) = Some (Some buf) \<and>
    length buf = 1 + 74 * ((length (replicate 20 (65 :: u8)) + 15) div 16) \<and>
    (\<forall>i<length (replicate 20 (65 :: u8)). shown (replicate 20 65) buf i)"
  by (rule hexdump_shows_bytes) simp

end
