(* ===== verification/Nbase_Num.thy ===== *)
theory Nbase_Num
  imports C_String
begin

text \<open>
  The digits-only number parser \<open>parse_long\<close> of \<open>nbase/nbase_misc.c\<close>, over the part of
  \<open>strtol\<close> it reaches. \<open>long\<close> has 64 bits.
\<close>

section \<open>Numbers\<close>

definition LONG_MAX :: int where
  "LONG_MAX = 2 ^ 63 - 1"

fun digits_value :: "int \<Rightarrow> string \<Rightarrow> int" where
  "digits_value acc [] = acc"
| "digits_value acc (c # cs) = digits_value (acc * 10 + (int (code c) - 48)) cs"

text \<open>
  \<open>strtol(s, tail, 10)\<close> on a string that begins with a digit: value, tail, and whether
  \<open>errno\<close> is set to \<open>ERANGE\<close>.
\<close>

definition strtol_digits :: "string \<Rightarrow> int \<times> string \<times> bool" where
  "strtol_digits s =
     (let v = digits_value 0 (takeWhile isdigit s)
      in (min v LONG_MAX, dropWhile isdigit s, v > LONG_MAX))"

definition parse_long :: "string \<Rightarrow> int \<times> string \<times> bool" where
  "parse_long s = (if \<not> isdigit (deref s) then (0, s, False) else strtol_digits s)"

section \<open>Decimal representations\<close>

function dec :: "nat \<Rightarrow> string" where
  "dec n = (if n < 10 then [char_of (48 + n)] else dec (n div 10) @ [char_of (48 + n mod 10)])"
  by pat_completeness auto

termination dec
  by (relation "measure id") auto

declare dec.simps [simp del]

lemma digits_value_append: "digits_value acc (a @ b) = digits_value (digits_value acc a) b"
  by (induction a arbitrary: acc) auto

lemma digits_value_acc: "digits_value acc s = acc * 10 ^ length s + digits_value 0 s"
proof (induction s arbitrary: acc)
  case (Cons c s)
  show ?case
    using Cons.IH [of "acc * 10 + (int (code c) - 48)"] Cons.IH [of "int (code c) - 48"]
    by (simp add: algebra_simps)
qed simp

lemma code_digit: "n < 10 \<Longrightarrow> code (char_of (48 + n)) = 48 + n"
  by (rule code_char_of) simp

lemma dec_digits: "list_all isdigit (dec n)"
proof (induction n rule: dec.induct)
  case (1 n)
  have "isdigit (char_of (48 + m))" if "m < 10" for m :: nat
    using code_digit [OF that] that unfolding isdigit_def by linarith
  then show ?case using 1 by (subst dec.simps) auto
qed

lemma dec_not_Nil [simp]: "dec n \<noteq> []"
  by (subst dec.simps) simp

lemma digits_value_dec: "digits_value 0 (dec n) = int n"
proof (induction n rule: dec.induct)
  case (1 n)
  show ?case
  proof (cases "n < 10")
    case True
    then show ?thesis by (subst dec.simps) (simp del: char_of_nat of_char_of add: code_digit)
  next
    case False
    then have "digits_value 0 (dec n) = int (n div 10) * 10 + int (n mod 10)"
      using 1 by (subst dec.simps) (simp add: digits_value_append code_digit del: of_char_of char_of_nat)
    also have "\<dots> = int n" by (metis div_mult_mod_eq of_nat_add of_nat_mult of_nat_numeral)
    finally show ?thesis .
  qed
qed

lemma takeWhile_digits:
  assumes "list_all isdigit ds" and "\<not> isdigit (deref t)"
  shows "takeWhile isdigit (ds @ t) = ds" "dropWhile isdigit (ds @ t) = t"
  using assms by (induction ds) (cases t; auto)+

lemma parse_long_dec:
  assumes "\<not> isdigit (deref t)" and "int n \<le> LONG_MAX"
  shows "parse_long (dec n @ t) = (int n, t, False)"
proof -
  obtain c cs where d: "dec n = c # cs" by (meson dec_not_Nil list.exhaust)
  then have "isdigit (deref (dec n @ t))" using dec_digits [of n] by simp
  then show ?thesis
    using takeWhile_digits [OF dec_digits assms(1)] assms(2)
    by (simp add: parse_long_def strtol_digits_def digits_value_dec)
qed

lemma digits_value_nonneg: "list_all isdigit s \<Longrightarrow> 0 \<le> acc \<Longrightarrow> 0 \<le> digits_value acc s"
  by (induction s arbitrary: acc) (auto simp: isdigit_def)

lemma parse_long_range: "parse_long s = (n, t, e) \<Longrightarrow> 0 \<le> n \<and> n \<le> LONG_MAX \<and> suffix t s"
proof -
  assume p: "parse_long s = (n, t, e)"
  have "list_all isdigit (takeWhile isdigit s)" by (auto simp: list_all_iff dest: set_takeWhileD)
  then have "0 \<le> digits_value 0 (takeWhile isdigit s)" by (rule digits_value_nonneg) simp
  then show ?thesis
    using p by (auto simp: parse_long_def strtol_digits_def Let_def LONG_MAX_def split: if_splits)
qed

end
