(* ===== verification/Nbase_Inet.thy ===== *)
theory Nbase_Inet
  imports Nbase_Str Nbase_Num
begin

text \<open>
  The conversions between the binary and the printed form of addresses: \<open>nbase/inet_pton.c\<close> and
  \<open>nbase/inet_ntop.c\<close>. An address is the list of its bytes. An access outside of an array is
  \<open>None\<close>; the inner option is the result the code returns, \<open>Some None\<close> being \<open>0\<close> of
  \<open>inet_pton4\<close> and \<open>inet_pton6\<close> and \<open>NULL\<close> of \<open>inet_ntop\<close>. The address families have their numbers on
  Linux, 2 for \<open>AF_INET\<close> and 10 for \<open>AF_INET6\<close>.
\<close>

section \<open>Reading addresses\<close>

text \<open>The offset \<open>strchr(digits, ch) - digits\<close>, if there is one.\<close>

definition digit_index :: "string \<Rightarrow> char \<Rightarrow> nat option" where
  "digit_index digits ch = map_option (\<lambda>pch. length digits - length pch) (strchr digits ch)"

text \<open>
  The loop of \<open>inet_pton4\<close>. \<open>tmp\<close> is the part of the array that has been set; \<open>tp\<close> points at its
  last byte.
\<close>

fun pton4_loop :: "string \<Rightarrow> bool \<Rightarrow> nat \<Rightarrow> u8 list \<Rightarrow> u8 list option option" where
  "pton4_loop [] saw_digit octets tmp = Some (if octets < 4 then None else Some tmp)"
| "pton4_loop (ch # src) saw_digit octets tmp =
     (case digit_index ''0123456789'' ch of
        Some d \<Rightarrow>
          let newval = ucast (last tmp) * 10 + of_nat d :: u32
          in if newval > 255 then Some None
             else let tmp = tmp[length tmp - 1 := ucast newval]
                  in if \<not> saw_digit
                     then (if octets + 1 > 4 then Some None else pton4_loop src True (octets + 1) tmp)
                     else pton4_loop src saw_digit octets tmp
      | None \<Rightarrow>
          if ch = CHR ''.'' \<and> saw_digit
          then if octets = 4 then Some None
               else if length tmp \<ge> 4 then None
               else pton4_loop src False octets (tmp @ [0])
          else Some None)"

definition inet_pton4 :: "string \<Rightarrow> u8 list option option" where
  "inet_pton4 src = pton4_loop src False 0 [0]"

text \<open>Two bytes stored at \<open>tp\<close>.\<close>

definition put_word :: "u8 list \<Rightarrow> nat \<Rightarrow> u32 \<Rightarrow> u8 list option" where
  "put_word tmp tp val =
     (if tp + 2 \<le> length tmp
      then Some (tmp[tp := ucast (drop_bit 8 val) AND 0xff, tp + 1 := ucast val AND 0xff]) else None)"

definition xdigit_index :: "char \<Rightarrow> nat option" where
  "xdigit_index ch =
     (case digit_index ''0123456789abcdef'' ch of
        Some d \<Rightarrow> Some d
      | None \<Rightarrow> digit_index ''0123456789ABCDEF'' ch)"

text \<open>
  The loop of \<open>inet_pton6\<close>: the array \<open>tmp\<close> of 16 bytes, the offsets \<open>tp\<close> and \<open>colonp\<close> into it, the
  pointer \<open>curtok\<close> and the flags. The result is the state after the loop, \<open>Some None\<close> a
  \<open>return (0)\<close> inside it.
\<close>

fun pton6_loop ::
  "string \<Rightarrow> string \<Rightarrow> bool \<Rightarrow> u32 \<Rightarrow> u8 list \<Rightarrow> nat \<Rightarrow> nat option \<Rightarrow>
   (u8 list \<times> nat \<times> nat option \<times> bool \<times> u32) option option" where
  "pton6_loop [] curtok saw_xdigit val tmp tp colonp = Some (Some (tmp, tp, colonp, saw_xdigit, val))"
| "pton6_loop (ch # src) curtok saw_xdigit val tmp tp colonp =
     (case xdigit_index ch of
        Some d \<Rightarrow>
          let val = push_bit 4 val OR of_nat d
          in if val > 0xffff then Some None else pton6_loop src curtok True val tmp tp colonp
      | None \<Rightarrow>
          if ch = CHR '':''
          then if \<not> saw_xdigit
               then if colonp \<noteq> None then Some None else pton6_loop src src saw_xdigit val tmp tp (Some tp)
               else if tp + 2 > 16 then Some None
               else (case put_word tmp tp val of
                       None \<Rightarrow> None
                     | Some tmp \<Rightarrow> pton6_loop src src False 0 tmp (tp + 2) colonp)
          else if ch = CHR ''.'' \<and> tp + 4 \<le> 16
          then (case inet_pton4 curtok of
                  None \<Rightarrow> None
                | Some None \<Rightarrow> Some None
                | Some (Some quad) \<Rightarrow>
                    Some (Some (take tp tmp @ quad @ drop (tp + 4) tmp, tp + 4, colonp, False, val)))
          else Some None)"

text \<open>The loop that moves what follows \<open>colonp\<close> to the end of the array, one byte at a time.\<close>

definition shift_step :: "nat \<Rightarrow> nat \<Rightarrow> nat \<Rightarrow> u8 list \<Rightarrow> u8 list" where
  "shift_step colonp n i tmp =
     (let tmp = tmp[16 - i := tmp ! (colonp + n - i)] in tmp[colonp + n - i := 0])"

definition shift_right :: "nat \<Rightarrow> nat \<Rightarrow> u8 list \<Rightarrow> u8 list" where
  "shift_right colonp n tmp = fold (shift_step colonp n) [1..<n + 1] tmp"

definition inet_pton6 :: "string \<Rightarrow> u8 list option option" where
  "inet_pton6 src =
     (if deref src = CHR '':'' \<and> deref (tl src) \<noteq> CHR '':'' then Some None
      else
        let src = (if deref src = CHR '':'' then tl src else src)
        in case pton6_loop src src False 0 (replicate 16 0) 0 None of
             None \<Rightarrow> None
           | Some None \<Rightarrow> Some None
           | Some (Some (tmp, tp, colonp, saw_xdigit, val)) \<Rightarrow>
               if saw_xdigit \<and> tp + 2 > 16 then Some None
               else
                 (case (if saw_xdigit then put_word tmp tp val else Some tmp) of
                    None \<Rightarrow> None
                  | Some tmp \<Rightarrow>
                      let tp = (if saw_xdigit then tp + 2 else tp)
                      in case colonp of
                           None \<Rightarrow> Some (if tp \<noteq> 16 then None else Some tmp)
                         | Some c \<Rightarrow> Some (Some (shift_right c (tp - c) tmp))))"

text \<open>The return value and the bytes at \<open>dst\<close>, which has to have room for the address.\<close>

definition store_addr :: "u8 list \<Rightarrow> u8 list option option \<Rightarrow> (int \<times> u8 list) option" where
  "store_addr dst r =
     (case r of
        None \<Rightarrow> None
      | Some None \<Rightarrow> Some (0, dst)
      | Some (Some tmp) \<Rightarrow>
          if length tmp \<le> length dst then Some (1, tmp @ drop (length tmp) dst) else None)"

definition inet_pton :: "nat \<Rightarrow> string \<Rightarrow> u8 list \<Rightarrow> (int \<times> u8 list) option" where
  "inet_pton af src dst =
     (if af = 2 then store_addr dst (inet_pton4 src)
      else if af = 10 then store_addr dst (inet_pton6 src)
      else Some (-1, dst))"

section \<open>Printing addresses\<close>

text \<open>Characters stored one after the other from an offset on.\<close>

definition put_text :: "string \<Rightarrow> nat \<Rightarrow> string \<Rightarrow> string option" where
  "put_text dst off txt =
     (if off + length txt \<le> length dst
      then Some (take off dst @ txt @ drop (off + length txt) dst) else None)"

definition octet_text :: "u8 \<Rightarrow> string" where
  "octet_text u =
     (let u = unat u; zero = 48
      in if u > 99
         then [char_of (zero + u div 100), char_of (zero + u mod 100 div 10), char_of (zero + u mod 100 mod 10)]
         else if u > 9 then [char_of (zero + u div 10), char_of (zero + u mod 10)]
         else [char_of (zero + u)])"

text \<open>The loop of \<open>inet_ntop4\<close> with the number of octets left.\<close>

fun ntop4_loop :: "u8 list \<Rightarrow> nat \<Rightarrow> string \<Rightarrow> nat \<Rightarrow> (string \<times> nat) option" where
  "ntop4_loop src 0 dst next = Some (dst, next)"
| "ntop4_loop [] (Suc n) dst next = None"
| "ntop4_loop (u # src) (Suc n) dst next =
     (case put_text dst next (octet_text u @ ''.'') of
        None \<Rightarrow> None
      | Some dst \<Rightarrow> ntop4_loop src n dst (next + length (octet_text u) + 1))"

definition inet_ntop4 :: "u8 list \<Rightarrow> string \<Rightarrow> nat \<Rightarrow> string option option" where
  "inet_ntop4 src dst sz =
     (if sz < 16 then Some None
      else case ntop4_loop src 4 dst 0 of
             None \<Rightarrow> None
           | Some (dst, next) \<Rightarrow> Some (Some (dst[next - 1 := NUL])))"

text \<open>A run of zero words; \<open>base\<close> is \<open>None\<close> for \<open>-1\<close>, and \<open>len\<close> is only read when there is a base.\<close>

record zero_run =
  base :: "nat option"
  len :: nat

definition better_run :: "zero_run \<Rightarrow> zero_run \<Rightarrow> zero_run" where
  "better_run best cur =
     (if base cur \<noteq> None \<and> (base best = None \<or> len cur > len best) then cur else best)"

fun words_loop :: "u8 list \<Rightarrow> nat \<Rightarrow> u16 list \<Rightarrow> zero_run \<Rightarrow> zero_run \<Rightarrow> u16 list \<times> zero_run \<times> zero_run" where
  "words_loop (a # b # src) i words best cur =
     (let next_word = push_bit 8 (ucast a) OR ucast b; words = words @ [next_word]
      in if next_word = 0
         then words_loop src (i + 1) words best
                (if base cur = None then \<lparr>base = Some i, len = 1\<rparr> else cur\<lparr>len := len cur + 1\<rparr>)
         else words_loop src (i + 1) words (better_run best cur) (cur\<lparr>base := None\<rparr>))"
| "words_loop src i words best cur = (words, best, cur)"

definition best_run :: "u8 list \<Rightarrow> u16 list \<times> zero_run" where
  "best_run src =
     (let (words, best, cur) = words_loop src 0 [] \<lparr>base = None, len = 0\<rparr> \<lparr>base = None, len = 0\<rparr>;
          best = better_run best cur
      in (words, if base best \<noteq> None \<and> len best < 2 then best\<lparr>base := None\<rparr> else best))"

text \<open>The text of the conversion \<open>%x\<close>.\<close>

function hex :: "u16 \<Rightarrow> string" where
  "hex w =
     (if w < 16 then [''0123456789abcdef'' ! unat w]
      else hex (w div 16) @ [''0123456789abcdef'' ! unat (w mod 16)])"
  by pat_completeness auto

termination hex
proof (relation "measure unat")
  fix w :: u16 assume "\<not> w < 16"
  then have "unat w \<ge> 16" by (simp add: word_less_nat_alt)
  then show "(w div 16, w) \<in> measure unat" by (simp add: unat_div)
qed simp

declare hex.simps [simp del]

definition encapsulated :: "u16 list \<Rightarrow> zero_run \<Rightarrow> nat \<Rightarrow> bool" where
  "encapsulated words best i \<longleftrightarrow>
     i = 6 \<and> base best = Some 0 \<and> (len best = 6 \<or> (len best = 5 \<and> words ! 5 = 0xffff))"

text \<open>The formatting loop over \<open>tmp\<close>, an array of 46 bytes, with the offset \<open>tp\<close>.\<close>

partial_function (option) ntop6_loop ::
  "u8 list \<Rightarrow> u16 list \<Rightarrow> zero_run \<Rightarrow> nat \<Rightarrow> string \<Rightarrow> nat \<Rightarrow> (string \<times> nat) option option" where
  "ntop6_loop src words best i tmp tp =
     (if i < 8
      then if base best = Some i
           then (case put_text tmp tp '':'' of
                   None \<Rightarrow> None
                 | Some tmp \<Rightarrow> ntop6_loop src words best (i + len best) tmp (tp + 1))
           else (case (if i \<noteq> 0 then put_text tmp tp '':'' else Some tmp) of
                   None \<Rightarrow> None
                 | Some tmp \<Rightarrow>
                     let tp = (if i \<noteq> 0 then tp + 1 else tp)
                     in if encapsulated words best i
                        then (case inet_ntop4 (drop 12 src) (drop tp tmp) (46 - tp) of
                                None \<Rightarrow> None
                              | Some None \<Rightarrow> Some None
                              | Some (Some quad) \<Rightarrow>
                                  Some (Some (take tp tmp @ quad, tp + length (cstr quad))))
                        else (case Vsnprintf tmp tp (46 - tp) (hex (words ! i)) of
                                None \<Rightarrow> None
                              | Some (tmp, ret) \<Rightarrow> ntop6_loop src words best (i + 1) tmp (tp + nat ret)))
      else Some (Some (tmp, tp)))"

declare ntop6_loop.simps [code]

text \<open>Nothing of the array is read before it is written, so its first contents do not matter.\<close>

definition inet_ntop6 :: "u8 list \<Rightarrow> string \<Rightarrow> nat \<Rightarrow> string option option" where
  "inet_ntop6 src dst sz =
     (let (words, best) = best_run src
      in case ntop6_loop src words best 0 (replicate 46 NUL) 0 of
           None \<Rightarrow> None
         | Some None \<Rightarrow> Some None
         | Some (Some (tmp, tp)) \<Rightarrow>
             (let trailing = (case base best of None \<Rightarrow> False | Some b \<Rightarrow> b + len best = 8);
                  txt = (if trailing then '':'' else []) @ [NUL]
              in case put_text tmp tp txt of
                   None \<Rightarrow> None
                 | Some tmp \<Rightarrow>
                     if tp + length txt > sz then Some None
                     else map_option (\<lambda>r. Some (fst r)) (Strncpy dst (cstr tmp) sz)))"

definition inet_ntop :: "nat \<Rightarrow> u8 list \<Rightarrow> string \<Rightarrow> nat \<Rightarrow> string option option" where
  "inet_ntop af src dst sz =
     (if af = 2 then inet_ntop4 src dst sz
      else if af = 10 then inet_ntop6 src dst sz
      else Some None)"

section \<open>Dotted quads\<close>

lemma digit_index_digit:
  assumes "n < 10"
  shows "digit_index ''0123456789'' (char_of (48 + n)) = Some n"
proof -
  have "list_all (\<lambda>n. digit_index ''0123456789'' (char_of (48 + n)) = Some n) [0..<10]" by code_simp
  then show ?thesis using assms by (simp only: list_all_iff set_upt atLeastLessThan_iff) auto
qed

lemma digit_index_dot [simp]: "digit_index ''0123456789'' (CHR ''.'') = None"
  by code_simp

lemma digit_index_less: "c \<noteq> NUL \<Longrightarrow> digit_index ds c = Some d \<Longrightarrow> d < length ds"
  by (auto simp: digit_index_def strchr_Some_iff)

lemma pton4_digit:
  assumes "d < 10" and "unat v * 10 + d \<le> 255" and "saw \<or> k < 4"
  shows "pton4_loop (char_of (48 + d) # src) saw k (pre @ [v]) =
    pton4_loop src True (if saw then k else k + 1) (pre @ [of_nat (unat v * 10 + d)])"
proof -
  let ?n = "ucast v * 10 + of_nat d :: u32"
  have n: "?n = of_nat (unat v * 10 + d)" by simp
  have "unat ?n = unat v * 10 + d" unfolding n unat_of_nat using assms(2) by simp
  then have "\<not> ?n > 255" using assms(2) by (simp add: word_less_nat_alt)
  moreover have "ucast ?n = (of_nat (unat v * 10 + d) :: u8)"
    unfolding n unsigned_of_nat using assms(2) by (subst take_bit_nat_eq_self) simp_all
  ultimately show ?thesis
    using assms(3) by (auto simp: digit_index_digit [OF assms(1)] Let_def simp del: char_of_nat)
qed

lemma pton4_octet:
  assumes "k < 4"
  shows "pton4_loop (octet_text u @ src) False k (pre @ [0]) = pton4_loop src True (k + 1) (pre @ [u])"
proof -
  define n where "n = unat u"
  have n: "n < 256" using unsigned_less [of u] by (simp add: n_def)
  have u: "(of_nat n :: u8) = u" by (simp add: n_def)
  have val: "unat (of_nat m :: u8) = m" if "m < 256" for m using that by (simp add: unat_of_nat)
  consider "n > 99" | "n \<le> 99" "n > 9" | "n \<le> 9" by linarith
  then show ?thesis
  proof cases
    case 1
    have d: "n div 100 < 10" "n mod 100 div 10 < 10" "n mod 100 mod 10 < 10" using n by auto
    have "n div 100 = n div 10 div 10" "n mod 100 div 10 = n div 10 mod 10" "n mod 100 mod 10 = n mod 10"
      using div_mult2_eq [of n 10 10] mod_mult2_eq [of n 10 10] by simp_all
    then have s: "n div 100 * 10 + n mod 100 div 10 = n div 10" "n div 10 * 10 + n mod 100 mod 10 = n"
      by (simp_all only: div_mult_mod_eq)
    have lt: "n div 100 < 256" "n div 10 < 256" using n by auto
    have o: "octet_text u = [char_of (48 + n div 100), char_of (48 + n mod 100 div 10), char_of (48 + n mod 100 mod 10)]"
      using 1 by (simp add: octet_text_def n_def Let_def)
    show ?thesis
      unfolding o using assms n lt s
      by (simp add: pton4_digit d val u del: pton4_loop.simps char_of_nat of_nat_div of_nat_mult of_nat_add)
  next
    case 2
    have d: "n div 10 < 10" "n mod 10 < 10" using 2 by auto
    have o: "octet_text u = [char_of (48 + n div 10), char_of (48 + n mod 10)]"
      using 2 by (simp add: octet_text_def n_def Let_def)
    show ?thesis
      unfolding o using assms n d 2
      by (simp add: pton4_digit val u del: pton4_loop.simps char_of_nat of_nat_div of_nat_mult of_nat_add)
  next
    case 3
    have o: "octet_text u = [char_of (48 + n)]" using 3 by (simp add: octet_text_def n_def Let_def)
    show ?thesis unfolding o using assms n 3 by (simp add: pton4_digit val u del: pton4_loop.simps char_of_nat)
  qed
qed

lemma pton4_dot:
  assumes "k < 4" and "length tmp < 4"
  shows "pton4_loop (CHR ''.'' # src) True k tmp = pton4_loop src False k (tmp @ [0])"
  using assms by simp

definition quad_text :: "u8 list \<Rightarrow> string" where
  "quad_text q = octet_text (q ! 0) @ ''.'' @ octet_text (q ! 1) @ ''.'' @ octet_text (q ! 2) @ ''.'' @ octet_text (q ! 3)"

lemma inet_pton4_quad: "length q = 4 \<Longrightarrow> inet_pton4 (quad_text q) = Some (Some q)"
proof -
  assume "length q = 4"
  then obtain a b c d where q: "q = [a, b, c, d]" by (auto simp: numeral_eq_Suc length_Suc_conv)
  have p: "pton4_loop (octet_text d) False k (pre @ [0]) = pton4_loop [] True (k + 1) (pre @ [d])" if "k < 4" for k pre
    using pton4_octet [OF that, of d "[]"] by simp
  note step = pton4_octet [of _ _ _ "[]", simplified] pton4_octet [of _ _ _ "[x]" for x, simplified]
    pton4_octet [of _ _ _ "[x, y]" for x y, simplified] p [of _ "[x, y, z]" for x y z, simplified]
  show ?thesis by (simp add: q inet_pton4_def quad_text_def step pton4_dot del: pton4_loop.simps(2))
qed

lemma put_text_append:
  "off = length pre \<Longrightarrow> length t \<le> length rest \<Longrightarrow>
   put_text (pre @ rest) off t = Some (pre @ t @ drop (length t) rest)"
  by (simp add: put_text_def)

lemma octet_text_length: "1 \<le> length (octet_text u)" "length (octet_text u) \<le> 3"
  by (simp_all add: octet_text_def Let_def)

lemma octet_text_no_NUL: "NUL \<notin> set (octet_text u)"
proof -
  have "unat u < 256" using unsigned_less [of u] by simp
  then have "NUL \<noteq> char_of (48 + n)" if "n < 10" for n :: nat
    using code_digit [OF that] by (metis code_eq_0 add_eq_0_iff_both_eq_0 zero_neq_numeral)
  moreover have "unat u div 100 < 10" "unat u mod 100 div 10 < 10" using \<open>unat u < 256\<close> by auto
  ultimately show ?thesis by (simp add: octet_text_def Let_def del: char_of_nat)
qed

lemma quad_text_length: "length (quad_text q) \<le> 15"
  using octet_text_length(2) [of "q ! 0"] octet_text_length(2) [of "q ! 1"]
    octet_text_length(2) [of "q ! 2"] octet_text_length(2) [of "q ! 3"]
  by (simp add: quad_text_def)

lemma quad_text_no_NUL: "NUL \<notin> set (quad_text q)"
  by (simp add: quad_text_def octet_text_no_NUL)

definition dotted :: "u8 list \<Rightarrow> string" where
  "dotted us = concat (map (\<lambda>u. octet_text u @ ''.'') us)"

lemma ntop4_loop_dotted:
  assumes "n \<le> length src" and "4 * n \<le> length rest"
  shows "ntop4_loop src n (pre @ rest) (length pre) =
    Some (pre @ dotted (take n src) @ drop (length (dotted (take n src))) rest, length pre + length (dotted (take n src)))"
  using assms
proof (induction src n "pre @ rest" "length pre" arbitrary: pre rest rule: ntop4_loop.induct)
  case (3 u src n)
  let ?t = "octet_text u @ ''.''"
  have len: "length ?t \<le> 4" using octet_text_length(2) [of u] by simp
  then have p: "put_text (pre @ rest) (length pre) ?t = Some ((pre @ ?t) @ drop (length ?t) rest)"
    using 3(3) by (simp add: put_text_append)
  have l: "length pre + length (octet_text u) + 1 = length (pre @ ?t)" by simp
  have "ntop4_loop src n ((pre @ ?t) @ drop (length ?t) rest) (length (pre @ ?t)) =
    Some ((pre @ ?t) @ dotted (take n src) @ drop (length (dotted (take n src))) (drop (length ?t) rest),
          length (pre @ ?t) + length (dotted (take n src)))"
    by (rule 3(1) [OF p l]) (use 3(2,3) len in auto)
  then show ?case
    unfolding ntop4_loop.simps p option.case l by (simp add: dotted_def add.commute)
qed (auto simp: dotted_def)

lemma inet_ntop4_quad:
  assumes "4 \<le> length src" and "16 \<le> sz" and "sz \<le> length dst"
  shows "inet_ntop4 src dst sz = Some (Some (quad_text src @ NUL # drop (length (quad_text src) + 1) dst))"
proof -
  obtain a b c d r where src: "src = a # b # c # d # r"
    using assms(1) by (auto simp: numeral_eq_Suc Suc_le_length_iff)
  have d: "dotted (take 4 src) = quad_text src @ ''.''" by (simp add: dotted_def quad_text_def src)
  have "ntop4_loop src 4 dst 0 =
    Some (quad_text src @ ''.'' @ drop (length (quad_text src) + 1) dst, length (quad_text src) + 1)"
    using ntop4_loop_dotted [of 4 src dst "[]"] assms by (simp add: d)
  then show ?thesis using assms by (simp add: inet_ntop4_def list_update_append)
qed

section \<open>No access outside of the arrays\<close>

lemma pton4_loop_safe:
  assumes "if saw then length tmp = octets \<and> 1 \<le> octets \<and> octets \<le> 4 else length tmp = octets + 1 \<and> octets \<le> 3"
  shows "\<exists>r. pton4_loop src saw octets tmp = Some r \<and> (\<forall>q. r = Some q \<longrightarrow> length q = 4)"
  using assms
  by (induction src saw octets tmp rule: pton4_loop.induct)
     (force split: option.splits if_splits simp: Let_def)+

lemma inet_pton4_safe: "\<exists>r. inet_pton4 src = Some r \<and> (\<forall>q. r = Some q \<longrightarrow> length q = 4)"
  unfolding inet_pton4_def by (rule pton4_loop_safe) simp

lemma put_word_safe: "tp + 2 \<le> length tmp \<Longrightarrow> \<exists>tmp'. put_word tmp tp val = Some tmp' \<and> length tmp' = length tmp"
  by (simp add: put_word_def)

lemma pton6_loop_safe:
  assumes "length tmp = 16" and "tp \<le> 16" and "\<forall>c. colonp = Some c \<longrightarrow> c \<le> tp"
  shows "\<exists>r. pton6_loop src curtok saw val tmp tp colonp = Some r \<and>
    (\<forall>tmp' tp' colonp' saw' val'. r = Some (tmp', tp', colonp', saw', val') \<longrightarrow>
       length tmp' = 16 \<and> tp' \<le> 16 \<and> (\<forall>c. colonp' = Some c \<longrightarrow> c \<le> tp'))"
  using assms
proof (induction src curtok saw val tmp tp colonp rule: pton6_loop.induct)
  case (2 ch src curtok saw val tmp tp colonp)
  show ?case
  proof (cases "xdigit_index ch")
    case (Some d)
    then show ?thesis using 2(3) [OF Some refl] 2(4,5,6) by (simp add: Let_def)
  next
    case None
    show ?thesis
    proof (cases "ch = CHR '':''")
      case True
      show ?thesis
      proof (cases saw)
        case False
        then show ?thesis using 2(1) [OF None True] 2(4,5,6) None True by simp
      next
        case s: True
        show ?thesis
        proof (cases "tp + 2 > 16")
          case False
          then obtain tmp' where "put_word tmp tp val = Some tmp'" "length tmp' = length tmp"
            using put_word_safe [of tp tmp val] 2(4) by auto
          then show ?thesis using 2(2) [OF None True _ False] s False 2(4,5,6) None True by force
        qed (use s None True in simp)
      qed
    next
      case False
      from inet_pton4_safe [of curtok] obtain r where "inet_pton4 curtok = Some r" "\<forall>q. r = Some q \<longrightarrow> length q = 4"
        by blast
      then show ?thesis using None False 2(4,5,6) by (cases r) auto
    qed
  qed
qed simp

lemma length_shift_right [simp]: "length (shift_right c n tmp) = length tmp"
proof -
  have "length (fold (shift_step c n) is tmp) = length tmp" for "is"
    by (induction "is" arbitrary: tmp) (simp_all add: shift_step_def Let_def)
  then show ?thesis by (simp add: shift_right_def)
qed

lemma inet_pton6_safe: "\<exists>r. inet_pton6 src = Some r \<and> (\<forall>q. r = Some q \<longrightarrow> length q = 16)"
proof (cases "deref src = CHR '':'' \<and> deref (tl src) \<noteq> CHR '':''")
  case False
  let ?src = "if deref src = CHR '':'' then tl src else src"
  let ?ok = "\<lambda>r. \<forall>tmp' tp' colonp' saw' val'. r = Some (tmp', tp', colonp', saw', val') \<longrightarrow>
    length tmp' = 16 \<and> tp' \<le> 16 \<and> (\<forall>c. colonp' = Some c \<longrightarrow> c \<le> tp')"
  have "\<exists>r. pton6_loop ?src ?src False 0 (replicate 16 0) 0 None = Some r \<and> ?ok r"
    by (rule pton6_loop_safe) simp_all
  then obtain r where r: "pton6_loop ?src ?src False 0 (replicate 16 0) 0 None = Some r" "?ok r" by blast
  show ?thesis
  proof (cases r)
    case (Some st)
    obtain tmp tp colonp saw val where st: "st = (tmp, tp, colonp, saw, val)" by (cases st)
    have l: "length tmp = 16" using r(2) Some st by simp
    show ?thesis
    proof (cases "saw \<and> tp + 2 > 16")
      case s: False
      then obtain tmp' where "(if saw then put_word tmp tp val else Some tmp) = Some tmp'" "length tmp' = 16"
        using put_word_safe [of tp tmp val] l by (cases saw) auto
      then show ?thesis
        using False r(1) Some st s by (cases colonp) (auto simp: inet_pton6_def Let_def)
    qed (use False r(1) Some st in \<open>simp add: inet_pton6_def Let_def\<close>)
  qed (use False r(1) in \<open>simp add: inet_pton6_def Let_def\<close>)
qed (simp add: inet_pton6_def)

end
