(* ===== verification/Nbase_Inet6.thy ===== *)
theory Nbase_Inet6
  imports Nbase_Inet
begin

text \<open>
  The printed form of IPv6 addresses: what \<open>inet_ntop6\<close> writes, and that \<open>inet_pton6\<close> reads it back.
\<close>

section \<open>Words\<close>

definition wbytes :: "u16 \<Rightarrow> u8 list" where
  "wbytes w = [ucast (drop_bit 8 w), ucast w]"

definition bytes_of :: "u16 list \<Rightarrow> u8 list" where
  "bytes_of ws = concat (map wbytes ws)"

lemma bytes_of_simps [simp]:
  "bytes_of [] = []" "bytes_of (w # ws) = wbytes w @ bytes_of ws" "bytes_of (vs @ ws) = bytes_of vs @ bytes_of ws"
  by (simp_all add: bytes_of_def)

lemma length_wbytes [simp]: "length (wbytes w) = 2"
  by (simp add: wbytes_def)

lemma length_bytes_of [simp]: "length (bytes_of ws) = 2 * length ws"
  by (induction ws) simp_all

lemma bytes_of_zeros: "bytes_of (replicate n 0) = replicate (2 * n) 0"
  by (induction n) (simp_all add: wbytes_def)

lemma wbytes_of_bytes: "wbytes (push_bit 8 (ucast a) OR ucast b) = [a, b]"
  unfolding wbytes_def
  by (simp, intro conjI; rule bit_word_eqI) (auto simp: bit_simps dest: bit_imp_le_length)

lemma hex_step: "push_bit 4 (ucast (w div 16)) OR of_nat (unat (w mod 16)) = (ucast w :: u32)" for w :: u16
proof -
  have "w div 16 = drop_bit 4 w" "w mod 16 = take_bit 4 w"
    by (simp_all add: drop_bit_eq_div take_bit_eq_mod)
  then show ?thesis
    by (simp, intro bit_word_eqI) (auto simp: bit_simps)
qed

section \<open>Reading\<close>

lemma xdigit_index_hex: "d < 16 \<Longrightarrow> xdigit_index (''0123456789abcdef'' ! d) = Some d"
proof -
  have "list_all (\<lambda>d. xdigit_index (''0123456789abcdef'' ! d) = Some d) [0..<16]" by code_simp
  then show "d < 16 \<Longrightarrow> ?thesis" by (simp only: list_all_iff set_upt atLeastLessThan_iff) auto
qed

lemma xdigit_index_others [simp]: "xdigit_index (CHR '':'') = None" "xdigit_index (CHR ''.'') = None"
  by code_simp+

lemma pton6_hex_digit:
  assumes "d < 16" and "push_bit 4 v OR of_nat d \<le> 0xffff"
  shows "pton6_loop (''0123456789abcdef'' ! d # src) cur saw v tmp tp col =
    pton6_loop src cur True (push_bit 4 v OR of_nat d) tmp tp col"
  unfolding pton6_loop.simps xdigit_index_hex [OF assms(1)] option.case Let_def
  using assms(2) by (simp only: linorder_not_less [symmetric] if_False)

lemma pton6_hex:
  "pton6_loop (hex w @ src) cur saw 0 tmp tp col = pton6_loop src cur True (ucast w) tmp tp col"
proof (induction w arbitrary: src saw rule: hex.induct)
  case (1 w)
  have w: "unat w < 65536" using unsigned_less [of w] by simp
  have "(ucast w :: u32) = of_nat (unat w)" by simp
  then have "unat (ucast w :: u32) = unat w" using w by (simp only: unat_of_nat) simp
  then have le: "(ucast w :: u32) \<le> 0xffff" using w by (simp add: word_le_nat_alt)
  show ?case
  proof (cases "w < 16")
    case True
    then have d: "unat w < 16" by (simp add: word_less_nat_alt)
    have "push_bit 4 0 OR of_nat (unat w) = (ucast w :: u32)" by simp
    then show ?thesis
      using pton6_hex_digit [OF d, of 0 src cur saw tmp tp col] le True by (simp add: hex.simps [of w])
  next
    case False
    have d: "unat (w mod 16) < 16" by (simp add: unat_mod)
    then show ?thesis
      using 1 [OF False, of "''0123456789abcdef'' ! unat (w mod 16) # src" saw] False le hex_step [of w]
        pton6_hex_digit [OF d, of "ucast (w div 16)" src cur True tmp tp col]
      by (simp add: hex.simps [of w])
  qed
qed

definition groups :: "u16 list \<Rightarrow> string" where
  "groups ws = concat (map (\<lambda>w. hex w @ '':'') ws)"

lemma groups_simps [simp]: "groups [] = []" "groups (w # ws) = hex w @ CHR '':'' # groups ws"
  "groups (vs @ ws) = groups vs @ groups ws"
  by (simp_all add: groups_def)

text \<open>The array with the bytes written so far.\<close>

definition filled :: "u8 list \<Rightarrow> u8 list" where
  "filled bs = bs @ replicate (16 - length bs) 0"

lemma put_word_filled:
  assumes "length bs + 2 \<le> 16"
  shows "put_word (filled bs) (length bs) (ucast w) = Some (filled (bs @ wbytes w))"
proof -
  have "ucast (drop_bit 8 (ucast w :: u32)) = (ucast (drop_bit 8 w) :: u8)" "ucast (ucast w :: u32) = (ucast w :: u8)"
    by (intro bit_word_eqI; auto simp: bit_simps dest: bit_imp_le_length)+
  moreover have "x AND 0xff = x" for x :: u8
  proof -
    have "(0xff :: u8) = - 1" by simp
    then show ?thesis by (simp only: and.right_neutral)
  qed
  moreover have "16 - length bs = Suc (Suc (14 - length bs))" using assms by simp
  ultimately show ?thesis
    using assms by (simp add: put_word_def filled_def wbytes_def list_update_append)
qed

lemma pton6_groups:
  "length bs + 2 * length ws \<le> 16 \<Longrightarrow>
   pton6_loop (groups ws @ src) (groups ws @ src) False 0 (filled bs) (length bs) col =
   pton6_loop src src False 0 (filled (bs @ bytes_of ws)) (length bs + 2 * length ws) col"
proof (induction ws arbitrary: bs)
  case (Cons w ws)
  have "pton6_loop (groups (w # ws) @ src) (groups (w # ws) @ src) False 0 (filled bs) (length bs) col =
    pton6_loop (groups ws @ src) (groups ws @ src) False 0 (filled (bs @ wbytes w)) (length (bs @ wbytes w)) col"
    using Cons.prems by (simp add: pton6_hex put_word_filled)
  then show ?case using Cons.IH [of "bs @ wbytes w"] Cons.prems by simp
qed simp

text \<open>A nonempty list of words, separated by colons.\<close>

definition joined :: "u16 list \<Rightarrow> string" where
  "joined ws = (if ws = [] then [] else groups (butlast ws) @ hex (last ws))"

text \<open>The array after the last group has been stored.\<close>

definition stored :: "u8 list \<times> nat \<times> nat option \<times> bool \<times> u32 \<Rightarrow> (u8 list \<times> nat \<times> nat option) option" where
  "stored st =
     (case st of (tmp, tp, colonp, saw_xdigit, val) \<Rightarrow>
        if saw_xdigit
        then if tp + 2 \<le> 16 then map_option (\<lambda>tmp. (tmp, tp + 2, colonp)) (put_word tmp tp val) else None
        else Some (tmp, tp, colonp))"

lemma pton6_joined:
  assumes "length bs + 2 * length ws \<le> 16"
  shows "\<exists>st. pton6_loop (joined ws) (joined ws) False 0 (filled bs) (length bs) col = Some (Some st) \<and>
    stored st = Some (filled (bs @ bytes_of ws), length bs + 2 * length ws, col)"
proof (cases "ws = []")
  case False
  then have ws: "butlast ws @ [last ws] = ws" by simp
  let ?b = "bs @ bytes_of (butlast ws)"
  have len: "length ?b + 2 = length bs + 2 * length ws" using False by (cases ws) auto
  have "pton6_loop (joined ws) (joined ws) False 0 (filled bs) (length bs) col =
    pton6_loop (hex (last ws)) (hex (last ws)) False 0 (filled ?b) (length ?b) col"
    using pton6_groups [of bs "butlast ws" "hex (last ws)" col] False assms len by (simp add: joined_def)
  also have "\<dots> = Some (Some (filled ?b, length ?b, col, True, ucast (last ws)))"
    using pton6_hex [of "last ws" "[]"] by simp
  finally show ?thesis
    using put_word_filled [of ?b "last ws"] len assms ws
    by (simp add: stored_def) (metis append.assoc bytes_of_simps(1,2,3) append_Nil2)
qed (simp add: joined_def stored_def)

lemma take_bit_hex_step:
  fixes v :: u32
  assumes "take_bit k v = v" and "d < 16"
  shows "take_bit (k + 4) (push_bit 4 v OR of_nat d) = push_bit 4 v OR of_nat d"
proof -
  have "d < 2 ^ (k + 4)" using assms(2) by (simp add: power_add less_le_trans [of _ 16])
  then have "take_bit (k + 4) d = d" by (rule take_bit_nat_eq_self)
  then show ?thesis using assms(1) by (simp add: take_bit_or take_bit_push_bit take_bit_of_nat)
qed

lemma take_bit_bound:
  fixes v :: u32
  assumes "take_bit k v = v" and "k \<le> 16"
  shows "v \<le> 0xffff"
proof -
  have "take_bit 16 (take_bit k v) = take_bit k v" using assms(2) by (simp add: min_absorb2)
  then have "v = take_bit 16 (take_bit k v)" using assms(1) by simp
  also have "\<dots> = take_bit k v AND 0xffff" by (simp add: take_bit_eq_mask mask_eq_exp_minus_1)
  also have "\<dots> \<le> 0xffff" by (rule word_and_le1)
  finally show ?thesis .
qed

lemma pton6_digits:
  assumes "list_all (\<lambda>d. d < 10) ds" and "take_bit k v = v" and "k + 4 * length ds \<le> 16"
  shows "\<exists>v'. pton6_loop (map (\<lambda>d. ''0123456789abcdef'' ! d) ds @ src) cur saw v tmp tp col =
    pton6_loop src cur (saw \<or> ds \<noteq> []) v' tmp tp col"
  using assms
proof (induction ds arbitrary: k v saw)
  case (Cons d ds)
  let ?v = "push_bit 4 v OR of_nat d"
  have d: "d < 16" using Cons.prems(1) by simp
  have t: "take_bit (k + 4) ?v = ?v" using Cons.prems(2) d by (rule take_bit_hex_step)
  then have "?v \<le> 0xffff" by (rule take_bit_bound) (use Cons.prems(3) in simp)
  moreover have "\<exists>v'. pton6_loop (map (\<lambda>d. ''0123456789abcdef'' ! d) ds @ src) cur True ?v tmp tp col =
    pton6_loop src cur (True \<or> ds \<noteq> []) v' tmp tp col"
    by (rule Cons.IH [OF _ t]) (use Cons.prems in auto)
  ultimately show ?case using pton6_hex_digit [OF d] by simp
qed auto

lemma octet_text_digits: "\<exists>ds. octet_text u = map (\<lambda>d. ''0123456789abcdef'' ! d) ds \<and> list_all (\<lambda>d. d < 10) ds \<and>
  1 \<le> length ds \<and> length ds \<le> 3"
proof -
  have "list_all (\<lambda>d. char_of (48 + d) = ''0123456789abcdef'' ! d) [0..<10]" by code_simp
  then have c: "char_of (48 + d) = ''0123456789abcdef'' ! d" if "d < 10" for d :: nat
    using that by (simp only: list_all_iff set_upt atLeastLessThan_iff) auto
  have u: "unat u < 256" using unsigned_less [of u] by simp
  let ?n = "unat u"
  let ?ds = "if ?n > 99 then [?n div 100, ?n mod 100 div 10, ?n mod 100 mod 10]
    else if ?n > 9 then [?n div 10, ?n mod 10] else [?n]"
  have d: "?n div 100 < 10" "?n mod 100 div 10 < 10" using u by auto
  have l: "list_all (\<lambda>d. d < 10) ?ds" using d by auto
  then have "octet_text u = map (\<lambda>d. ''0123456789abcdef'' ! d) ?ds"
    using c by (auto simp: octet_text_def Let_def simp del: char_of_nat)
  with l show ?thesis by (intro exI [of _ ?ds]) auto
qed

lemma pton6_quad:
  assumes "length bs + 4 \<le> 16" and "length q = 4"
  shows "\<exists>st. pton6_loop (quad_text q) (quad_text q) False 0 (filled bs) (length bs) col = Some (Some st) \<and>
    stored st = Some (filled (bs @ q), length bs + 4, col)"
proof -
  from octet_text_digits [of "q ! 0"] obtain ds where ds: "octet_text (q ! 0) = map (\<lambda>d. ''0123456789abcdef'' ! d) ds"
    "list_all (\<lambda>d. d < 10) ds" "1 \<le> length ds" "length ds \<le> 3" by blast
  have q: "quad_text q = octet_text (q ! 0) @ CHR ''.'' # drop (length (octet_text (q ! 0)) + 1) (quad_text q)"
    by (simp add: quad_text_def)
  have "\<exists>v. pton6_loop (map (\<lambda>d. ''0123456789abcdef'' ! d) ds @ CHR ''.'' # rest) cur False 0 tmp tp col =
      pton6_loop (CHR ''.'' # rest) cur (False \<or> ds \<noteq> []) v tmp tp col" for rest cur tmp tp
    by (rule pton6_digits [where k = 0]) (use ds in auto)
  then obtain v where "pton6_loop (quad_text q) (quad_text q) False 0 (filled bs) (length bs) col =
      pton6_loop (CHR ''.'' # drop (length (octet_text (q ! 0)) + 1) (quad_text q)) (quad_text q) (False \<or> ds \<noteq> []) v
        (filled bs) (length bs) col"
    using q ds(1) by metis
  also have "\<dots> = Some (Some (bs @ q @ drop (length bs + 4) (filled bs), length bs + 4, col, False, v))"
    using assms by (simp add: inet_pton4_quad filled_def)
  finally show ?thesis using assms by (simp add: stored_def filled_def)
qed

lemma inet_pton6_stored:
  assumes "deref src = CHR '':'' \<longrightarrow> deref (tl src) = CHR '':''"
    and "pton6_loop (if deref src = CHR '':'' then tl src else src) (if deref src = CHR '':'' then tl src else src)
      False 0 (filled []) 0 None = Some (Some st)"
    and "stored st = Some (tmp, tp, col)"
  shows "inet_pton6 src = Some (case col of None \<Rightarrow> if tp = 16 then Some tmp else None
    | Some c \<Rightarrow> Some (shift_right c (tp - c) tmp))"
proof -
  obtain tmp1 tp1 col1 saw val where st: "st = (tmp1, tp1, col1, saw, val)" by (cases st)
  have z: "filled [] = replicate 16 0" by (simp add: filled_def)
  from assms(3) have s: "(saw \<and> tp1 + 2 > 16) = False" "(if saw then put_word tmp1 tp1 val else Some tmp1) = Some tmp"
    "(if saw then tp1 + 2 else tp1) = tp" "col1 = col"
    by (auto simp: st stored_def split: if_splits)
  have c: "(deref src = CHR '':'' \<and> deref (tl src) \<noteq> CHR '':'') = False" using assms(1) by blast
  show ?thesis
    unfolding inet_pton6_def Let_def c if_False assms(2) [unfolded z] st option.case prod.case s
    by (cases col) simp_all
qed

text \<open>The bytes after \<open>colonp\<close> end up at the end of the array when there is room between them.\<close>

lemma shift_steps:
  assumes "length P + length S + g = 16" and "0 < g" and "i = length S + 1" and "c + n = length P + length S"
    and "c \<le> length P"
  shows "fold (shift_step c n) [i..<n + 1] (P @ replicate g 0 @ S) =
    take c P @ replicate g 0 @ drop c P @ S"
  using assms
proof (induction "length P - c" arbitrary: P S i)
  case 0
  then have "n + 1 = i" "length P \<le> c" by auto
  then show ?case by simp
next
  case (Suc k)
  then obtain Q x where P: "P = Q @ [x]" by (metis diff_0_eq_0 list.size(3) old.nat.distinct(2) rev_exhaust)
  obtain h where g: "g = Suc h" using Suc.prems(2) by (cases g) auto
  have c: "c \<le> length Q" using Suc.hyps(2) P by simp
  have i: "16 - i = length P + h" "c + n - i = length Q" "i < n + 1"
    using Suc.prems g P Suc.hyps(2) by auto
  have "shift_step c n i (P @ replicate g 0 @ S) = (Q @ [x] @ replicate g 0 @ S)[length P + h := x, length Q := 0]"
    by (simp add: shift_step_def i P)
  also have "Q @ [x] @ replicate g 0 @ S = (Q @ [x] @ replicate h 0) @ 0 # S"
    by (simp add: g replicate_app_Cons_same)
  also have "((Q @ [x] @ replicate h 0) @ 0 # S)[length P + h := x] = Q @ x # replicate h 0 @ x # S"
    using list_update_length [of "Q @ [x] @ replicate h 0" 0 S x] by (simp add: P)
  also have "(Q @ x # replicate h 0 @ x # S)[length Q := 0] = Q @ [0] @ replicate h 0 @ [x] @ S"
    by simp
  also have "\<dots> = Q @ replicate g 0 @ (x # S)" by (simp add: g)
  finally have step: "shift_step c n i (P @ replicate g 0 @ S) = Q @ replicate g 0 @ (x # S)" .
  have "[i..<n + 1] = i # [i + 1..<n + 1]" using i(3) by (simp add: upt_rec)
  then have "fold (shift_step c n) [i..<n + 1] (P @ replicate g 0 @ S) =
    fold (shift_step c n) [i + 1..<n + 1] (Q @ replicate g 0 @ (x # S))" using step by simp
  also have "\<dots> = take c Q @ replicate g 0 @ drop c Q @ (x # S)"
    by (rule Suc.hyps(1)) (use Suc.prems Suc.hyps(2) P c in auto)
  finally show ?case using P c by simp
qed

lemma shift_right_filled:
  assumes "length P + length S < 16"
  shows "shift_right (length P) (length S) (filled (P @ S)) =
    P @ replicate (16 - (length P + length S)) 0 @ S"
proof -
  define g where "g = 16 - (length P + length S)"
  have "fold (shift_step (length P) (length S)) [1..<length S + 1] ((P @ S) @ replicate g 0 @ []) =
    take (length P) (P @ S) @ replicate g 0 @ drop (length P) (P @ S) @ []"
    by (rule shift_steps) (use assms in \<open>auto simp: g_def\<close>)
  then show ?thesis
    by (simp only: shift_right_def filled_def length_append g_def [symmetric] append_Nil2 append_assoc)
       (simp only: take_append take_all drop_append drop_all le_refl diff_self_eq_0 take_0 drop_0 append_Nil2 append_Nil)
qed

section \<open>Runs of zero words\<close>

definition zeros_at :: "u16 list \<Rightarrow> nat \<Rightarrow> nat \<Rightarrow> bool" where
  "zeros_at ws b l \<longleftrightarrow> 1 \<le> l \<and> b + l \<le> length ws \<and> take l (drop b ws) = replicate l 0"

definition run_ok :: "u16 list \<Rightarrow> zero_run \<Rightarrow> bool" where
  "run_ok ws r \<longleftrightarrow> (\<forall>b. base r = Some b \<longrightarrow> zeros_at ws b (len r))"

definition run_ends :: "u16 list \<Rightarrow> zero_run \<Rightarrow> bool" where
  "run_ends ws r \<longleftrightarrow> run_ok ws r \<and> (\<forall>b. base r = Some b \<longrightarrow> b + len r = length ws)"

lemma zeros_at_append: "zeros_at ws b l \<Longrightarrow> zeros_at (ws @ vs) b l"
  by (auto simp: zeros_at_def)

lemma run_ok_append: "run_ok ws r \<Longrightarrow> run_ok (ws @ vs) r"
  by (auto simp: run_ok_def zeros_at_append)

lemma run_ok_better: "run_ok ws best \<Longrightarrow> run_ok ws cur \<Longrightarrow> run_ok ws (better_run best cur)"
  by (simp add: better_run_def)

lemma run_grows:
  assumes "run_ends ws cur"
  shows "run_ends (ws @ [0]) (if base cur = None then \<lparr>base = Some (length ws), len = 1\<rparr> else cur\<lparr>len := len cur + 1\<rparr>)"
proof (cases "base cur")
  case None
  then show ?thesis by (simp add: run_ends_def run_ok_def zeros_at_def)
next
  case (Some b)
  then have b: "b + len cur = length ws" "take (len cur) (drop b ws) = replicate (len cur) 0" "1 \<le> len cur"
    using assms by (auto simp: run_ends_def run_ok_def zeros_at_def)
  then have "drop b ws = replicate (len cur) 0" by (metis add_diff_cancel_left' length_drop take_all order_refl)
  then show ?thesis
    using b Some by (simp add: run_ends_def run_ok_def zeros_at_def replicate_app_Cons_same)
qed

lemma words_loop_correct:
  assumes "words_loop src i words best cur = (ws, best', cur')" and "i = length words"
    and "run_ok words best" and "run_ends words cur" and "even (length src)"
  shows "bytes_of ws = bytes_of words @ src \<and> run_ok ws best' \<and> run_ok ws cur'"
  using assms
proof (induction src i words best cur rule: words_loop.induct)
  case (1 a b src i words best cur)
  let ?w = "push_bit 8 (ucast a) OR ucast b :: u16"
  have bytes: "bytes_of (words @ [?w]) = bytes_of words @ [a, b]" by (simp add: wbytes_of_bytes)
  show ?case
  proof (cases "?w = 0")
    case True
    then show ?thesis
      using 1(1) [OF refl refl True] 1(3-) bytes run_grows [OF 1(6)]
      unfolding 1(4) by (simp add: run_ok_append Let_def)
  next
    case False
    have "run_ok words cur" using 1(6) by (simp add: run_ends_def)
    then have "run_ok (words @ [?w]) (better_run best cur)" using 1(5) by (simp add: run_ok_append run_ok_better)
    moreover have "run_ends (words @ [?w]) (cur\<lparr>base := None\<rparr>)" by (simp add: run_ends_def run_ok_def)
    ultimately show ?thesis
      using 1(2) [OF refl refl False] 1(3-) bytes False by (simp add: Let_def)
  qed
qed (auto simp: run_ends_def)

lemma best_run_correct:
  assumes "length src = 16" and "best_run src = (ws, best)"
  shows "bytes_of ws = src" "length ws = 8"
    "base best = Some b \<Longrightarrow> 2 \<le> len best \<and> zeros_at ws b (len best)"
proof -
  obtain ws1 best1 cur1 where w: "words_loop src 0 [] \<lparr>base = None, len = 0\<rparr> \<lparr>base = None, len = 0\<rparr> = (ws1, best1, cur1)"
    by (metis prod_cases3)
  have r: "bytes_of ws1 = bytes_of [] @ src \<and> run_ok ws1 best1 \<and> run_ok ws1 cur1"
    by (rule words_loop_correct [OF w]) (use assms(1) in \<open>auto simp: run_ok_def run_ends_def\<close>)
  have ws: "ws = ws1" using assms(2) w by (simp add: best_run_def Let_def)
  then show "bytes_of ws = src" using r by simp
  then show "length ws = 8" using assms(1) length_bytes_of [of ws] by simp
  have "run_ok ws1 (better_run best1 cur1)" using r by (simp add: run_ok_better)
  then show "base best = Some b \<Longrightarrow> 2 \<le> len best \<and> zeros_at ws b (len best)"
    using assms(2) w ws by (auto simp: best_run_def Let_def run_ok_def split: if_splits)
qed

section \<open>Printing\<close>

lemma hex_length: "unat w < 16 ^ Suc k \<Longrightarrow> length (hex w) \<le> Suc k"
proof (induction k arbitrary: w)
  case 0
  then show ?case by (subst hex.simps) (simp add: word_less_nat_alt)
next
  case (Suc k)
  have "unat (w div 16) < 16 ^ Suc k" using Suc.prems by (simp add: unat_div div_less_iff_less_mult)
  then show ?case using Suc.IH [of "w div 16"] by (subst hex.simps) simp
qed

lemma hex_length_4: "length (hex w) \<le> 4"
  using hex_length [of w 3] unsigned_less [of w] by simp

lemma hex_chars: "set (hex w) \<subseteq> set ''0123456789abcdef''"
proof -
  define D where "D = set ''0123456789abcdef''"
  have d: "''0123456789abcdef'' ! d \<in> D" if "d < 16" for d
    unfolding D_def by (rule nth_mem) (use that in simp)
  have "set (hex w) \<subseteq> D"
  proof (induction w rule: hex.induct)
    case (1 w)
    have "unat (w mod 16) < 16" by (simp add: unat_mod)
    then show ?case using 1 d by (subst hex.simps) (auto simp: word_less_nat_alt)
  qed
  then show ?thesis unfolding D_def .
qed

lemma hex_not_Nil [simp]: "hex w \<noteq> []"
  by (subst hex.simps) simp

lemma hex_no_NUL: "NUL \<notin> set (hex w)"
  using hex_chars [of w] by auto

lemma deref_hex: "deref (hex w @ s) \<noteq> CHR '':''"
  using hex_chars [of w] by (cases "hex w") auto

definition sep :: "nat \<Rightarrow> string" where
  "sep i = (if i = 0 then [] else '':'')"

definition seg :: "u16 list \<Rightarrow> nat \<Rightarrow> nat \<Rightarrow> string" where
  "seg ws i j = concat (map (\<lambda>k. sep k @ hex (ws ! k)) [i..<j])"

lemma Vsnprintf_room:
  assumes "length pre + length txt < 46" and "length (pre @ rest) = 46"
  shows "Vsnprintf (pre @ rest) (length pre) (46 - length pre) txt =
    Some ((pre @ txt) @ NUL # drop (length txt + 1) rest, int (length txt))"
proof -
  have "take (45 - length pre) txt = txt" using assms(1) by simp
  then show ?thesis using assms by (simp add: Vsnprintf_def vsnprintf_def Let_def)
qed

lemma ntop6_word:
  assumes "i < 8" and "base best \<noteq> Some i" and "\<not> encapsulated ws best i"
    and "length (pre @ rest) = 46" and "length pre \<le> 5 * i"
  shows "\<exists>rest'. length ((pre @ sep i @ hex (ws ! i)) @ rest') = 46 \<and>
    ntop6_loop src ws best i (pre @ rest) (length pre) =
    ntop6_loop src ws best (i + 1) ((pre @ sep i @ hex (ws ! i)) @ rest') (length (pre @ sep i @ hex (ws ! i)))"
proof -
  let ?h = "hex (ws ! i)"
  define rest1 where "rest1 = drop (length (sep i)) rest"
  have room: "length (pre @ sep i) + length ?h < 46"
    using hex_length_4 [of "ws ! i"] assms(1,5) by (cases "i = 0") (auto simp: sep_def)
  then have len: "length ((pre @ sep i) @ rest1) = 46"
    using assms(4) by (simp add: rest1_def)
  have p: "(if i \<noteq> 0 then put_text (pre @ rest) (length pre) '':'' else Some (pre @ rest)) = Some ((pre @ sep i) @ rest1)"
    "(if i \<noteq> 0 then length pre + 1 else length pre) = length (pre @ sep i)"
    using room assms(4) by (auto simp: put_text_append sep_def rest1_def)
  have "ntop6_loop src ws best i (pre @ rest) (length pre) =
    ntop6_loop src ws best (i + 1) ((pre @ sep i @ ?h) @ NUL # drop (length ?h + 1) rest1) (length (pre @ sep i @ ?h))"
    by (subst ntop6_loop.simps)
       (simp only: p assms(1,2,3) Vsnprintf_room [OF room len] Let_def if_True if_False option.case prod.case nat_int,
        simp only: length_append append_assoc add.assoc)
  moreover have "length ((pre @ sep i @ ?h) @ NUL # drop (length ?h + 1) rest1) = 46"
    using room len by simp
  ultimately show ?thesis by blast
qed

lemma seg_Suc: "i < j \<Longrightarrow> seg ws i j = sep i @ hex (ws ! i) @ seg ws (i + 1) j"
  by (simp add: seg_def upt_conv_Cons)

lemma ntop6_words:
  assumes "i \<le> j" and "j \<le> 8" and "\<And>k. i \<le> k \<Longrightarrow> k < j \<Longrightarrow> base best \<noteq> Some k \<and> \<not> encapsulated ws best k"
    and "length (pre @ rest) = 46" and "length pre \<le> 5 * i"
  shows "\<exists>rest'. length ((pre @ seg ws i j) @ rest') = 46 \<and> length (pre @ seg ws i j) \<le> 5 * j \<and>
    ntop6_loop src ws best i (pre @ rest) (length pre) =
    ntop6_loop src ws best j ((pre @ seg ws i j) @ rest') (length (pre @ seg ws i j))"
  using assms
proof (induction "j - i" arbitrary: i pre rest)
  case 0
  then have "i = j" by simp
  moreover from this have "seg ws i j = []" by (simp add: seg_def)
  ultimately show ?case using 0 by auto
next
  case (Suc n)
  let ?pre = "pre @ sep i @ hex (ws ! i)"
  have i: "i < j" using Suc.hyps(2) by simp
  then obtain rest1 where r: "length (?pre @ rest1) = 46"
    "ntop6_loop src ws best i (pre @ rest) (length pre) = ntop6_loop src ws best (i + 1) (?pre @ rest1) (length ?pre)"
    using ntop6_word [of i best ws pre rest src] Suc.prems by (meson order_refl less_le_trans)
  have "length ?pre \<le> 5 * (i + 1)" using hex_length_4 [of "ws ! i"] Suc.prems(5)
    by (cases "i = 0") (auto simp: sep_def)
  then have "\<exists>rest'. length ((?pre @ seg ws (i + 1) j) @ rest') = 46 \<and> length (?pre @ seg ws (i + 1) j) \<le> 5 * j \<and>
    ntop6_loop src ws best (i + 1) (?pre @ rest1) (length ?pre) =
    ntop6_loop src ws best j ((?pre @ seg ws (i + 1) j) @ rest') (length (?pre @ seg ws (i + 1) j))"
    by (intro Suc.hyps(1)) (use Suc.hyps(2) Suc.prems i r in auto)
  then show ?case using r(2) by (simp only: seg_Suc [OF i] append_assoc)
qed

text \<open>The text of an address: without a run, and with the run of \<open>l\<close> zero words at \<open>b\<close>.\<close>

definition encapsulated_form :: "u16 list \<Rightarrow> nat \<Rightarrow> nat \<Rightarrow> bool" where
  "encapsulated_form ws b l \<longleftrightarrow> b = 0 \<and> (l = 6 \<or> (l = 5 \<and> ws ! 5 = 0xffff))"

definition run_text :: "u8 list \<Rightarrow> u16 list \<Rightarrow> nat \<Rightarrow> nat \<Rightarrow> string" where
  "run_text src ws b l =
     (if encapsulated_form ws b l then '':'' @ seg ws l 6 @ '':'' @ quad_text (drop 12 src)
      else seg ws 0 b @ '':'' @ seg ws (b + l) 8)"

lemma ntop6_plain:
  assumes "base best = None" and "length ws = 8"
  shows "\<exists>rest. length (seg ws 0 8 @ rest) = 46 \<and> length (seg ws 0 8) \<le> 40 \<and>
    ntop6_loop src ws best 0 (replicate 46 NUL) 0 = Some (Some (seg ws 0 8 @ rest, length (seg ws 0 8)))"
proof -
  have "\<exists>rest'. length (([] @ seg ws 0 8) @ rest') = 46 \<and> length ([] @ seg ws 0 8) \<le> 5 * 8 \<and>
    ntop6_loop src ws best 0 ([] @ replicate 46 NUL) (length ([] :: string)) =
    ntop6_loop src ws best 8 (([] @ seg ws 0 8) @ rest') (length ([] @ seg ws 0 8))"
    by (rule ntop6_words) (use assms in \<open>auto simp: encapsulated_def\<close>)
  then show ?thesis by (simp add: ntop6_loop.simps [of src ws best 8])
qed

lemma ntop6_run:
  assumes "base best = Some b" and "b + len best \<le> 8" and "2 \<le> len best" and "length (pre @ rest) = 46"
    and "length pre \<le> 5 * b"
  shows "\<exists>rest'. length ((pre @ '':'') @ rest') = 46 \<and> length (pre @ '':'') \<le> 5 * (b + len best) \<and>
    ntop6_loop src ws best b (pre @ rest) (length pre) =
    ntop6_loop src ws best (b + len best) ((pre @ '':'') @ rest') (length (pre @ '':''))"
proof -
  have p: "put_text (pre @ rest) (length pre) '':'' = Some ((pre @ '':'') @ drop 1 rest)"
    using assms by (simp add: put_text_append)
  have "b < 8" using assms(2,3) by simp
  then have "ntop6_loop src ws best b (pre @ rest) (length pre) =
    ntop6_loop src ws best (b + len best) ((pre @ '':'') @ drop 1 rest) (length (pre @ '':''))"
    by (subst ntop6_loop.simps) (simp add: assms(1) p)
  then show ?thesis using assms by (intro exI [of _ "drop 1 rest"]) auto
qed

lemma ntop6_encapsulated:
  assumes "encapsulated ws best 6" and "length (pre @ rest) = 46" and "length pre \<le> 20" and "length src = 16"
  shows "\<exists>rest'. length ((pre @ '':'' @ quad_text (drop 12 src)) @ rest') = 46 \<and>
    ntop6_loop src ws best 6 (pre @ rest) (length pre) =
    Some (Some ((pre @ '':'' @ quad_text (drop 12 src)) @ rest', length (pre @ '':'' @ quad_text (drop 12 src))))"
proof -
  let ?q = "quad_text (drop 12 src)"
  define pre1 where "pre1 = pre @ '':''"
  define rest1 where "rest1 = drop 1 rest"
  have r: "length (pre1 @ rest1) = 46" "length pre1 \<le> 21" using assms by (auto simp: pre1_def rest1_def)
  have p: "put_text (pre @ rest) (length pre) '':'' = Some (pre1 @ rest1)"
    using assms by (simp add: put_text_append pre1_def rest1_def)
  have n: "base best \<noteq> Some 6" using assms(1) by (auto simp: encapsulated_def)
  have q: "inet_ntop4 (drop 12 src) (drop (length pre1) (pre1 @ rest1)) (46 - length pre1) =
    Some (Some (?q @ NUL # drop (length ?q + 1) rest1))"
    using inet_ntop4_quad [of "drop 12 src" "46 - length pre1" rest1] r assms(4) by simp
  have c: "cstr (?q @ NUL # t) = ?q" for t by (rule cstr_append_NUL) (rule quad_text_no_NUL)
  have "ntop6_loop src ws best 6 (pre @ rest) (length pre) =
    Some (Some (pre1 @ ?q @ NUL # drop (length ?q + 1) rest1, length pre1 + length ?q))"
    using n assms(1) q by (subst ntop6_loop.simps) (simp add: p Let_def c pre1_def)
  moreover have "length (pre1 @ ?q @ NUL # drop (length ?q + 1) rest1) = 46"
    using r quad_text_length [of "drop 12 src"] by simp
  ultimately show ?thesis by (auto simp: pre1_def)
qed

text \<open>What \<open>inet_ntop6\<close> prints, without the colon for a run at the end.\<close>

definition loop_text :: "u8 list \<Rightarrow> u16 list \<Rightarrow> zero_run \<Rightarrow> string" where
  "loop_text src ws best =
     (case base best of None \<Rightarrow> seg ws 0 8 | Some b \<Rightarrow> run_text src ws b (len best))"

lemma ntop6_loop_run:
  assumes "length src = 16" and "length ws = 8" and "base best = Some b" and "b + len best \<le> 8" and "2 \<le> len best"
  shows "\<exists>rest. length (run_text src ws b (len best) @ rest) = 46 \<and> length (run_text src ws b (len best)) \<le> 44 \<and>
    ntop6_loop src ws best 0 (replicate 46 NUL) 0 =
    Some (Some (run_text src ws b (len best) @ rest, length (run_text src ws b (len best))))"
proof -
  let ?l = "len best"
  have "\<exists>rest'. length (([] @ seg ws 0 b) @ rest') = 46 \<and> length ([] @ seg ws 0 b) \<le> 5 * b \<and>
    ntop6_loop src ws best 0 ([] @ replicate 46 NUL) (length ([] :: string)) =
    ntop6_loop src ws best b (([] @ seg ws 0 b) @ rest') (length ([] @ seg ws 0 b))"
    by (rule ntop6_words) (use assms in \<open>auto simp: encapsulated_def\<close>)
  then obtain r1 where r1: "length (seg ws 0 b @ r1) = 46" "length (seg ws 0 b) \<le> 5 * b"
    "ntop6_loop src ws best 0 (replicate 46 NUL) 0 = ntop6_loop src ws best b (seg ws 0 b @ r1) (length (seg ws 0 b))"
    by auto
  let ?p = "seg ws 0 b @ '':''"
  from ntop6_run [OF assms(3,4,5) r1(1,2), of src ws] obtain r2 where r2: "length (?p @ r2) = 46" "length ?p \<le> 5 * (b + ?l)"
    "ntop6_loop src ws best b (seg ws 0 b @ r1) (length (seg ws 0 b)) = ntop6_loop src ws best (b + ?l) (?p @ r2) (length ?p)"
    by blast
  show ?thesis
  proof (cases "encapsulated_form ws b ?l")
    case False
    have "\<exists>r3. length ((?p @ seg ws (b + ?l) 8) @ r3) = 46 \<and> length (?p @ seg ws (b + ?l) 8) \<le> 5 * 8 \<and>
      ntop6_loop src ws best (b + ?l) (?p @ r2) (length ?p) =
      ntop6_loop src ws best 8 ((?p @ seg ws (b + ?l) 8) @ r3) (length (?p @ seg ws (b + ?l) 8))"
      by (rule ntop6_words) (use assms False r2 in \<open>auto simp: encapsulated_def encapsulated_form_def\<close>)
    then show ?thesis
      using r1(3) r2(3) False by (auto simp: run_text_def ntop6_loop.simps [of src ws best 8])
  next
    case True
    then have b: "b = 0" "?l = 6 \<or> ?l = 5" "seg ws 0 b = []" by (auto simp: encapsulated_form_def seg_def)
    let ?t = "'':'' @ seg ws ?l 6"
    have "\<exists>r3. length ((?p @ seg ws (b + ?l) 6) @ r3) = 46 \<and> length (?p @ seg ws (b + ?l) 6) \<le> 5 * 6 \<and>
      ntop6_loop src ws best (b + ?l) (?p @ r2) (length ?p) =
      ntop6_loop src ws best 6 ((?p @ seg ws (b + ?l) 6) @ r3) (length (?p @ seg ws (b + ?l) 6))"
      by (rule ntop6_words) (use assms b r2 in \<open>auto simp: encapsulated_def\<close>)
    then obtain r3 where r3: "length (?t @ r3) = 46"
      "ntop6_loop src ws best (b + ?l) (?p @ r2) (length ?p) = ntop6_loop src ws best 6 (?t @ r3) (length ?t)"
      using b by auto
    have t: "length ?t \<le> 20" using b hex_length_4 [of "ws ! 5"] by (auto simp: seg_def sep_def)
    have e: "encapsulated ws best 6" using True b(1) assms(3) by (simp add: encapsulated_def encapsulated_form_def)
    have l: "length (run_text src ws b ?l) \<le> 44"
      using True t quad_text_length [of "drop 12 src"] by (simp add: run_text_def)
    from ntop6_encapsulated [OF e r3(1) t assms(1)] show ?thesis
      using r1(3) r2(3) r3(2) True l unfolding run_text_def if_P [OF True] append_assoc by metis
  qed
qed

lemma ntop6_loop_text:
  assumes "length src = 16" and "best_run src = (ws, best)"
  shows "\<exists>rest. length (loop_text src ws best @ rest) = 46 \<and> length (loop_text src ws best) \<le> 44 \<and>
    ntop6_loop src ws best 0 (replicate 46 NUL) 0 =
    Some (Some (loop_text src ws best @ rest, length (loop_text src ws best)))"
proof (cases "base best")
  case None
  then show ?thesis
    using ntop6_plain [of best ws src] best_run_correct(2) [OF assms] by (force simp: loop_text_def)
next
  case (Some b)
  then have "2 \<le> len best" "b + len best \<le> 8"
    using best_run_correct(2,3) [OF assms] by (auto simp: zeros_at_def)
  then show ?thesis
    using ntop6_loop_run [OF assms(1) best_run_correct(2) [OF assms] Some] Some by (simp add: loop_text_def)
qed

section \<open>Reading what was printed\<close>

lemma seg_groups: "b \<le> length ws \<Longrightarrow> seg ws 0 b @ sep b = groups (take b ws)"
proof (induction b)
  case (Suc b)
  have "seg ws 0 (Suc b) = seg ws 0 b @ sep b @ hex (ws ! b)" by (simp add: seg_def)
  then show ?case using Suc by (simp add: take_Suc_conv_app_nth sep_def [of "Suc b"] flip: append_assoc)
qed (simp add: seg_def sep_def)

lemma joined_Cons: "ws \<noteq> [] \<Longrightarrow> joined (w # ws) = hex w @ '':'' @ joined ws"
  by (simp add: joined_def)

lemma seg_joined:
  assumes "0 < i" and "i < length ws"
  shows "seg ws i (length ws) = '':'' @ joined (drop i ws)"
  using assms
proof (induction "length ws - i" arbitrary: i)
  case (Suc n)
  have d: "drop i ws = ws ! i # drop (i + 1) ws" using Suc.prems(2) by (simp add: Cons_nth_drop_Suc)
  show ?case
  proof (cases "i + 1 = length ws")
    case True
    then show ?thesis using Suc.prems by (simp add: seg_Suc sep_def d joined_def) (simp add: seg_def)
  next
    case False
    then have "seg ws (i + 1) (length ws) = '':'' @ joined (drop (i + 1) ws)" "drop (i + 1) ws \<noteq> []"
      using Suc by auto
    then show ?thesis using Suc.prems by (simp add: seg_Suc sep_def d joined_Cons)
  qed
qed simp

lemma seg_all: "ws \<noteq> [] \<Longrightarrow> seg ws 0 (length ws) = joined ws"
proof -
  assume ws: "ws \<noteq> []"
  then obtain k where k: "length ws = Suc k" by (cases ws) auto
  have "seg ws 0 (Suc k) = (seg ws 0 k @ sep k) @ hex (ws ! k)" by (simp add: seg_def)
  then show ?thesis
    using seg_groups [of k ws] ws k by (simp add: joined_def butlast_conv_take last_conv_nth)
qed

text \<open>A text with a run: the groups before it, the second colon and the rest.\<close>

definition with_run :: "u16 list \<Rightarrow> string \<Rightarrow> string" where
  "with_run A tail = (if A = [] then '':'' else []) @ groups A @ '':'' @ tail"

lemma deref_groups: "A \<noteq> [] \<Longrightarrow> deref (groups A @ t) \<noteq> CHR '':''"
  by (cases A) (simp_all add: deref_hex)

lemma inet_pton6_with_run:
  assumes "\<exists>st. pton6_loop tail tail False 0 (filled (bytes_of A)) (length (bytes_of A)) (Some (length (bytes_of A))) =
      Some (Some st) \<and> stored st = Some (filled (bytes_of A @ S), length (bytes_of A) + length S, Some (length (bytes_of A)))"
    and "length (bytes_of A) + length S < 16"
  shows "inet_pton6 (with_run A tail) =
    Some (Some (bytes_of A @ replicate (16 - (length (bytes_of A) + length S)) 0 @ S))"
proof -
  let ?s = "groups A @ '':'' @ tail"
  have d: "deref (with_run A tail) = CHR '':'' \<longleftrightarrow> A = []" using deref_groups [of A] by (simp add: with_run_def)
  have s: "(if deref (with_run A tail) = CHR '':'' then tl (with_run A tail) else with_run A tail) = ?s"
    unfolding d by (simp add: with_run_def)
  obtain st where st: "pton6_loop tail tail False 0 (filled (bytes_of A)) (length (bytes_of A)) (Some (length (bytes_of A))) =
      Some (Some st)" "stored st = Some (filled (bytes_of A @ S), length (bytes_of A) + length S, Some (length (bytes_of A)))"
    using assms(1) by blast
  have "pton6_loop ?s ?s False 0 (filled []) 0 None = Some (Some st)"
    using pton6_groups [of "[]" A "'':'' @ tail" None] assms(2) st(1) by simp
  then have "inet_pton6 (with_run A tail) =
    Some (Some (shift_right (length (bytes_of A)) (length S) (filled (bytes_of A @ S))))"
    using inet_pton6_stored [of "with_run A tail" st, unfolded s] st(2) d by (simp add: with_run_def)
  then show ?thesis using assms(2) by (simp only: shift_right_filled)
qed

lemma inet_pton6_joined: "length ws = 8 \<Longrightarrow> inet_pton6 (joined ws) = Some (Some (bytes_of ws))"
proof -
  assume ws: "length ws = 8"
  then obtain w v vs where w: "ws = w # v # vs" by (auto simp: numeral_eq_Suc length_Suc_conv)
  then have d: "deref (joined ws) \<noteq> CHR '':''" using deref_hex [of w] by (simp add: joined_Cons)
  obtain st where "pton6_loop (joined ws) (joined ws) False 0 (filled []) 0 None = Some (Some st)"
    "stored st = Some (filled (bytes_of ws), 16, None)"
    using pton6_joined [of "[]" ws None] ws by auto
  then show ?thesis
    using inet_pton6_stored [of "joined ws" st] d ws by (simp add: filled_def)
qed

lemma zeros_at_bytes:
  assumes "zeros_at ws b l"
  shows "bytes_of ws = bytes_of (take b ws) @ replicate (2 * l) 0 @ bytes_of (drop (b + l) ws)"
proof -
  have "ws = take b ws @ take l (drop b ws) @ drop (b + l) ws"
    by (metis add.commute append_take_drop_id drop_drop)
  moreover have "take l (drop b ws) = replicate l 0" using assms by (simp add: zeros_at_def)
  ultimately have "ws = take b ws @ replicate l 0 @ drop (b + l) ws" by simp
  then show ?thesis by (metis bytes_of_simps(3) bytes_of_zeros)
qed

definition ntop6_text :: "u8 list \<Rightarrow> string" where
  "ntop6_text src =
     (let (ws, best) = best_run src
      in loop_text src ws best @ (case base best of None \<Rightarrow> [] | Some b \<Rightarrow> if b + len best = 8 then '':'' else []))"

lemma seg_no_NUL: "NUL \<notin> set (seg ws i j)"
  by (auto simp: seg_def sep_def hex_no_NUL)

lemma ntop6_text_no_NUL: "NUL \<notin> set (ntop6_text src)"
  by (auto simp: ntop6_text_def loop_text_def run_text_def seg_no_NUL quad_text_no_NUL split: prod.splits option.splits)

lemma inet_ntop6_text:
  assumes "length src = 16" and "sz \<le> length dst"
  shows "inet_ntop6 src dst sz =
    Some (if length (ntop6_text src) < sz
          then Some (ntop6_text src @ NUL # drop (length (ntop6_text src) + 1) dst) else None)"
proof -
  obtain ws best where b: "best_run src = (ws, best)" by (cases "best_run src")
  let ?t = "loop_text src ws best" and ?trail = "if (case base best of None \<Rightarrow> False | Some b \<Rightarrow> b + len best = 8) then '':'' else []"
  obtain rest where r: "length (?t @ rest) = 46" "length ?t \<le> 44"
    "ntop6_loop src ws best 0 (replicate 46 NUL) 0 = Some (Some (?t @ rest, length ?t))"
    using ntop6_loop_text [OF assms(1) b] by blast
  have tx: "ntop6_text src = ?t @ ?trail" by (auto simp: ntop6_text_def b split: option.splits)
  have "length (?trail @ [NUL]) \<le> length rest" using r(1,2) by simp
  then have p: "put_text (?t @ rest) (length ?t) (?trail @ [NUL]) =
    Some (?t @ (?trail @ [NUL]) @ drop (length (?trail @ [NUL])) rest)"
    by (intro put_text_append) simp_all
  have c: "cstr (?t @ (?trail @ [NUL]) @ u) = ntop6_text src" for u
    using cstr_append_NUL [OF ntop6_text_no_NUL, of src u] by (simp add: tx)
  have len: "length ?t + length (?trail @ [NUL]) = length (ntop6_text src) + 1" by (simp add: tx)
  have n: "inet_ntop6 src dst sz =
    (if length (ntop6_text src) + 1 > sz then Some None
     else map_option (\<lambda>r. Some (fst r)) (Strncpy dst (ntop6_text src) sz))"
    unfolding inet_ntop6_def b Let_def prod.case r(3) option.case p c len by simp
  show ?thesis
  proof (cases "length (ntop6_text src) < sz")
    case True
    then have "take (sz - 1) (ntop6_text src) = ntop6_text src" by simp
    then show ?thesis
      using True Strncpy_eq [OF ntop6_text_no_NUL [of src], of sz dst] assms(2) by (simp add: n)
  qed (simp add: n)
qed

lemma run_text_with_run:
  assumes "length ws = 8" and "b + l \<le> 8" and "2 \<le> l" and "\<not> encapsulated_form ws b l"
  shows "run_text src ws b l @ (if b + l = 8 then '':'' else []) = with_run (take b ws) (joined (drop (b + l) ws))"
proof -
  have a: "seg ws 0 b @ '':'' = (if take b ws = [] then '':'' else []) @ groups (take b ws)"
    using seg_groups [of b ws] assms(1,2,3) by (cases "b = 0") (auto simp: sep_def seg_def)
  have c: "seg ws (b + l) 8 @ (if b + l = 8 then '':'' else []) = '':'' @ joined (drop (b + l) ws)"
    using seg_joined [of "b + l" ws] assms by (cases "b + l = 8") (auto simp: seg_def joined_def)
  have "run_text src ws b l @ (if b + l = 8 then '':'' else []) =
    (seg ws 0 b @ '':'') @ (seg ws (b + l) 8 @ (if b + l = 8 then '':'' else []))"
    by (simp only: run_text_def assms(4) if_False append_assoc)
  then show ?thesis unfolding a c with_run_def append_assoc .
qed

lemma pton6_run_text:
  assumes "length src = 16" and "bytes_of ws = src" and "zeros_at ws b l" and "2 \<le> l"
    and "\<not> encapsulated_form ws b l"
  shows "inet_pton6 (run_text src ws b l @ (if b + l = 8 then '':'' else [])) = Some (Some src)"
proof -
  have ws: "length ws = 8" using assms(1,2) length_bytes_of [of ws] by simp
  have bl: "b + l \<le> 8" using assms(3) ws by (simp add: zeros_at_def)
  let ?A = "take b ws" and ?D = "drop (b + l) ws"
  have n: "length (bytes_of ?A) + length (bytes_of ?D) = 16 - 2 * l" using bl ws by simp
  then have "\<exists>st. pton6_loop (joined ?D) (joined ?D) False 0 (filled (bytes_of ?A)) (length (bytes_of ?A)) (Some (length (bytes_of ?A))) =
      Some (Some st) \<and> stored st = Some (filled (bytes_of ?A @ bytes_of ?D), length (bytes_of ?A) + length (bytes_of ?D), Some (length (bytes_of ?A)))"
    using pton6_joined [of "bytes_of ?A" ?D "Some (length (bytes_of ?A))"] assms(4) by simp
  then have "inet_pton6 (with_run ?A (joined ?D)) =
    Some (Some (bytes_of ?A @ replicate (16 - (length (bytes_of ?A) + length (bytes_of ?D))) 0 @ bytes_of ?D))"
    by (rule inet_pton6_with_run) (use n assms(4) in linarith)
  moreover have "16 - (length (bytes_of ?A) + length (bytes_of ?D)) = 2 * l" using n bl by simp
  ultimately show ?thesis
    using run_text_with_run [OF ws bl assms(4,5), of src] zeros_at_bytes [OF assms(3)] assms(2) by simp
qed

lemma pton6_encapsulated:
  assumes "length src = 16" and "bytes_of ws = src" and "zeros_at ws b l" and "encapsulated_form ws b l"
  shows "inet_pton6 (run_text src ws b l) = Some (Some src)"
proof -
  have ws: "length ws = 8" using assms(1,2) length_bytes_of [of ws] by simp
  have b: "b = 0" and l: "l = 6 \<or> l = 5" using assms(4) by (auto simp: encapsulated_form_def)
  let ?X = "take (6 - l) (drop l ws)" and ?q = "drop 12 src"
  have x: "'':'' @ seg ws l 6 @ '':'' = '':'' @ '':'' @ groups ?X"
    using l ws by (auto simp: seg_def sep_def take_Suc_conv_app_nth hd_drop_conv_nth take_Suc)
  then have t: "run_text src ws b l = with_run [] (groups ?X @ quad_text ?q)"
    using assms(4) by (simp add: run_text_def with_run_def flip: append_assoc)
  have q: "?q = bytes_of (drop 6 ws)"
  proof -
    have "src = bytes_of (take 6 ws) @ bytes_of (drop 6 ws)" by (simp add: assms(2) flip: bytes_of_simps(3))
    then show ?thesis using ws by simp
  qed
  have d: "drop l ws = ?X @ drop 6 ws"
    using l append_take_drop_id [of "6 - l" "drop l ws"] by (auto simp: drop_drop)
  have dl: "bytes_of (drop l ws) = bytes_of ?X @ ?q" by (subst d) (simp add: q)
  obtain st where "pton6_loop (quad_text ?q) (quad_text ?q) False 0 (filled (bytes_of ?X)) (length (bytes_of ?X)) (Some 0) = Some (Some st)"
    "stored st = Some (filled (bytes_of ?X @ ?q), length (bytes_of ?X) + 4, Some 0)"
    using pton6_quad [of "bytes_of ?X" ?q "Some 0"] assms(1) l ws by auto
  then have "\<exists>st. pton6_loop (groups ?X @ quad_text ?q) (groups ?X @ quad_text ?q) False 0 (filled (bytes_of []))
      (length (bytes_of [])) (Some (length (bytes_of []))) = Some (Some st) \<and>
    stored st = Some (filled (bytes_of [] @ (bytes_of ?X @ ?q)), length (bytes_of []) + length (bytes_of ?X @ ?q), Some (length (bytes_of [])))"
    using pton6_groups [of "[]" ?X "quad_text ?q" "Some 0"] assms(1) l ws by auto
  then have "inet_pton6 (run_text src ws b l) =
    Some (Some (bytes_of [] @ replicate (16 - (length (bytes_of []) + length (bytes_of ?X @ ?q))) 0 @ (bytes_of ?X @ ?q)))"
    unfolding t by (rule inet_pton6_with_run) (use assms(1) l ws in auto)
  also have "\<dots> = Some (Some (replicate (2 * l) 0 @ bytes_of (drop l ws)))"
    using l ws assms(1) by (auto simp only: dl) auto
  also have "replicate (2 * l) 0 @ bytes_of (drop l ws) = src"
    using zeros_at_bytes [OF assms(3)] b assms(2) by simp
  finally show ?thesis .
qed

lemma inet_pton6_text:
  assumes "length src = 16"
  shows "inet_pton6 (ntop6_text src) = Some (Some src)"
proof -
  obtain ws best where b: "best_run src = (ws, best)" by (cases "best_run src")
  note ws = best_run_correct [OF assms b]
  show ?thesis
  proof (cases "base best")
    case None
    then show ?thesis
      using inet_pton6_joined [OF ws(2)] seg_all [of ws] ws by (simp add: ntop6_text_def b loop_text_def) (metis list.size(3) zero_neq_numeral)
  next
    case (Some c)
    show ?thesis
    proof (cases "encapsulated_form ws c (len best)")
      case True
      then have "c + len best \<noteq> 8" by (auto simp: encapsulated_form_def)
      then show ?thesis
        using pton6_encapsulated [OF assms ws(1) _ True] ws(3) [OF Some] Some by (simp add: ntop6_text_def b loop_text_def)
    next
      case False
      then show ?thesis
        using pton6_run_text [OF assms ws(1) _ _ False] ws(3) [OF Some] Some by (simp add: ntop6_text_def b loop_text_def)
    qed
  qed
qed

section \<open>Any number of groups\<close>

lemma pton6_groups_full:
  assumes "length bs \<le> 16" and "16 < length bs + 2 * length ws"
  shows "pton6_loop (groups ws @ src) (groups ws @ src) False 0 (filled bs) (length bs) col = Some None"
  using assms
proof (induction ws arbitrary: bs)
  case (Cons w ws)
  show ?case
  proof (cases "length bs + 2 \<le> 16")
    case True
    then show ?thesis using Cons.IH [of "bs @ wbytes w"] Cons.prems by (simp add: pton6_hex put_word_filled)
  next
    case False
    then show ?thesis by (simp add: pton6_hex)
  qed
qed simp

lemma pton6_joined_full:
  assumes "length bs \<le> 16" and "16 < length bs + 2 * length ws"
  shows "\<exists>r. pton6_loop (joined ws) (joined ws) False 0 (filled bs) (length bs) col = Some r \<and>
    (\<forall>tmp tp c saw val. r = Some (tmp, tp, c, saw, val) \<longrightarrow> saw \<and> 16 < tp + 2)"
proof -
  have ws: "ws \<noteq> []" using assms by auto
  let ?b = "bs @ bytes_of (butlast ws)"
  have j: "joined ws = groups (butlast ws) @ hex (last ws)" using ws by (simp add: joined_def)
  show ?thesis
  proof (cases "16 < length bs + 2 * length (butlast ws)")
    case True
    have "pton6_loop (joined ws) (joined ws) False 0 (filled bs) (length bs) col = Some None"
      unfolding j by (rule pton6_groups_full [OF assms(1) True])
    then show ?thesis by simp
  next
    case False
    then have "pton6_loop (joined ws) (joined ws) False 0 (filled bs) (length bs) col =
      pton6_loop (hex (last ws)) (hex (last ws)) False 0 (filled ?b) (length ?b) col"
      unfolding j using pton6_groups [of bs "butlast ws" "hex (last ws)" col] by simp
    also have "\<dots> = Some (Some (filled ?b, length ?b, col, True, ucast (last ws)))"
      using pton6_hex [of "last ws" "[]"] by simp
    finally have e: "pton6_loop (joined ws) (joined ws) False 0 (filled bs) (length bs) col =
      Some (Some (filled ?b, length ?b, col, True, ucast (last ws)))" .
    have "16 < length ?b + 2" using ws assms(2) by (cases ws) auto
    then show ?thesis unfolding e by blast
  qed
qed

lemma inet_pton6_refused:
  assumes "deref src = CHR '':'' \<longrightarrow> deref (tl src) = CHR '':''"
    and "pton6_loop (if deref src = CHR '':'' then tl src else src) (if deref src = CHR '':'' then tl src else src)
      False 0 (filled []) 0 None = Some r"
    and "\<forall>tmp tp c saw val. r = Some (tmp, tp, c, saw, val) \<longrightarrow> saw \<and> 16 < tp + 2"
  shows "inet_pton6 src = Some None"
proof -
  have z: "filled [] = replicate 16 0" by (simp add: filled_def)
  have c: "(deref src = CHR '':'' \<and> deref (tl src) \<noteq> CHR '':'') = False" using assms(1) by blast
  show ?thesis
  proof (cases r)
    case None
    then show ?thesis unfolding inet_pton6_def Let_def c if_False assms(2) [unfolded z] by simp
  next
    case (Some st)
    obtain tmp tp col saw val where st: "st = (tmp, tp, col, saw, val)" by (cases st)
    have "saw \<and> tp + 2 > 16" using assms(3) Some by (simp add: st)
    then show ?thesis unfolding inet_pton6_def Let_def c if_False assms(2) [unfolded z] Some st by simp
  qed
qed

lemma shift_full:
  assumes "length P + length S = 16" and "k \<le> length S"
  shows "fold (shift_step (length P) (length S)) [1..<k + 1] (P @ S) = P @ take (length S - k) S @ replicate k 0"
  using assms(2)
proof (induction k)
  case (Suc k)
  let ?t = "P @ take (length S - k) S @ replicate k 0"
  let ?j = "length S - Suc k"
  have j: "16 - Suc k = length P + ?j" "length P + length S - Suc k = length P + ?j" "?j < length S" using assms(1) Suc.prems by auto
  have S: "take (length S - k) S = take ?j S @ [S ! ?j]"
    using take_Suc_conv_app_nth [OF j(3)] Suc.prems by (simp add: Suc_diff_Suc)
  have "fold (shift_step (length P) (length S)) [1..<Suc k + 1] (P @ S) = shift_step (length P) (length S) (Suc k) ?t"
    using Suc by simp
  also have "\<dots> = ?t[length P + ?j := 0]" by (simp only: shift_step_def Let_def j(1,2) list_update_id)
  also have "\<dots> = P @ take ?j S @ replicate (Suc k) 0"
    by (simp add: S list_update_append)
  finally show ?case .
qed simp

lemma shift_right_full: "length P + length S = 16 \<Longrightarrow> shift_right (length P) (length S) (P @ S) = P @ replicate (length S) 0"
  using shift_full [of P S "length S"] by (simp add: shift_right_def)


lemma joined_start: "deref (joined ws) \<noteq> CHR '':''" "deref (groups ws) \<noteq> CHR '':''"
proof -
  show "deref (groups ws) \<noteq> CHR '':''" using deref_groups [of ws "[]"] by (cases "ws = []") simp_all
  show "deref (joined ws) \<noteq> CHR '':''"
    using deref_hex [of "last ws" "[]"] deref_groups [of "butlast ws" "hex (last ws)"] by (cases "butlast ws = []") (auto simp: joined_def)
qed

lemma inet_pton6_joined_any: "inet_pton6 (joined ws) = Some (if length ws = 8 then Some (bytes_of ws) else None)"
proof (cases "length ws \<le> 8")
  case True
  then obtain st where st: "pton6_loop (joined ws) (joined ws) False 0 (filled []) 0 None = Some (Some st)"
    "stored st = Some (filled (bytes_of ws), 2 * length ws, None)"
    using pton6_joined [of "[]" ws None] by auto
  then show ?thesis
    using inet_pton6_stored [of "joined ws" st, OF _ _ st(2)] joined_start(1) by (auto simp: filled_def)
next
  case False
  then obtain r where r: "pton6_loop (joined ws) (joined ws) False 0 (filled []) 0 None = Some r"
      "\<forall>tmp tp c saw val. r = Some (tmp, tp, c, saw, val) \<longrightarrow> saw \<and> 16 < tp + 2"
    using pton6_joined_full [of "[]" ws None] by auto
  have "inet_pton6 (joined ws) = Some None"
    by (rule inet_pton6_refused [OF _ _ r(2)]) (simp_all only: joined_start r(1) if_False simp_thms)
  then show ?thesis using False by simp
qed

lemma inet_pton6_trailing: "inet_pton6 (groups ws) = Some (if length ws = 8 then Some (bytes_of ws) else None)"
proof (cases "length ws \<le> 8")
  case True
  then have l: "pton6_loop (groups ws) (groups ws) False 0 (filled []) 0 None =
      Some (Some (filled (bytes_of ws), 2 * length ws, None, False, 0))"
    using pton6_groups [of "[]" ws "[]" None] by simp
  have "stored (filled (bytes_of ws), 2 * length ws, None, False, 0) = Some (filled (bytes_of ws), 2 * length ws, None)"
    by (simp add: stored_def)
  from inet_pton6_stored [of "groups ws", OF _ _ this] show ?thesis using l joined_start(2) by (auto simp: filled_def)
next
  case False
  then have "pton6_loop (groups ws) (groups ws) False 0 (filled []) 0 None = Some None"
    using pton6_groups_full [of "[]" ws "[]" None] by simp
  then have "inet_pton6 (groups ws) = Some None" by (intro inet_pton6_refused [where r = None]) (simp_all add: joined_start)
  then show ?thesis using False by simp
qed

lemma with_run_start:
  "deref (with_run A tail) = CHR '':'' \<longleftrightarrow> A = []"
  "(if deref (with_run A tail) = CHR '':'' then tl (with_run A tail) else with_run A tail) = groups A @ CHR '':'' # tail"
  "deref (with_run A tail) = CHR '':'' \<longrightarrow> deref (tl (with_run A tail)) = CHR '':''"
  using deref_groups [of A] by (simp_all add: with_run_def)

lemma with_run_loop:
  assumes "length A \<le> 8"
  shows "pton6_loop (groups A @ CHR '':'' # tail) (groups A @ CHR '':'' # tail) False 0 (filled []) 0 None =
    pton6_loop tail tail False 0 (filled (bytes_of A)) (length (bytes_of A)) (Some (length (bytes_of A)))"
  using pton6_groups [of "[]" A "CHR '':'' # tail" None] assms by simp

lemma inet_pton6_with_run_full:
  assumes "8 \<le> length A + length B"
  shows "inet_pton6 (with_run A (joined B)) = Some (if length A + length B = 8 then Some (bytes_of A @ replicate (2 * length B) 0) else None)"
proof (cases "length A + length B = 8")
  case True
  then have A: "length A \<le> 8" by simp
  obtain st where st: "pton6_loop (joined B) (joined B) False 0 (filled (bytes_of A)) (length (bytes_of A)) (Some (length (bytes_of A))) = Some (Some st)"
      "stored st = Some (filled (bytes_of A @ bytes_of B), 16, Some (length (bytes_of A)))"
    using pton6_joined [of "bytes_of A" B "Some (length (bytes_of A))"] True by (auto simp: distrib_left [symmetric])
  have f: "filled (bytes_of A @ bytes_of B) = bytes_of A @ bytes_of B" using True by (simp add: filled_def)
  have "inet_pton6 (with_run A (joined B)) = Some (Some (shift_right (length (bytes_of A)) (16 - length (bytes_of A)) (bytes_of A @ bytes_of B)))"
    using inet_pton6_stored [OF with_run_start(3) [of A "joined B"] _ st(2), unfolded with_run_start(2) with_run_loop [OF A], OF st(1)] f by simp
  moreover have "16 - length (bytes_of A) = length (bytes_of B)" "length (bytes_of A) + length (bytes_of B) = 16" using True by auto
  ultimately show ?thesis using True shift_right_full [of "bytes_of A" "bytes_of B"] by simp
next
  case False
  have "\<exists>r. pton6_loop (groups A @ CHR '':'' # joined B) (groups A @ CHR '':'' # joined B) False 0 (filled []) 0 None = Some r \<and>
    (\<forall>tmp tp c saw val. r = Some (tmp, tp, c, saw, val) \<longrightarrow> saw \<and> 16 < tp + 2)"
  proof (cases "length A \<le> 8")
    case True
    then show ?thesis unfolding with_run_loop [OF True] using False assms by (intro pton6_joined_full) auto
  next
    case False
    then show ?thesis using pton6_groups_full [of "[]" A "CHR '':'' # joined B" None] by simp
  qed
  then obtain r where r: "pton6_loop (groups A @ CHR '':'' # joined B) (groups A @ CHR '':'' # joined B) False 0 (filled []) 0 None = Some r"
    "\<forall>tmp tp c saw val. r = Some (tmp, tp, c, saw, val) \<longrightarrow> saw \<and> 16 < tp + 2" by blast
  have "inet_pton6 (with_run A (joined B)) = Some None"
    by (rule inet_pton6_refused [OF with_run_start(3) _ r(2)]) (simp only: with_run_start(2) r(1))
  then show ?thesis using False by simp
qed

section \<open>Properties\<close>

text \<open>C20: \<open>inet_ntop\<close> writes a terminated text within the buffer it is given, or returns \<open>NULL\<close> and writes
  nothing when the buffer is too small (below 16 bytes for IPv4, below the text and its terminator
  for IPv6); and \<open>inet_pton\<close> reads that text back as the same address, for every address of both
  families, the compressed and the IPv4-mapped forms included.\<close>

theorem inet_ntop_pton_roundtrip:
  assumes "(af = 2 \<and> length src = 4) \<or> (af = 10 \<and> length src = 16)" and "sz \<le> length dst"
    and "length addr = length src"
  shows "\<exists>str. NUL \<notin> set str \<and>
    inet_ntop af src dst sz =
      Some (if (if af = 2 then 16 else length str + 1) \<le> sz
            then Some (str @ NUL # drop (length str + 1) dst) else None) \<and>
    inet_pton af str addr = Some (1, src)"
  using assms(1)
proof
  assume a: "af = 2 \<and> length src = 4"
  then have "inet_pton af (quad_text src) addr = Some (1, src)"
    using assms(3) by (simp add: inet_pton_def inet_pton4_quad store_addr_def)
  moreover have "inet_ntop4 src dst sz = Some None" if "sz < 16" using that by (simp add: inet_ntop4_def)
  ultimately show ?thesis
    using a assms(2) inet_ntop4_quad [of src sz dst]
    by (intro exI [of _ "quad_text src"]) (simp add: inet_ntop_def quad_text_no_NUL)
next
  assume a: "af = 10 \<and> length src = 16"
  then have "inet_pton af (ntop6_text src) addr = Some (1, src)"
    using assms(3) by (simp add: inet_pton_def inet_pton6_text store_addr_def)
  then show ?thesis
    using a assms(2) inet_ntop6_text [of src sz dst]
    by (intro exI [of _ "ntop6_text src"]) (simp add: inet_ntop_def ntop6_text_no_NUL Suc_le_eq)
qed

theorem inet_ntop_pton_roundtrip_witness:
  "\<exists>str. NUL \<notin> set str \<and>
    inet_ntop 10 [0x20, 1, 0xd, 0xb8, 0, 0, 0, 0, 0, 0, 0, 0, 0, 0, 0, 1] (replicate 46 NUL) 46 =
      Some (if (if (10 :: nat) = 2 then 16 else length str + 1) \<le> 46
            then Some (str @ NUL # drop (length str + 1) (replicate 46 NUL)) else None) \<and>
    inet_pton 10 str (replicate 16 0) = Some (1, [0x20, 1, 0xd, 0xb8, 0, 0, 0, 0, 0, 0, 0, 0, 0, 0, 0, 1])"
  by (rule inet_ntop_pton_roundtrip) simp_all

text \<open>C26: on every input string \<open>inet_pton\<close> returns without leaving its arrays; it stores an address exactly
  when it returns 1, and otherwise leaves the destination untouched.\<close>

theorem inet_pton_safe:
  assumes "af = 2 \<longrightarrow> 4 \<le> length dst" and "af = 10 \<longrightarrow> 16 \<le> length dst"
  shows "\<exists>ret dst'. inet_pton af src dst = Some (ret, dst') \<and> ret \<in> {-1, 0, 1} \<and>
    (ret = -1 \<longleftrightarrow> af \<noteq> 2 \<and> af \<noteq> 10) \<and>
    (if ret = 1 then length dst' = length dst \<and> drop (if af = 2 then 4 else 16) dst' = drop (if af = 2 then 4 else 16) dst
     else dst' = dst)"
proof -
  obtain r4 where r4: "inet_pton4 src = Some r4" "\<forall>q. r4 = Some q \<longrightarrow> length q = 4" using inet_pton4_safe by blast
  obtain r6 where r6: "inet_pton6 src = Some r6" "\<forall>q. r6 = Some q \<longrightarrow> length q = 16" using inet_pton6_safe by blast
  consider "af = 2" | "af = 10" | "af \<noteq> 2 \<and> af \<noteq> 10" by blast
  then show ?thesis
  proof cases
    case 1
    then show ?thesis using r4 assms(1) by (cases r4) (auto simp: inet_pton_def store_addr_def)
  next
    case 2
    then show ?thesis using r6 assms(2) by (cases r6) (auto simp: inet_pton_def store_addr_def)
  qed (simp add: inet_pton_def)
qed

theorem inet_pton_safe_witness:
  "\<exists>ret dst'. inet_pton 10 ''1::2::3'' (replicate 16 7) = Some (ret, dst') \<and> ret \<in> {-1, 0, 1} \<and>
    (ret = -1 \<longleftrightarrow> (10 :: nat) \<noteq> 2 \<and> (10 :: nat) \<noteq> 10) \<and>
    (if ret = 1 then length dst' = length (replicate 16 (7 :: u8)) \<and>
       drop (if (10 :: nat) = 2 then 4 else 16) dst' = drop (if (10 :: nat) = 2 then 4 else 16) (replicate 16 7)
     else dst' = replicate 16 7)"
  by (rule inet_pton_safe) simp_all

text \<open>C38: what \<open>inet_pton6\<close> makes of hexadecimal groups, however many. Groups separated by colons are an address if they are
  eight. A \<open>::\<close> stands for the missing groups if the others are fewer than eight; if they are eight it is not ignored, as the
  comment says, but the groups after it are read as zero; more are refused. A colon after the eighth group is accepted.\<close>

theorem inet_pton6_groups:
  "inet_pton6 (joined ws) = Some (if length ws = 8 then Some (bytes_of ws) else None) \<and>
   inet_pton6 (groups ws) = Some (if length ws = 8 then Some (bytes_of ws) else None) \<and>
   inet_pton6 (with_run A (joined B)) = Some
     (if length A + length B < 8 then Some (bytes_of (A @ replicate (8 - (length A + length B)) 0 @ B))
      else if length A + length B = 8 then Some (bytes_of (A @ replicate (length B) 0))
      else None)"
proof -
  have "inet_pton6 (with_run A (joined B)) = Some (Some (bytes_of (A @ replicate (8 - (length A + length B)) 0 @ B)))"
    if "length A + length B < 8"
  proof -
    have "16 - (2 * length A + 2 * length B) = 2 * (8 - (length A + length B))" by simp
    then show ?thesis
      using inet_pton6_with_run [of "joined B" A "bytes_of B"] pton6_joined [of "bytes_of A" B] that
      by (simp add: bytes_of_zeros)
  qed
  then show ?thesis
    using inet_pton6_joined_any inet_pton6_trailing inet_pton6_with_run_full [of A B] by (simp add: bytes_of_zeros)
qed

end
