(* ===== verification/Ncat_Base64.thy ===== *)
theory Ncat_Base64
  imports C_String
begin

text \<open>
  The base64 encoder of \<open>ncat/base64.c\<close>, with the buffer it allocates, and its inverse as RFC
  3548 defines it.
\<close>

definition b64alpha :: string where
  "b64alpha = ''ABCDEFGHIJKLMNOPQRSTUVWXYZabcdefghijklmnopqrstuvwxyz0123456789+/''"

definition alpha :: "u8 \<Rightarrow> char" where
  "alpha x = b64alpha ! unat x"

text \<open>The bytes stored at \<open>dest\<close>, without the final NUL.\<close>

fun b64enc_internal :: "u8 list \<Rightarrow> string" where
  "b64enc_internal (a # b # c # data) =
     [alpha (drop_bit 2 a AND 0x3f),
      alpha ((push_bit 4 a AND 0x30) OR (drop_bit 4 b AND 0xf)),
      alpha ((push_bit 2 b AND 0x3c) OR (drop_bit 6 c AND 0x3)),
      alpha (c AND 0x3f)] @ b64enc_internal data"
| "b64enc_internal [a, b] =
     [alpha (drop_bit 2 a AND 0x3f),
      alpha ((push_bit 4 a AND 0x30) OR (drop_bit 4 b AND 0xf)),
      alpha (push_bit 2 b AND 0x3c), CHR ''='']"
| "b64enc_internal [a] =
     [alpha (drop_bit 2 a AND 0x3f), alpha (push_bit 4 a AND 0x30), CHR ''='', CHR ''='']"
| "b64enc_internal [] = []"

text \<open>The buffer has \<open>4 * len / 3 + 4\<close> bytes; the text and its terminator have to fit.\<close>

definition b64enc :: "u8 list \<Rightarrow> string option" where
  "b64enc data =
     (let dest = b64enc_internal data
      in if length dest + 1 \<le> 4 * length data div 3 + 4 then Some dest else None)"

section \<open>The inverse\<close>

definition b64val :: "char \<Rightarrow> u8" where
  "b64val c = of_nat (length (takeWhile (\<lambda>x. x \<noteq> c) b64alpha))"

fun b64dec :: "string \<Rightarrow> u8 list" where
  "b64dec (w # x # y # z # cs) =
     (let p = push_bit 2 (b64val w) OR drop_bit 4 (b64val x);
          q = push_bit 4 (b64val x) OR drop_bit 2 (b64val y);
          r = push_bit 6 (b64val y) OR b64val z
      in if y = CHR ''='' then [p] else if z = CHR ''='' then [p, q] else p # q # r # b64dec cs)"
| "b64dec _ = []"

lemma alpha_checked:
  "list_all (\<lambda>i. length (takeWhile (\<lambda>x. x \<noteq> b64alpha ! i) b64alpha) = i \<and> b64alpha ! i \<noteq> CHR ''='')
     [0..<64]"
  by code_simp

lemma alpha_props:
  assumes "unat x < 64"
  shows "b64val (alpha x) = x" "alpha x \<noteq> CHR ''=''"
  using assms alpha_checked by (auto simp: list_all_iff alpha_def b64val_def)

lemma less_64: "x AND 0x3f = x \<Longrightarrow> unat (x :: u8) < 64"
proof -
  assume "x AND 0x3f = x"
  moreover have "(0x3f :: u8) = mask 6" by (simp add: mask_eq_exp_minus_1)
  ultimately have "x = take_bit 6 x" by (simp add: take_bit_eq_mask)
  then have "unat x = take_bit 6 (unat x)" by (metis unsigned_take_bit_eq)
  then show ?thesis using take_bit_nat_less_exp [of 6 "unat x"] by simp
qed

lemma u8_eqI:
  assumes "bit x 0 = bit y 0" "bit x 1 = bit y 1" "bit x 2 = bit y 2" "bit x 3 = bit y 3"
    "bit x 4 = bit y 4" "bit x 5 = bit y 5" "bit x 6 = bit y 6" "bit x 7 = bit y 7"
  shows "x = (y :: u8)"
proof (rule bit_word_eqI)
  fix n assume "n < LENGTH(8)"
  then have "n \<in> {0, 1, 2, 3, 4, 5, 6, 7}" by auto
  then show "bit x n = bit y n" using assms by auto
qed

lemma sextets:
  "unat (drop_bit 2 (a :: u8) AND 0x3f) < 64"
  "unat ((push_bit 4 a AND 0x30) OR (drop_bit 4 (b :: u8) AND 0xf)) < 64"
  "unat ((push_bit 2 b AND 0x3c) OR (drop_bit 6 (c :: u8) AND 0x3)) < 64"
  "unat (c AND 0x3f) < 64" "unat (push_bit 2 b AND 0x3c) < 64" "unat (push_bit 4 a AND 0x30) < 64"
  by (rule less_64, rule u8_eqI; simp add: bit_simps)+

lemma regroup:
  "push_bit 2 (drop_bit 2 (a :: u8) AND 0x3f)
     OR drop_bit 4 ((push_bit 4 a AND 0x30) OR (drop_bit 4 (b :: u8) AND 0xf)) = a"
  "push_bit 4 ((push_bit 4 a AND 0x30) OR (drop_bit 4 b AND 0xf))
     OR drop_bit 2 ((push_bit 2 b AND 0x3c) OR (drop_bit 6 (c :: u8) AND 0x3)) = b"
  "push_bit 6 ((push_bit 2 b AND 0x3c) OR (drop_bit 6 c AND 0x3)) OR (c AND 0x3f) = c"
  "push_bit 4 ((push_bit 4 a AND 0x30) OR (drop_bit 4 b AND 0xf))
     OR drop_bit 2 (push_bit 2 b AND 0x3c) = b"
  "push_bit 2 (drop_bit 2 a AND 0x3f) OR drop_bit 4 (push_bit 4 a AND 0x30) = a"
  by (rule u8_eqI; simp add: bit_simps)+

lemma b64dec_enc: "b64dec (b64enc_internal data) = data"
  by (induction data rule: b64enc_internal.induct)
    (simp_all add: alpha_props sextets regroup [simplified])

lemma length_b64enc: "length (b64enc_internal data) = 4 * ((length data + 2) div 3)"
proof (induction data rule: b64enc_internal.induct)
  case (1 a b c data)
  have "(length (a # b # c # data) + 2) div 3 = (length data + 2) div 3 + 1" by simp
  then show ?case using 1 by simp
qed simp_all

section \<open>Properties\<close>

text \<open>\<open>b64enc\<close> always fits its text and terminator into the buffer it allocates, produces
  four characters for every three bytes begun, and decoding gives the data
  back.\<close>

theorem b64enc_roundtrip:
  "\<exists>text. b64enc data = Some text \<and> length text = 4 * ((length data + 2) div 3) \<and>
     b64dec text = data"
proof -
  have "4 * ((length data + 2) div 3) + 1 \<le> 4 * length data div 3 + 4" by presburger
  then show ?thesis by (simp add: b64enc_def length_b64enc b64dec_enc)
qed

end
