(* ===== verification/Ncat_Util.thy ===== *)
theory Ncat_Util
  imports Nbase_Str
begin

text \<open>
  The utilities of \<open>ncat/util.c\<close>: checked size arithmetic, the growing string buffer, the list
  of descriptors \<open>select\<close> watches, line-ending conversion and the ALPN list. \<open>bye\<close> and a failed
  \<open>ncat_assert\<close> are \<open>None\<close>.
\<close>

section \<open>Sizes\<close>

definition sadd :: "u64 \<Rightarrow> u64 \<Rightarrow> u64 option" where
  "sadd l r = (let t = l + r in if t < l then None else Some t)"

definition smul :: "u64 \<Rightarrow> u64 \<Rightarrow> u64 option" where
  "smul l r = (let t = l * r in if l \<noteq> 0 \<and> t div l \<noteq> r then None else Some t)"

section \<open>The string buffer\<close>

text \<open>
  The three variables a caller passes: the buffer (\<open>None\<close> is \<open>NULL\<close>), its size and the offset of
  its end. Memory that \<open>realloc\<close> adds has unspecified contents, here a fixed byte.
\<close>

record strbuf =
  sb_buf :: "string option"
  sb_size :: nat
  sb_offset :: nat

definition strbuf_init :: strbuf where
  "strbuf_init = \<lparr>sb_buf = None, sb_size = 0, sb_offset = 0\<rparr>"

definition safe_realloc :: "string option \<Rightarrow> nat \<Rightarrow> string" where
  "safe_realloc buf n =
     (let old = (case buf of None \<Rightarrow> [] | Some b \<Rightarrow> b)
      in take n old @ replicate (n - length old) (CHR 0xCC))"

definition strbuf_append :: "strbuf \<Rightarrow> string \<Rightarrow> nat \<Rightarrow> strbuf option" where
  "strbuf_append sb s n =
     (if \<not> sb_offset sb \<le> sb_size sb \<or> length s < n then None
      else
        let sb = (if n \<ge> sb_size sb - sb_offset sb
                  then sb\<lparr>sb_size := sb_size sb + (n + 1),
                          sb_buf := Some (safe_realloc (sb_buf sb) (sb_size sb + (n + 1)))\<rparr>
                  else sb)
        in case sb_buf sb of
             None \<Rightarrow> None
           | Some b \<Rightarrow>
               if length b < sb_offset sb + n + 1 then None
               else Some (sb\<lparr>sb_buf := Some (take (sb_offset sb) b @ take n s @ [NUL]
                                              @ drop (sb_offset sb + n + 1) b),
                             sb_offset := sb_offset sb + n\<rparr>))"

definition strbuf_append_str :: "strbuf \<Rightarrow> string \<Rightarrow> strbuf option" where
  "strbuf_append_str sb s = strbuf_append sb s (length s)"

text \<open>The retry loop of \<open>strbuf_sprintf\<close> for a format that produces \<open>text\<close>.\<close>

fun strbuf_sprintf_loop :: "nat \<Rightarrow> string \<Rightarrow> strbuf \<Rightarrow> strbuf option" where
  "strbuf_sprintf_loop 0 text sb = None"
| "strbuf_sprintf_loop (Suc fuel) text sb =
     (case sb_buf sb of
        None \<Rightarrow> None
      | Some b \<Rightarrow>
          (case Vsnprintf b (sb_offset sb) (sb_size sb - sb_offset sb) text of
             None \<Rightarrow> None
           | Some (b', n) \<Rightarrow>
               if n < 0 then
                 strbuf_sprintf_loop fuel text
                   (sb\<lparr>sb_size := max (sb_size sb) 1 * 2,
                       sb_buf := Some (safe_realloc (Some b') (max (sb_size sb) 1 * 2))\<rparr>)
               else if n \<ge> int (sb_size sb - sb_offset sb) then
                 strbuf_sprintf_loop fuel text
                   (sb\<lparr>sb_size := sb_size sb + nat n + 1,
                       sb_buf := Some (safe_realloc (Some b') (sb_size sb + nat n + 1))\<rparr>)
               else Some (sb\<lparr>sb_buf := Some b', sb_offset := sb_offset sb + nat n\<rparr>)))"

text \<open>Two rounds suffice: the first learns the length.\<close>

definition strbuf_sprintf :: "strbuf \<Rightarrow> string \<Rightarrow> strbuf option" where
  "strbuf_sprintf sb text =
     (if \<not> sb_offset sb \<le> sb_size sb then None
      else
        let sb = (if sb_buf sb = None
                  then sb\<lparr>sb_size := 1, sb_buf := Some (safe_realloc None 1)\<rparr> else sb)
        in strbuf_sprintf_loop 2 text sb)"

section \<open>Source routes and times\<close>

definition buildsrcrte :: "u8 list \<Rightarrow> u8 list list \<Rightarrow> u8 \<Rightarrow> u8 list option" where
  "buildsrcrte dstaddr routes ptr =
     (let len = (length routes + 1) * 4 + 4
      in if length routes > 8 then None
         else Some ([0x01, 0x83, of_nat (len - 1), ptr] @ concat routes @ dstaddr))"

text \<open>C division truncates towards zero.\<close>

definition cdiv :: "int \<Rightarrow> int \<Rightarrow> int" where
  "cdiv a b = sgn a * sgn b * (\<bar>a\<bar> div \<bar>b\<bar>)"

definition ms_to_timeval :: "int \<Rightarrow> int \<times> int" where
  "ms_to_timeval ms = (let sec = cdiv ms 1000 in (sec, (ms - sec * 1000) * 1000))"

section \<open>The descriptor list\<close>

record fdinfo =
  fd :: int
  lasterr :: int
  remoteaddr :: "u8 list"
  ss_len :: nat

record fd_list =
  fds :: "fdinfo list"
  nfds :: nat
  maxfds :: nat
  fdmax :: int
  state :: int

definition zero_fdinfo :: fdinfo where
  "zero_fdinfo = \<lparr>fd = 0, lasterr = 0, remoteaddr = [], ss_len = 0\<rparr>"

definition init_fdlist :: "nat \<Rightarrow> fd_list" where
  "init_fdlist m =
     \<lparr>fds = replicate m zero_fdinfo, nfds = 0, maxfds = m, fdmax = -1, state = 0\<rparr>"

definition free_fdlist :: "fd_list \<Rightarrow> fd_list" where
  "free_fdlist fdl = fdl\<lparr>fds := [], nfds := 0, fdmax := -1, state := 0\<rparr>"

definition add_fdinfo :: "fd_list \<Rightarrow> fdinfo \<Rightarrow> fd_list \<times> int" where
  "add_fdinfo fdl s =
     (if nfds fdl \<ge> maxfds fdl then (fdl, -1)
      else (fdl\<lparr>fds := (fds fdl)[nfds fdl := s], nfds := nfds fdl + 1,
                fdmax := (if fd s > fdmax fdl then fd s else fdmax fdl)\<rparr>, 0))"

definition add_fd :: "fd_list \<Rightarrow> int \<Rightarrow> fd_list \<times> int" where
  "add_fd fdl f = add_fdinfo fdl (zero_fdinfo\<lparr>fd := f\<rparr>)"

text \<open>
  The search loop of \<open>rm_fd\<close> over the slots from \<open>x\<close> on: the slot found (the last one, unless
  the loop breaks) and the new maximum.
\<close>

fun rm_fd_loop :: "fdinfo list \<Rightarrow> int \<Rightarrow> int \<Rightarrow> nat \<Rightarrow> nat option \<Rightarrow> int \<Rightarrow> nat option \<times> int" where
  "rm_fd_loop [] f fmax x found newfdmax = (found, newfdmax)"
| "rm_fd_loop (i # is) f fmax x found newfdmax =
     (if fd i = f then
        (if f < fmax then (Some x, fmax)
         else rm_fd_loop is f fmax (x + 1) (Some x) newfdmax)
      else rm_fd_loop is f fmax (x + 1) found (if fd i > newfdmax then fd i else newfdmax))"

definition rm_fd :: "fd_list \<Rightarrow> int \<Rightarrow> fd_list option" where
  "rm_fd fdl f =
     (if nfds fdl = 0 then None
      else case rm_fd_loop (take (nfds fdl) (fds fdl)) f (fdmax fdl) 0 None 0 of
        (None, _) \<Rightarrow> None
      | (Some k, newfdmax) \<Rightarrow>
          Some (fdl\<lparr>fdmax := newfdmax,
                    fds := (fds fdl)[k := fds fdl ! (nfds fdl - 1)],
                    state := state fdl + 1,
                    nfds := nfds fdl - 1\<rparr>))"

definition get_maxfd :: "fd_list \<Rightarrow> int" where
  "get_maxfd fdl = fold (\<lambda>i m. if fd i > m then fd i else m) (take (nfds fdl) (fds fdl)) (-1)"

definition get_fdinfo :: "fd_list \<Rightarrow> int \<Rightarrow> fdinfo option" where
  "get_fdinfo fdl f = find (\<lambda>i. fd i = f) (take (nfds fdl) (fds fdl))"

section \<open>Line endings\<close>

abbreviation CR :: char where "CR \<equiv> CHR 0x0D"
abbreviation LF :: char where "LF \<equiv> CHR 0x0A"

text \<open>The test both loops make at index \<open>i\<close>.\<close>

definition bare_lf :: "string \<Rightarrow> bool \<Rightarrow> nat \<Rightarrow> bool" where
  "bare_lf src prev_state i \<longleftrightarrow>
     src ! i = LF \<and> (if i = 0 then \<not> prev_state else src ! (i - 1) \<noteq> CR)"

text \<open>
  The result is the value of \<open>*state\<close> and, when changes were made, the new buffer; a buffer
  that is not exactly as long as the space allocated is \<open>None\<close>.
\<close>

definition fix_line_endings :: "string \<Rightarrow> bool \<Rightarrow> (bool \<times> string option) option" where
  "fix_line_endings src prev_state =
     (let num_bytes = length src;
          st = (if num_bytes > 0 then src ! (num_bytes - 1) = CR else prev_state);
          fix_count = length (filter (bare_lf src prev_state) [0..<num_bytes])
      in if fix_count = 0 then Some (st, None)
         else
           let dst = fold (\<lambda>i d. if bare_lf src prev_state i then d @ [CR, LF] else d @ [src ! i])
                       [0..<num_bytes] []
           in if length dst = num_bytes + fix_count then Some (st, Some dst) else None)"

section \<open>The ALPN list\<close>

text \<open>\<open>out\<close> is the allocated buffer; a store outside of it is \<open>None\<close>. \<open>Inl ()\<close> is the \<open>NULL\<close> result.\<close>

definition put_out :: "u8 list \<Rightarrow> nat \<Rightarrow> u8 \<Rightarrow> u8 list option" where
  "put_out out i b = (if i < length out then Some (out[i := b]) else None)"

fun next_protos_loop :: "string \<Rightarrow> nat \<Rightarrow> nat \<Rightarrow> nat \<Rightarrow> u8 list \<Rightarrow> (unit + u8 list) option" where
  "next_protos_loop s 0 i start out = Some (Inr out)"
| "next_protos_loop s (Suc k) i start out =
     (if i = length s \<or> s ! i = CHR '','' then
        (if i - start > 255 then Some (Inl ())
         else case put_out out start (of_nat (i - start)) of
                None \<Rightarrow> None
              | Some out \<Rightarrow> next_protos_loop s k (i + 1) (i + 1) out)
      else case put_out out (i + 1) (of_nat (code (s ! i))) of
             None \<Rightarrow> None
           | Some out \<Rightarrow> next_protos_loop s k (i + 1) start out)"

definition next_protos_parse :: "string \<Rightarrow> (unit + u8 list) option" where
  "next_protos_parse s =
     (if length s \<ge> 65535 then Some (Inl ())
      else next_protos_loop s (length s + 1) 0 0 (replicate (length s + 1) 0xCC))"

section \<open>The string buffer appends\<close>

text \<open>A buffer holds a text when the text is its first \<open>offset\<close> bytes and a terminator follows.\<close>

definition holds :: "strbuf \<Rightarrow> string \<Rightarrow> bool" where
  "holds sb t \<longleftrightarrow>
     (case sb_buf sb of
        None \<Rightarrow> sb_size sb = 0 \<and> sb_offset sb = 0 \<and> t = []
      | Some b \<Rightarrow> length b = sb_size sb \<and> sb_offset sb = length t \<and>
                  (\<exists>junk. b = t @ NUL # junk))"

definition strbuf_string :: "strbuf \<Rightarrow> string option" where
  "strbuf_string sb = map_option cstr (sb_buf sb)"

lemma holds_init: "holds strbuf_init []"
  by (simp add: holds_def strbuf_init_def)

lemma safe_realloc_grow:
  "length b \<le> n \<Longrightarrow> safe_realloc (Some b) n = b @ replicate (n - length b) (CHR 0xCC)"
  by (simp add: safe_realloc_def)

lemma strbuf_append_holds:
  assumes "holds sb t" and "n \<le> length s"
  shows "\<exists>sb'. strbuf_append sb s n = Some sb' \<and> holds sb' (t @ take n s) \<and> sb_buf sb' \<noteq> None
    \<and> 0 < sb_size sb'"
proof (cases "sb_buf sb")
  case None
  then show ?thesis
    using assms by (auto simp: strbuf_append_def holds_def safe_realloc_def Let_def)
next
  case (Some b)
  then obtain junk where b: "b = t @ NUL # junk" "length b = sb_size sb" "sb_offset sb = length t"
    using assms(1) by (auto simp: holds_def)
  show ?thesis
  proof (cases "n \<ge> sb_size sb - sb_offset sb")
    case True
    have "safe_realloc (Some b) (sb_size sb + (n + 1)) = b @ replicate (n + 1) (CHR 0xCC)"
      using b(2) by (simp add: safe_realloc_grow)
    moreover have "drop (length t + n + 1) (b @ replicate (n + 1) (CHR 0xCC)) = junk'
        \<Longrightarrow> length t + n + 1 + length junk' = sb_size sb + (n + 1)" for junk'
      using b by auto
    ultimately show ?thesis
      using True b Some assms(2) by (auto simp: strbuf_append_def holds_def Let_def)
  next
    case False
    then show ?thesis
      using b Some assms(2) by (auto simp: strbuf_append_def holds_def Let_def)
  qed
qed

lemma strbuf_append_str_holds:
  "holds sb t \<Longrightarrow> \<exists>sb'. strbuf_append_str sb s = Some sb' \<and> holds sb' (t @ s) \<and> sb_buf sb' \<noteq> None"
  using strbuf_append_holds [of sb t "length s" s] by (auto simp: strbuf_append_str_def)

lemma Vsnprintf_fits:
  assumes "length b = off + n" and "length text < n" and "length text < 2 ^ 31"
  shows "Vsnprintf b off n text =
    Some (take off b @ text @ NUL # drop (off + length text + 1) b, int (length text))"
  using assms by (auto simp: Vsnprintf_def vsnprintf_def)

lemma Vsnprintf_cut:
  assumes "length b = off + n" and "n \<le> length text" and "0 < n" and "length text < 2 ^ 31"
  shows "\<exists>b'. Vsnprintf b off n text = Some (b', int (length text)) \<and> length b' = length b \<and>
    take off b' = take off b"
  using assms by (auto simp: Vsnprintf_def vsnprintf_def min_def)

lemma strbuf_sprintf_holds:
  assumes "holds sb t" and len: "length text < 2 ^ 31"
  shows "\<exists>sb'. strbuf_sprintf sb text = Some sb' \<and> holds sb' (t @ text) \<and> sb_buf sb' \<noteq> None"
proof -
  define sb1 where "sb1 = (if sb_buf sb = None
    then sb\<lparr>sb_size := 1, sb_buf := Some (safe_realloc None 1)\<rparr> else sb)"
  obtain b where b: "sb_buf sb1 = Some b" "length b = sb_size sb1" "sb_offset sb1 = length t"
      "take (length t) b = t" "length t < length b"
    using assms(1) by (auto simp: holds_def sb1_def safe_realloc_def split: option.splits)
  have run: "strbuf_sprintf sb text = strbuf_sprintf_loop 2 text sb1"
    using assms(1) by (auto simp: strbuf_sprintf_def sb1_def holds_def split: option.splits)
  show ?thesis
  proof (cases "length text < sb_size sb1 - sb_offset sb1")
    case True
    then show ?thesis
      unfolding run numeral_2_eq_2
      using b Vsnprintf_fits [of b "length t" "sb_size sb1 - sb_offset sb1" "text", OF _ _ len]
      by (auto simp: holds_def)
  next
    case False
    then obtain b' where b': "Vsnprintf b (length t) (sb_size sb1 - length t) text
        = Some (b', int (length text))" "length b' = length b" "take (length t) b' = t"
      using b Vsnprintf_cut [of b "length t" "sb_size sb1 - length t" "text", OF _ _ _ len] by auto
    define b2 where "b2 = safe_realloc (Some b') (sb_size sb1 + length text + 1)"
    have b2: "length b2 = sb_size sb1 + length text + 1" "take (length t) b2 = t"
      using b b' by (auto simp: b2_def safe_realloc_grow)
    have "strbuf_sprintf_loop 2 text sb1 =
        strbuf_sprintf_loop 1 text (sb1\<lparr>sb_size := sb_size sb1 + length text + 1, sb_buf := Some b2\<rparr>)"
    proof -
      have "int (sb_size sb1 - sb_offset sb1) \<le> int (length text)" using False by simp
      moreover have "(2 :: nat) = Suc 1" by simp
      ultimately show ?thesis
        using b b' by (simp only: strbuf_sprintf_loop.simps option.simps prod.case b2_def nat_int) simp
    qed
    then show ?thesis
      unfolding run
      using b b2 Vsnprintf_fits [of b2 "length t" "sb_size sb1 + length text + 1 - length t" "text", OF _ _ len]
      by (auto simp: holds_def)
  qed
qed

text \<open>A text whose length is no \<open>int\<close> never gets printed, however often the buffer is doubled.\<close>

lemma strbuf_sprintf_loop_endless: "2 ^ 31 \<le> length text \<Longrightarrow> strbuf_sprintf_loop fuel text sb = None"
  by (induction fuel arbitrary: sb) (auto simp: Vsnprintf_def vsnprintf_def Let_def split: option.split if_splits)

lemma strbuf_sprintf_endless: "2 ^ 31 \<le> length text \<Longrightarrow> strbuf_sprintf sb text = None"
  by (simp add: strbuf_sprintf_def strbuf_sprintf_loop_endless Let_def)

text \<open>
  The contract a client of the buffer relies on: a representation relation to the text built so
  far that the empty buffer starts and every append keeps.
\<close>

locale string_builder =
  fixes rep :: "'b \<Rightarrow> string \<Rightarrow> bool" and empty :: 'b
    and append :: "'b \<Rightarrow> string \<Rightarrow> 'b option" and printf :: "'b \<Rightarrow> string \<Rightarrow> 'b option"
  assumes rep_empty: "rep empty []"
    and rep_append: "rep b t \<Longrightarrow> \<exists>b'. append b s = Some b' \<and> rep b' (t @ s)"
    and rep_printf: "rep b t \<Longrightarrow> length s < 2 ^ 31 \<Longrightarrow> \<exists>b'. printf b s = Some b' \<and> rep b' (t @ s)"
begin

definition print_all :: "string list \<Rightarrow> 'b option \<Rightarrow> 'b option" where
  "print_all ss b = fold (\<lambda>s b. Option.bind b (\<lambda>b. printf b s)) ss b"

lemma print_all_rep:
  "rep b t \<Longrightarrow> \<forall>s\<in>set ss. length s < 2 ^ 31 \<Longrightarrow> \<exists>b'. print_all ss (Some b) = Some b' \<and> rep b' (t @ concat ss)"
proof (induction ss arbitrary: b t)
  case (Cons s ss)
  obtain b1 where b1: "printf b s = Some b1" "rep b1 (t @ s)" using rep_printf [OF Cons.prems(1)] Cons.prems(2) by fastforce
  then show ?case using Cons.IH [OF b1(2)] Cons.prems(2) by (simp add: print_all_def)
qed (simp add: print_all_def)

end

interpretation strbuf: string_builder holds strbuf_init strbuf_append_str strbuf_sprintf
  using holds_init strbuf_append_str_holds strbuf_sprintf_holds by unfold_locales blast+

lemma holds_string:
  "holds sb t \<Longrightarrow> sb_buf sb \<noteq> None \<Longrightarrow> NUL \<notin> set t \<Longrightarrow> strbuf_string sb = Some t"
  by (auto simp: holds_def strbuf_string_def cstr_append_NUL split: option.splits)

section \<open>Checked sizes\<close>

lemma unat_word_add_less:
  "(l :: u64) + r < l \<longleftrightarrow> 2 ^ 64 \<le> unat l + unat r"
proof -
  have "unat (l + r) = (unat l + unat r) mod 2 ^ 64" by (simp add: unat_word_ariths)
  moreover have "unat l < 2 ^ 64" "unat r < 2 ^ 64" using unsigned_less [of l] unsigned_less [of r] by simp_all
  ultimately show ?thesis
    by (cases "unat l + unat r < 2 ^ 64") (auto simp: word_less_nat_alt mod_if)
qed

lemma smul_overflow_iff:
  "(l :: u64) \<noteq> 0 \<Longrightarrow> (l * r) div l \<noteq> r \<longleftrightarrow> 2 ^ 64 \<le> unat l * unat r"
proof -
  assume l: "l \<noteq> 0"
  then have l0: "0 < unat l" by (simp add: unat_gt_0)
  have m: "unat (l * r) = (unat l * unat r) mod 2 ^ 64" by (simp add: unat_word_ariths)
  have d: "unat ((l * r) div l) = unat (l * r) div unat l" by (simp add: unat_div)
  show ?thesis
  proof (cases "unat l * unat r < 2 ^ 64")
    case True
    then have "unat ((l * r) div l) = unat r" using m d l0 by simp
    then show ?thesis using True by (simp add: word_unat_eq_iff)
  next
    case False
    then have "unat (l * r) < unat l * unat r" using m by (metis mod_less_divisor not_le order_less_le_trans zero_less_numeral zero_less_power)
    then have "unat (l * r) div unat l < unat r"
      using l0 by (simp add: div_less_iff_less_mult mult.commute)
    then show ?thesis using False d by auto
  qed
qed

section \<open>The descriptor list keeps its maximum\<close>

definition live :: "fd_list \<Rightarrow> fdinfo list" where
  "live fdl = take (nfds fdl) (fds fdl)"

text \<open>Nothing is said of the maximum of an empty list: it is -1 at first and 0 after a removal.\<close>

definition fdlist_ok :: "fd_list \<Rightarrow> bool" where
  "fdlist_ok fdl \<longleftrightarrow>
     length (fds fdl) = maxfds fdl \<and> nfds fdl \<le> maxfds fdl \<and> distinct (map fd (live fdl)) \<and>
     (\<forall>i\<in>set (live fdl). 0 \<le> fd i) \<and>
     (if live fdl = [] then fdmax fdl \<in> {-1, 0} else fdmax fdl = Max (fd ` set (live fdl)))"

lemma length_live: "fdlist_ok fdl \<Longrightarrow> length (live fdl) = nfds fdl"
  by (simp add: fdlist_ok_def live_def)

lemma rm_fd_loop_absent:
  "f \<notin> fd ` set xs \<Longrightarrow> rm_fd_loop xs f fmax x found nm = (found, fold max (map fd xs) nm)"
  by (induction xs arbitrary: x nm) (auto simp: max_def)

lemma rm_fd_loop_present:
  assumes "f \<notin> fd ` set as" and "f \<notin> fd ` set bs" and "fd i = f"
  shows "rm_fd_loop (as @ i # bs) f fmax x found nm =
    (Some (x + length as), if f < fmax then fmax else fold max (map fd (as @ bs)) nm)"
  using assms
proof (induction as arbitrary: x nm)
  case Nil
  then show ?case using rm_fd_loop_absent [of f bs fmax "x + 1" "Some x" nm] by simp
qed (auto simp: max_def)

lemma fold_max: "fold max xs (m :: int) = Max (insert m (set xs))"
  by (metis List.finite_set Max.set_eq_fold set_simps(2))

lemma Max_zero_fds:
  fixes X :: "int set"
  assumes "finite X" "\<forall>x\<in>X. 0 \<le> x" "X \<noteq> {}"
  shows "Max (insert 0 X) = Max X"
  using assms by (simp add: max_def)

lemma rm_fd_live:
  assumes "k < n" and "n \<le> length xs"
  shows "take (n - 1) (xs[k := xs ! (n - 1)]) = (butlast (take n xs))[k := last (take n xs)]"
proof -
  have "butlast (take n xs) = take (n - 1) xs" using assms by (simp add: butlast_take)
  moreover have "last (take n xs) = xs ! (n - 1)"
    using assms by (subst last_conv_nth) (auto simp: min_def)
  ultimately show ?thesis by (simp add: take_update_swap)
qed

lemma rm_fd_ok:
  assumes ok: "fdlist_ok fdl" and mem: "f \<in> fd ` set (live fdl)"
  shows "\<exists>fdl'. rm_fd fdl f = Some fdl' \<and> fdlist_ok fdl' \<and>
    mset (live fdl') = {#i \<in># mset (live fdl). fd i \<noteq> f#} \<and> state fdl' = state fdl + 1"
proof -
  obtain as i bs where l: "live fdl = as @ i # bs" "fd i = f"
    using mem by (metis imageE split_list)
  then have nin: "f \<notin> fd ` set as" "f \<notin> fd ` set bs" using ok by (auto simp: fdlist_ok_def)
  define nm where "nm = (if f < fdmax fdl then fdmax fdl else fold max (map fd (as @ bs)) 0)"
  define fdl' where "fdl' = fdl\<lparr>fdmax := nm, fds := (fds fdl)[length as := fds fdl ! (nfds fdl - 1)],
      state := state fdl + 1, nfds := nfds fdl - 1\<rparr>"
  have n: "length as < nfds fdl" "nfds fdl \<le> length (fds fdl)"
    using l ok length_live [OF ok] by (auto simp: fdlist_ok_def)
  have run: "rm_fd fdl f = Some fdl'"
    using n rm_fd_loop_present [OF nin l(2), of "fdmax fdl" 0 None 0] l(1)
    by (simp add: rm_fd_def live_def fdl'_def nm_def)
  have "live fdl' = (butlast (live fdl))[length as := last (live fdl)]"
    using rm_fd_live [OF n] by (simp add: live_def fdl'_def)
  then have ms: "mset (live fdl') = mset (as @ bs)"
    using mset_replace_by_last [of "length as" "live fdl"] l by simp
  also have "\<dots> = {#i \<in># mset (live fdl). fd i \<noteq> f#}"
  proof -
    have "filter (\<lambda>i. fd i \<noteq> f) as = as" "filter (\<lambda>i. fd i \<noteq> f) bs = bs"
      using nin by (auto simp: filter_id_conv)
    then have "filter (\<lambda>i. fd i \<noteq> f) (live fdl) = as @ bs" using l by simp
    then show ?thesis by (metis mset_filter)
  qed
  finally have rest: "mset (live fdl') = {#i \<in># mset (live fdl). fd i \<noteq> f#}" .
  have sets: "set (live fdl') = set (as @ bs)" using ms by (metis mset_eq_setD)
  have "distinct (map fd (as @ bs))" using ok l by (auto simp: fdlist_ok_def)
  moreover have "mset (map fd (live fdl')) = mset (map fd (as @ bs))" using ms by (metis mset_map)
  ultimately have dist: "distinct (map fd (live fdl'))" by (metis mset_eq_imp_distinct_iff)
  have pos: "\<forall>i\<in>set (as @ bs). 0 \<le> fd i" using ok l by (auto simp: fdlist_ok_def)
  have max: "fdmax fdl = Max (insert f (fd ` set (as @ bs)))"
    using ok l by (simp add: fdlist_ok_def insert_commute Un_commute)
  have "nm = (if as @ bs = [] then 0 else Max (fd ` set (as @ bs)))"
  proof (cases "as @ bs = []")
    case True
    then show ?thesis using max by (simp add: nm_def)
  next
    case False
    then have "Max (insert 0 (fd ` set (as @ bs))) = Max (fd ` set (as @ bs))"
      using pos by (intro Max_zero_fds) auto
    then have F: "fold max (map fd (as @ bs)) 0 = Max (fd ` set (as @ bs))"
      by (simp only: fold_max set_map)
    define M where "M = Max (fd ` set (as @ bs))"
    have "fdmax fdl = max f M" using max False by (simp add: M_def)
    then have "nm = M" unfolding nm_def F M_def [symmetric] by (simp add: max_def)
    then show ?thesis using False by (simp only: M_def if_False)
  qed
  moreover have "live fdl' = [] \<longleftrightarrow> as @ bs = []" using sets by (metis set_empty)
  ultimately have "fdlist_ok fdl'"
    using ok sets dist pos unfolding fdlist_ok_def
    by (simp add: fdl'_def live_def split: if_splits) linarith
  then show ?thesis using run rest by (auto simp: fdl'_def)
qed

lemma add_fdinfo_ok:
  assumes ok: "fdlist_ok fdl" and "nfds fdl < maxfds fdl" and "0 \<le> fd s"
    and "fd s \<notin> fd ` set (live fdl)"
  shows "snd (add_fdinfo fdl s) = 0 \<and> fdlist_ok (fst (add_fdinfo fdl s)) \<and>
    live (fst (add_fdinfo fdl s)) = live fdl @ [s]"
proof -
  define fdl' where "fdl' = fst (add_fdinfo fdl s)"
  have live': "live fdl' = live fdl @ [s]"
    using assms(2) ok
    by (simp add: fdl'_def live_def add_fdinfo_def fdlist_ok_def take_Suc_conv_app_nth)
  have max': "fdmax fdl' = max (fdmax fdl) (fd s)"
    using assms(2) by (simp add: fdl'_def add_fdinfo_def max_def)
  have "fdmax fdl' = Max (fd ` set (live fdl'))"
  proof (cases "live fdl = []")
    case True
    then have "fdmax fdl \<in> {-1, 0}" using ok by (simp add: fdlist_ok_def)
    then show ?thesis using True live' max' assms(3) by auto
  next
    case False
    then show ?thesis using live' max' ok by (simp add: fdlist_ok_def max.commute)
  qed
  then have "fdlist_ok fdl'"
    using ok live' assms(2,3,4) unfolding fdlist_ok_def
    by (auto simp: fdl'_def add_fdinfo_def)
  then show ?thesis using live' assms(2) by (simp add: fdl'_def) (simp add: add_fdinfo_def)
qed

section \<open>Line endings as a stream transformation\<close>

text \<open>The specification: a line feed not preceded by a carriage return gets one.\<close>

fun crlf :: "bool \<Rightarrow> string \<Rightarrow> string" where
  "crlf prev [] = []"
| "crlf prev (c # s) = (if c = LF \<and> \<not> prev then [CR, LF] else [c]) @ crlf (c = CR) s"

definition end_state :: "bool \<Rightarrow> string \<Rightarrow> bool" where
  "end_state prev s = (if s = [] then prev else last s = CR)"

lemma crlf_append: "crlf prev (a @ b) = crlf prev a @ crlf (end_state prev a) b"
  by (induction a arbitrary: prev) (auto simp: end_state_def)

lemma end_state_append: "end_state prev (a @ b) = end_state (end_state prev a) b"
  by (auto simp: end_state_def)

lemma bare_lf_Cons: "bare_lf (c # s) prev (Suc i) = bare_lf s (c = CR) i"
  by (cases i) (auto simp: bare_lf_def)

lemma bare_lf_0: "bare_lf (c # s) prev 0 \<longleftrightarrow> c = LF \<and> \<not> prev"
  by (simp add: bare_lf_def)

lemma upt_length_Cons: "[0..<length (c # s)] = 0 # map Suc [0..<length s]"
  by (simp add: upt_conv_Cons map_Suc_upt del: upt_Suc)

lemma crlf_by_index:
  "concat (map (\<lambda>i. if bare_lf s prev i then [CR, LF] else [s ! i]) [0..<length s]) = crlf prev s"
proof (induction s arbitrary: prev)
  case (Cons c s)
  have "(\<lambda>i. if bare_lf (c # s) prev i then [CR, LF] else [(c # s) ! i]) \<circ> Suc =
      (\<lambda>i. if bare_lf s (c = CR) i then [CR, LF] else [s ! i])"
    by (simp add: bare_lf_Cons fun_eq_iff)
  then have "concat (map (\<lambda>i. if bare_lf (c # s) prev i then [CR, LF] else [(c # s) ! i])
        [0..<length (c # s)]) =
      (if c = LF \<and> \<not> prev then [CR, LF] else [c]) @ crlf (c = CR) s"
    unfolding upt_length_Cons list.map map_map
    by (simp only: Cons.IH bare_lf_0 concat.simps nth_Cons_0)
  then show ?case by (simp only: crlf.simps)
qed simp

lemma length_crlf:
  "length (crlf prev s) = length s + length (filter (bare_lf s prev) [0..<length s])"
proof (induction s arbitrary: prev)
  case (Cons c s)
  have "length (filter (bare_lf (c # s) prev) (map Suc [0..<length s])) =
      length (filter (bare_lf s (c = CR)) [0..<length s])"
    by (simp add: filter_map o_def bare_lf_Cons)
  moreover have "length (if Q then 0 # xs else xs) = (if Q then 1 else 0) + length xs"
    for Q and xs :: "nat list" by simp
  ultimately have "length (filter (bare_lf (c # s) prev) [0..<length (c # s)]) =
      (if c = LF \<and> \<not> prev then 1 else 0) + length (filter (bare_lf s (c = CR)) [0..<length s])"
    unfolding upt_length_Cons filter.simps bare_lf_0 by (simp only:)
  then show ?case
    unfolding crlf.simps length_append using Cons.IH [of "c = CR"] by simp
qed simp

lemma crlf_unchanged: "length (crlf prev s) = length s \<Longrightarrow> crlf prev s = s"
proof (induction s arbitrary: prev)
  case (Cons c s)
  have "length s \<le> length (crlf (c = CR) s)" by (simp add: length_crlf)
  with Cons show ?case by (auto split: if_splits)
qed simp

lemma fold_append_concat:
  "fold (\<lambda>i d. if P i then d @ u i else d @ v i) is d =
     d @ concat (map (\<lambda>i. if P i then u i else v i) is)"
  by (induction "is" arbitrary: d) auto

lemma fix_line_endings_eq:
  "fix_line_endings src prev =
     Some (end_state prev src, if crlf prev src = src then None else Some (crlf prev src))"
proof -
  let ?n = "length (filter (bare_lf src prev) [0..<length src])"
  have st: "(if length src > 0 then src ! (length src - 1) = CR else prev) = end_state prev src"
    by (auto simp: end_state_def last_conv_nth)
  have "?n = 0 \<longleftrightarrow> crlf prev src = src"
    using length_crlf [of prev src] crlf_unchanged [of prev src] by auto
  moreover have "fold (\<lambda>i d. if bare_lf src prev i then d @ [CR, LF] else d @ [src ! i])
      [0..<length src] [] = crlf prev src"
    by (simp add: fold_append_concat crlf_by_index)
  ultimately show ?thesis
    unfolding fix_line_endings_def Let_def st using length_crlf [of prev src] by simp
qed

fun lf_follows_cr :: "bool \<Rightarrow> string \<Rightarrow> bool" where
  "lf_follows_cr prev [] \<longleftrightarrow> True"
| "lf_follows_cr prev (c # s) \<longleftrightarrow> (c = LF \<longrightarrow> prev) \<and> lf_follows_cr (c = CR) s"

lemma lf_follows_cr_crlf: "lf_follows_cr prev (crlf prev s)"
  by (induction s arbitrary: prev) auto

text \<open>What a sender that passes its blocks through \<open>fix_line_endings\<close> transmits.\<close>

fun send_blocks :: "bool \<Rightarrow> string list \<Rightarrow> string option" where
  "send_blocks prev [] = Some []"
| "send_blocks prev (b # bs) =
     (case fix_line_endings b prev of
        None \<Rightarrow> None
      | Some (prev', dst) \<Rightarrow>
          map_option ((@) (case dst of None \<Rightarrow> b | Some d \<Rightarrow> d)) (send_blocks prev' bs))"

lemma send_blocks_eq: "send_blocks prev bs = Some (crlf prev (concat bs))"
  by (induction bs arbitrary: prev) (auto simp: fix_line_endings_eq crlf_append)

section \<open>The ALPN list is the length-prefixed protocols\<close>

text \<open>The protocols of a comma-separated list, \<open>cur\<close> being read.\<close>

fun protos :: "string \<Rightarrow> string \<Rightarrow> string list" where
  "protos cur [] = [cur]"
| "protos cur (c # s) = (if c = CHR '','' then cur # protos [] s else protos (cur @ [c]) s)"

definition byte_of :: "char \<Rightarrow> u8" where
  "byte_of c = of_nat (code c)"

definition wire :: "string list \<Rightarrow> u8 list" where
  "wire ps = concat (map (\<lambda>p. of_nat (length p) # map byte_of p) ps)"

lemma next_protos_loop_eq:
  assumes "s = pre @ cur @ rest" and "start = length pre" and "i = start + length cur"
    and "out = E @ x # map byte_of cur @ junk" and "length E = length pre"
    and "length junk = length rest" and "k = length rest + 1"
  shows "next_protos_loop s k i start out =
    Some (if \<exists>p\<in>set (protos cur rest). length p > 255 then Inl ()
          else Inr (E @ wire (protos cur rest)))"
  using assms
proof (induction rest arbitrary: pre cur start i out E x junk k)
  case Nil
  then have "put_out out start (of_nat (length cur)) = Some (E @ of_nat (length cur) # map byte_of cur)"
    by (simp add: put_out_def list_update_append)
  then show ?case using Nil by (simp add: wire_def)
next
  case (Cons c rest)
  obtain y junk' where junk: "junk = y # junk'" using Cons.prems(6) by (cases junk) auto
  have si: "s ! i = c" "i \<noteq> length s" using Cons.prems(1,2,3) by (auto simp: nth_append)
  have k: "k = Suc (length rest + 1)" using Cons.prems(7) by simp
  show ?case
  proof (cases "c = CHR '',''")
    case True
    have "put_out out start (of_nat (length cur)) =
        Some ((E @ of_nat (length cur) # map byte_of cur) @ y # map byte_of [] @ junk')"
      using Cons.prems(2,4,5) junk by (simp add: put_out_def list_update_append)
    moreover have "next_protos_loop s (length rest + 1) (i + 1) (i + 1)
        ((E @ of_nat (length cur) # map byte_of cur) @ y # map byte_of [] @ junk') =
      Some (if \<exists>p\<in>set (protos [] rest). length p > 255 then Inl ()
          else Inr ((E @ of_nat (length cur) # map byte_of cur) @ wire (protos [] rest)))"
      by (rule Cons.IH [where pre = "pre @ cur @ [c]"]) (use Cons.prems junk in auto)
    ultimately show ?thesis
      using True si Cons.prems(3) unfolding k by (auto simp: wire_def)
  next
    case False
    have "put_out out (i + 1) (of_nat (code c)) = Some (E @ x # map byte_of (cur @ [c]) @ junk')"
      using Cons.prems(2,3,4,5) junk by (simp add: put_out_def list_update_append byte_of_def)
    moreover have "next_protos_loop s (length rest + 1) (i + 1) start
        (E @ x # map byte_of (cur @ [c]) @ junk') =
      Some (if \<exists>p\<in>set (protos (cur @ [c]) rest). length p > 255 then Inl ()
          else Inr (E @ wire (protos (cur @ [c]) rest)))"
      by (rule Cons.IH [where pre = pre]) (use Cons.prems junk in auto)
    ultimately show ?thesis
      using False si unfolding k by simp
  qed
qed

section \<open>Properties\<close>

text \<open>\<open>sadd\<close> and \<open>smul\<close> return the exact sum and product, and quit exactly when it does not fit
  in a \<open>size_t\<close>.\<close>

theorem sadd_smul_exact:
  "sadd l r = (if unat l + unat r < 2 ^ 64 then Some (of_nat (unat l + unat r)) else None) \<and>
   smul l r = (if unat l * unat r < 2 ^ 64 then Some (of_nat (unat l * unat r)) else None)"
proof
  show "sadd l r = (if unat l + unat r < 2 ^ 64 then Some (of_nat (unat l + unat r)) else None)"
    using unat_word_add_less [of l r] by (auto simp: sadd_def)
  show "smul l r = (if unat l * unat r < 2 ^ 64 then Some (of_nat (unat l * unat r)) else None)"
    using smul_overflow_iff [of l r] by (cases "l = 0") (auto simp: smul_def)
qed

text \<open>C25: the growing string buffer never writes outside its memory or trips its assertion: after
  any appends and formatted prints it holds, terminated, the concatenation of the pieces. Only a formatted text
  of 2 GB or more, whose length \<open>vsnprintf\<close> cannot return, never gets printed: the buffer is doubled for ever.\<close>

theorem strbuf_concatenates:
  assumes "holds sb t" and "n \<le> length s"
  shows "(\<exists>sb'. strbuf_append sb s n = Some sb' \<and> holds sb' (t @ take n s)) \<and>
    (if length s < 2 ^ 31 then \<exists>sb'. strbuf_sprintf sb s = Some sb' \<and> holds sb' (t @ s) else strbuf_sprintf sb s = None)"
  using strbuf_append_holds [OF assms] strbuf_sprintf_holds [OF assms(1)] strbuf_sprintf_endless [of s sb]
  by (auto simp: not_less)

theorem strbuf_concatenates_witness:
  "(\<exists>sb'. strbuf_append strbuf_init ''abc'' 2 = Some sb' \<and> holds sb' ([] @ take 2 ''abc'')) \<and>
    (\<exists>sb'. strbuf_sprintf strbuf_init ''abc'' = Some sb' \<and> holds sb' ([] @ ''abc''))"
  using strbuf_concatenates [OF holds_init, of 2 "''abc''"] by simp

text \<open>Removing a descriptor that is on the list quits nowhere, removes exactly that descriptor,
  counts the change, and leaves in \<open>fdmax\<close> the largest descriptor that remains.\<close>

theorem rm_fd_correct:
  assumes "fdlist_ok fdl" and "f \<in> fd ` set (live fdl)"
  shows "\<exists>fdl'. rm_fd fdl f = Some fdl' \<and> fdlist_ok fdl' \<and>
    mset (live fdl') = {#i \<in># mset (live fdl). fd i \<noteq> f#} \<and> state fdl' = state fdl + 1"
  using rm_fd_ok [OF assms] .

theorem rm_fd_correct_witness:
  "\<exists>fdl'. rm_fd (fst (add_fd (fst (add_fd (init_fdlist 4) 3)) 7)) 7 = Some fdl' \<and> fdlist_ok fdl' \<and>
    mset (live fdl') = {#i \<in># mset (live (fst (add_fd (fst (add_fd (init_fdlist 4) 3)) 7))). fd i \<noteq> 7#} \<and>
    state fdl' = state (fst (add_fd (fst (add_fd (init_fdlist 4) 3)) 7)) + 1"
  by (rule rm_fd_correct)
    (simp_all add: add_fd_def add_fdinfo_def init_fdlist_def fdlist_ok_def live_def zero_fdinfo_def
      numeral_eq_Suc)

text \<open>adding a fresh descriptor to a list with room appends it and keeps \<open>fdmax\<close> the maximum.\<close>

theorem add_fdinfo_correct:
  assumes "fdlist_ok fdl" and "nfds fdl < maxfds fdl" and "0 \<le> fd s"
    and "fd s \<notin> fd ` set (live fdl)"
  shows "snd (add_fdinfo fdl s) = 0 \<and> fdlist_ok (fst (add_fdinfo fdl s)) \<and>
    live (fst (add_fdinfo fdl s)) = live fdl @ [s]"
  using add_fdinfo_ok [OF assms] .

text \<open>Line-ending conversion does not depend on how the stream is cut into blocks: sending any
  blocks through \<open>fix_line_endings\<close>, with the state it keeps between calls, transmits the
  conversion of their concatenation, in which every line feed follows a carriage return.\<close>

theorem fix_line_endings_chunking:
  "send_blocks False blocks = Some (crlf False (concat blocks)) \<and>
   lf_follows_cr False (crlf False (concat blocks))"
  using lf_follows_cr_crlf by (simp add: send_blocks_eq)

text \<open>\<open>next_protos_parse\<close> turns a comma-separated list into the wire format of ALPN, each
  protocol preceded by its length, without leaving the buffer it allocates, and returns \<open>NULL\<close>
  exactly when the list has 65535 bytes or more or a protocol has more than 255.\<close>

theorem next_protos_parse_wire:
  "next_protos_parse s =
     Some (if 65535 \<le> length s \<or> (\<exists>p \<in> set (protos [] s). 255 < length p) then Inl ()
           else Inr (wire (protos [] s)))"
  using next_protos_loop_eq [of s "[]" "[]" s 0 0 "replicate (length s + 1) 0xCC" "[]" "0xCC"
      "replicate (length s) 0xCC" "length s + 1"]
  by (auto simp: next_protos_parse_def)

end
