(* ===== verification/Http_Uri.thy ===== *)
theory Http_Uri
  imports Nbase_Num Nbase_Str
begin

text \<open>
  The URI parser of \<open>ncat/http.c\<close>: case-insensitive comparison, percent decoding, and the
  scheme, authority and path of a URI. \<open>NULL\<close> fields and results are \<open>None\<close>. A failed parse
  frees what it had stored, so only the result of a successful one is modelled.
\<close>

section \<open>Strings and characters\<close>

definition hex_digit_value :: "char \<Rightarrow> int" where
  "hex_digit_value digit =
     (if digit = NUL then -1
      else case strchr ''0123456789abcdef'' (tolower digit) of
        None \<Rightarrow> -1
      | Some p \<Rightarrow> int (16 - length p))"

fun str_cmp_i :: "string \<Rightarrow> string \<Rightarrow> int" where
  "str_cmp_i (a # as) (b # bs) =
     (let ca = int (code (tolower a)); cb = int (code (tolower b))
      in if ca \<noteq> cb then ca - cb else str_cmp_i as bs)"
| "str_cmp_i [] [] = 0"
| "str_cmp_i [] (b # bs) = -1"
| "str_cmp_i (a # as) [] = 1"

definition str_equal_i :: "string \<Rightarrow> string \<Rightarrow> bool" where
  "str_equal_i a b \<longleftrightarrow> str_cmp_i a b = 0"

definition lowercase :: "string \<Rightarrow> string" where
  "lowercase s = map tolower s"

text \<open>The second loop of \<open>percent_decode\<close>: the bytes stored from \<open>p\<close> on.\<close>

function percent_decode_loop :: "string \<Rightarrow> string option" where
  "percent_decode_loop q =
     (if deref q = NUL then Some []
      else if deref q = CHR ''%'' then
        let q = tl q; c = hex_digit_value (deref q)
        in if c = -1 then None
           else
             let q = tl q; d = hex_digit_value (deref q)
             in if d = -1 then None
                else map_option ((#) (char_of (nat (c * 16 + d)))) (percent_decode_loop (tl q))
      else map_option ((#) (deref q)) (percent_decode_loop (tl q)))"
  by pat_completeness auto

termination percent_decode_loop
  by (relation "measure length") (auto simp: deref_def split: list.splits)

definition percent_decode :: "string \<Rightarrow> string option" where
  "percent_decode s =
     (let q = dropWhile (\<lambda>c. c \<noteq> CHR ''%'') s
      in map_option ((@) (mkstr s q)) (percent_decode_loop q))"

definition is_alpha_char :: "char \<Rightarrow> bool" where
  "is_alpha_char c \<longleftrightarrow>
     c \<noteq> NUL \<and> strchr ''abcdefghijklmnopqrstuvwxyzABCDEFGHIJKLMNOPQRSTUVWXYZ'' c \<noteq> None"

definition is_digit_char :: "char \<Rightarrow> bool" where
  "is_digit_char c \<longleftrightarrow> c \<noteq> NUL \<and> strchr ''0123456789'' c \<noteq> None"

section \<open>URIs\<close>

record uri =
  scheme :: "string option"
  host :: "string option"
  port :: int
  path :: "string option"

definition uri_init :: uri where
  "uri_init = \<lparr>scheme = None, host = None, port = -1, path = None\<rparr>"

definition uri_free :: "uri \<Rightarrow> uri" where
  "uri_free u = u\<lparr>scheme := None, host := None, path := None\<rparr>"

definition scheme_default_port :: "string \<Rightarrow> int" where
  "scheme_default_port s = (if str_equal_i s ''http'' then 80 else -1)"

text \<open>The start and end of the host and the separator before the port.\<close>

definition split_authority :: "string \<Rightarrow> (string \<times> string \<times> string) option" where
  "split_authority authority =
     (if deref authority = CHR ''['' then
        (case strchr (tl authority) (CHR '']'') of
           None \<Rightarrow> None
         | Some host_end \<Rightarrow>
             let portsep = tl host_end
             in if \<not> (deref portsep = CHR '':'' \<or> deref portsep = NUL) then None
                else Some (tl authority, host_end, portsep))
      else
        let portsep = (case strrchr authority (CHR '':'') of None \<Rightarrow> [] | Some p \<Rightarrow> p)
        in Some (authority, portsep, portsep))"

text \<open>The port number; the inner \<open>None\<close> is the error return.\<close>

definition authority_port :: "string \<Rightarrow> int option" where
  "authority_port portsep =
     (if deref portsep = CHR '':'' \<and> deref (tl portsep) \<noteq> NUL then
        let (n, tail, err) = parse_long (tl portsep)
        in if err \<or> deref tail \<noteq> NUL \<or> length tail = length (tl portsep) \<or> n < 1 \<or> n > 65535
           then None else Some n
      else Some (-1))"

text \<open>The decoded host is used as a C string: a decoded NUL ends it.\<close>

definition uri_parse_authority :: "uri \<Rightarrow> string \<Rightarrow> uri option" where
  "uri_parse_authority u authority =
     (if strchr authority (CHR ''@'') \<noteq> None then None
      else case split_authority authority of
        None \<Rightarrow> None
      | Some (host_start, host_end, portsep) \<Rightarrow>
          (case authority_port portsep of
             None \<Rightarrow> None
           | Some n \<Rightarrow>
               (case percent_decode (mkstr host_start host_end) of
                  None \<Rightarrow> None
                | Some h \<Rightarrow> Some (u\<lparr>port := n, host := Some (cstr h)\<rparr>))))"

definition is_scheme_char :: "char \<Rightarrow> bool" where
  "is_scheme_char c \<longleftrightarrow>
     is_alpha_char c \<or> is_digit_char c \<or> c = CHR ''+'' \<or> c = CHR ''-'' \<or> c = CHR ''.''"

text \<open>The authority, when two slashes announce one: the URI and the rest of the input.\<close>

definition uri_parse_hier :: "uri \<Rightarrow> string \<Rightarrow> (uri \<times> string) option" where
  "uri_parse_hier u p =
     (if deref p = CHR ''/'' \<and> deref_at p 1 = CHR ''/'' then
        let p = drop 2 p;
            q = dropWhile (\<lambda>c. \<not> (c = CHR ''/'' \<or> c = CHR ''?'' \<or> c = CHR ''#'')) p
        in map_option (\<lambda>u. (u, q)) (uri_parse_authority u (mkstr p q))
      else Some (u, p))"

definition uri_parse :: "string \<Rightarrow> uri option" where
  "uri_parse uri_s =
     (if \<not> is_alpha_char (deref uri_s) then None
      else
        let q = dropWhile is_scheme_char uri_s
        in if deref q \<noteq> CHR '':'' then None
           else
             let s = lowercase (mkstr uri_s q);
                 u = uri_init\<lparr>scheme := Some s\<rparr>
             in case uri_parse_hier u (tl q) of
                  None \<Rightarrow> None
                | Some (u, p) \<Rightarrow>
                    Some (u\<lparr>port := (if port u = -1 then scheme_default_port s else port u),
                            path := Some p\<rparr>))"

section \<open>Lemmas\<close>

lemma str_equal_i_iff: "str_equal_i a b \<longleftrightarrow> map tolower a = map tolower b"
  unfolding str_equal_i_def
  by (induction a b rule: str_cmp_i.induct) (auto simp: Let_def)

lemma str_equal_i_refl [simp]: "str_equal_i a a"
  by (simp add: str_equal_i_iff)

lemma str_equal_i_sym: "str_equal_i a b = str_equal_i b a"
  by (auto simp: str_equal_i_iff)

lemma str_equal_i_trans: "str_equal_i a b \<Longrightarrow> str_equal_i b c \<Longrightarrow> str_equal_i a c"
  by (simp add: str_equal_i_iff)

lemma mkstr_dropWhile [simp]: "mkstr s (dropWhile P s) = takeWhile P s"
  unfolding mkstr_def by (metis append_eq_conv_conj length_append add_diff_cancel_right'
      takeWhile_dropWhile_id)

lemma mkstr_append [simp]: "mkstr (a @ b) b = a"
  by (simp add: mkstr_def)

declare percent_decode_loop.simps [simp del]

lemma percent_decode_plain: "CHR ''%'' \<notin> set s \<Longrightarrow> percent_decode s = Some s"
proof -
  assume "CHR ''%'' \<notin> set s"
  then have "takeWhile (\<lambda>c. c \<noteq> CHR ''%'') s = s" "dropWhile (\<lambda>c. c \<noteq> CHR ''%'') s = []"
    by (auto simp: takeWhile_eq_all_conv)
  then show ?thesis
    unfolding percent_decode_def Let_def mkstr_dropWhile
    by (simp only:) (simp add: percent_decode_loop.simps [of "[]"])
qed

text \<open>The encoding percent decoding undoes: every byte as a percent sign and two digits.\<close>

definition hex_digit :: "nat \<Rightarrow> char" where
  "hex_digit n = ''0123456789abcdef'' ! n"

definition percent_encode :: "string \<Rightarrow> string" where
  "percent_encode s =
     concat (map (\<lambda>c. [CHR ''%'', hex_digit (code c div 16), hex_digit (code c mod 16)]) s)"

lemma hex_digit_checked:
  "list_all (\<lambda>n. hex_digit_value (hex_digit n) = int n) [0..<16]"
  by code_simp

lemma hex_digit_value_digit: "n < 16 \<Longrightarrow> hex_digit_value (hex_digit n) = int n"
  using hex_digit_checked by (simp add: list_all_iff)

lemma percent_decode_loop_encode:
  "percent_decode_loop (percent_encode s @ t) = map_option ((@) s) (percent_decode_loop t)"
proof (induction s)
  case Nil
  show ?case by (simp add: percent_encode_def option.map_ident)
next
  case (Cons c s)
  have "code c div 16 < 16" using nat_of_char_less_256 [of c] by linarith
  then have h: "hex_digit_value (hex_digit (code c div 16)) = int (code c div 16)"
      "hex_digit_value (hex_digit (code c mod 16)) = int (code c mod 16)"
    by (simp_all only: hex_digit_value_digit mod_less_divisor zero_less_numeral)
  have v: "nat (int (code c div 16) * 16 + int (code c mod 16)) = code c"
    by (metis div_mult_mod_eq nat_int of_nat_add of_nat_mult of_nat_numeral)
  have e: "percent_encode (c # s) @ t = CHR ''%'' # hex_digit (code c div 16) #
      hex_digit (code c mod 16) # (percent_encode s @ t)"
    by (simp add: percent_encode_def)
  have "percent_decode_loop (percent_encode (c # s) @ t) =
      map_option ((#) (char_of (nat (int (code c div 16) * 16 + int (code c mod 16)))))
        (percent_decode_loop (percent_encode s @ t))"
    unfolding e by (subst percent_decode_loop.simps) (simp only: deref_simps list.sel h Let_def, simp)
  also have "\<dots> = map_option ((#) c) (percent_decode_loop (percent_encode s @ t))"
    by (simp only: v char_of_char)
  finally show ?case using Cons by (cases "percent_decode_loop t") simp_all
qed

lemma percent_decode_encode: "percent_decode (percent_encode s) = Some s"
proof -
  have "dropWhile (\<lambda>c. c \<noteq> CHR ''%'') (percent_encode s) = percent_encode s"
    by (cases s) (simp_all add: percent_encode_def)
  then show ?thesis
    using percent_decode_loop_encode [of s "[]"]
    by (simp add: percent_decode_def mkstr_def percent_decode_loop.simps [of "[]"])
qed

lemma authority_port_dec:
  assumes "1 \<le> n" and "n \<le> 65535"
  shows "authority_port (CHR '':'' # dec n) = Some (int n)"
proof -
  obtain c cs where d: "dec n = c # cs" by (meson dec_not_Nil list.exhaust)
  have "c \<noteq> NUL" using dec_digits [of n] d by auto
  moreover have "parse_long (dec n) = (int n, [], False)"
    using parse_long_dec [of "[]" n] assms(2) by (simp add: LONG_MAX_def)
  ultimately show ?thesis using d assms by (simp add: authority_port_def)
qed

lemma authority_port_range: "authority_port p = Some n \<Longrightarrow> n = -1 \<or> 1 \<le> n \<and> n \<le> 65535"
  by (auto simp: authority_port_def split: if_splits prod.splits)

lemma uri_parse_authority_range:
  "uri_parse_authority u a = Some u' \<Longrightarrow>
   (port u' = -1 \<or> 1 \<le> port u' \<and> port u' \<le> 65535) \<and>
   (\<exists>h. host u' = Some h \<and> NUL \<notin> set h) \<and> scheme u' = scheme u"
  using authority_port_range
  by (fastforce simp: uri_parse_authority_def split: if_splits option.splits)

text \<open>A host as it is written in a URI.\<close>

definition host_text :: "bool \<Rightarrow> string \<Rightarrow> string" where
  "host_text brackets h = (if brackets then CHR ''['' # h @ [CHR '']''] else h)"

definition plain_host :: "bool \<Rightarrow> string \<Rightarrow> bool" where
  "plain_host brackets h \<longleftrightarrow>
     NUL \<notin> set h \<and> CHR ''@'' \<notin> set h \<and> CHR ''%'' \<notin> set h \<and> CHR ''/'' \<notin> set h \<and>
     CHR ''?'' \<notin> set h \<and> CHR ''#'' \<notin> set h \<and>
     (if brackets then CHR '']'' \<notin> set h else deref h \<noteq> CHR ''['')"

lemma digits_exclude:
  "list_all isdigit ds \<Longrightarrow> \<not> isdigit c \<Longrightarrow> c \<notin> set ds"
  by (auto simp: list_all_iff)

lemma separators_not_digits:
  "\<not> isdigit (CHR '':'')" "\<not> isdigit (CHR ''@'')" "\<not> isdigit (CHR ''/'')" "\<not> isdigit (CHR ''?'')"
  "\<not> isdigit (CHR ''#'')"
  by (simp_all add: isdigit_def)

lemmas dec_excludes = separators_not_digits [THEN digits_exclude [OF dec_digits]]

lemma split_authority_text:
  assumes "plain_host br h"
  shows "\<exists>s e. split_authority (host_text br h @ CHR '':'' # dec n) = Some (s, e, CHR '':'' # dec n)
    \<and> mkstr s e = h"
proof (cases br)
  case True
  have "strchr (h @ CHR '']'' # CHR '':'' # dec n) (CHR '']'') = Some (CHR '']'' # CHR '':'' # dec n)"
    using assms True by (subst strchr_Some_iff) (auto simp: plain_host_def)
  then show ?thesis
    using True by (simp add: split_authority_def host_text_def Let_def)
next
  case False
  have "deref (h @ CHR '':'' # dec n) \<noteq> CHR ''[''"
    using assms False by (cases h) (auto simp: plain_host_def)
  then show ?thesis
    using False strrchr_last [OF _ dec_excludes(1), of h n]
    by (simp add: split_authority_def host_text_def Let_def)
qed

lemma uri_parse_authority_text:
  assumes "plain_host br h" and "1 \<le> n" and "n \<le> 65535"
  shows "uri_parse_authority u (host_text br h @ CHR '':'' # dec n) =
    Some (u\<lparr>port := int n, host := Some h\<rparr>)"
proof -
  obtain s e where se: "split_authority (host_text br h @ CHR '':'' # dec n) =
      Some (s, e, CHR '':'' # dec n)" "mkstr s e = h"
    using split_authority_text [OF assms(1)] by blast
  have "CHR ''@'' \<notin> set (host_text br h @ CHR '':'' # dec n)"
    using assms(1) dec_excludes(2) by (auto simp: host_text_def plain_host_def)
  then have "strchr (host_text br h @ CHR '':'' # dec n) (CHR ''@'') = None"
    by (simp add: strchr_None_iff)
  then show ?thesis
    using se authority_port_dec [OF assms(2,3)] assms(1)
    by (simp add: uri_parse_authority_def percent_decode_plain plain_host_def cstr_id)
qed

lemma takeWhile_until:
  assumes "\<forall>c\<in>set a. P c" and "\<not> P (deref b) \<or> b = []"
  shows "takeWhile P (a @ b) = a" "dropWhile P (a @ b) = b"
  using assms by (cases b; simp)+

lemma sep_not_scheme: "\<not> is_scheme_char (CHR '':'')"
  by (simp add: is_scheme_char_def is_alpha_char_def is_digit_char_def strchr_def)

lemma uri_parse_hier_wellformed:
  assumes "uri_parse_hier u p = Some (u', p')"
  shows "suffix p' p \<and> scheme u' = scheme u \<and>
    (u' = u \<or> (port u' = -1 \<or> 1 \<le> port u' \<and> port u' \<le> 65535) \<and> (\<exists>h. host u' = Some h \<and> NUL \<notin> set h))"
proof -
  have "suffix (dropWhile P (drop 2 p)) p" for P
    by (meson suffix_dropWhile suffix_drop suffix_order.trans)
  then show ?thesis
    using assms by (auto simp: uri_parse_hier_def Let_def split: if_splits dest: uri_parse_authority_range)
qed

section \<open>Properties\<close>

text \<open>C35: every URI the parser accepts has a non-empty lower-case scheme, a path that is a suffix
  of the input, a port that is absent or between 1 and 65535, and a host without a NUL byte.\<close>

theorem uri_parse_wellformed:
  assumes "uri_parse s = Some u"
  shows "(port u = -1 \<or> 1 \<le> port u \<and> port u \<le> 65535) \<and>
    (\<exists>sch. scheme u = Some sch \<and> sch \<noteq> [] \<and> lowercase sch = sch) \<and>
    (\<exists>p. path u = Some p \<and> suffix p s) \<and> (\<forall>h. host u = Some h \<longrightarrow> NUL \<notin> set h)"
proof -
  define q where "q = dropWhile is_scheme_char s"
  define sch where "sch = lowercase (mkstr s q)"
  have al: "is_alpha_char (deref s)" "deref q = CHR '':''"
    using assms by (auto simp: uri_parse_def q_def Let_def split: if_splits)
  obtain u1 p1 where u1: "uri_parse_hier (uri_init\<lparr>scheme := Some sch\<rparr>) (tl q) = Some (u1, p1)"
      "u = u1\<lparr>port := (if port u1 = -1 then scheme_default_port sch else port u1), path := Some p1\<rparr>"
    using assms al
    by (auto simp: uri_parse_def Let_def q_def [symmetric] sch_def [symmetric] split: option.splits)
  have "s \<noteq> []" "is_scheme_char (hd s)"
    using al(1) by (cases s; auto simp: is_alpha_char_def is_scheme_char_def)+
  then have "mkstr s q \<noteq> []" unfolding q_def mkstr_dropWhile by (cases s) auto
  then have sc: "sch \<noteq> []" "lowercase sch = sch" by (auto simp: sch_def lowercase_def)
  have "suffix (tl q) s" unfolding q_def by (meson suffix_dropWhile suffix_order.trans suffix_tl)
  then have "suffix p1 s"
    using uri_parse_hier_wellformed [OF u1(1)] suffix_order.trans by blast
  then show ?thesis
    using u1(2) sc uri_parse_hier_wellformed [OF u1(1)]
    by (auto simp: scheme_default_port_def uri_init_def)
qed

theorem uri_parse_wellformed_witness:
  "\<exists>u. uri_parse ''HTTP://h:81/x'' = Some u \<and> (port u = -1 \<or> 1 \<le> port u \<and> port u \<le> 65535) \<and>
    (\<exists>sch. scheme u = Some sch \<and> sch \<noteq> [] \<and> lowercase sch = sch) \<and>
    (\<exists>p. path u = Some p \<and> suffix p ''HTTP://h:81/x'') \<and> (\<forall>h. host u = Some h \<longrightarrow> NUL \<notin> set h)"
proof -
  have "uri_parse ''HTTP://h:81/x'' \<noteq> None" by code_simp
  then obtain u where "uri_parse ''HTTP://h:81/x'' = Some u" by blast
  then show ?thesis using uri_parse_wellformed by blast
qed

text \<open>C24: printing a URI and parsing it gives its parts back: for every scheme, every host (in
  brackets or not) of characters that need no escape, every port from 1 to 65535 and every path,
  query and fragment.\<close>

theorem uri_parse_print:
  assumes "is_alpha_char (deref sch)" and "\<forall>c\<in>set sch. is_scheme_char c"
    and "plain_host br h" and "1 \<le> n" and "n \<le> 65535"
    and "pth = [] \<or> deref pth \<in> {CHR ''/'', CHR ''?'', CHR ''#''}"
  shows "uri_parse (sch @ ''://'' @ host_text br h @ '':'' @ dec n @ pth) =
    Some \<lparr>scheme = Some (lowercase sch), host = Some h, port = int n, path = Some pth\<rparr>"
proof -
  let ?stop = "\<lambda>c. \<not> (c = CHR ''/'' \<or> c = CHR ''?'' \<or> c = CHR ''#'')"
  let ?auth = "host_text br h @ CHR '':'' # dec n"
  have ne: "sch \<noteq> []" using assms(1) by (auto simp: is_alpha_char_def)
  have q: "dropWhile is_scheme_char (sch @ ''://'' @ ?auth @ pth) = ''://'' @ ?auth @ pth"
    "takeWhile is_scheme_char (sch @ ''://'' @ ?auth @ pth) = sch"
    using assms(2) sep_not_scheme by (subst takeWhile_until; simp)+
  have "\<forall>c\<in>set ?auth. ?stop c"
    using assms(3) dec_excludes by (auto simp: host_text_def plain_host_def)
  then have a: "takeWhile ?stop (?auth @ pth) = ?auth" "dropWhile ?stop (?auth @ pth) = pth"
    using assms(6) by (intro takeWhile_until; auto)+
  have m: "mkstr (sch @ ''://'' @ ?auth @ pth) (''://'' @ ?auth @ pth) = sch"
    "mkstr (?auth @ pth) pth = ?auth" by (rule mkstr_append)+
  have d: "deref (sch @ ''://'' @ ?auth @ pth) = deref sch" using ne by (cases sch) auto
  have eq: "sch @ ''://'' @ host_text br h @ '':'' @ dec n @ pth = sch @ ''://'' @ ?auth @ pth" by simp
  have i: "drop 2 (tl (''://'' @ ?auth @ pth)) = ?auth @ pth" "deref (''://'' @ ?auth @ pth) = CHR '':''"
    "deref (tl (''://'' @ ?auth @ pth)) = CHR ''/''" "deref_at (tl (''://'' @ ?auth @ pth)) 1 = CHR ''/''"
    by (simp_all add: deref_at_def)
  show ?thesis
    unfolding eq uri_parse_def uri_parse_hier_def Let_def q i d a m
      uri_parse_authority_text [OF assms(3,4,5)]
    using assms(1,4) by (simp add: uri_init_def)
qed

theorem uri_parse_print_witness:
  "uri_parse (''http'' @ ''://'' @ host_text True ''::1'' @ '':'' @ dec 8080 @ ''/index'') =
    Some \<lparr>scheme = Some (lowercase ''http''), host = Some ''::1'', port = int 8080, path = Some ''/index''\<rparr>"
proof (rule uri_parse_print)
  show "is_alpha_char (deref ''http'')" "\<forall>c\<in>set ''http''. is_scheme_char c" "plain_host True ''::1''"
    by code_simp+
qed simp_all

text \<open>percent decoding undoes percent encoding of any bytes, and leaves a text without percent
  signs alone.\<close>

theorem percent_decode_roundtrip:
  "percent_decode (percent_encode s) = Some s \<and>
   percent_decode (filter (\<lambda>c. c \<noteq> CHR ''%'') s) = Some (filter (\<lambda>c. c \<noteq> CHR ''%'') s)"
  by (simp add: percent_decode_encode percent_decode_plain)

end
