(* ===== verification/Http_Header.thy ===== *)
theory Http_Header
  imports Http_Uri Ncat_Util
begin

text \<open>
  The header list of \<open>ncat/http.c\<close>: lookup, update and removal by case-insensitive name, the
  hop-by-hop headers a proxy drops, tokens and quoted strings, printing and parsing. The linked
  list is a list of nodes; a pointer to a node is the suffix that starts with it, \<open>NULL\<close> the empty
  one. The growing buffers are the texts they hold (\<open>None\<close> before the first append), which is
  what \<open>strbuf_append\<close> and \<open>strbuf_sprintf\<close> are shown to implement in \<open>Ncat_Util\<close>.
\<close>

section \<open>Characters\<close>

definition is_space_char :: "char \<Rightarrow> bool" where
  "is_space_char c \<longleftrightarrow> c = CHR '' '' \<or> c = CHR 0x09"

text \<open>The callers pass a plain \<open>char\<close>, whose value is negative for a byte above 127.\<close>

definition is_ctl_char :: "int \<Rightarrow> bool" where
  "is_ctl_char c \<longleftrightarrow> (0 \<le> c \<and> c \<le> 31) \<or> c = 127"

definition separators :: string where
  "separators = ''()<>@,;:'' @ [CHR 0x5C, CHR 0x22] @ ''/[]?={} '' @ [CHR 0x09]"

definition is_sep_char :: "char \<Rightarrow> bool" where
  "is_sep_char c \<longleftrightarrow> c \<noteq> NUL \<and> strchr separators c \<noteq> None"

definition is_token_char :: "char \<Rightarrow> bool" where
  "is_token_char c \<longleftrightarrow> \<not> iscntrl c \<and> \<not> is_sep_char c"

definition is_crlf :: "string \<Rightarrow> bool" where
  "is_crlf s \<longleftrightarrow> deref s = LF \<or> (deref s = CR \<and> deref_at s 1 = LF)"

definition skip_crlf :: "string \<Rightarrow> string" where
  "skip_crlf s =
     (if deref s = LF then drop 1 s
      else if deref s = CR \<and> deref_at s 1 = LF then drop 2 s
      else s)"

text \<open>Appending to a buffer variable.\<close>

definition sb_add :: "string option \<Rightarrow> string \<Rightarrow> string option" where
  "sb_add buf s = Some ((case buf of None \<Rightarrow> [] | Some t \<Rightarrow> t) @ s)"

section \<open>The list\<close>

record http_header =
  hname :: string
  hvalue :: string

definition field_name_equal :: "string \<Rightarrow> string \<Rightarrow> bool" where
  "field_name_equal a b \<longleftrightarrow> str_equal_i a b"

fun http_header_get_loop :: "http_header list \<Rightarrow> string \<Rightarrow> string option \<Rightarrow> nat \<Rightarrow> string option" where
  "http_header_get_loop [] name buf cnt = buf"
| "http_header_get_loop (p # ps) name buf cnt =
     (if field_name_equal (hname p) name then
        let buf = (if cnt > 0 then sb_add buf '', '' else buf);
            buf = sb_add buf (hvalue p)
        in http_header_get_loop ps name buf (cnt + 1)
      else http_header_get_loop ps name buf cnt)"

definition http_header_get :: "http_header list \<Rightarrow> string \<Rightarrow> string option" where
  "http_header_get header name = http_header_get_loop header name None 0"

fun find_field :: "http_header list \<Rightarrow> string \<Rightarrow> http_header list" where
  "find_field [] name = []"
| "find_field (p # ps) name =
     (if field_name_equal (hname p) name then p # ps else find_field ps name)"

definition http_header_next :: "http_header list \<Rightarrow> http_header list \<Rightarrow> string \<Rightarrow> http_header list" where
  "http_header_next header p name = find_field (if p = [] then header else tl p) name"

definition http_header_get_first :: "http_header list \<Rightarrow> string \<Rightarrow> string option" where
  "http_header_get_first header name =
     (case http_header_next header [] name of [] \<Rightarrow> None | p # _ \<Rightarrow> Some (hvalue p))"

fun http_header_remove :: "http_header list \<Rightarrow> string \<Rightarrow> http_header list" where
  "http_header_remove [] name = []"
| "http_header_remove (p # ps) name =
     (if field_name_equal (hname p) name then http_header_remove ps name
      else p # http_header_remove ps name)"

definition http_header_set :: "http_header list \<Rightarrow> string \<Rightarrow> string \<Rightarrow> http_header list" where
  "http_header_set header name v =
     http_header_remove header name @ [\<lparr>hname = name, hvalue = v\<rparr>]"

section \<open>Tokens and quoted strings\<close>

definition read_token :: "string \<Rightarrow> (string \<times> string) option" where
  "read_token s =
     (let s = dropWhile (\<lambda>c. c = CHR '' '') s;
          t = dropWhile is_token_char s
      in if length s = length t then None else Some (mkstr s t, t))"

text \<open>The scan over qdtext; \<open>None\<close> is the error return.\<close>

fun qdtext :: "string \<Rightarrow> string option" where
  "qdtext [] = None"
| "qdtext (c # t) =
     (if c = CHR 0x22 \<or> c = CHR 0x5C then Some (c # t)
      else if is_ctl_char (schar c) \<and> \<not> is_space_char c then None
      else qdtext t)"

lemma qdtext_Some:
  "qdtext s = Some t \<Longrightarrow> suffix t s \<and> t \<noteq> [] \<and> (deref t = CHR 0x22 \<or> deref t = CHR 0x5C)"
  by (induction s) (auto split: if_splits simp: suffix_Cons)

function quoted_loop :: "string \<Rightarrow> string option \<Rightarrow> (string option \<times> string) option" where
  "quoted_loop s buf =
     (if deref s = CHR 0x22 then Some (buf, s)
      else case qdtext s of
        None \<Rightarrow> None
      | Some t \<Rightarrow>
          let buf = sb_add buf (mkstr s t)
          in if deref t = CHR 0x5C then
               (if schar (deref_at t 1) \<le> 0 then None
                else quoted_loop (drop 2 t) (sb_add buf [deref_at t 1]))
             else quoted_loop t buf)"
  by pat_completeness auto

termination quoted_loop
proof (relation "measure (length \<circ> fst)", goal_cases)
  case (2 s buf t b)
  then show ?case using qdtext_Some [of s t] by (auto dest!: suffix_length_le) (cases t; simp)
next
  case (3 s buf t b)
  then have "suffix t s" "t \<noteq> s" using qdtext_Some [of s t] by auto
  then show ?case using suffix_shorter by simp
qed simp

definition read_quoted_string :: "string \<Rightarrow> (string \<times> string) option" where
  "read_quoted_string s =
     (let s = dropWhile is_space_char s
      in if deref s \<noteq> CHR 0x22 then None
         else case quoted_loop (tl s) None of
           None \<Rightarrow> None
         | Some (buf, s) \<Rightarrow> Some (case buf of None \<Rightarrow> [] | Some b \<Rightarrow> b, tl s))"

definition read_token_or_quoted_string :: "string \<Rightarrow> (string \<times> string) option" where
  "read_token_or_quoted_string s =
     (let s = dropWhile is_space_char s
      in if deref s = CHR 0x22 then read_quoted_string s else read_token s)"

lemma read_token_shorter: "read_token s = Some (tok, t) \<Longrightarrow> suffix t s \<and> length t < length s \<and> tok \<noteq> []"
proof -
  assume r: "read_token s = Some (tok, t)"
  define s' where "s' = dropWhile (\<lambda>c. c = CHR '' '') s"
  have t: "t = dropWhile is_token_char s'" "tok = mkstr s' t" "length s' \<noteq> length t"
    using r by (auto simp: read_token_def s'_def Let_def split: if_splits)
  have "suffix t s'" "suffix s' s" using t(1) s'_def by simp_all
  moreover have "length t < length s'" using t(3) \<open>suffix t s'\<close> suffix_length_le by fastforce
  moreover have "length s' \<le> length s" using \<open>suffix s' s\<close> by (rule suffix_length_le)
  ultimately show ?thesis using t(2) by (auto simp: mkstr_def)
qed

function read_token_list_loop :: "string \<Rightarrow> string list \<Rightarrow> (string list \<times> string) option" where
  "read_token_list_loop s tokens =
     (case read_token s of
        None \<Rightarrow> None
      | Some (token, s) \<Rightarrow>
          if deref s \<noteq> CHR '','' then Some (tokens @ [token], s)
          else read_token_list_loop (tl s) (tokens @ [token]))"
  by pat_completeness auto

termination read_token_list_loop
  by (relation "measure (length \<circ> fst)") (auto dest!: read_token_shorter)

definition read_token_list :: "string \<Rightarrow> (string list \<times> string) option" where
  "read_token_list s = read_token_list_loop s []"

section \<open>Hop-by-hop headers\<close>

definition HOP_BY_HOP_HEADERS :: "string list" where
  "HOP_BY_HOP_HEADERS =
     [''Connection'', ''Keep-Alive'', ''Proxy-Authenticate'', ''Proxy-Authorization'', ''TE'',
      ''Trailers'', ''Transfer-Encoding'', ''Upgrade'']"

definition http_header_remove_hop_by_hop :: "http_header list \<Rightarrow> http_header list \<times> int" where
  "http_header_remove_hop_by_hop header =
     (case (case http_header_get header ''Connection'' of
              None \<Rightarrow> Some []
            | Some connection \<Rightarrow>
                (case read_token_list connection of
                   None \<Rightarrow> None
                 | Some (tokens, p) \<Rightarrow> if deref p \<noteq> NUL then None else Some tokens)) of
        None \<Rightarrow> (header, 400)
      | Some connection_tokens \<Rightarrow>
          let header = fold (\<lambda>n h. http_header_remove h n) HOP_BY_HOP_HEADERS header;
              header = fold (\<lambda>n h. http_header_remove h n) connection_tokens header
          in (header, 0))"

section \<open>Printing and parsing\<close>

definition http_header_to_string :: "http_header list \<Rightarrow> string" where
  "http_header_to_string header =
     concat (map (\<lambda>p. hname p @ '': '' @ hvalue p @ [CR, LF]) header)"

function skip_lws :: "string \<Rightarrow> string" where
  "skip_lws s =
     (let s = dropWhile is_space_char s
      in if deref s = LF \<and> is_space_char (deref_at s 1) then skip_lws (drop 1 s)
         else if deref s = CR \<and> deref_at s 1 = LF \<and> is_space_char (deref_at s 2)
         then skip_lws (drop 2 s)
         else s)"
  by pat_completeness auto

termination skip_lws
proof (relation "measure length", goal_cases)
  case (2 s s')
  have "deref s' \<noteq> NUL" using 2(2) by auto
  then have "s' \<noteq> []" by (metis deref_simps(1))
  moreover have "length s' \<le> length s" unfolding 2(1) by (rule length_dropWhile_le)
  ultimately show ?case by (cases s') auto
next
  case (3 s s')
  have "deref s' \<noteq> NUL" using 3(3) by auto
  then have "s' \<noteq> []" by (metis deref_simps(1))
  moreover have "length s' \<le> length s" unfolding 3(1) by (rule length_dropWhile_le)
  ultimately show ?case by (cases s') auto
qed simp

text \<open>The scan over one run of characters of a field value; \<open>None\<close> is the error 400.\<close>

fun value_word :: "string \<Rightarrow> string option" where
  "value_word [] = Some []"
| "value_word (c # q) =
     (if is_space_char c \<or> is_crlf (c # q) then Some (c # q)
      else if is_ctl_char (schar c) then None
      else value_word q)"

declare quoted_loop.simps [simp del] skip_lws.simps [simp del] read_token_list_loop.simps [simp del]

lemma suffix_skip_lws: "suffix (skip_lws s) s"
proof (induction s rule: skip_lws.induct)
  case (1 s)
  let ?t = "dropWhile is_space_char s"
  have t: "suffix ?t s" "suffix (drop n ?t) s" for n
    by (simp, meson suffix_dropWhile suffix_drop suffix_order.trans)
  show ?case
    using 1(1) [OF refl] 1(2) [OF refl] t suffix_order.trans
    by (subst skip_lws.simps) (auto simp: Let_def intro: suffix_order.trans)
qed

lemma value_word_Some:
  "value_word p = Some q \<Longrightarrow> suffix q p \<and> (q = [] \<or> is_space_char (hd q) \<or> is_crlf q)"
  by (induction p) (auto split: if_splits simp: suffix_Cons)

lemma skip_lws_space: "p \<noteq> [] \<Longrightarrow> is_space_char (hd p) \<Longrightarrow> length (skip_lws p) < length p"
proof -
  assume "p \<noteq> []" "is_space_char (hd p)"
  then obtain c p' where p: "p = c # p'" "is_space_char c" by (cases p) auto
  then have "skip_lws p = skip_lws p'" by (subst (1 2) skip_lws.simps) simp
  then show ?thesis using p suffix_length_le [OF suffix_skip_lws [of p']] by simp
qed

text \<open>The loop over the runs of one field value: the value and the rest, at its CRLF or the end.\<close>

function field_value :: "string \<Rightarrow> string option \<Rightarrow> (string \<times> string) option" where
  "field_value p v =
     (let v = (if v \<noteq> None then sb_add v '' '' else v)
      in case value_word p of
           None \<Rightarrow> None
         | Some q \<Rightarrow>
             let v = sb_add v (mkstr p q);
                 p = skip_lws q
             in if deref p \<noteq> NUL \<and> \<not> is_crlf p then field_value p v
                else Some (case v of None \<Rightarrow> [] | Some v \<Rightarrow> v, p))"
  by pat_completeness auto

termination field_value
proof (relation "measure (length \<circ> fst)", goal_cases)
  case (2 p v v' q v'' p')
  have q: "suffix q p" "q = [] \<or> is_space_char (hd q) \<or> is_crlf q"
    using value_word_Some 2(2) by auto
  have p': "suffix p' q" using 2(4) suffix_skip_lws by auto
  have "p' \<noteq> q"
  proof
    assume "p' = q"
    moreover have "q \<noteq> []" using 2(5) \<open>p' = q\<close> by auto
    ultimately have "is_space_char (hd q)" using q(2) 2(5) by auto
    then show False using skip_lws_space [OF \<open>q \<noteq> []\<close>] 2(4) \<open>p' = q\<close> by simp
  qed
  then have "length p' < length q" using p' by (rule suffix_shorter [rotated])
  then show ?case using suffix_length_le [OF q(1)] by simp
qed simp

declare field_value.simps [simp del]

lemma field_value_suffix: "field_value p v = Some (w, r) \<Longrightarrow> suffix r p"
proof (induction p v arbitrary: w r rule: field_value.induct)
  case (1 p v)
  obtain q where q: "value_word p = Some q"
    using 1(2) by (subst (asm) field_value.simps) (auto split: option.splits simp: Let_def)
  have qp: "suffix (skip_lws q) p"
    using value_word_Some [OF q] suffix_skip_lws suffix_order.trans by blast
  show ?case
  proof (cases "deref (skip_lws q) \<noteq> NUL \<and> \<not> is_crlf (skip_lws q)")
    case True
    then show ?thesis
      using 1(1) [OF refl q refl refl True] 1(2) q qp suffix_order.trans
      by (subst (asm) (2) field_value.simps) (auto simp: Let_def)
  next
    case False
    then show ?thesis using 1(2) q qp by (subst (asm) field_value.simps) (auto simp: Let_def)
  qed
qed

text \<open>\<open>Inl\<close> is the error code, \<open>Inr\<close> the list.\<close>

function http_parse_header_loop :: "string \<Rightarrow> http_header list \<Rightarrow> int + http_header list" where
  "http_parse_header_loop p result =
     (if deref p \<noteq> NUL \<and> \<not> is_crlf p then
        let q = dropWhile is_token_char p
        in if deref q \<noteq> CHR '':'' then Inl 400
           else case field_value (skip_lws (tl q)) None of
                  None \<Rightarrow> Inl 400
                | Some (v, r) \<Rightarrow>
                    http_parse_header_loop (skip_crlf r) (result @ [\<lparr>hname = mkstr p q, hvalue = v\<rparr>])
      else Inr result)"
  by pat_completeness auto

termination http_parse_header_loop
proof (relation "measure (length \<circ> fst)", goal_cases)
  case (2 p result q x v r)
  have "length (skip_crlf r) \<le> length r" by (simp add: skip_crlf_def)
  also have "\<dots> \<le> length (skip_lws (tl q))" using field_value_suffix 2(4,5) suffix_length_le by blast
  also have "\<dots> \<le> length (tl q)" using suffix_skip_lws suffix_length_le by blast
  also have "\<dots> < length q" using 2(3) by (cases q) auto
  also have "\<dots> \<le> length p" using 2(2) by (simp add: length_dropWhile_le)
  finally show ?case by simp
qed simp

declare http_parse_header_loop.simps [simp del]

definition http_parse_header :: "string \<Rightarrow> int + http_header list" where
  "http_parse_header header = http_parse_header_loop header []"

text \<open>The error code, and the values of \<open>content_length_set\<close> and \<open>content_length\<close>.\<close>

definition http_header_get_content_length :: "http_header list \<Rightarrow> int \<times> bool \<times> int" where
  "http_header_get_content_length header =
     (case http_header_get_first header ''Content-Length'' of
        None \<Rightarrow> (0, False, 0)
      | Some s \<Rightarrow>
          let (n, tail, err) = parse_long s
          in (if err \<or> deref tail \<noteq> NUL \<or> length tail = length s then 400 else 0, True, n))"

section \<open>Lookup, update and removal\<close>

lemma field_name_equal_iff: "field_name_equal a b \<longleftrightarrow> map tolower a = map tolower b"
  by (simp add: field_name_equal_def str_equal_i_iff)

lemma http_header_remove_filter:
  "http_header_remove h n = filter (\<lambda>p. \<not> field_name_equal (hname p) n) h"
  by (induction h) auto

lemma get_first_simps:
  "http_header_get_first [] n = None"
  "http_header_get_first (p # h) n =
     (if field_name_equal (hname p) n then Some (hvalue p) else http_header_get_first h n)"
  by (simp_all add: http_header_get_first_def http_header_next_def)

lemma get_first_append:
  "http_header_get_first (a @ b) n =
     (case http_header_get_first a n of None \<Rightarrow> http_header_get_first b n | Some v \<Rightarrow> Some v)"
  by (induction a) (simp_all add: get_first_simps)

lemma get_first_remove:
  "http_header_get_first (http_header_remove h n) m =
     (if field_name_equal n m then None else http_header_get_first h m)"
  by (induction h) (auto simp: get_first_simps field_name_equal_iff)

text \<open>What a client of a table of named fields relies on.\<close>

locale field_table =
  fixes same :: "string \<Rightarrow> string \<Rightarrow> bool"
    and lookup :: "'h \<Rightarrow> string \<Rightarrow> string option"
    and update :: "'h \<Rightarrow> string \<Rightarrow> string \<Rightarrow> 'h" and remove :: "'h \<Rightarrow> string \<Rightarrow> 'h"
  assumes lookup_update: "lookup (update h n v) m = (if same n m then Some v else lookup h m)"
    and lookup_remove: "lookup (remove h n) m = (if same n m then None else lookup h m)"
begin

lemma lookup_removes:
  "lookup (fold (\<lambda>n h. remove h n) ns h) m =
     (if \<exists>n\<in>set ns. same n m then None else lookup h m)"
  by (induction ns arbitrary: h) (auto simp: lookup_remove)

lemma lookup_updates:
  "lookup (fold (\<lambda>(n, v) h. update h n v) kvs h) m =
     (case find (\<lambda>(n, v). same n m) (rev kvs) of Some (n, v) \<Rightarrow> Some v | None \<Rightarrow> lookup h m)"
proof (induction kvs arbitrary: h rule: rev_induct)
  case (snoc kv kvs)
  then show ?case by (cases kv) (auto simp: lookup_update)
qed simp

end

interpretation header: field_table field_name_equal http_header_get_first http_header_set http_header_remove
  by unfold_locales
    (auto simp: http_header_set_def get_first_append get_first_remove get_first_simps
      split: option.splits)

fun join :: "string \<Rightarrow> string list \<Rightarrow> string" where
  "join sep [] = []"
| "join sep [x] = x"
| "join sep (x # y # xs) = x @ sep @ join sep (y # xs)"

lemma join_Cons: "xs \<noteq> [] \<Longrightarrow> join sep (x # xs) = x @ sep @ join sep xs"
  by (cases xs) auto

definition values_of :: "http_header list \<Rightarrow> string \<Rightarrow> string list" where
  "values_of h n = map hvalue (filter (\<lambda>p. field_name_equal (hname p) n) h)"

lemma get_loop_started:
  "cnt > 0 \<Longrightarrow> http_header_get_loop h n (Some t) cnt =
     Some (t @ concat (map (\<lambda>v. '', '' @ v) (values_of h n)))"
  by (induction h arbitrary: t cnt) (auto simp: values_of_def sb_add_def Let_def)

lemma join_concat: "join sep (x # xs) = x @ concat (map (\<lambda>v. sep @ v) xs)"
  by (induction xs arbitrary: x) auto

lemma http_header_get_eq:
  "http_header_get h n = (case values_of h n of [] \<Rightarrow> None | vs \<Rightarrow> Some (join '', '' vs))"
  unfolding http_header_get_def
proof (induction h)
  case (Cons p h)
  then show ?case
    by (cases "field_name_equal (hname p) n")
      (simp_all add: values_of_def sb_add_def get_loop_started [unfolded values_of_def] join_concat Let_def)
qed (simp add: values_of_def)

lemma removes_filter:
  "fold (\<lambda>n h. http_header_remove h n) ns h =
     filter (\<lambda>p. \<forall>n\<in>set ns. \<not> field_name_equal (hname p) n) h"
  by (induction ns arbitrary: h) (auto simp: http_header_remove_filter intro!: filter_cong)

section \<open>Parsing undoes printing\<close>

text \<open>Normalised field values: words without spaces or control characters, one space apart.\<close>

definition word_ok :: "string \<Rightarrow> bool" where
  "word_ok w \<longleftrightarrow> w \<noteq> [] \<and> (\<forall>c\<in>set w. \<not> is_space_char c \<and> \<not> is_ctl_char (schar c))"

definition header_ok :: "http_header \<Rightarrow> bool" where
  "header_ok p \<longleftrightarrow> hname p \<noteq> [] \<and> (\<forall>c\<in>set (hname p). is_token_char c) \<and>
     (\<exists>ws. hvalue p = join '' '' ws \<and> (\<forall>w\<in>set ws. word_ok w))"

lemma ctl_facts:
  "is_ctl_char (schar NUL)" "is_ctl_char (schar CR)" "is_ctl_char (schar LF)"
  "is_space_char (CHR '' '')" "\<not> is_space_char CR" "\<not> is_space_char LF" "\<not> is_space_char NUL"
  by (simp_all add: is_ctl_char_def schar_def is_space_char_def)

lemma token_facts:
  "\<not> is_token_char NUL" "\<not> is_token_char CR" "\<not> is_token_char LF" "\<not> is_token_char (CHR '' '')"
  "\<not> is_token_char (CHR 0x09)" "\<not> is_token_char (CHR '':'')" "\<not> is_token_char (CHR '','')"
  "\<not> is_token_char (CHR ''='')" "\<not> is_token_char (CHR 0x22)"
  by (simp_all add: is_token_char_def iscntrl_def is_sep_char_def strchr_def separators_def)

lemma skip_lws_Space [simp]: "skip_lws (CHR '' '' # s) = skip_lws s"
  by (subst (1 2) skip_lws.simps) (simp add: ctl_facts)

lemma skip_lws_char:
  assumes "\<not> is_space_char c" and "c \<noteq> CR" and "c \<noteq> LF"
  shows "skip_lws (c # s) = c # s"
  using assms by (subst skip_lws.simps) simp

lemma skip_lws_crlf:
  assumes "\<not> is_space_char (deref r)"
  shows "skip_lws (CR # LF # r) = CR # LF # r"
  using assms by (subst skip_lws.simps) (simp add: ctl_facts deref_at_def numeral_2_eq_2)

lemma value_word_ok:
  assumes "\<forall>c\<in>set w. \<not> is_space_char c \<and> \<not> is_ctl_char (schar c)"
    and "t = [] \<or> is_space_char (deref t) \<or> is_crlf t"
  shows "value_word (w @ t) = Some t"
  using assms
proof (induction w)
  case Nil
  then show ?case by (cases t) auto
next
  case (Cons c w)
  then have "c \<noteq> CR" "c \<noteq> LF" using ctl_facts by auto
  then show ?case using Cons by (simp add: is_crlf_def)
qed

lemma word_ok_head: "word_ok w \<Longrightarrow> skip_lws (w @ t) = w @ t \<and> deref (w @ t) \<noteq> NUL \<and> \<not> is_crlf (w @ t)"
proof -
  assume "word_ok w"
  then obtain c w' where w: "w = c # w'" "\<not> is_space_char c" "\<not> is_ctl_char (schar c)"
    by (cases w) (auto simp: word_ok_def)
  then have "c \<noteq> CR" "c \<noteq> LF" "c \<noteq> NUL" using ctl_facts by auto
  then show ?thesis using w by (simp add: skip_lws_char is_crlf_def)
qed

lemma join_head:
  assumes "ws \<noteq> []" and "\<forall>w\<in>set ws. word_ok w"
  shows "skip_lws (join '' '' ws @ t) = join '' '' ws @ t \<and> deref (join '' '' ws @ t) \<noteq> NUL
    \<and> \<not> is_crlf (join '' '' ws @ t)"
proof -
  obtain w vs where ws: "ws = w # vs" using assms(1) by (cases ws) auto
  then show ?thesis
    using word_ok_head [of w] assms(2) by (simp add: join_concat)
qed

lemma field_value_join:
  assumes "ws \<noteq> []" and "\<forall>w\<in>set ws. word_ok w" and "\<not> is_space_char (deref r)"
  shows "field_value (join '' '' ws @ CR # LF # r) v =
    Some ((case v of None \<Rightarrow> [] | Some t \<Rightarrow> t @ '' '') @ join '' '' ws, CR # LF # r)"
  using assms
proof (induction ws arbitrary: v)
  case (Cons w ws)
  have crlf: "is_crlf (CR # LF # r)" by (simp add: is_crlf_def deref_at_def)
  let ?v = "if v \<noteq> None then sb_add v '' '' else v"
  have v: "sb_add ?v w = Some ((case v of None \<Rightarrow> [] | Some t \<Rightarrow> t @ '' '') @ w)"
    by (cases v) (simp_all add: sb_add_def)
  show ?case
  proof (cases "ws = []")
    case True
    have "value_word (w @ CR # LF # r) = Some (CR # LF # r)"
      using Cons.prems(2) crlf by (intro value_word_ok) (auto simp: word_ok_def)
    then show ?thesis
      using True v crlf skip_lws_crlf [OF Cons.prems(3)]
      by (subst field_value.simps) (simp only: join.simps Let_def option.simps mkstr_append, simp)
  next
    case False
    let ?t = "CHR '' '' # join '' '' ws @ CR # LF # r"
    have "value_word (w @ ?t) = Some ?t"
      using Cons.prems(2) ctl_facts by (intro value_word_ok) (auto simp: word_ok_def)
    moreover have "skip_lws ?t = join '' '' ws @ CR # LF # r"
      "deref (join '' '' ws @ CR # LF # r) \<noteq> NUL" "\<not> is_crlf (join '' '' ws @ CR # LF # r)"
      using join_head [OF False, of "CR # LF # r"] Cons.prems(2) by simp_all
    ultimately have "field_value (w @ ?t) v =
        field_value (join '' '' ws @ CR # LF # r) (Some ((case v of None \<Rightarrow> [] | Some t \<Rightarrow> t @ '' '') @ w))"
      using v by (subst field_value.simps) (simp only: Let_def option.simps mkstr_append, simp)
    then show ?thesis using Cons False by (simp add: join_Cons)
  qed
qed simp

lemma http_parse_header_loop_one:
  assumes "header_ok h" and "\<not> is_space_char (deref r)"
  shows "http_parse_header_loop (hname h @ '': '' @ hvalue h @ [CR, LF] @ r) acc =
    http_parse_header_loop r (acc @ [h])"
proof -
  obtain ws where ws: "hvalue h = join '' '' ws" "\<forall>w\<in>set ws. word_ok w"
    and n: "hname h \<noteq> []" "\<forall>c\<in>set (hname h). is_token_char c"
    using assms(1) by (auto simp: header_ok_def)
  let ?v = "CHR '' '' # hvalue h @ CR # LF # r"
  have q: "dropWhile is_token_char (hname h @ CHR '':'' # ?v) = CHR '':'' # ?v"
    using n(2) token_facts(6) by (intro takeWhile_until(2)) auto
  have head: "deref (hname h @ CHR '':'' # ?v) \<noteq> NUL" "\<not> is_crlf (hname h @ CHR '':'' # ?v)"
    using n token_facts by (cases "hname h"; auto simp: is_crlf_def)+
  have fv: "field_value (skip_lws ?v) None = Some (hvalue h, CR # LF # r)"
  proof (cases "ws = []")
    case True
    have "field_value (CR # LF # r) None = Some ([], CR # LF # r)"
      using skip_lws_crlf [OF assms(2)]
      by (subst field_value.simps) (simp add: is_crlf_def deref_at_def sb_add_def mkstr_def)
    then show ?thesis using True ws(1) skip_lws_crlf [OF assms(2)] by simp
  next
    case False
    then show ?thesis
      using join_head [OF False ws(2)] field_value_join [OF False ws(2) assms(2), of None] ws(1) by simp
  qed
  have "skip_crlf (CR # LF # r) = r" by (simp add: skip_crlf_def deref_at_def)
  moreover have "mkstr (hname h @ CHR '':'' # ?v) (CHR '':'' # ?v) = hname h" by (rule mkstr_append)
  ultimately have "http_parse_header_loop (hname h @ CHR '':'' # ?v) acc =
      http_parse_header_loop r (acc @ [\<lparr>hname = hname h, hvalue = hvalue h\<rparr>])"
    using q head fv by (subst http_parse_header_loop.simps) simp
  moreover have "\<lparr>hname = hname h, hvalue = hvalue h\<rparr> = h" by (cases h) simp
  ultimately show ?thesis by simp
qed

lemma header_text_start:
  "\<forall>h\<in>set hs. header_ok h \<Longrightarrow> \<not> is_space_char (deref (http_header_to_string hs @ [CR, LF]))"
proof (cases hs)
  case (Cons h hs')
  assume "\<forall>h\<in>set hs. header_ok h"
  then have "hname h \<noteq> []" "is_token_char (hd (hname h))" using Cons by (auto simp: header_ok_def)
  then show ?thesis
    using Cons token_facts by (cases "hname h") (auto simp: http_header_to_string_def is_space_char_def)
qed (simp add: http_header_to_string_def ctl_facts)

lemma http_parse_header_loop_text:
  "\<forall>h\<in>set hs. header_ok h \<Longrightarrow>
   http_parse_header_loop (http_header_to_string hs @ [CR, LF]) acc = Inr (acc @ hs)"
proof (induction hs arbitrary: acc)
  case Nil
  show ?case
    by (subst http_parse_header_loop.simps) (simp add: http_header_to_string_def is_crlf_def deref_at_def)
next
  case (Cons h hs)
  have "http_header_to_string (h # hs) @ [CR, LF] =
      hname h @ '': '' @ hvalue h @ [CR, LF] @ (http_header_to_string hs @ [CR, LF])"
    by (simp add: http_header_to_string_def)
  then show ?case
    using http_parse_header_loop_one [of h "http_header_to_string hs @ [CR, LF]" acc]
      header_text_start [of hs] Cons by simp
qed

section \<open>Quoted strings\<close>

definition quote_char :: "char \<Rightarrow> string" where
  "quote_char c = (if c = CHR 0x22 \<or> c = CHR 0x5C then [CHR 0x5C, c] else [c])"

definition quote :: "string \<Rightarrow> string" where
  "quote s = CHR 0x22 # concat (map quote_char s) @ [CHR 0x22]"

definition quotable :: "string \<Rightarrow> bool" where
  "quotable s \<longleftrightarrow> (\<forall>c\<in>set s. \<not> is_ctl_char (schar c) \<or> is_space_char c)"

text \<open>Quoting with a set \<open>E\<close> of characters to escape, and the strings it is right for.\<close>

definition escape :: "(char \<Rightarrow> bool) \<Rightarrow> string \<Rightarrow> string" where
  "escape E s = concat (map (\<lambda>c. if E c then [CHR 0x5C, c] else [c]) s)"

definition escapes :: "(char \<Rightarrow> bool) \<Rightarrow> string \<Rightarrow> bool" where
  "escapes E s \<longleftrightarrow> (\<forall>c\<in>set s. if E c then 0 < schar c
     else c \<noteq> CHR 0x22 \<and> c \<noteq> CHR 0x5C \<and> (\<not> is_ctl_char (schar c) \<or> is_space_char c))"

lemma escapes_append: "escapes E (a @ b) \<longleftrightarrow> escapes E a \<and> escapes E b"
  by (simp only: escapes_def set_append ball_Un)

lemma escape_append: "escape E (a @ b) = escape E a @ escape E b" "escape E (c # s) = (if E c then [CHR 0x5C, c] else [c]) @ escape E s"
  by (simp_all add: escape_def)

lemma escape_plain: "\<forall>c\<in>set w. \<not> E c \<Longrightarrow> escape E w = w"
  by (induction w) (auto simp: escape_def)

lemma qdtext_plain:
  "escapes E w \<Longrightarrow> \<forall>c\<in>set w. \<not> E c \<Longrightarrow> hd t = CHR 0x22 \<or> hd t = CHR 0x5C \<Longrightarrow> t \<noteq> [] \<Longrightarrow> qdtext (w @ t) = Some t"
proof (induction w)
  case Nil
  then show ?case by (cases t) auto
qed (auto simp: escapes_def)

lemma quoted_loop_escape:
  assumes "escapes E s"
  shows "\<exists>b. quoted_loop (escape E s @ CHR 0x22 # rest) buf = Some (b, CHR 0x22 # rest) \<and>
    (case b of None \<Rightarrow> [] | Some t \<Rightarrow> t) = (case buf of None \<Rightarrow> [] | Some t \<Rightarrow> t) @ s"
  using assms
proof (induction "length s" arbitrary: s buf rule: less_induct)
  case less
  define w where "w = takeWhile (\<lambda>c. \<not> E c) s"
  define u where "u = dropWhile (\<lambda>c. \<not> E c) s"
  have s: "s = w @ u" by (simp add: w_def u_def)
  have w: "\<forall>c\<in>set w. \<not> E c" unfolding w_def by (auto dest: set_takeWhileD)
  have qw: "escapes E w" "escapes E u" using less.prems by (simp_all add: s escapes_append)
  have nq: "\<forall>c\<in>set w. c \<noteq> CHR 0x22" using w qw(1) by (auto simp: escapes_def)
  show ?case
  proof (cases u)
    case Nil
    show ?thesis
    proof (cases "w = []")
      case True
      then show ?thesis using s Nil by (subst quoted_loop.simps) (simp add: escape_def)
    next
      case False
      then have "deref (w @ CHR 0x22 # rest) \<noteq> CHR 0x22" using nq by (cases w) auto
      moreover have "quoted_loop (CHR 0x22 # rest) b = Some (b, CHR 0x22 # rest)" for b
        by (subst quoted_loop.simps) simp
      ultimately show ?thesis
        using s Nil qdtext_plain [OF qw(1) w, of "CHR 0x22 # rest"] escape_plain [OF w]
        by (subst quoted_loop.simps) (simp add: Let_def sb_add_def)
    qed
  next
    case (Cons c u')
    have c: "E c" using hd_dropWhile [of "\<lambda>c. \<not> E c" s, folded u_def] Cons by simp
    let ?r = "escape E u' @ CHR 0x22 # rest"
    have e: "escape E s @ CHR 0x22 # rest = w @ CHR 0x5C # c # ?r"
      using s Cons c escape_plain [OF w] by (simp add: escape_append)
    have d: "deref (w @ CHR 0x5C # c # ?r) \<noteq> CHR 0x22" using nq by (cases w) auto
    have pos: "\<not> schar c \<le> 0" using qw(2) c Cons by (auto simp: escapes_def)
    have lt: "length u' < length s" "escapes E u'" using qw(2) escapes_append [of E "[c]" u'] by (simp_all add: s Cons)
    have "quoted_loop (w @ CHR 0x5C # c # ?r) buf =
        quoted_loop ?r (sb_add (sb_add buf w) [c])"
      using d pos qdtext_plain [OF qw(1) w, of "CHR 0x5C # c # ?r"]
      by (subst quoted_loop.simps) (simp add: Let_def deref_at_def numeral_2_eq_2)
    then show ?thesis
      using less.hyps [OF lt(1) lt(2), of "sb_add (sb_add buf w) [c]"] s Cons
      unfolding e by (auto simp: sb_add_def)
  qed
qed

lemma quoted_loop_quote:
  assumes "quotable s"
  shows "\<exists>b. quoted_loop (concat (map quote_char s) @ CHR 0x22 # rest) buf = Some (b, CHR 0x22 # rest) \<and>
    (case b of None \<Rightarrow> [] | Some t \<Rightarrow> t) = (case buf of None \<Rightarrow> [] | Some t \<Rightarrow> t) @ s"
proof -
  define E where "E = (\<lambda>c. c = CHR 0x22 \<or> c = CHR 0x5C)"
  have "concat (map quote_char s) = escape E s" by (simp add: escape_def E_def quote_char_def [abs_def])
  moreover have "escapes E s" using assms by (auto simp: escapes_def E_def quotable_def schar_def)
  ultimately show ?thesis using quoted_loop_escape [of E s rest buf] by simp
qed

section \<open>Comma-separated lists\<close>

text \<open>What \<open>read_token_list\<close> reads, said without scanning: the pieces between the commas, without the spaces in front
  of them; each must be a token.\<close>

fun split_commas :: "string \<Rightarrow> string list" where
  "split_commas [] = [[]]"
| "split_commas (c # s) =
     (if c = CHR '','' then [] # split_commas s
      else case split_commas s of [] \<Rightarrow> [[c]] | w # ws \<Rightarrow> (c # w) # ws)"

definition list_items :: "string \<Rightarrow> string list" where
  "list_items s = map (dropWhile (\<lambda>c. c = CHR '' '')) (split_commas s)"

definition token_ok :: "string \<Rightarrow> bool" where
  "token_ok t \<longleftrightarrow> t \<noteq> [] \<and> (\<forall>c\<in>set t. is_token_char c)"

lemma split_commas_ne [simp]: "split_commas s \<noteq> []"
  by (cases s) (auto split: list.splits)

lemma split_commas_unfold:
  "split_commas s = takeWhile (\<lambda>c. c \<noteq> CHR '','') s #
     (case dropWhile (\<lambda>c. c \<noteq> CHR '','') s of [] \<Rightarrow> [] | _ # r \<Rightarrow> split_commas r)"
  by (induction s) auto

lemma split_commas_append: "split_commas (a @ CHR '','' # b) = split_commas a @ split_commas b"
  by (induction a) (auto split: list.splits)

lemma list_items_append: "list_items (a @ CHR '','' # CHR '' '' # b) = list_items a @ list_items b"
proof -
  have "map (dropWhile (\<lambda>c. c = CHR '' '')) (split_commas (CHR '' '' # b)) = map (dropWhile (\<lambda>c. c = CHR '' '')) (split_commas b)"
    by (cases "split_commas b") simp_all
  then show ?thesis by (simp add: list_items_def split_commas_append)
qed

lemma list_items_join: "vs \<noteq> [] \<Longrightarrow> list_items (join '', '' vs) = concat (map list_items vs)"
  by (induction vs rule: list_nonempty_induct) (simp_all add: join_Cons list_items_append)

lemma read_token_item:
  fixes s
  defines "i \<equiv> dropWhile (\<lambda>c. c = CHR '' '') (takeWhile (\<lambda>c. c \<noteq> CHR '','') s)"
  defines "b \<equiv> dropWhile (\<lambda>c. c \<noteq> CHR '','') s"
  shows "token_ok i \<Longrightarrow> read_token s = Some (i, b)"
    "\<not> token_ok i \<Longrightarrow> read_token s = None \<or> (\<exists>tok c t. read_token s = Some (tok, c # t) \<and> c \<noteq> CHR '','' \<and> c \<in> set s)"
proof -
  have b: "b = [] \<or> (\<exists>r. b = CHR '','' # r)" by (cases b) (auto simp: b_def dropWhile_eq_Cons_conv)
  have db: "dropWhile (\<lambda>c. c = CHR '' '') b = b" using b by auto
  have "dropWhile (\<lambda>c. c = CHR '' '') (takeWhile (\<lambda>c. c \<noteq> CHR '','') s @ b) = i @ b"
    unfolding dropWhile_append using db by (auto simp: i_def)
  then have sp: "dropWhile (\<lambda>c. c = CHR '' '') s = i @ b" by (simp add: b_def)
  show "read_token s = Some (i, b)" if t: "token_ok i"
  proof -
    have "dropWhile is_token_char (i @ b) = b" using t b token_facts(7) by (auto simp: token_ok_def dropWhile_append)
    then show ?thesis using t sp by (simp add: read_token_def Let_def token_ok_def mkstr_def)
  qed
  show "read_token s = None \<or> (\<exists>tok c t. read_token s = Some (tok, c # t) \<and> c \<noteq> CHR '','' \<and> c \<in> set s)" if t: "\<not> token_ok i"
  proof (cases "i = []")
    case True
    then show ?thesis using b sp token_facts(7) by (auto simp: read_token_def Let_def)
  next
    case False
    then have ne: "dropWhile is_token_char i \<noteq> []" using t by (auto simp: token_ok_def)
    then obtain c t' where d: "dropWhile is_token_char i = c # t'" by (cases "dropWhile is_token_char i") auto
    then have "c \<in> set i" by (metis list.set_intros(1) set_dropWhileD)
    then have c: "c \<noteq> CHR '',''" "c \<in> set s" unfolding i_def by (auto dest!: set_dropWhileD set_takeWhileD)
    have "dropWhile is_token_char (i @ b) = c # t' @ b" using d t False by (auto simp: dropWhile_append token_ok_def)
    then show ?thesis using c sp by (auto simp: read_token_def Let_def)
  qed
qed

lemma read_token_list_loop_items:
  assumes "NUL \<notin> set s"
  shows "if \<forall>t\<in>set (list_items s). token_ok t then read_token_list_loop s acc = Some (acc @ list_items s, [])
    else read_token_list_loop s acc = None \<or> (\<exists>ts c t. read_token_list_loop s acc = Some (ts, c # t) \<and> c \<noteq> NUL)"
  using assms
proof (induction "length s" arbitrary: s acc rule: less_induct)
  case less
  define i where "i = dropWhile (\<lambda>c. c = CHR '' '') (takeWhile (\<lambda>c. c \<noteq> CHR '','') s)"
  define b where "b = dropWhile (\<lambda>c. c \<noteq> CHR '','') s"
  have items: "list_items s = i # (case b of [] \<Rightarrow> [] | _ # r \<Rightarrow> list_items r)"
    unfolding i_def b_def
    by (subst list_items_def, subst split_commas_unfold) (simp add: list_items_def split: list.split del: dropWhile_eq_Nil_conv)
  note tok = read_token_item [of s, folded i_def b_def]
  show ?case
  proof (cases "token_ok i")
    case False
    then show ?thesis using tok(2) [OF False] less.prems items by (subst (1 2 3) read_token_list_loop.simps) auto
  next
    case True
    show ?thesis
    proof (cases b)
      case Nil
      then show ?thesis using tok(1) [OF True] True items by (subst (1 2 3) read_token_list_loop.simps) simp
    next
      case (Cons c r)
      then have c: "c = CHR '',''" by (simp add: b_def dropWhile_eq_Cons_conv)
      have "suffix (c # r) s" using Cons by (metis b_def suffix_dropWhile)
      then have r: "length r < length s" "NUL \<notin> set r" using less.prems by (auto simp: suffix_def)
      have "read_token_list_loop s acc = read_token_list_loop r (acc @ [i])"
        using tok(1) [OF True] Cons c by (subst read_token_list_loop.simps) simp
      then show ?thesis using less.hyps [OF r, of "acc @ [i]"] True items Cons
        by (cases "\<forall>x\<in>set (list_items r). token_ok x") auto
    qed
  qed
qed

lemma get_no_nul:
  assumes "\<forall>p\<in>set h. NUL \<notin> set (hvalue p)" and "http_header_get h n = Some v"
  shows "NUL \<notin> set v"
proof -
  have "\<forall>w\<in>set vs. NUL \<notin> set w \<Longrightarrow> NUL \<notin> set (join '', '' vs)" for vs
    by (induction "'', ''" vs rule: join.induct) auto
  from this [of "values_of h n"] show ?thesis
    using assms by (auto simp: http_header_get_eq values_of_def split: list.splits)
qed

definition connection_items :: "http_header list \<Rightarrow> string list" where
  "connection_items h = concat (map (\<lambda>p. if lowercase (hname p) = ''connection'' then list_items (hvalue p) else []) h)"

lemma connection_items_get:
  "case http_header_get h ''Connection'' of None \<Rightarrow> connection_items h = [] | Some c \<Rightarrow> connection_items h = list_items c"
proof -
  have eq: "lowercase n = ''connection'' \<longleftrightarrow> field_name_equal n ''Connection''" for n
  proof -
    have "map tolower ''Connection'' = ''connection''" by code_simp
    then show ?thesis by (simp add: field_name_equal_iff lowercase_def)
  qed
  have "connection_items h = concat (map list_items (values_of h ''Connection''))"
    unfolding connection_items_def eq by (induction h) (simp_all add: values_of_def)
  then show ?thesis
    by (simp add: http_header_get_eq list_items_join split: list.split del: join.simps)
qed

section \<open>Properties\<close>

text \<open>C18: printing headers and parsing the text gives the same list: for every list of headers
  whose names are tokens and whose values are words one space apart.\<close>

theorem http_parse_header_print:
  assumes "\<forall>h\<in>set hs. header_ok h"
  shows "http_parse_header (http_header_to_string hs @ [CR, LF]) = Inr hs"
  using http_parse_header_loop_text [OF assms, of "[]"] by (simp add: http_parse_header_def)

theorem http_parse_header_print_witness:
  "http_parse_header (http_header_to_string
      [\<lparr>hname = ''Host'', hvalue = ''a''\<rparr>, \<lparr>hname = ''Accept'', hvalue = ''x y''\<rparr>] @ [CR, LF]) =
    Inr [\<lparr>hname = ''Host'', hvalue = ''a''\<rparr>, \<lparr>hname = ''Accept'', hvalue = ''x y''\<rparr>]"
proof (rule http_parse_header_print)
  have "header_ok \<lparr>hname = ''Host'', hvalue = ''a''\<rparr>"
    unfolding header_ok_def by (intro conjI exI [of _ "[''a'']"]) code_simp+
  moreover have "header_ok \<lparr>hname = ''Accept'', hvalue = ''x y''\<rparr>"
    unfolding header_ok_def by (intro conjI exI [of _ "[''x'', ''y'']"]) code_simp+
  ultimately show "\<forall>h\<in>set [\<lparr>hname = ''Host'', hvalue = ''a''\<rparr>, \<lparr>hname = ''Accept'', hvalue = ''x y''\<rparr>].
      header_ok h" by simp
qed

text \<open>C23: a proxy that drops the hop-by-hop headers keeps exactly the others, in their order: those whose name, without
  regard to case, is neither one of the eight of section 13.5.1 of RFC 2616 nor among the names between the commas
  of the Connection headers. If one of these is not a token, nothing is removed and the answer is 400.\<close>

theorem http_header_remove_hop_by_hop_exact:
  assumes "\<forall>p\<in>set h. NUL \<notin> set (hvalue p)"
  shows "http_header_remove_hop_by_hop h =
     (if \<forall>t\<in>set (connection_items h). t \<noteq> [] \<and> (\<forall>c\<in>set t. is_token_char c)
      then (filter (\<lambda>p. lowercase (hname p) \<notin>
              {''connection'', ''keep-alive'', ''proxy-authenticate'', ''proxy-authorization'', ''te'', ''trailers'',
               ''transfer-encoding'', ''upgrade''} \<union> lowercase ` set (connection_items h)) h, 0)
      else (h, 400))"
proof -
  have l: "lowercase ` set HOP_BY_HOP_HEADERS = {''connection'', ''keep-alive'', ''proxy-authenticate'', ''proxy-authorization'',
      ''te'', ''trailers'', ''transfer-encoding'', ''upgrade''}"
    unfolding HOP_BY_HOP_HEADERS_def by code_simp
  have f: "fold (\<lambda>n h. http_header_remove h n) ts (fold (\<lambda>n h. http_header_remove h n) HOP_BY_HOP_HEADERS h)
      = filter (\<lambda>p. lowercase (hname p) \<notin> lowercase ` set HOP_BY_HOP_HEADERS \<union> lowercase ` set ts) h" for ts
    unfolding removes_filter filter_filter by (auto simp: field_name_equal_iff lowercase_def intro!: filter_cong)
  show ?thesis
  proof (cases "http_header_get h ''Connection''")
    case None
    then show ?thesis
      using connection_items_get [of h] f [of "[]"] by (simp add: http_header_remove_hop_by_hop_def Let_def l)
  next
    case (Some c)
    then have c: "connection_items h = list_items c" using connection_items_get [of h] by simp
    have "NUL \<notin> set c" using Some get_no_nul [OF assms] by simp
    then show ?thesis
      using read_token_list_loop_items [of c "[]"] Some c f [of "list_items c"]
      by (auto simp: http_header_remove_hop_by_hop_def read_token_list_def Let_def l token_ok_def split: if_splits)
  qed
qed

theorem http_header_remove_hop_by_hop_exact_witness:
  "http_header_remove_hop_by_hop [\<lparr>hname = ''CONNECTION'', hvalue = ''close,  X-Trace''\<rparr>, \<lparr>hname = ''Host'', hvalue = ''a''\<rparr>,
      \<lparr>hname = ''Te'', hvalue = ''x''\<rparr>, \<lparr>hname = ''x-trace'', hvalue = ''1''\<rparr>] = ([\<lparr>hname = ''Host'', hvalue = ''a''\<rparr>], 0)"
  (is "http_header_remove_hop_by_hop ?h = _")
proof -
  have "connection_items ?h = [''close'', ''X-Trace'']" by code_simp
  moreover have "\<forall>p\<in>set ?h. NUL \<notin> set (hvalue p)" by code_simp
  moreover have "\<forall>t\<in>set [''close'', ''X-Trace'']. t \<noteq> [] \<and> (\<forall>c\<in>set t. is_token_char c)" by code_simp
  moreover have "lowercase ''CONNECTION'' = ''connection''" "lowercase ''Host'' = ''host''" "lowercase ''Te'' = ''te''"
    "lowercase ''x-trace'' = ''x-trace''" "lowercase ''X-Trace'' = ''x-trace''" "lowercase ''close'' = ''close''" by code_simp+
  ultimately show ?thesis using http_header_remove_hop_by_hop_exact [of ?h] by simp
qed

text \<open>The header list is a table keyed by case-insensitive names: after any sequence of
  \<open>http_header_set\<close>, a lookup finds the value last set under its name, or else what it found
  before; \<open>http_header_get\<close> joins all the values of a name with commas.\<close>

theorem http_header_table:
  "http_header_get_first (fold (\<lambda>(n, v) h. http_header_set h n v) kvs h) m =
     (case find (\<lambda>(n, v). field_name_equal n m) (rev kvs) of
        Some (n, v) \<Rightarrow> Some v | None \<Rightarrow> http_header_get_first h m) \<and>
   http_header_get h m = (case values_of h m of [] \<Rightarrow> None | vs \<Rightarrow> Some (join '', '' vs))"
  by (simp add: header.lookup_updates http_header_get_eq)

text \<open>Reading a quoted string undoes quoting, for every string without control characters
  other than tabs, and returns the input after the closing quote.\<close>

theorem read_quoted_string_quote:
  assumes "quotable s"
  shows "read_quoted_string (quote s @ rest) = Some (s, rest)"
proof -
  obtain b where "quoted_loop (concat (map quote_char s) @ CHR 0x22 # rest) None = Some (b, CHR 0x22 # rest)"
      "(case b of None \<Rightarrow> [] | Some t \<Rightarrow> t) = s"
    using quoted_loop_quote [OF assms, of rest None] by auto
  then show ?thesis
    by (simp add: read_quoted_string_def quote_def is_space_char_def)
qed

theorem read_quoted_string_quote_witness:
  "read_quoted_string (quote ''a realm'' @ '', x'') = Some (''a realm'', '', x'')"
proof (rule read_quoted_string_quote)
  show "quotable ''a realm''" by code_simp
qed

end
