(* ===== verification/Http_Buffer.thy ===== *)
theory Http_Buffer
  imports Http_Header
begin

text \<open>
  The buffered socket of \<open>ncat/http.c\<close> and the readers of lines and header blocks on top of it.
  The results of the future \<open>fdinfo_recv\<close> calls are an input list; an exhausted list is a closed
  connection. The buffer keeps its contents when a refill fails, as the code does.
\<close>

datatype recv_result =
    Data string
  | Interrupted
  | Closed
  | Failed

record socket_buffer =
  sbuf :: string
  spos :: nat
  sinput :: "recv_result list"

definition socket_buffer_init :: "recv_result list \<Rightarrow> socket_buffer" where
  "socket_buffer_init inp = \<lparr>sbuf = [], spos = 0, sinput = inp\<rparr>"

text \<open>The \<open>do ... while\<close> around \<open>fdinfo_recv\<close>: retries interrupted calls.\<close>

fun recv_retry :: "recv_result list \<Rightarrow> (int + string) \<times> recv_result list" where
  "recv_retry [] = (Inl 0, [])"
| "recv_retry (Data d # inp) = (if d = [] then Inl 0 else Inr d, inp)"
| "recv_retry (Interrupted # inp) = recv_retry inp"
| "recv_retry (Closed # inp) = (Inl 0, inp)"
| "recv_retry (Failed # inp) = (Inl (-1), inp)"

text \<open>Refill the buffer if necessary; \<open>Inl\<close> is the result of a \<open>recv\<close> that brought nothing.\<close>

definition sb_refill :: "socket_buffer \<Rightarrow> int option \<times> socket_buffer" where
  "sb_refill sb =
     (if spos sb \<ge> length (sbuf sb) then
        (case recv_retry (sinput sb) of
           (Inl i, inp) \<Rightarrow> (Some i, sb\<lparr>spos := 0, sinput := inp\<rparr>)
         | (Inr d, inp) \<Rightarrow> (None, sb\<lparr>sbuf := d, spos := 0, sinput := inp\<rparr>))
      else (None, sb))"

definition socket_buffer_read :: "socket_buffer \<Rightarrow> nat \<Rightarrow> socket_buffer \<times> int \<times> string" where
  "socket_buffer_read sb sz =
     (case sb_refill sb of
        (Some i, sb) \<Rightarrow> (sb, i, [])
      | (None, sb) \<Rightarrow>
          let i = min (length (sbuf sb) - spos sb) sz
          in (sb\<lparr>spos := spos sb + i\<rparr>, int i, take i (drop (spos sb) (sbuf sb))))"

definition socket_buffer_remainder :: "socket_buffer \<Rightarrow> string" where
  "socket_buffer_remainder sb = drop (spos sb) (sbuf sb)"

text \<open>
  What a client may still read: the unread bytes and those of the input up to the next result
  that brings none.
\<close>

fun stream :: "recv_result list \<Rightarrow> string" where
  "stream [] = []"
| "stream (Data d # inp) = (if d = [] then [] else d @ stream inp)"
| "stream (Interrupted # inp) = stream inp"
| "stream (Closed # inp) = []"
| "stream (Failed # inp) = []"

definition unread :: "socket_buffer \<Rightarrow> string" where
  "unread sb = drop (spos sb) (sbuf sb) @ stream (sinput sb)"

lemma recv_retry_stream:
  "recv_retry inp = (Inr d, inp') \<Longrightarrow> stream inp = d @ stream inp' \<and> d \<noteq> [] \<and> length inp' < length inp"
  "recv_retry inp = (Inl i, inp') \<Longrightarrow> stream inp = []"
  by (induction inp rule: recv_retry.induct) (auto split: if_splits)

lemma sb_refill_None:
  assumes "sb_refill sb = (None, sb')"
  shows "unread sb' = unread sb \<and> spos sb' < length (sbuf sb') \<and> length (sinput sb') \<le> length (sinput sb)
    \<and> (sb' = sb \<or> length (sinput sb') < length (sinput sb))"
  using assms recv_retry_stream(1)
  by (fastforce simp: sb_refill_def unread_def split: if_splits prod.splits sum.splits)

lemma sb_refill_Some: "sb_refill sb = (Some i, sb') \<Longrightarrow> unread sb = []"
  using recv_retry_stream(2)
  by (fastforce simp: sb_refill_def unread_def split: if_splits prod.splits sum.splits)

text \<open>
  The loop of \<open>socket_buffer_readline\<close>: \<open>line\<close> holds the \<open>n\<close> bytes read so far. The result is the
  line (\<open>None\<close> is \<open>NULL\<close>) and the final \<open>*n\<close>.
\<close>

function readline_loop :: "socket_buffer \<Rightarrow> nat \<Rightarrow> string \<Rightarrow> socket_buffer \<times> string option \<times> nat" where
  "readline_loop sb maxlen line =
     (case sb_refill sb of
        (Some i, sb) \<Rightarrow> (sb, None, length line)
      | (None, sb) \<Rightarrow>
          let rest = drop (spos sb) (sbuf sb);
              newline = (LF \<in> set rest);
              cnt = (if newline then length (takeWhile (\<lambda>c. c \<noteq> LF) rest) + 1 else length rest)
          in if length line + cnt \<ge> maxlen then (sb, None, length line + cnt)
             else
               let sb = sb\<lparr>spos := spos sb + cnt\<rparr>;
                   line = line @ take cnt rest
               in if newline then (sb, Some line, length line)
                  else readline_loop sb maxlen line)"
  by pat_completeness auto

termination readline_loop
proof (relation "measure (\<lambda>(sb, maxlen, line). maxlen - length line)", goal_cases)
  case (2 sb maxlen line o1 sb1 rest newline cnt sb2 line2)
  then have r: "sb_refill sb = (None, sb1)" by simp
  have "spos sb1 < length (sbuf sb1)" using sb_refill_None [OF r] by simp
  then show ?case using 2 by auto
qed simp

declare readline_loop.simps [simp del]

definition socket_buffer_readline :: "socket_buffer \<Rightarrow> nat \<Rightarrow> socket_buffer \<times> string option \<times> nat" where
  "socket_buffer_readline sb maxlen = readline_loop sb maxlen []"

text \<open>The loop of \<open>socket_buffer_readcount\<close>: the bytes stored and the result.\<close>

function readcount_loop :: "socket_buffer \<Rightarrow> nat \<Rightarrow> string \<Rightarrow> socket_buffer \<times> string \<times> int" where
  "readcount_loop sb sz out =
     (if length out < sz then
        (case sb_refill sb of
           (Some i, sb) \<Rightarrow> (sb, out, -1)
         | (None, sb) \<Rightarrow>
             let i = length (sbuf sb) - spos sb
             in if i < sz - length out
                then readcount_loop (sb\<lparr>spos := spos sb + i\<rparr>) sz
                       (out @ take i (drop (spos sb) (sbuf sb)))
                else readcount_loop (sb\<lparr>spos := spos sb + (sz - length out)\<rparr>) sz
                       (out @ take (sz - length out) (drop (spos sb) (sbuf sb))))
      else (sb, out, int (length out)))"
  by pat_completeness auto

termination readcount_loop
proof (relation "measure (\<lambda>(sb, sz, out). sz - length out)", goal_cases)
  case (2 sb sz out o1 sb1 i)
  then have "sb_refill sb = (None, sb1)" by simp
  then have "spos sb1 < length (sbuf sb1)" using sb_refill_None by blast
  then show ?case using 2 by auto
next
  case (3 sb sz out o1 sb1 i)
  then show ?case by auto
qed simp

declare readcount_loop.simps [simp del]

definition socket_buffer_readcount :: "socket_buffer \<Rightarrow> nat \<Rightarrow> socket_buffer \<times> string \<times> int" where
  "socket_buffer_readcount sb sz = readcount_loop sb sz []"

section \<open>Reading does not depend on how the network cuts the stream\<close>

lemma refill_advance:
  assumes "sb_refill sb = (None, sb1)" and "pend = drop (spos sb1) (sbuf sb1)" and "k \<le> length pend"
  shows "unread sb = take k pend @ unread (sb1\<lparr>spos := spos sb1 + k\<rparr>)"
    and "unread (sb1\<lparr>spos := spos sb1 + k\<rparr>) = drop k (unread sb)"
proof -
  have "unread (sb1\<lparr>spos := spos sb1 + k\<rparr>) = drop k pend @ stream (sinput sb1)"
    using assms(2) by (simp add: unread_def add.commute)
  moreover have "unread sb = pend @ stream (sinput sb1)"
    using sb_refill_None [OF assms(1)] assms(2) by (simp add: unread_def)
  then have "unread sb = (take k pend @ drop k pend) @ stream (sinput sb1)" by simp
  ultimately show "unread sb = take k pend @ unread (sb1\<lparr>spos := spos sb1 + k\<rparr>)"
    and "unread (sb1\<lparr>spos := spos sb1 + k\<rparr>) = drop k (unread sb)"
    using assms(3) by simp_all
qed

lemma readline_loop_step:
  assumes "sb_refill sb = (None, sb1)" and "pend = drop (spos sb1) (sbuf sb1)"
  shows "readline_loop sb maxlen line =
    (let cnt = (if LF \<in> set pend then length (takeWhile (\<lambda>c. c \<noteq> LF) pend) + 1 else length pend)
     in if length line + cnt \<ge> maxlen then (sb1, None, length line + cnt)
        else if LF \<in> set pend
        then (sb1\<lparr>spos := spos sb1 + cnt\<rparr>, Some (line @ take cnt pend), length (line @ take cnt pend))
        else readline_loop (sb1\<lparr>spos := spos sb1 + cnt\<rparr>) maxlen (line @ take cnt pend))"
  by (subst readline_loop.simps) (simp add: assms Let_def)

lemma refill_or_empty:
  assumes "unread sb \<noteq> []"
  obtains sb1 where "sb_refill sb = (None, sb1)"
  using sb_refill_Some [of sb] assms by (cases "sb_refill sb"; cases "fst (sb_refill sb)") auto

lemma readline_loop_spec:
  assumes "unread sb = l @ LF # rest" and "LF \<notin> set l" and "length line + length l + 1 < maxlen"
  shows "\<exists>sb'. readline_loop sb maxlen line = (sb', Some (line @ l @ [LF]), length line + length l + 1)
    \<and> unread sb' = rest"
  using assms
proof (induction "maxlen - length line" arbitrary: sb line l rule: less_induct)
  case less
  obtain sb1 where r: "sb_refill sb = (None, sb1)"
    using refill_or_empty [of sb] less.prems(1) by auto
  note u = sb_refill_None [OF r]
  define pend where "pend = drop (spos sb1) (sbuf sb1)"
  have ur: "pend @ stream (sinput sb1) = l @ LF # rest"
    using u less.prems(1) by (simp add: unread_def pend_def)
  have pne: "pend \<noteq> []" using u by (simp add: pend_def)
  have adv: "unread (sb1\<lparr>spos := spos sb1 + k\<rparr>) = drop k (l @ LF # rest)" if "k \<le> length pend" for k
    using refill_advance(2) [OF r pend_def that] less.prems(1) by simp
  note step = readline_loop_step [OF r pend_def, of maxlen line]
  show ?case
  proof (cases "LF \<in> set pend")
    case True
    then obtain w v where "pend = w @ LF # v" "LF \<notin> set w" by (metis split_list_first)
    with ur less.prems(2) have p: "pend = l @ LF # v"
      by (auto simp: append_eq_append_conv2 append_eq_Cons_conv Cons_eq_append_conv)
    then have "takeWhile (\<lambda>c. c \<noteq> LF) pend = l" using less.prems(2)
      by (subst p, subst takeWhile_append2) auto
    then show ?thesis
      using step True less.prems(3) adv [of "length l + 1"] p by simp
  next
    case False
    obtain us where "pend = l @ us \<and> us @ stream (sinput sb1) = LF # rest \<or> pend @ us = l"
      using ur by (auto simp: append_eq_append_conv2)
    then obtain l' where l: "l = pend @ l'" using False by (cases us) auto
    let ?sb = "sb1\<lparr>spos := spos sb1 + length pend\<rparr>"
    have "unread ?sb = l' @ LF # rest" using adv [of "length pend"] l by simp
    moreover have "maxlen - length (line @ pend) < maxlen - length line"
      using less.prems(3) l pne [folded length_greater_0_conv] by (simp, linarith)
    ultimately have "\<exists>sb'. readline_loop ?sb maxlen (line @ pend) =
        (sb', Some ((line @ pend) @ l' @ [LF]), length (line @ pend) + length l' + 1) \<and> unread sb' = rest"
      using less.hyps [of "line @ pend" ?sb l'] less.prems(2,3) l by simp
    then show ?thesis using step False less.prems(3) l by auto
  qed
qed

text \<open>A line that is returned takes at least one byte off the stream.\<close>

lemma readline_loop_returns:
  assumes "readline_loop sb maxlen line = (sb', Some line', n)"
  shows "\<exists>l. l \<noteq> [] \<and> line' = line @ l \<and> unread sb = l @ unread sb' \<and> n = length line' \<and> n < maxlen"
  using assms
proof (induction "maxlen - length line" arbitrary: sb line rule: less_induct)
  case less
  obtain sb1 where r: "sb_refill sb = (None, sb1)"
    using less.prems by (subst (asm) readline_loop.simps) (auto split: prod.splits option.splits)
  note u = sb_refill_None [OF r]
  define pend where "pend = drop (spos sb1) (sbuf sb1)"
  define cnt where "cnt = (if LF \<in> set pend then length (takeWhile (\<lambda>c. c \<noteq> LF) pend) + 1 else length pend)"
  have pne: "pend \<noteq> []" using u by (simp add: pend_def)
  have "length (takeWhile (\<lambda>c. c \<noteq> LF) pend) < length pend" if "LF \<in> set pend"
    using that by (induction pend) auto
  then have cnt: "0 < cnt" "cnt \<le> length pend" using pne by (auto simp: cnt_def)
  let ?sb = "sb1\<lparr>spos := spos sb1 + cnt\<rparr>"
  have un: "unread sb = take cnt pend @ unread ?sb"
    by (rule refill_advance(1) [OF r pend_def cnt(2)])
  note step = readline_loop_step [OF r pend_def, of maxlen line, folded cnt_def, unfolded Let_def]
  have lt: "length line + cnt < maxlen" using less.prems step by (auto split: if_splits)
  show ?case
  proof (cases "LF \<in> set pend")
    case True
    then show ?thesis
      using step lt less.prems un cnt by (intro exI [of _ "take cnt pend"]) auto
  next
    case False
    have shorter: "maxlen - length (line @ take cnt pend) < maxlen - length line"
      using lt cnt by (simp add: min_def)
    have "readline_loop ?sb maxlen (line @ take cnt pend) = (sb', Some line', n)"
      using False step lt less.prems by simp
    then obtain l where "line' = (line @ take cnt pend) @ l" "unread ?sb = l @ unread sb'"
        "n = length line'" "n < maxlen"
      using less.hyps [OF shorter, of ?sb] by auto
    then show ?thesis using un cnt by (intro exI [of _ "take cnt pend @ l"]) auto
  qed
qed

lemma readcount_loop_spec:
  assumes "length out \<le> sz" and "sz - length out \<le> length (unread sb)"
  shows "\<exists>sb'. readcount_loop sb sz out = (sb', out @ take (sz - length out) (unread sb), int sz)
    \<and> unread sb' = drop (sz - length out) (unread sb)"
  using assms
proof (induction "sz - length out" arbitrary: sb out rule: less_induct)
  case less
  show ?case
  proof (cases "length out < sz")
    case False
    then show ?thesis using less.prems by (subst readcount_loop.simps) auto
  next
    case True
    then obtain sb1 where r: "sb_refill sb = (None, sb1)"
      using refill_or_empty [of sb] less.prems(2) by fastforce
    note u = sb_refill_None [OF r]
    define pend where "pend = drop (spos sb1) (sbuf sb1)"
    define k where "k = min (length pend) (sz - length out)"
    let ?sb = "sb1\<lparr>spos := spos sb1 + k\<rparr>"
    have k: "0 < k" "k \<le> length pend" "k \<le> sz - length out"
      using u True by (auto simp: k_def pend_def)
    have un: "unread sb = take k pend @ unread ?sb"
      by (rule refill_advance(1) [OF r pend_def k(2)])
    have "readcount_loop sb sz out = readcount_loop ?sb sz (out @ take k pend)"
      using True r by (subst readcount_loop.simps) (auto simp: k_def pend_def min_def Let_def)
    moreover have "\<exists>sb'. readcount_loop ?sb sz (out @ take k pend) =
        (sb', (out @ take k pend) @ take (sz - length (out @ take k pend)) (unread ?sb), int sz)
        \<and> unread sb' = drop (sz - length (out @ take k pend)) (unread ?sb)"
    proof (rule less.hyps)
      have len: "length (take k pend) = k" using k(2) by simp
      show "sz - length (out @ take k pend) < sz - length out" "length (out @ take k pend) \<le> sz"
        using k True len by auto
      have "length (unread sb) = k + length (unread ?sb)" using un len by (metis length_append)
      then show "sz - length (out @ take k pend) \<le> length (unread ?sb)"
        using less.prems(2) len by simp
    qed
    ultimately show ?thesis using un k by auto
  qed
qed

section \<open>Lines and header blocks\<close>

abbreviation MAX_REQUEST_LINE_LENGTH :: nat where "MAX_REQUEST_LINE_LENGTH \<equiv> 1024"
abbreviation MAX_STATUS_LINE_LENGTH :: nat where "MAX_STATUS_LINE_LENGTH \<equiv> 1024"
abbreviation MAX_HEADER_LENGTH :: nat where "MAX_HEADER_LENGTH \<equiv> 1024 * 10"

lemma readline_nonempty:
  "socket_buffer_readline sb m = (sb', Some line, n) \<Longrightarrow> line \<noteq> [] \<and> n = length line \<and> n < m \<and>
   unread sb = line @ unread sb'"
  using readline_loop_returns [of sb m "[]" sb' line n] by (auto simp: socket_buffer_readline_def)

text \<open>\<open>Inl\<close> is the status code of an error.\<close>

function read_header_loop :: "socket_buffer \<Rightarrow> string \<Rightarrow> socket_buffer \<times> (int + string)" where
  "read_header_loop sb header =
     (case socket_buffer_readline sb MAX_HEADER_LENGTH of
        (sb, None, cnt) \<Rightarrow> (sb, Inl (if cnt \<ge> MAX_HEADER_LENGTH then 413 else 400))
      | (sb, Some line, cnt) \<Rightarrow>
          let blank = is_crlf line
          in if length header + cnt \<ge> MAX_HEADER_LENGTH then (sb, Inl 413)
             else
               let header = header @ line
               in if blank then (sb, Inr header) else read_header_loop sb header)"
  by pat_completeness auto

termination read_header_loop
  by (relation "measure (\<lambda>(sb, header). MAX_HEADER_LENGTH - length header)")
    (auto simp flip: length_greater_0_conv dest!: readline_nonempty [OF sym])

definition http_read_header :: "socket_buffer \<Rightarrow> socket_buffer \<times> (int + string)" where
  "http_read_header sb = read_header_loop sb []"

function http_read_request_line :: "socket_buffer \<Rightarrow> socket_buffer \<times> (int + string)" where
  "http_read_request_line sb =
     (case socket_buffer_readline sb MAX_REQUEST_LINE_LENGTH of
        (sb, None, n) \<Rightarrow> (sb, Inl (if n \<ge> MAX_REQUEST_LINE_LENGTH then 413 else 400))
      | (sb, Some line, n) \<Rightarrow> if is_crlf line then http_read_request_line sb else (sb, Inr line))"
  by pat_completeness auto

termination http_read_request_line
  by (relation "measure (length \<circ> unread)") (auto dest!: readline_nonempty [OF sym])

declare read_header_loop.simps [simp del] http_read_request_line.simps [simp del]

definition http_read_status_line :: "socket_buffer \<Rightarrow> socket_buffer \<times> (int + string)" where
  "http_read_status_line sb =
     (case socket_buffer_readline sb MAX_STATUS_LINE_LENGTH of
        (sb, None, n) \<Rightarrow> (sb, Inl (if n \<ge> MAX_STATUS_LINE_LENGTH then 413 else 400))
      | (sb, Some line, n) \<Rightarrow> (sb, Inr line))"

text \<open>The lines of a header block before its blank line.\<close>

definition header_line :: "string \<Rightarrow> bool" where
  "header_line l \<longleftrightarrow> (\<exists>t. l = t @ [LF] \<and> LF \<notin> set t) \<and> \<not> is_crlf l"

lemma readline_line:
  assumes "unread sb = l @ rest" and "l = t @ [LF]" and "LF \<notin> set t" and "length l < m"
  shows "\<exists>sb'. socket_buffer_readline sb m = (sb', Some l, length l) \<and> unread sb' = rest"
  using readline_loop_spec [of sb t rest "[]" m] assms by (simp add: socket_buffer_readline_def)

lemma read_header_loop_block:
  assumes "\<forall>l\<in>set ls. header_line l" and "unread sb = concat ls @ [CR, LF] @ rest"
    and "length header + length (concat ls) + 2 < MAX_HEADER_LENGTH"
  shows "\<exists>sb'. read_header_loop sb header = (sb', Inr (header @ concat ls @ [CR, LF])) \<and> unread sb' = rest"
  using assms
proof (induction ls arbitrary: sb header)
  case Nil
  have "\<exists>sb'. socket_buffer_readline sb MAX_HEADER_LENGTH = (sb', Some [CR, LF], length [CR, LF]) \<and>
      unread sb' = rest"
    by (rule readline_line [where t = "[CR]"]) (use Nil in simp_all)
  then obtain sb' where "socket_buffer_readline sb MAX_HEADER_LENGTH = (sb', Some [CR, LF], 2)" "unread sb' = rest"
    by auto
  then show ?case
    using Nil(3) by (subst read_header_loop.simps) (simp add: is_crlf_def deref_at_def)
next
  case (Cons l ls)
  then obtain t where t: "l = t @ [LF]" "LF \<notin> set t" "\<not> is_crlf l" by (auto simp: header_line_def)
  have "\<exists>sb'. socket_buffer_readline sb MAX_HEADER_LENGTH = (sb', Some l, length l) \<and>
      unread sb' = concat ls @ [CR, LF] @ rest"
    by (rule readline_line [OF _ t(1,2)]) (use Cons.prems(2,3) in simp_all)
  then obtain sb' where sb': "socket_buffer_readline sb MAX_HEADER_LENGTH = (sb', Some l, length l)"
      "unread sb' = concat ls @ [CR, LF] @ rest" by blast
  have "read_header_loop sb header = read_header_loop sb' (header @ l)"
    using sb'(1) t(3) Cons.prems(3) by (subst read_header_loop.simps) simp
  then show ?case using Cons.IH [OF _ sb'(2), of "header @ l"] Cons.prems by simp
qed

section \<open>Properties\<close>

text \<open>C36: \<open>socket_buffer_readline\<close> returns the next line whatever pieces the network delivers it in:
  if the bytes still to be read start with a line shorter than the limit, that line is returned
  and exactly the bytes after it remain.\<close>

theorem socket_buffer_readline_chunking:
  assumes "unread sb = l @ LF # rest" and "LF \<notin> set l" and "length l + 1 < maxlen"
  shows "\<exists>sb'. socket_buffer_readline sb maxlen = (sb', Some (l @ [LF]), length l + 1) \<and> unread sb' = rest"
  using readline_loop_spec [of sb l rest "[]" maxlen] assms by (simp add: socket_buffer_readline_def)

theorem socket_buffer_readline_chunking_witness:
  "\<exists>sb'. socket_buffer_readline (socket_buffer_init [Data ''GE'', Interrupted, Data (''T'' @ [LF] @ ''x'')]) 100
     = (sb', Some (''GET'' @ [LF]), length ''GET'' + 1) \<and> unread sb' = ''x''"
  by (rule socket_buffer_readline_chunking) (simp_all add: unread_def socket_buffer_init_def)

text \<open>\<open>socket_buffer_readcount\<close> returns exactly the bytes asked for when that many can be read,
  again independently of the pieces.\<close>

theorem socket_buffer_readcount_exact:
  assumes "sz \<le> length (unread sb)"
  shows "\<exists>sb'. socket_buffer_readcount sb sz = (sb', take sz (unread sb), int sz) \<and>
    unread sb' = drop sz (unread sb)"
  using readcount_loop_spec [of "[]" sz sb] assms by (simp add: socket_buffer_readcount_def)

text \<open>\<open>http_read_header\<close> returns a header block up to and including its blank line when the
  block is shorter than the limit, and leaves the body unread.\<close>

theorem http_read_header_block:
  assumes "\<forall>l\<in>set ls. header_line l" and "unread sb = concat ls @ [CR, LF] @ body"
    and "length (concat ls) + 2 < MAX_HEADER_LENGTH"
  shows "\<exists>sb'. http_read_header sb = (sb', Inr (concat ls @ [CR, LF])) \<and> unread sb' = body"
  using read_header_loop_block [OF assms(1,2), of "[]"] assms(3) by (simp add: http_read_header_def)

theorem http_read_header_block_witness:
  "\<exists>sb'. http_read_header (socket_buffer_init [Data (''A: b'' @ [CR, LF, CR]), Data ([LF] @ ''body'')]) =
     (sb', Inr (concat [''A: b'' @ [CR, LF]] @ [CR, LF])) \<and> unread sb' = ''body''"
  by (rule http_read_header_block)
    (auto simp: unread_def socket_buffer_init_def header_line_def is_crlf_def
      intro!: exI [of _ "''A: b'' @ [CR]"])

text \<open>A refill that brings no data resets the read position but not the end of the buffer, so
  that the next read returns the bytes of the last buffer a second time: after reading all of
  one piece and being told that the connection is closed, reading again yields that piece.\<close>

theorem socket_buffer_read_replays:
  assumes "d \<noteq> []" and "length d \<le> sz"
  shows "let (sb1, n1, out1) = socket_buffer_read (socket_buffer_init [Data d, Closed]) sz;
             (sb2, n2, out2) = socket_buffer_read sb1 sz;
             (sb3, n3, out3) = socket_buffer_read sb2 sz
         in out1 = d \<and> n2 = 0 \<and> n3 = int (length d) \<and> out3 = d"
  using assms by (simp add: socket_buffer_read_def socket_buffer_init_def sb_refill_def Let_def)

theorem socket_buffer_read_replays_witness:
  "let (sb1, n1, out1) = socket_buffer_read (socket_buffer_init [Data ''hello'', Closed]) 10;
       (sb2, n2, out2) = socket_buffer_read sb1 10;
       (sb3, n3, out3) = socket_buffer_read sb2 10
   in out1 = ''hello'' \<and> n2 = 0 \<and> n3 = int (length ''hello'') \<and> out3 = ''hello''"
  by (rule socket_buffer_read_replays) simp_all

end
