(* ===== verification/Http_Message.thy ===== *)
theory Http_Message
  imports Http_Buffer
begin

text \<open>
  Requests and responses of \<open>ncat/http.c\<close>: the request line and the status line, the header
  fields that matter to the transfer, and printing. A result \<open>Inl c\<close> is the error code \<open>c\<close>;
  what a failing parse leaves in the structure is freed and not modelled.
\<close>

datatype http_version = HTTP_09 | HTTP_10 | HTTP_11 | HTTP_UNKNOWN

record http_request =
  req_method :: "string option"
  req_uri :: uri
  version :: http_version
  header :: "http_header list"
  content_length_set :: bool
  content_length :: int
  bytes_transferred :: int

record http_response =
  rversion :: http_version
  rcode :: int
  phrase :: "string option"
  rheader :: "http_header list"
  rcontent_length_set :: bool
  rcontent_length :: int
  rbytes_transferred :: int

definition http_request_init :: http_request where
  "http_request_init =
     \<lparr>req_method = None, req_uri = uri_init, version = HTTP_UNKNOWN, header = [],
      content_length_set = False, content_length = 0, bytes_transferred = 0\<rparr>"

definition http_request_free :: "http_request \<Rightarrow> http_request" where
  "http_request_free r = r\<lparr>req_method := None, req_uri := uri_free (req_uri r), header := []\<rparr>"

definition http_response_init :: http_response where
  "http_response_init =
     \<lparr>rversion = HTTP_UNKNOWN, rcode = 0, phrase = None, rheader = [],
      rcontent_length_set = False, rcontent_length = 0, rbytes_transferred = 0\<rparr>"

definition http_response_free :: "http_response \<Rightarrow> http_response" where
  "http_response_free r = r\<lparr>phrase := None, rheader := []\<rparr>"

text \<open>Printing a request; a request without a method cannot be printed.\<close>

definition http_request_to_string :: "http_request \<Rightarrow> string option" where
  "http_request_to_string r =
     (let p = (case path (req_uri r) of
                 None \<Rightarrow> ''/'' | Some p \<Rightarrow> if deref p = NUL then ''/'' else p)
      in case req_method r of
           None \<Rightarrow> None
         | Some m \<Rightarrow>
             if version r = HTTP_09 then Some (m @ '' '' @ p @ [CR, LF])
             else
               let v = (if version r = HTTP_10 then '' HTTP/1.0'' else '' HTTP/1.1'')
               in Some (m @ '' '' @ p @ v @ [CR, LF] @ http_header_to_string (header r) @ [CR, LF]))"

text \<open>\<open>%d\<close> of an \<open>int\<close>.\<close>

definition decimal :: "int \<Rightarrow> string" where
  "decimal n = (if n < 0 then ''-'' @ dec (nat (- n)) else dec (nat n))"

definition http_response_to_string :: "http_response \<Rightarrow> string option" where
  "http_response_to_string r =
     (if rversion r = HTTP_09 then Some []
      else case phrase r of
        None \<Rightarrow> None
      | Some ph \<Rightarrow>
          let v = (if rversion r = HTTP_10 then ''HTTP/1.0'' else ''HTTP/1.1'')
          in Some (v @ '' '' @ decimal (rcode r) @ '' '' @ ph @ [CR, LF]
                   @ http_header_to_string (rheader r) @ [CR, LF]))"

definition http_request_parse_header :: "http_request \<Rightarrow> string \<Rightarrow> int + http_request" where
  "http_request_parse_header r s =
     (case http_parse_header s of
        Inl c \<Rightarrow> Inl c
      | Inr hs \<Rightarrow>
          let (c, st, n) = http_header_get_content_length hs
          in if c \<noteq> 0 then Inl c
             else Inr (r\<lparr>header := hs, content_length_set := st, content_length := n\<rparr>))"

definition http_response_parse_header :: "http_response \<Rightarrow> string \<Rightarrow> int + http_response" where
  "http_response_parse_header r s =
     (case http_parse_header s of
        Inl c \<Rightarrow> Inl c
      | Inr hs \<Rightarrow>
          let (c, st, n) = http_header_get_content_length hs
          in if c \<noteq> 0 then Inl c
             else Inr (r\<lparr>rheader := hs, rcontent_length_set := st, rcontent_length := n\<rparr>))"

text \<open>The scan over digits and one dot.\<close>

fun version_scan :: "string \<Rightarrow> nat \<Rightarrow> string" where
  "version_scan [] dot = []"
| "version_scan (c # q) dot =
     (if isdigit c then version_scan q dot
      else if c = CHR ''.'' \<and> dot = 0 then version_scan q (dot + 1)
      else c # q)"

text \<open>The pointer after the version, which is the input after a parse error, and the version.\<close>

definition parse_http_version :: "string \<Rightarrow> string \<times> http_version" where
  "parse_http_version s =
     (if \<not> strncmp_eq s ''HTTP/'' 5 then (s, HTTP_UNKNOWN)
      else
        let p = drop 5 s;
            q = version_scan p 0
        in if deref q \<noteq> NUL \<and> deref q \<noteq> CHR '' '' \<and> \<not> is_crlf q then (s, HTTP_UNKNOWN)
           else if length p - length q \<noteq> 3 then (q, HTTP_UNKNOWN)
           else if strncmp_eq p ''1.0'' 3 then (q, HTTP_10)
           else if strncmp_eq p ''1.1'' 3 then (q, HTTP_11)
           else (q, HTTP_UNKNOWN))"

definition http_parse_request_line :: "string \<Rightarrow> int + http_request" where
  "http_parse_request_line line =
     (let p = dropWhile (\<lambda>c. c = CHR '' '') line;
          q = dropWhile is_token_char p
      in if length p = length q then Inl 400
         else
           let m = mkstr p q;
               p = dropWhile (\<lambda>c. c = CHR '' '') q;
               q = dropWhile (\<lambda>c. c \<noteq> CHR '' '') p
           in if length p = length q then Inl 400
              else
                let uri_s = mkstr p q
                in case (if m = ''CONNECT'' then uri_parse_authority uri_init uri_s else uri_parse uri_s) of
                     None \<Rightarrow> Inl 400
                   | Some u \<Rightarrow>
                       let r = http_request_init\<lparr>req_method := Some m, req_uri := u\<rparr>;
                           p = dropWhile (\<lambda>c. c = CHR '' '') q
                       in if deref p = NUL \<or> is_crlf p then Inr (r\<lparr>version := HTTP_09\<rparr>)
                          else
                            let (q, v) = parse_http_version p
                            in if length p = length q then Inl 400 else Inr (r\<lparr>version := v\<rparr>))"

text \<open>One expansion of the macro \<open>CODE_DIGIT\<close>; \<open>None\<close> is its error return.\<close>

definition code_digit_at :: "string \<Rightarrow> int \<Rightarrow> (int \<times> string) option" where
  "code_digit_at p place =
     (if \<not> isdigit (deref p) then None else Some ((schar (deref p) - 0x30) * place, tl p))"

text \<open>The code (-1 on error) and the tail.\<close>

definition parse_code :: "string \<Rightarrow> int \<times> string" where
  "parse_code p =
     (case code_digit_at p 100 of
        None \<Rightarrow> (-1, p)
      | Some (a, p) \<Rightarrow>
          (case code_digit_at p 10 of
             None \<Rightarrow> (-1, p)
           | Some (b, p) \<Rightarrow>
               (case code_digit_at p 1 of
                  None \<Rightarrow> (-1, p)
                | Some (c, p) \<Rightarrow>
                    if deref p \<noteq> NUL \<and> \<not> isspace (deref p) then (-1, p) else (a + b + c, p))))"

text \<open>The scan over the reason phrase; \<open>None\<close> is the error return.\<close>

fun phrase_scan :: "string \<Rightarrow> string option" where
  "phrase_scan [] = Some []"
| "phrase_scan (c # q) =
     (if is_crlf (c # q) then Some (c # q)
      else if is_ctl_char (schar c) \<and> \<not> is_space_char c then None
      else phrase_scan q)"

definition http_parse_status_line :: "string \<Rightarrow> int + http_response" where
  "http_parse_status_line line =
     (let (p, v) = parse_http_version line
      in if length p = length line then Inl (-1)
         else
           let p = dropWhile (\<lambda>c. c = CHR '' '') p;
               (cd, q) = parse_code p
           in if cd < 0 then Inl (-1)
              else
                let p = dropWhile (\<lambda>c. c = CHR '' '') q
                in case phrase_scan p of
                     None \<Rightarrow> Inl (-1)
                   | Some q \<Rightarrow>
                       if deref (skip_crlf q) \<noteq> NUL then Inl (-1)
                       else Inr (http_response_init\<lparr>rversion := v, rcode := cd,
                                                      phrase := Some (mkstr p q)\<rparr>))"

definition http_parse_status_line_code :: "string \<Rightarrow> int" where
  "http_parse_status_line_code line =
     (case http_parse_status_line line of Inl _ \<Rightarrow> -1 | Inr r \<Rightarrow> rcode r)"

section \<open>Lemmas\<close>

definition version_text :: "http_version \<Rightarrow> string" where
  "version_text v = (if v = HTTP_10 then ''HTTP/1.0'' else ''HTTP/1.1'')"

lemma version_scan_stop: "\<not> isdigit (deref t) \<Longrightarrow> deref t \<noteq> CHR ''.'' \<Longrightarrow> version_scan t d = t"
  by (cases t) auto

lemma digit_facts:
  "isdigit (CHR ''1'')" "isdigit (CHR ''0'')" "\<not> isdigit (CHR ''.'')" "\<not> isdigit (CHR '' '')"
  "\<not> isdigit CR" "\<not> isdigit LF"
  by (simp_all add: isdigit_def)

lemma parse_http_version_text:
  assumes "v = HTTP_10 \<or> v = HTTP_11" and "t = [] \<or> deref t = CHR '' '' \<or> is_crlf t"
  shows "parse_http_version (version_text v @ t) = (t, v)"
proof -
  have "deref t \<noteq> CHR ''.''" "\<not> isdigit (deref t)"
    using assms(2) digit_facts by (auto simp: is_crlf_def)
  then have "version_scan t 1 = t" by (simp add: version_scan_stop)
  then show ?thesis
    using assms by (auto simp: parse_http_version_def version_text_def digit_facts eval_nat_numeral)
qed

lemma skip_spaces: "deref s \<noteq> CHR '' '' \<Longrightarrow> dropWhile (\<lambda>c. c = CHR '' '') s = s"
  by (cases s) auto

lemma deref_append: "a \<noteq> [] \<Longrightarrow> deref (a @ b) = deref a"
  by (cases a) auto

definition method_ok :: "string \<Rightarrow> bool" where
  "method_ok m \<longleftrightarrow> m \<noteq> [] \<and> (\<forall>c\<in>set m. is_token_char c)"

definition target_of :: "string \<Rightarrow> string \<Rightarrow> uri option" where
  "target_of m uri_s = (if m = ''CONNECT'' then uri_parse_authority uri_init uri_s else uri_parse uri_s)"

text \<open>The request line parser after a method and a target without spaces.\<close>

lemma http_parse_request_line_target:
  assumes "method_ok m" and "w \<noteq> []" and "CHR '' '' \<notin> set w" and "t = [] \<or> deref t = CHR '' ''"
    and "target_of m w = Some u"
  shows "http_parse_request_line (m @ CHR '' '' # w @ t) =
    (let r = http_request_init\<lparr>req_method := Some m, req_uri := u\<rparr>;
         p = dropWhile (\<lambda>c. c = CHR '' '') t
     in if deref p = NUL \<or> is_crlf p then Inr (r\<lparr>version := HTTP_09\<rparr>)
        else
          let (q, v) = parse_http_version p
          in if length p = length q then Inl 400 else Inr (r\<lparr>version := v\<rparr>))"
proof -
  have m: "m \<noteq> []" "\<forall>c\<in>set m. is_token_char c" using assms(1) by (auto simp: method_ok_def)
  have dm: "deref m \<noteq> CHR '' ''" using m token_facts by (cases m) auto
  have s1: "dropWhile (\<lambda>c. c = CHR '' '') (m @ CHR '' '' # w @ t) = m @ CHR '' '' # w @ t"
    using dm m(1) by (intro skip_spaces) (simp add: deref_append)
  have s2: "dropWhile is_token_char (m @ CHR '' '' # w @ t) = CHR '' '' # w @ t"
    using m(2) token_facts by (intro takeWhile_until(2)) auto
  have dw: "deref w \<noteq> CHR '' ''" using assms(2,3) by (cases w) auto
  then have s3: "dropWhile (\<lambda>c. c = CHR '' '') (CHR '' '' # w @ t) = w @ t"
    using assms(2) by (simp add: skip_spaces deref_append)
  have s4: "dropWhile (\<lambda>c. c \<noteq> CHR '' '') (w @ t) = t"
    using assms(3,4) by (intro takeWhile_until(2)) auto
  have l: "length (m @ CHR '' '' # w @ t) \<noteq> length (CHR '' '' # w @ t)" "length (w @ t) \<noteq> length t"
    using m(1) assms(2) by simp_all
  show ?thesis
    unfolding http_parse_request_line_def Let_def s1 s2 s3 s4 mkstr_append
    using l assms(5) by (simp add: target_of_def)
qed

lemma dec_three:
  assumes "100 \<le> n" and "n \<le> 999"
  shows "dec n = [char_of (48 + n div 100), char_of (48 + n div 10 mod 10), char_of (48 + n mod 10)]"
proof -
  have a: "\<not> n < 10" "\<not> n div 10 < 10" "n div 10 div 10 = n div 100" "n div 100 < 10"
    using assms by (auto simp: div_mult2_eq [symmetric])
  show ?thesis
    by (subst dec.simps, subst dec.simps, subst dec.simps) (simp only: a if_True if_False append.simps append_Nil)
qed

lemma digit_char:
  assumes "k < 10"
  shows "isdigit (char_of (48 + k))" "schar (char_of (48 + k)) = 48 + int k"
  unfolding isdigit_def schar_def code_digit [OF assms] using assms by auto

lemma parse_code_dec:
  assumes "100 \<le> n" and "n \<le> 999" and "t = [] \<or> isspace (deref t)"
  shows "parse_code (dec n @ t) = (int n, t)"
proof -
  have k: "n div 100 < 10" "n div 10 mod 10 < 10" "n mod 10 < 10" using assms by auto
  have "int n = int (n div 100) * 100 + int (n div 10 mod 10) * 10 + int (n mod 10)"
  proof -
    have "n = n div 10 * 10 + n mod 10" "n div 10 = n div 100 * 10 + n div 10 mod 10"
      using div_mult_mod_eq [of "n div 10" 10] by (simp_all add: div_mult2_eq [symmetric])
    then show ?thesis by linarith
  qed
  moreover have "deref t = NUL \<or> isspace (deref t)" using assms(3) by auto
  ultimately show ?thesis
    unfolding dec_three [OF assms(1,2)] append.simps parse_code_def code_digit_at_def deref_simps list.sel
    by (simp only: digit_char [OF k(1)] digit_char [OF k(2)] digit_char [OF k(3)] option.simps prod.case
        not_True_eq_False if_False deref_simps list.sel append_Nil) auto
qed

lemma phrase_scan_ok:
  assumes "quotable ph" and "is_crlf t" and "NUL \<notin> set ph"
  shows "phrase_scan (ph @ t) = Some t"
  using assms
proof (induction ph)
  case Nil
  then show ?case by (cases t) auto
next
  case (Cons c ph)
  then have "\<not> is_ctl_char (schar c) \<or> is_space_char c" by (simp add: quotable_def)
  then have "c \<noteq> CR" "c \<noteq> LF" using ctl_facts by auto
  then show ?case using Cons by (auto simp: is_crlf_def quotable_def)
qed

lemma crlf_is_crlf: "is_crlf [CR, LF]"
  by (simp add: is_crlf_def deref_at_def)

section \<open>Properties\<close>

text \<open>A request line of a method, a target without spaces and a version 1.0 or 1.1 parses to
  exactly these parts, the target read as an authority for the method CONNECT and as an absolute
  URI for every other.\<close>

theorem http_parse_request_line_parts:
  assumes "method_ok m" and "w \<noteq> []" and "CHR '' '' \<notin> set w" and "target_of m w = Some u"
    and "v = HTTP_10 \<or> v = HTTP_11"
  shows "http_parse_request_line (m @ '' '' @ w @ '' '' @ version_text v @ [CR, LF]) =
    Inr (http_request_init\<lparr>req_method := Some m, req_uri := u, version := v\<rparr>)"
proof -
  let ?t = "CHR '' '' # version_text v @ [CR, LF]"
  have d: "dropWhile (\<lambda>c. c = CHR '' '') ?t = version_text v @ [CR, LF]"
    by (simp add: version_text_def)
  have n: "deref (version_text v @ [CR, LF]) \<noteq> NUL" "\<not> is_crlf (version_text v @ [CR, LF])"
    by (auto simp: version_text_def is_crlf_def)
  have pv: "parse_http_version (version_text v @ [CR, LF]) = ([CR, LF], v)"
    using assms(5) crlf_is_crlf by (intro parse_http_version_text) auto
  have "length (version_text v @ [CR, LF]) \<noteq> length [CR, LF]" by (simp add: version_text_def)
  then have "http_parse_request_line (m @ CHR '' '' # w @ ?t) =
      Inr (http_request_init\<lparr>req_method := Some m, req_uri := u, version := v\<rparr>)"
    using http_parse_request_line_target [OF assms(1,2,3) _ assms(4), of ?t] d n pv by simp
  then show ?thesis by simp
qed

theorem http_parse_request_line_parts_witness:
  "http_parse_request_line (''CONNECT'' @ '' '' @ ''h:443'' @ '' '' @ version_text HTTP_11 @ [CR, LF]) =
    Inr (http_request_init\<lparr>req_method := Some ''CONNECT'',
      req_uri := uri_init\<lparr>port := 443, host := Some ''h''\<rparr>, version := HTTP_11\<rparr>)"
proof (rule http_parse_request_line_parts)
  show "method_ok ''CONNECT''" by code_simp
  show "target_of ''CONNECT'' ''h:443'' = Some (uri_init\<lparr>port := 443, host := Some ''h''\<rparr>)" by code_simp
qed simp_all

text \<open>A request line without a version keeps its line end inside the target: for a request
  \<open>GET http://host:port/path\<close> as HTTP/0.9 clients send it, the parsed path ends with the CRLF of
  the line, and printing the request for the origin server then has two line ends.\<close>

theorem http09_request_keeps_crlf:
  assumes "method_ok m" and "m \<noteq> ''CONNECT''" and "is_alpha_char (deref sch)"
    and "\<forall>c\<in>set sch. is_scheme_char c" and "plain_host br h" and "1 \<le> n" and "n \<le> 65535"
    and "CHR '' '' \<notin> set (sch @ ''://'' @ host_text br h @ '':'' @ dec n @ pth)"
    and "deref pth = CHR ''/''"
  shows "\<exists>r. http_parse_request_line
      (m @ '' '' @ (sch @ ''://'' @ host_text br h @ '':'' @ dec n @ pth) @ [CR, LF]) = Inr r \<and>
    version r = HTTP_09 \<and> path (req_uri r) = Some (pth @ [CR, LF]) \<and>
    http_request_to_string r = Some (m @ '' '' @ pth @ [CR, LF] @ [CR, LF])"
proof -
  let ?w = "sch @ ''://'' @ host_text br h @ '':'' @ dec n @ (pth @ [CR, LF])"
  let ?u = "\<lparr>scheme = Some (lowercase sch), host = Some h, port = int n, path = Some (pth @ [CR, LF])\<rparr>"
  have pne: "pth \<noteq> []" using assms(9) by auto
  then have dp: "deref (pth @ [CR, LF]) = CHR ''/''" using assms(9) by (simp add: deref_append)
  then have "uri_parse ?w = Some ?u"
    by (intro uri_parse_print assms(3,4,5,6,7)) simp
  then have t: "target_of m ?w = Some ?u" using assms(2) by (simp add: target_of_def)
  have "?w \<noteq> []" "CHR '' '' \<notin> set ?w" using assms(8) by auto
  then have "http_parse_request_line (m @ CHR '' '' # ?w @ []) =
      Inr (http_request_init\<lparr>req_method := Some m, req_uri := ?u, version := HTTP_09\<rparr>)"
    using http_parse_request_line_target [OF assms(1) _ _ _ t, of "[]"] by simp
  then show ?thesis using dp by (simp add: http_request_to_string_def)
qed

theorem http09_request_keeps_crlf_witness:
  "\<exists>r. http_parse_request_line
      (''GET'' @ '' '' @ (''http'' @ ''://'' @ host_text False ''h'' @ '':'' @ dec 80 @ ''/x'') @ [CR, LF]) = Inr r \<and>
    version r = HTTP_09 \<and> path (req_uri r) = Some (''/x'' @ [CR, LF]) \<and>
    http_request_to_string r = Some (''GET'' @ '' '' @ ''/x'' @ [CR, LF] @ [CR, LF])"
proof (rule http09_request_keeps_crlf)
  show "method_ok ''GET''" "is_alpha_char (deref ''http'')" "\<forall>c\<in>set ''http''. is_scheme_char c"
    "plain_host False ''h''"
    "CHR '' '' \<notin> set (''http'' @ ''://'' @ host_text False ''h'' @ '':'' @ dec 80 @ ''/x'')"
    by code_simp+
qed simp_all

text \<open>The status line that \<open>http_response_to_string\<close> prints parses back to the version, the code
  and the phrase, for every three-digit code and every phrase without control characters that
  does not begin with a space.\<close>

theorem http_parse_status_line_print:
  assumes "v = HTTP_10 \<or> v = HTTP_11" and "100 \<le> n" and "n \<le> 999" and "quotable ph"
    and "NUL \<notin> set ph" and "deref ph \<noteq> CHR '' ''"
  shows "http_parse_status_line (version_text v @ '' '' @ decimal (int n) @ '' '' @ ph @ [CR, LF]) =
    Inr (http_response_init\<lparr>rversion := v, rcode := int n, phrase := Some ph\<rparr>)"
proof -
  let ?t = "CHR '' '' # ph @ [CR, LF]"
  let ?s = "CHR '' '' # dec n @ ?t"
  have pv: "parse_http_version (version_text v @ ?s) = (?s, v)"
    using assms(1) by (intro parse_http_version_text) auto
  have pne: "length ?s \<noteq> length (version_text v @ ?s)" by (simp add: version_text_def)
  have "deref (dec n @ ?t) \<noteq> CHR '' ''"
    using dec_digits [of n] digit_facts by (cases "dec n") auto
  then have s1: "dropWhile (\<lambda>c. c = CHR '' '') ?s = dec n @ ?t" by (simp add: skip_spaces)
  have pc: "parse_code (dec n @ ?t) = (int n, ?t)"
    using assms(2,3) by (intro parse_code_dec) (auto simp: isspace_def)
  have "deref (ph @ [CR, LF]) \<noteq> CHR '' ''" using assms(6) by (cases ph) auto
  then have s2: "dropWhile (\<lambda>c. c = CHR '' '') ?t = ph @ [CR, LF]" by (simp add: skip_spaces)
  have ps: "phrase_scan (ph @ [CR, LF]) = Some [CR, LF]"
    using assms(4,5) crlf_is_crlf by (intro phrase_scan_ok)
  have sk: "skip_crlf [CR, LF] = []" by (simp add: skip_crlf_def deref_at_def)
  have dn: "decimal (int n) = dec n" by (simp add: decimal_def)
  have "http_parse_status_line (version_text v @ ?s) =
      Inr (http_response_init\<lparr>rversion := v, rcode := int n, phrase := Some ph\<rparr>)"
    unfolding http_parse_status_line_def pv Let_def prod.case s1 pc s2 ps sk option.simps mkstr_append
    using pne by simp
  then show ?thesis by (simp add: dn)
qed

theorem http_parse_status_line_print_witness:
  "http_parse_status_line (version_text HTTP_11 @ '' '' @ decimal (int 404) @ '' '' @ ''Not Found'' @ [CR, LF]) =
    Inr (http_response_init\<lparr>rversion := HTTP_11, rcode := int 404, phrase := Some ''Not Found''\<rparr>)"
proof (rule http_parse_status_line_print)
  show "quotable ''Not Found''" by code_simp
qed simp_all

text \<open>parsing the printed headers of a request stores them and the declared content length: a
  decimal number that fits in a \<open>long\<close> is taken as it is.\<close>

theorem http_request_parse_header_length:
  assumes "\<forall>h\<in>set hs. header_ok h" and "http_header_get_first hs ''Content-Length'' = Some (dec n)"
    and "int n \<le> LONG_MAX"
  shows "http_request_parse_header r (http_header_to_string hs @ [CR, LF]) =
    Inr (r\<lparr>header := hs, content_length_set := True, content_length := int n\<rparr>)"
proof -
  have "http_parse_header (http_header_to_string hs @ [CR, LF]) = Inr hs"
    using http_parse_header_loop_text [OF assms(1), of "[]"] by (simp add: http_parse_header_def)
  moreover have "parse_long (dec n) = (int n, [], False)"
    using parse_long_dec [of "[]" n] assms(3) by simp
  ultimately show ?thesis
    using assms(2) by (simp add: http_request_parse_header_def http_header_get_content_length_def)
qed

end
