(* ===== verification/Http_Auth.thy ===== *)
theory Http_Auth
  imports Http_Header
begin

text \<open>
  Proxy authentication in \<open>ncat/http.c\<close>: challenges, credentials, and the choice among several
  offers. A result \<open>None\<close> is the \<open>NULL\<close> of the error exits. Whether the build has HTTP Digest
  (\<open>HAVE_HTTP_DIGEST\<close>) is an argument of the functions whose text depends on it.
\<close>

datatype http_auth_scheme = AUTH_UNKNOWN | AUTH_BASIC | AUTH_DIGEST

datatype http_digest_algorithm = ALGORITHM_MD5 | ALGORITHM_UNKNOWN

datatype http_digest_qop = QOP_NONE | QOP_AUTH | QOP_AUTH_INT

text \<open>The mask of supported qop values has the bits 1 (auth) and 2 (auth-int).\<close>

record http_challenge =
  ch_scheme :: http_auth_scheme
  ch_realm :: "string option"
  ch_nonce :: "string option"
  ch_opaque :: "string option"
  ch_algorithm :: http_digest_algorithm
  ch_qop :: u8

record digest_credentials =
  username :: "string option"
  realm :: "string option"
  nonce :: "string option"
  duri :: "string option"
  response :: "string option"
  algorithm :: http_digest_algorithm
  qop :: http_digest_qop
  nc :: "string option"
  cnonce :: "string option"

text \<open>The tagged union of credentials.\<close>

datatype http_credentials =
    Cred_Unknown
  | Cred_Basic "string option"
  | Cred_Digest digest_credentials

fun cr_scheme :: "http_credentials \<Rightarrow> http_auth_scheme" where
  "cr_scheme Cred_Unknown = AUTH_UNKNOWN"
| "cr_scheme (Cred_Basic _) = AUTH_BASIC"
| "cr_scheme (Cred_Digest _) = AUTH_DIGEST"

definition http_challenge_init :: http_challenge where
  "http_challenge_init =
     \<lparr>ch_scheme = AUTH_UNKNOWN, ch_realm = None, ch_nonce = None, ch_opaque = None,
      ch_algorithm = ALGORITHM_MD5, ch_qop = 0\<rparr>"

definition http_challenge_free :: "http_challenge \<Rightarrow> http_challenge" where
  "http_challenge_free ch =
     (let ch = ch\<lparr>ch_realm := None\<rparr>
      in if ch_scheme ch = AUTH_DIGEST then ch\<lparr>ch_nonce := None, ch_opaque := None\<rparr> else ch)"

definition http_credentials_init_basic :: http_credentials where
  "http_credentials_init_basic = Cred_Basic None"

definition http_credentials_init_digest :: http_credentials where
  "http_credentials_init_digest =
     Cred_Digest \<lparr>username = None, realm = None, nonce = None, duri = None, response = None,
       algorithm = ALGORITHM_MD5, qop = QOP_NONE, nc = None, cnonce = None\<rparr>"

definition http_credentials_free :: "http_credentials \<Rightarrow> http_credentials" where
  "http_credentials_free c =
     (case c of
        Cred_Unknown \<Rightarrow> Cred_Unknown
      | Cred_Basic _ \<Rightarrow> Cred_Basic None
      | Cred_Digest d \<Rightarrow>
          Cred_Digest (d\<lparr>username := None, realm := None, nonce := None, duri := None,
            response := None, nc := None, cnonce := None\<rparr>))"

section \<open>Challenges\<close>

abbreviation skip_spaces :: "string \<Rightarrow> string" where
  "skip_spaces s \<equiv> dropWhile is_space_char s"

definition qop_bit :: "string \<Rightarrow> u8 \<Rightarrow> u8" where
  "qop_bit token q =
     (if str_equal_i token ''auth'' then q OR 1
      else if str_equal_i token ''auth-int'' then q OR 2 else q)"

text \<open>What the loop does with one \<open>name=value\<close>; \<open>None\<close> is \<open>goto bail\<close>.\<close>

definition challenge_param :: "http_challenge \<Rightarrow> string \<Rightarrow> string \<Rightarrow> http_challenge option" where
  "challenge_param ch name v =
     (if str_equal_i name ''realm'' then Some (ch\<lparr>ch_realm := Some v\<rparr>)
      else if ch_scheme ch = AUTH_DIGEST then
        (if str_equal_i name ''nonce'' then
           (if ch_nonce ch \<noteq> None then None else Some (ch\<lparr>ch_nonce := Some v\<rparr>))
         else if str_equal_i name ''opaque'' then
           (if ch_opaque ch \<noteq> None then None else Some (ch\<lparr>ch_opaque := Some v\<rparr>))
         else if str_equal_i name ''algorithm'' then
           Some (ch\<lparr>ch_algorithm :=
             (if str_equal_i v ''MD5'' then ALGORITHM_MD5 else ALGORITHM_UNKNOWN)\<rparr>)
         else if str_equal_i name ''qop'' then
           (case read_token_list v of
              None \<Rightarrow> None
            | Some (tokens, tmp) \<Rightarrow>
                if deref tmp \<noteq> NUL then None
                else Some (ch\<lparr>ch_qop := fold qop_bit tokens (ch_qop ch)\<rparr>))
         else Some ch)
      else Some ch)"

text \<open>After a parameter: an optional comma, which something has to follow.\<close>

definition after_param :: "string \<Rightarrow> string option" where
  "after_param p =
     (let p = skip_spaces p
      in if deref p = CHR '','' then
           (let p = skip_spaces (tl p) in if deref p = NUL then None else Some p)
         else Some p)"

lemma quoted_loop_suffix: "quoted_loop s buf = Some (b, t) \<Longrightarrow> suffix t s"
proof (induction s buf rule: quoted_loop.induct)
  case (1 s buf)
  show ?case
  proof (cases "deref s = CHR 0x22")
    case True
    then show ?thesis using 1(3) by (subst (asm) quoted_loop.simps) simp
  next
    case False
    then obtain u where u: "qdtext s = Some u"
      using 1(3) by (subst (asm) quoted_loop.simps) (auto split: option.splits)
    have us: "suffix u s" "suffix (drop 2 u) s"
      using qdtext_Some [OF u] suffix_drop suffix_order.trans by blast+
    show ?thesis
    proof (cases "deref u = CHR 0x5C")
      case True
      then have "\<not> schar (deref_at u 1) \<le> 0"
        "quoted_loop (drop 2 u) (sb_add (sb_add buf (mkstr s u)) [deref_at u 1]) = Some (b, t)"
        using 1(3) False u by (subst (asm) quoted_loop.simps; simp split: if_splits)+
      then show ?thesis using 1(1) [OF False u refl True] us(2) suffix_order.trans by blast
    next
      case esc: False
      then have "quoted_loop u (sb_add buf (mkstr s u)) = Some (b, t)"
        using 1(3) False u by (subst (asm) quoted_loop.simps) simp
      then show ?thesis using 1(2) [OF False u refl esc] us(1) suffix_order.trans by blast
    qed
  qed
qed

lemma read_token_or_quoted_suffix: "read_token_or_quoted_string s = Some (v, t) \<Longrightarrow> suffix t s"
proof -
  assume r: "read_token_or_quoted_string s = Some (v, t)"
  have ss: "suffix (skip_spaces s) s" by simp
  show ?thesis
  proof (cases "deref (skip_spaces s) = CHR 0x22")
    case False
    then have "read_token (skip_spaces s) = Some (v, t)"
      using r by (simp add: read_token_or_quoted_string_def Let_def)
    then show ?thesis using read_token_shorter ss suffix_order.trans by blast
  next
    case True
    then have "read_quoted_string (skip_spaces s) = Some (v, t)"
      using r by (simp add: read_token_or_quoted_string_def Let_def)
    then obtain b u where q: "quoted_loop (tl (skip_spaces (skip_spaces s))) None = Some (b, u)" "t = tl u"
      by (auto simp: read_quoted_string_def Let_def split: if_splits option.splits)
    have "suffix t (tl (skip_spaces (skip_spaces s)))"
      using quoted_loop_suffix [OF q(1)] q(2) suffix_tl suffix_order.trans by blast
    then show ?thesis using ss by (meson suffix_dropWhile suffix_order.trans suffix_tl)
  qed
qed

lemma after_param_suffix: "after_param p = Some q \<Longrightarrow> suffix q p"
  by (auto simp: after_param_def Let_def split: if_splits)
    (meson suffix_dropWhile suffix_order.trans suffix_tl)

function challenge_loop :: "string \<Rightarrow> http_challenge \<Rightarrow> (string \<times> http_challenge) option" where
  "challenge_loop s ch =
     (if deref s = NUL then Some (s, ch)
      else case read_token s of
        None \<Rightarrow> None
      | Some (name, p) \<Rightarrow>
          let p = skip_spaces p
          in if deref p \<noteq> CHR ''='' then Some (s, ch)
             else case read_token_or_quoted_string (skip_spaces (tl p)) of
               None \<Rightarrow> None
             | Some (v, p) \<Rightarrow>
                 (case challenge_param ch name v of
                    None \<Rightarrow> None
                  | Some ch \<Rightarrow>
                      (case after_param p of None \<Rightarrow> None | Some s \<Rightarrow> challenge_loop s ch)))"
  by pat_completeness auto

lemma param_shorter:
  assumes "read_token s = Some (name, p)"
    and "read_token_or_quoted_string (skip_spaces (tl (skip_spaces p))) = Some (v, q)"
    and "after_param q = Some s'"
  shows "suffix s' s" "length s' < length s"
proof -
  have "suffix (skip_spaces (tl (skip_spaces p))) p"
    by (meson suffix_dropWhile suffix_order.trans suffix_tl)
  then have sp: "suffix s' p"
    using read_token_or_quoted_suffix [OF assms(2)] after_param_suffix [OF assms(3)]
      suffix_order.trans by blast
  then show "suffix s' s" "length s' < length s"
    using read_token_shorter [OF assms(1)] suffix_length_le [OF sp] suffix_order.trans by (blast, linarith)
qed

termination challenge_loop
  by (relation "measure (length \<circ> fst)") (auto dest: param_shorter(2))

declare challenge_loop.simps [simp del]

definition http_read_challenge :: "string \<Rightarrow> (string \<times> http_challenge) option" where
  "http_read_challenge s =
     (case read_token s of
        None \<Rightarrow> None
      | Some (sch, s) \<Rightarrow>
          let ch = http_challenge_init\<lparr>ch_scheme :=
                (if str_equal_i sch ''Basic'' then AUTH_BASIC
                 else if str_equal_i sch ''Digest'' then AUTH_DIGEST else AUTH_UNKNOWN)\<rparr>;
              s = skip_spaces s
          in if deref s = CHR '','' then
               (let s = skip_spaces (tl s) in if deref s = NUL then None else Some (s, ch))
             else challenge_loop s ch)"

lemma challenge_loop_suffix: "challenge_loop s ch = Some (t, ch') \<Longrightarrow> suffix t s"
proof (induction "length s" arbitrary: s ch rule: less_induct)
  case less
  show ?case
  proof (cases "t = s")
    case False
    then obtain name p v q ch1 s1 where *: "read_token s = Some (name, p)"
        "read_token_or_quoted_string (skip_spaces (tl (skip_spaces p))) = Some (v, q)"
        "after_param q = Some s1" "challenge_loop s1 ch1 = Some (t, ch')"
      using less.prems
      by (subst (asm) challenge_loop.simps) (auto simp: Let_def split: if_splits option.splits)
    then show ?thesis
      using less.hyps [OF param_shorter(2) [OF *(1,2,3)] *(4)] param_shorter(1) [OF *(1,2,3)]
        suffix_order.trans by blast
  qed simp
qed

lemma http_read_challenge_shorter:
  assumes "http_read_challenge s = Some (t, ch)"
  shows "suffix t s \<and> length t < length s"
proof -
  obtain sch p where p: "read_token s = Some (sch, p)"
    using assms by (auto simp: http_read_challenge_def split: option.splits)
  have "suffix t (skip_spaces p) \<or> suffix t (skip_spaces (tl (skip_spaces p)))"
    using assms p challenge_loop_suffix
    by (fastforce simp: http_read_challenge_def Let_def split: if_splits)
  then have "suffix t p" by (meson suffix_dropWhile suffix_order.trans suffix_tl)
  then show ?thesis
    using read_token_shorter [OF p] suffix_order.trans suffix_length_le [of t p] by fastforce
qed

section \<open>Credentials\<close>

text \<open>A field that may be given only once.\<close>

definition once :: "string option \<Rightarrow> 'a \<Rightarrow> 'a option" where
  "once old new = (if old \<noteq> None then None else Some new)"

definition credential_param :: "digest_credentials \<Rightarrow> string \<Rightarrow> string \<Rightarrow> digest_credentials option" where
  "credential_param d name v =
     (if str_equal_i name ''username'' then once (username d) (d\<lparr>username := Some v\<rparr>)
      else if str_equal_i name ''realm'' then once (realm d) (d\<lparr>realm := Some v\<rparr>)
      else if str_equal_i name ''nonce'' then once (nonce d) (d\<lparr>nonce := Some v\<rparr>)
      else if str_equal_i name ''uri'' then once (duri d) (d\<lparr>duri := Some v\<rparr>)
      else if str_equal_i name ''response'' then once (response d) (d\<lparr>response := Some v\<rparr>)
      else if str_equal_i name ''algorithm'' then
        Some (d\<lparr>algorithm := (if str_equal_i v ''MD5'' then ALGORITHM_MD5 else ALGORITHM_UNKNOWN)\<rparr>)
      else if str_equal_i name ''qop'' then
        Some (d\<lparr>qop := (if str_equal_i v ''auth'' then QOP_AUTH
                       else if str_equal_i v ''auth-int'' then QOP_AUTH_INT else QOP_NONE)\<rparr>)
      else if str_equal_i name ''cnonce'' then once (cnonce d) (d\<lparr>cnonce := Some v\<rparr>)
      else if str_equal_i name ''nc'' then once (nc d) (d\<lparr>nc := Some v\<rparr>)
      else Some d)"

function credentials_loop :: "string \<Rightarrow> digest_credentials \<Rightarrow> (string \<times> digest_credentials) option" where
  "credentials_loop s d =
     (if deref s = NUL then Some (s, d)
      else case read_token s of
        None \<Rightarrow> None
      | Some (name, p) \<Rightarrow>
          let p = skip_spaces p
          in if deref p \<noteq> CHR ''='' then None
             else case read_token_or_quoted_string (skip_spaces (tl p)) of
               None \<Rightarrow> None
             | Some (v, p) \<Rightarrow>
                 (case credential_param d name v of
                    None \<Rightarrow> None
                  | Some d \<Rightarrow>
                      (case after_param p of None \<Rightarrow> None | Some s \<Rightarrow> credentials_loop s d)))"
  by pat_completeness auto

termination credentials_loop
  by (relation "measure (length \<circ> fst)") (auto dest: param_shorter(2))

declare credentials_loop.simps [simp del]

definition is_base64_char :: "char \<Rightarrow> bool" where
  "is_base64_char c \<longleftrightarrow>
     is_alpha_char c \<or> is_digit_char c \<or> c = CHR ''+'' \<or> c = CHR ''/'' \<or> c = CHR ''=''"

definition http_read_credentials :: "string \<Rightarrow> (string \<times> http_credentials) option" where
  "http_read_credentials s =
     (case read_token s of
        None \<Rightarrow> None
      | Some (sch, s) \<Rightarrow>
          let s = skip_spaces s
          in if str_equal_i sch ''Basic'' then
               (let p = dropWhile is_base64_char s
                in Some (skip_spaces p, Cred_Basic (Some (mkstr s p))))
             else if str_equal_i sch ''Digest'' then
               (case http_credentials_init_digest of
                  Cred_Digest d \<Rightarrow> map_option (apsnd Cred_Digest) (credentials_loop s d)
                | _ \<Rightarrow> None)
             else None)"

section \<open>The choice among offers\<close>

definition auth_scheme_is_better :: "bool \<Rightarrow> http_auth_scheme \<Rightarrow> http_auth_scheme \<Rightarrow> bool" where
  "auth_scheme_is_better have_digest a b =
     (if have_digest then
        (if b = AUTH_DIGEST then False
         else if b = AUTH_BASIC then a = AUTH_DIGEST
         else a = AUTH_BASIC \<or> a = AUTH_DIGEST)
      else
        (if b = AUTH_BASIC then False
         else if b = AUTH_UNKNOWN then a = AUTH_BASIC
         else False))"

function challenges_loop :: "bool \<Rightarrow> string \<Rightarrow> http_challenge \<Rightarrow> http_challenge option" where
  "challenges_loop dg tmp challenge =
     (if deref tmp = NUL then Some challenge
      else case http_read_challenge tmp of
        None \<Rightarrow> None
      | Some (tmp, tmp_info) \<Rightarrow>
          challenges_loop dg tmp
            (if auth_scheme_is_better dg (ch_scheme tmp_info) (ch_scheme challenge)
             then tmp_info else challenge))"
  by pat_completeness auto

termination challenges_loop
  by (relation "measure (\<lambda>(dg, tmp, ch). length tmp)") (auto dest: http_read_challenge_shorter)

declare challenges_loop.simps [simp del]

lemma http_header_next_shorter:
  "http_header_next header p name \<noteq> [] \<Longrightarrow> p \<noteq> [] \<Longrightarrow> length (http_header_next header p name) < length p"
proof -
  have "length (find_field l name) \<le> length l" for l by (induction l) auto
  moreover assume "p \<noteq> []"
  ultimately show ?thesis by (cases p) (auto simp: http_header_next_def le_imp_less_Suc)
qed

text \<open>The loop over the fields named Proxy-Authenticate, from the node \<open>p\<close> on.\<close>

function proxy_challenge_loop ::
  "bool \<Rightarrow> http_header list \<Rightarrow> http_header list \<Rightarrow> http_challenge \<Rightarrow> http_challenge option" where
  "proxy_challenge_loop dg header p challenge =
     (case p of
        [] \<Rightarrow> Some challenge
      | node # _ \<Rightarrow>
          (case challenges_loop dg (hvalue node) challenge of
             None \<Rightarrow> None
           | Some challenge \<Rightarrow>
               proxy_challenge_loop dg header (http_header_next header p ''Proxy-Authenticate'') challenge))"
  by pat_completeness auto

termination proxy_challenge_loop
proof (relation "measure (\<lambda>(dg, header, p, ch). length p)", goal_cases)
  case (2 dg header p challenge node ps ch)
  then show ?case
    using http_header_next_shorter [of header p "''Proxy-Authenticate''"]
    by (cases "http_header_next header p ''Proxy-Authenticate'' = []") auto
qed simp

declare proxy_challenge_loop.simps [simp del]

definition http_header_get_proxy_challenge :: "bool \<Rightarrow> http_header list \<Rightarrow> http_challenge option" where
  "http_header_get_proxy_challenge dg header =
     proxy_challenge_loop dg header (http_header_next header [] ''Proxy-Authenticate'') http_challenge_init"

lemma credentials_loop_suffix: "credentials_loop s d = Some (t, d') \<Longrightarrow> suffix t s"
proof (induction "length s" arbitrary: s d rule: less_induct)
  case less
  show ?case
  proof (cases "t = s")
    case False
    then obtain name p v q d1 s1 where *: "read_token s = Some (name, p)"
        "read_token_or_quoted_string (skip_spaces (tl (skip_spaces p))) = Some (v, q)"
        "after_param q = Some s1" "credentials_loop s1 d1 = Some (t, d')"
      using less.prems
      by (subst (asm) credentials_loop.simps) (auto simp: Let_def split: if_splits option.splits)
    then show ?thesis
      using less.hyps [OF param_shorter(2) [OF *(1,2,3)] *(4)] param_shorter(1) [OF *(1,2,3)]
        suffix_order.trans by blast
  qed simp
qed

lemma http_read_credentials_shorter:
  assumes "http_read_credentials s = Some (t, c)"
  shows "suffix t s \<and> length t < length s"
proof -
  obtain sch p where p: "read_token s = Some (sch, p)"
    using assms by (auto simp: http_read_credentials_def split: option.splits)
  have "suffix t (skip_spaces p)"
    using assms p credentials_loop_suffix
    by (auto simp: http_read_credentials_def http_credentials_init_digest_def Let_def split: if_splits
        intro: suffix_order.trans [OF suffix_dropWhile suffix_dropWhile])
  then have "suffix t p" by (meson suffix_dropWhile suffix_order.trans)
  then show ?thesis
    using read_token_shorter [OF p] suffix_order.trans suffix_length_le [of t p] by fastforce
qed

function credentials_value_loop :: "bool \<Rightarrow> string \<Rightarrow> http_credentials \<Rightarrow> http_credentials option" where
  "credentials_value_loop dg tmp credentials =
     (if deref tmp = NUL then Some credentials
      else case http_read_credentials tmp of
        None \<Rightarrow> None
      | Some (tmp, tmp_info) \<Rightarrow>
          credentials_value_loop dg tmp
            (if auth_scheme_is_better dg (cr_scheme tmp_info) (cr_scheme credentials)
             then tmp_info else credentials))"
  by pat_completeness auto

termination credentials_value_loop
  by (relation "measure (\<lambda>(dg, tmp, c). length tmp)") (auto dest: http_read_credentials_shorter)

declare credentials_value_loop.simps [simp del]

function proxy_credentials_loop ::
  "bool \<Rightarrow> http_header list \<Rightarrow> http_header list \<Rightarrow> http_credentials \<Rightarrow> http_credentials option" where
  "proxy_credentials_loop dg header p credentials =
     (case p of
        [] \<Rightarrow> Some credentials
      | node # _ \<Rightarrow>
          (case credentials_value_loop dg (hvalue node) credentials of
             None \<Rightarrow> None
           | Some credentials \<Rightarrow>
               proxy_credentials_loop dg header (http_header_next header p ''Proxy-Authorization'') credentials))"
  by pat_completeness auto

termination proxy_credentials_loop
proof (relation "measure (\<lambda>(dg, header, p, c). length p)", goal_cases)
  case (2 dg header p credentials node ps c)
  then show ?case
    using http_header_next_shorter [of header p "''Proxy-Authorization''"]
    by (cases "http_header_next header p ''Proxy-Authorization'' = []") auto
qed simp

declare proxy_credentials_loop.simps [simp del]

definition http_header_get_proxy_credentials :: "bool \<Rightarrow> http_header list \<Rightarrow> http_credentials option" where
  "http_header_get_proxy_credentials dg header =
     proxy_credentials_loop dg header (http_header_next header [] ''Proxy-Authorization'') Cred_Unknown"

section \<open>The best offer wins\<close>

text \<open>The challenges of one field value, in order.\<close>

function challenges_in :: "string \<Rightarrow> http_challenge list" where
  "challenges_in s =
     (if deref s = NUL then []
      else case http_read_challenge s of None \<Rightarrow> [] | Some (t, c) \<Rightarrow> c # challenges_in t)"
  by pat_completeness auto

termination challenges_in
  by (relation "measure length") (auto dest: http_read_challenge_shorter)

declare challenges_in.simps [simp del]

definition offers :: "http_header list \<Rightarrow> http_challenge list" where
  "offers h = concat (map challenges_in (values_of h ''Proxy-Authenticate''))"

fun rank :: "bool \<Rightarrow> http_auth_scheme \<Rightarrow> nat" where
  "rank dg AUTH_UNKNOWN = 0"
| "rank dg AUTH_BASIC = 1"
| "rank dg AUTH_DIGEST = (if dg then 2 else 0)"

text \<open>A challenge is best among a set of offers and the one held before.\<close>

definition best :: "bool \<Rightarrow> http_challenge set \<Rightarrow> http_challenge \<Rightarrow> bool" where
  "best dg C ch \<longleftrightarrow> ch \<in> C \<and> (\<forall>c\<in>C. rank dg (ch_scheme c) \<le> rank dg (ch_scheme ch)) \<and>
     (dg \<or> ch_scheme ch \<noteq> AUTH_DIGEST)"

lemma better_rank:
  "dg \<or> b \<noteq> AUTH_DIGEST \<Longrightarrow> auth_scheme_is_better dg a b \<longleftrightarrow> rank dg b < rank dg a"
  by (cases a; cases b) (auto simp: auth_scheme_is_better_def)

lemma best_step:
  assumes "best dg C ch"
  shows "best dg (insert c C) (if auth_scheme_is_better dg (ch_scheme c) (ch_scheme ch) then c else ch)"
proof -
  have ok: "dg \<or> ch_scheme ch \<noteq> AUTH_DIGEST" using assms by (simp add: best_def)
  show ?thesis
  proof (cases "auth_scheme_is_better dg (ch_scheme c) (ch_scheme ch)")
    case True
    then have "rank dg (ch_scheme ch) < rank dg (ch_scheme c)" using better_rank [OF ok] by simp
    moreover from this have "dg \<or> ch_scheme c \<noteq> AUTH_DIGEST" by (cases dg) auto
    ultimately show ?thesis using assms True by (auto simp: best_def intro: le_trans less_imp_le)
  next
    case False
    then show ?thesis using assms better_rank [OF ok] by (auto simp: best_def)
  qed
qed

lemma challenges_loop_best:
  "best dg C ch \<Longrightarrow> challenges_loop dg s ch = Some ch' \<Longrightarrow> best dg (C \<union> set (challenges_in s)) ch'"
proof (induction "length s" arbitrary: s C ch rule: less_induct)
  case less
  show ?case
  proof (cases "deref s = NUL")
    case True
    then show ?thesis
      using less.prems by (simp add: challenges_loop.simps [of dg s] challenges_in.simps [of s])
  next
    case False
    then obtain t c where tc: "http_read_challenge s = Some (t, c)"
      using less.prems(2) by (subst (asm) challenges_loop.simps) (auto split: option.splits)
    let ?ch = "if auth_scheme_is_better dg (ch_scheme c) (ch_scheme ch) then c else ch"
    have "challenges_loop dg t ?ch = Some ch'"
      using less.prems(2) False tc by (subst (asm) challenges_loop.simps) simp
    then have "best dg (insert c C \<union> set (challenges_in t)) ch'"
      using less.hyps [OF _ best_step [OF less.prems(1)]] http_read_challenge_shorter [OF tc] by blast
    then show ?thesis using False tc by (simp add: challenges_in.simps [of s])
  qed
qed

lemma values_of_next:
  "values_of (case p of [] \<Rightarrow> [] | _ # ps \<Rightarrow> ps) n =
     (case http_header_next h p n of [] \<Rightarrow> [] | q # qs \<Rightarrow> hvalue q # values_of qs n)" if "p \<noteq> []"
proof -
  have "values_of l n = (case find_field l n of [] \<Rightarrow> [] | q # qs \<Rightarrow> hvalue q # values_of qs n)" for l
    by (induction l) (auto simp: values_of_def)
  then show ?thesis using that by (cases p) (auto simp: http_header_next_def)
qed

lemma proxy_challenge_loop_best:
  "best dg C ch \<Longrightarrow> proxy_challenge_loop dg h p ch = Some ch' \<Longrightarrow>
   best dg (C \<union> (\<Union>v \<in> set (case p of [] \<Rightarrow> [] | q # qs \<Rightarrow> hvalue q # values_of qs ''Proxy-Authenticate'').
     set (challenges_in v))) ch'"
proof (induction "length p" arbitrary: p C ch rule: less_induct)
  case less
  show ?case
  proof (cases p)
    case Nil
    then show ?thesis using less.prems by (simp add: proxy_challenge_loop.simps [of dg h "[]"])
  next
    case (Cons q qs)
    let ?n = "http_header_next h p ''Proxy-Authenticate''"
    obtain ch1 where c1: "challenges_loop dg (hvalue q) ch = Some ch1"
        "proxy_challenge_loop dg h ?n ch1 = Some ch'"
      using less.prems(2) Cons by (subst (asm) proxy_challenge_loop.simps) (auto split: option.splits)
    note b = challenges_loop_best [OF less.prems(1) c1(1)]
    have len: "length ?n < length p"
      using http_header_next_shorter [of h p "''Proxy-Authenticate''"] Cons by (cases "?n = []") auto
    have v: "values_of qs ''Proxy-Authenticate'' =
        (case ?n of [] \<Rightarrow> [] | q # qs \<Rightarrow> hvalue q # values_of qs ''Proxy-Authenticate'')"
      using values_of_next [of p "''Proxy-Authenticate''" h] Cons by simp
    show ?thesis
      using less.hyps [OF len b c1(2), folded v] Cons by (simp add: Un_assoc)
  qed
qed

section \<open>Printed challenges\<close>

lemma read_token_word:
  assumes "w \<noteq> []" and "\<forall>c\<in>set w. is_token_char c" and "\<not> is_token_char (deref t)"
  shows "read_token (w @ t) = Some (w, t)"
proof -
  have "deref (w @ t) \<noteq> CHR '' ''" using assms(1,2) token_facts by (cases w) auto
  then have "dropWhile (\<lambda>c. c = CHR '' '') (w @ t) = w @ t" by (cases "w @ t") auto
  moreover have "dropWhile is_token_char (w @ t) = t"
    using assms(2,3) by (intro takeWhile_until(2)) auto
  ultimately show ?thesis using assms(1) by (simp add: read_token_def)
qed

lemma read_value_quote:
  assumes "quotable v"
  shows "read_token_or_quoted_string (quote v @ t) = Some (v, t)"
proof -
  have d: "skip_spaces (quote v @ t) = quote v @ t" "deref (quote v @ t) = CHR 0x22"
    by (simp_all add: quote_def is_space_char_def)
  obtain b where "quoted_loop (concat (map quote_char v) @ CHR 0x22 # t) None = Some (b, CHR 0x22 # t)"
      "(case b of None \<Rightarrow> [] | Some t \<Rightarrow> t) = v"
    using quoted_loop_quote [OF assms, of t None] by auto
  then have "read_quoted_string (quote v @ t) = Some (v, t)"
    by (simp add: read_quoted_string_def quote_def is_space_char_def)
  then show ?thesis by (simp add: read_token_or_quoted_string_def d)
qed

lemma challenge_loop_param:
  assumes "w \<noteq> []" and "\<forall>c\<in>set w. is_token_char c" and "quotable v"
    and "challenge_param ch w v = Some ch'" and "after_param t = Some s'"
  shows "challenge_loop (w @ CHR ''='' # quote v @ t) ch = challenge_loop s' ch'"
proof -
  have r: "read_token (w @ CHR ''='' # quote v @ t) = Some (w, CHR ''='' # quote v @ t)"
    using assms(1,2) token_facts by (intro read_token_word) auto
  have q: "skip_spaces (CHR ''='' # x) = CHR ''='' # x" "skip_spaces (quote v @ t) = quote v @ t" for x
    by (simp_all add: is_space_char_def quote_def)
  have "deref (w @ CHR ''='' # quote v @ t) \<noteq> NUL"
    using assms(1,2) token_facts(1) by (cases w) auto
  then show ?thesis
    using r assms(4,5) read_value_quote [OF assms(3), of t]
    by (subst challenge_loop.simps) (simp add: q is_space_char_def)
qed

section \<open>Properties\<close>

text \<open>C19: of all the challenges a proxy offers, over all its Proxy-Authenticate fields, the one chosen
  has the best scheme the build supports: Digest before Basic before anything else.\<close>

theorem http_header_get_proxy_challenge_best:
  assumes "http_header_get_proxy_challenge dg h = Some ch"
  shows "best dg (insert http_challenge_init (set (offers h))) ch"
proof -
  have v: "values_of h ''Proxy-Authenticate'' =
      (case http_header_next h [] ''Proxy-Authenticate'' of [] \<Rightarrow> []
       | q # qs \<Rightarrow> hvalue q # values_of qs ''Proxy-Authenticate'')"
    using values_of_next [of "undefined # h" "''Proxy-Authenticate''" h] by (simp add: http_header_next_def)
  have "best dg {http_challenge_init} http_challenge_init"
    by (simp add: best_def http_challenge_init_def)
  from proxy_challenge_loop_best [OF this assms [unfolded http_header_get_proxy_challenge_def]]
  show ?thesis unfolding offers_def v by simp
qed

theorem http_header_get_proxy_challenge_best_witness:
  "\<exists>ch. http_header_get_proxy_challenge True
       [\<lparr>hname = ''Proxy-Authenticate'', hvalue = ''Basic, Digest qop=auth''\<rparr>] = Some ch \<and>
     best True (insert http_challenge_init (set (offers
       [\<lparr>hname = ''Proxy-Authenticate'', hvalue = ''Basic, Digest qop=auth''\<rparr>]))) ch"
proof -
  have "http_header_get_proxy_challenge True
       [\<lparr>hname = ''Proxy-Authenticate'', hvalue = ''Basic, Digest qop=auth''\<rparr>] \<noteq> None" by code_simp
  then show ?thesis using http_header_get_proxy_challenge_best by blast
qed

text \<open>A printed Digest challenge with quoted realm and nonce is read back with these values,
  whatever characters quoting had to escape.\<close>

theorem http_read_challenge_digest:
  assumes "quotable r" and "quotable n"
  shows "http_read_challenge (''Digest realm='' @ quote r @ '', nonce='' @ quote n) =
    Some ([], http_challenge_init\<lparr>ch_scheme := AUTH_DIGEST, ch_realm := Some r, ch_nonce := Some n\<rparr>)"
proof -
  let ?ch = "http_challenge_init\<lparr>ch_scheme := AUTH_DIGEST\<rparr>"
  let ?p1 = "''realm'' @ CHR ''='' # quote r @ ('', nonce='' @ quote n)"
  let ?p2 = "''nonce'' @ CHR ''='' # quote n @ []"
  have tok: "\<forall>c\<in>set ''realm''. is_token_char c" "\<forall>c\<in>set ''nonce''. is_token_char c"
    "\<forall>c\<in>set ''Digest''. is_token_char c" by code_simp+
  have eq: "str_equal_i ''nonce'' ''realm'' = False" "str_equal_i ''Digest'' ''Basic'' = False" by code_simp+
  have a1: "after_param ('', nonce='' @ quote n) = Some ?p2"
    by (simp add: after_param_def is_space_char_def)
  have a2: "after_param [] = Some []" by (simp add: after_param_def)
  have "challenge_loop ?p1 ?ch = challenge_loop ?p2 (?ch\<lparr>ch_realm := Some r\<rparr>)"
    by (rule challenge_loop_param [OF _ tok(1) assms(1) _ a1]) (simp_all add: challenge_param_def)
  also have "\<dots> = challenge_loop [] (?ch\<lparr>ch_realm := Some r, ch_nonce := Some n\<rparr>)"
    by (rule challenge_loop_param [OF _ tok(2) assms(2) _ a2])
      (simp_all add: challenge_param_def eq http_challenge_init_def)
  also have "\<dots> = Some ([], ?ch\<lparr>ch_realm := Some r, ch_nonce := Some n\<rparr>)"
    by (simp add: challenge_loop.simps [of "[]"])
  finally have loop: "challenge_loop ?p1 ?ch = Some ([], ?ch\<lparr>ch_realm := Some r, ch_nonce := Some n\<rparr>)" .
  have "read_token (''Digest'' @ CHR '' '' # ?p1) = Some (''Digest'', CHR '' '' # ?p1)"
    using tok(3) token_facts by (intro read_token_word) simp_all
  moreover have "skip_spaces (CHR '' '' # ?p1) = ?p1" by (simp add: is_space_char_def)
  ultimately have "http_read_challenge (''Digest'' @ CHR '' '' # ?p1) =
      Some ([], ?ch\<lparr>ch_realm := Some r, ch_nonce := Some n\<rparr>)"
    using loop eq(2) by (simp add: http_read_challenge_def)
  then show ?thesis by simp
qed

theorem http_read_challenge_digest_witness:
  "http_read_challenge (''Digest realm='' @ quote [CHR 0x22] @ '', nonce='' @ quote ''abc'') =
    Some ([], http_challenge_init\<lparr>ch_scheme := AUTH_DIGEST, ch_realm := Some [CHR 0x22], ch_nonce := Some ''abc''\<rparr>)"
proof (rule http_read_challenge_digest)
  show "quotable [CHR 0x22]" "quotable ''abc''" by code_simp+
qed

end
