(* ===== verification/Http_Digest.thy ===== *)
theory Http_Digest
  imports Http_Message Http_Auth Ncat_Base64 Nsock_Time "HOL-Library.Monad_Syntax"
begin

text \<open>
  HTTP Digest authentication: \<open>ncat/http_digest.c\<close>, with its two users, \<open>check_auth\<close> of \<open>ncat/ncat_proxy.c\<close>
  and \<open>http_connect_request_auth\<close> of \<open>ncat/ncat_connect.c\<close>. OpenSSL's MD5 is an argument \<open>md5\<close>, a function
  from the bytes it is given to the bytes of the digest; its random numbers and the clock are arguments too.
  A result \<open>None\<close> is a crash (\<open>bye\<close>, or an access out of bounds); \<open>Some None\<close> is \<open>NULL\<close>.
\<close>

section \<open>Digests\<close>

abbreviation (input) EVP_MAX_MD_SIZE :: nat where "EVP_MAX_MD_SIZE \<equiv> 64"
abbreviation (input) SECRET_LENGTH :: nat where "SECRET_LENGTH \<equiv> 16"
abbreviation (input) HTTP_DIGEST_NONCE_EXPIRY :: int where "HTTP_DIGEST_NONCE_EXPIRY \<equiv> 10"

text \<open>What the code relies on: MD5 digests have 16 bytes.\<close>

definition md5_ok :: "(string \<Rightarrow> string) \<Rightarrow> bool" where
  "md5_ok md5 \<longleftrightarrow> (\<forall>x. length (md5 x) = 16)"

text \<open>The calls from \<open>EVP_DigestInit_ex\<close> to \<open>EVP_DigestFinal_ex\<close>, into a buffer of \<open>EVP_MAX_MD_SIZE\<close> bytes.\<close>

definition digest :: "(string \<Rightarrow> string) \<Rightarrow> string list \<Rightarrow> string option" where
  "digest md5 parts = (let h = md5 (concat parts) in if length h \<le> EVP_MAX_MD_SIZE then Some h else None)"

definition hex2 :: "char \<Rightarrow> string" where
  "hex2 c = [''0123456789abcdef'' ! (code c div 16), ''0123456789abcdef'' ! (code c mod 16)]"

text \<open>Into a buffer of \<open>cap\<close> bytes. Without a byte to print, nothing at all is written, and the buffer stays undefined.\<close>

definition enhex :: "nat \<Rightarrow> string \<Rightarrow> string option" where
  "enhex cap src = (if src = [] \<or> cap < length src * 2 + 1 then None else Some (concat (map hex2 src)))"

definition hex_digest :: "(string \<Rightarrow> string) \<Rightarrow> string list \<Rightarrow> string option" where
  "hex_digest md5 parts = Option.bind (digest md5 parts) (enhex (EVP_MAX_MD_SIZE * 2 + 1))"

section \<open>Nonces\<close>

record digest_state =
  secret :: string
  secret_initialized :: bool

text \<open>The answers of \<open>RAND_status\<close> and of \<open>RAND_bytes\<close> (\<open>None\<close> for a failure).\<close>

definition http_digest_init_secret :: "bool \<Rightarrow> string option \<Rightarrow> digest_state \<Rightarrow> digest_state \<times> int" where
  "http_digest_init_secret rand_status rand_bytes st =
     (if \<not> rand_status then (st, -1)
      else case rand_bytes of
        None \<Rightarrow> (st, -1)
      | Some bytes \<Rightarrow> (st\<lparr>secret := bytes, secret_initialized := True\<rparr>, 0))"

text \<open>The conversions between \<open>long\<close> and \<open>unsigned long\<close>.\<close>

definition to_ulong :: "int \<Rightarrow> nat" where
  "to_ulong n = nat (n mod 2 ^ 64)"

definition to_long :: "nat \<Rightarrow> int" where
  "to_long n = (if n < 2 ^ 63 then int n else int n - 2 ^ 64)"

definition zero_pad :: "nat \<Rightarrow> string \<Rightarrow> string" where
  "zero_pad width s = replicate (width - length s) (CHR ''0'') @ s"

text \<open>\<open>Snprintf\<close> into a buffer of 32 bytes cuts the text off.\<close>

definition time_text :: "timeval \<Rightarrow> string" where
  "time_text tv = take 31 (dec (to_ulong (tv_sec tv)) @ ''.'' @ zero_pad 6 (dec (to_ulong (tv_usec tv))))"

definition make_nonce :: "(string \<Rightarrow> string) \<Rightarrow> digest_state \<Rightarrow> timeval \<Rightarrow> string option" where
  "make_nonce md5 st tv =
     (if \<not> secret_initialized st then None
      else do {
        let time_buf = time_text tv;
        hash_hex \<leftarrow> hex_digest md5 [secret st, '':'', time_buf];
        sb \<leftarrow> strbuf_sprintf strbuf_init (time_buf @ ''-'' @ hash_hex);
        strbuf_string sb
      })"

definition make_response ::
  "(string \<Rightarrow> string) \<Rightarrow> string \<Rightarrow> string \<Rightarrow> string \<Rightarrow> string \<Rightarrow> string \<Rightarrow> string \<Rightarrow> http_digest_qop \<Rightarrow>
   string option \<Rightarrow> string option \<Rightarrow> string option" where
  "make_response md5 user rlm password meth uri nonce_str q nc_str cnonce_str = do {
     HA1_hex \<leftarrow> hex_digest md5 [user, '':'', rlm, '':'', password];
     HA2_hex \<leftarrow> hex_digest md5 [meth, '':'', uri];
     more \<leftarrow> (if q = QOP_AUTH
              then do { n \<leftarrow> nc_str; c \<leftarrow> cnonce_str; Some ['':'', n, '':'', c, '':'', ''auth''] }
              else Some []);
     hex_digest md5 ([HA1_hex, '':'', nonce_str] @ more @ ['':'', HA2_hex])
   }"

text \<open>The conversion \<open>%lu\<close> of \<open>sscanf\<close>; a number too large gives \<open>ULONG_MAX\<close>, as \<open>strtoul\<close> does.\<close>

definition scan_ulong :: "string \<Rightarrow> (nat \<times> string) option" where
  "scan_ulong s =
     (let s = dropWhile isspace s;
          neg = (deref s = CHR ''-'');
          s = (if deref s = CHR ''-'' \<or> deref s = CHR ''+'' then tl s else s);
          v = nat (digits_value 0 (takeWhile isdigit s))
      in if \<not> isdigit (deref s) then None
         else Some (if v \<ge> 2 ^ 64 then 2 ^ 64 - 1 else if neg then (2 ^ 64 - v) mod 2 ^ 64 else v,
                    dropWhile isdigit s))"

definition http_digest_nonce_time :: "string \<Rightarrow> timeval option" where
  "http_digest_nonce_time n = do {
     (sec, s) \<leftarrow> scan_ulong n;
     if deref s \<noteq> CHR ''.'' then None
     else do {
       (usec, s) \<leftarrow> scan_ulong (tl s);
       Some \<lparr>tv_sec = to_long sec, tv_usec = to_long usec\<rparr>
     }
   }"

section \<open>Headers\<close>

definition must_escape :: "char \<Rightarrow> bool" where
  "must_escape c \<longleftrightarrow> (0 \<le> schar c \<and> schar c \<le> 31) \<or> schar c = 127 \<or> c = CHR 0x5C"

function quoted_chars :: "strbuf \<Rightarrow> string \<Rightarrow> strbuf option" where
  "quoted_chars buf s =
     (let t = dropWhile (\<lambda>c. \<not> must_escape c) s in do {
        buf \<leftarrow> strbuf_append buf s (length s - length t);
        case t of
          [] \<Rightarrow> Some buf
        | c # s \<Rightarrow> do { buf \<leftarrow> strbuf_sprintf buf [CHR 0x5C, c]; quoted_chars buf s }
      })"
  by pat_completeness auto

termination quoted_chars
proof (relation "measure (length \<circ> snd)", goal_cases)
  case (2 buf s t b c u b')
  then have "length (c # u) \<le> length s" by (metis length_dropWhile_le)
  then show ?case by simp
qed simp

definition append_quoted_string :: "strbuf \<Rightarrow> string \<Rightarrow> strbuf option" where
  "append_quoted_string buf s = do {
     buf \<leftarrow> strbuf_append_str buf [CHR 0x22];
     buf \<leftarrow> quoted_chars buf s;
     strbuf_append_str buf [CHR 0x22]
   }"

text \<open>\<open>now\<close> is \<open>None\<close> if \<open>gettimeofday\<close> fails.\<close>

definition http_digest_proxy_authenticate ::
  "(string \<Rightarrow> string) \<Rightarrow> digest_state \<Rightarrow> timeval option \<Rightarrow> string \<Rightarrow> bool \<Rightarrow> string option option" where
  "http_digest_proxy_authenticate md5 st now rlm stale =
     (case now of
        None \<Rightarrow> Some None
      | Some tv \<Rightarrow> do {
          buf \<leftarrow> strbuf_append_str strbuf_init ''Digest realm='';
          buf \<leftarrow> append_quoted_string buf rlm;
          n \<leftarrow> make_nonce md5 st tv;
          buf \<leftarrow> strbuf_append_str buf '', nonce='';
          buf \<leftarrow> append_quoted_string buf n;
          buf \<leftarrow> strbuf_append_str buf ('', qop='' @ [CHR 0x22] @ ''auth'' @ [CHR 0x22]);
          buf \<leftarrow> (if stale then strbuf_append_str buf '', stale=true'' else Some buf);
          Some (strbuf_string buf)
        })"

definition http_digest_proxy_authorization ::
  "(string \<Rightarrow> string) \<Rightarrow> bool \<Rightarrow> string option \<Rightarrow> http_challenge \<Rightarrow> string \<Rightarrow> string \<Rightarrow> string \<Rightarrow> string \<Rightarrow>
   string option option" where
  "http_digest_proxy_authorization md5 rand_status rand_bytes challenge user password meth uri =
     (case (ch_realm challenge, ch_nonce challenge) of
        (Some rlm, Some n) \<Rightarrow>
          if ch_scheme challenge \<noteq> AUTH_DIGEST \<or> ch_algorithm challenge \<noteq> ALGORITHM_MD5 then Some None
          else if ch_qop challenge AND 1 \<noteq> 0 \<and> (\<not> rand_status \<or> rand_bytes = None) then Some None
          else do {
            let nc_buf = ''00000001'';
            let q = (if ch_qop challenge AND 1 \<noteq> 0 then QOP_AUTH else QOP_NONE);
            cnonce_buf \<leftarrow> (if q = QOP_AUTH then Option.bind rand_bytes (enhex 17) else Some []);
            buf \<leftarrow> strbuf_append_str strbuf_init '' Digest'';
            buf \<leftarrow> strbuf_append_str buf '' username='';
            buf \<leftarrow> append_quoted_string buf user;
            buf \<leftarrow> strbuf_append_str buf '', realm='';
            buf \<leftarrow> append_quoted_string buf rlm;
            buf \<leftarrow> strbuf_append_str buf '', nonce='';
            buf \<leftarrow> append_quoted_string buf n;
            buf \<leftarrow> strbuf_append_str buf '', uri='';
            buf \<leftarrow> append_quoted_string buf uri;
            buf \<leftarrow> (if q = QOP_AUTH
                    then do {
                      buf \<leftarrow> strbuf_append_str buf '', qop=auth'';
                      buf \<leftarrow> strbuf_append_str buf '', cnonce='';
                      buf \<leftarrow> append_quoted_string buf cnonce_buf;
                      strbuf_sprintf buf ('', nc='' @ nc_buf)
                    } else Some buf);
            response_hex \<leftarrow> make_response md5 user rlm password meth uri n q (Some nc_buf) (Some cnonce_buf);
            buf \<leftarrow> strbuf_append_str buf '', response='';
            buf \<leftarrow> append_quoted_string buf response_hex;
            buf \<leftarrow> (case ch_opaque challenge of
                      None \<Rightarrow> Some buf
                    | Some op \<Rightarrow> do { buf \<leftarrow> strbuf_append_str buf '', opaque=''; append_quoted_string buf op });
            buf \<leftarrow> strbuf_append_str buf [CHR 0x0D, CHR 0x0A];
            Some (strbuf_string buf)
          }
      | _ \<Rightarrow> Some None)"

definition http_digest_check_credentials ::
  "(string \<Rightarrow> string) \<Rightarrow> digest_state \<Rightarrow> string \<Rightarrow> string \<Rightarrow> string \<Rightarrow> string \<Rightarrow> http_credentials \<Rightarrow> bool option" where
  "http_digest_check_credentials md5 st user rlm password meth credentials =
     (case credentials of
        Cred_Digest d \<Rightarrow>
          (case (username d, realm d, nonce d, duri d, response d) of
             (Some u, Some r, Some n, Some uri, Some resp) \<Rightarrow>
               if algorithm d \<noteq> ALGORITHM_MD5 then Some False
               else if qop d \<noteq> QOP_NONE \<and> qop d \<noteq> QOP_AUTH then Some False
               else if qop d = QOP_AUTH \<and> (nc d = None \<or> cnonce d = None) then Some False
               else if user \<noteq> u then Some False
               else if rlm \<noteq> r then Some False
               else (case http_digest_nonce_time n of
                  None \<Rightarrow> Some False
                | Some tv \<Rightarrow> do {
                    own \<leftarrow> make_nonce md5 st tv;
                    if own \<noteq> n then Some False
                    else do {
                      response_hex \<leftarrow> make_response md5 u rlm password meth uri n (qop d) (nc d) (cnonce d);
                      Some (response_hex = resp)
                    }
                  })
           | _ \<Rightarrow> Some False)
      | _ \<Rightarrow> Some False)"

section \<open>The two users\<close>

definition bytes_of :: "string \<Rightarrow> u8 list" where
  "bytes_of s = map (\<lambda>c. of_nat (code c)) s"

definition TIMEVAL_SEC_SUBTRACT :: "timeval \<Rightarrow> timeval \<Rightarrow> int" where
  "TIMEVAL_SEC_SUBTRACT a b = tv_sec a - tv_sec b + (if tv_usec a < tv_usec b then -1 else 0)"

text \<open>
  \<open>check_auth\<close> of the proxy: the result and \<open>*stale\<close>. \<open>dg\<close> says whether the build has Digest, \<open>proxy_auth\<close> is
  \<open>o.proxy_auth\<close>, \<open>meth\<close> is \<open>request->method\<close>.
\<close>

definition check_auth ::
  "bool \<Rightarrow> (string \<Rightarrow> string) \<Rightarrow> digest_state \<Rightarrow> timeval \<Rightarrow> string option \<Rightarrow> string option \<Rightarrow> http_credentials \<Rightarrow> bool \<Rightarrow>
   (bool \<times> bool) option" where
  "check_auth dg md5 st now proxy_auth meth credentials stale =
     (case proxy_auth of
        None \<Rightarrow> Some (True, stale)
      | Some pa \<Rightarrow>
          (case credentials of
             Cred_Basic None \<Rightarrow> Some (False, False)
           | Cred_Basic (Some basic) \<Rightarrow> do {
               expected \<leftarrow> b64enc (bytes_of pa);
               Some (expected = basic, False)
             }
           | Cred_Digest d \<Rightarrow>
               if \<not> dg then Some (False, False)
               else (case strchr pa (CHR '':'') of
                 None \<Rightarrow> Some (False, False)
               | Some password \<Rightarrow> do {
                   m \<leftarrow> meth;
                   ret \<leftarrow> http_digest_check_credentials md5 st (mkstr pa password) ''Ncat'' (tl password) m credentials;
                   if \<not> ret then Some (False, False)
                   else (case Option.bind (nonce d) http_digest_nonce_time of
                     None \<Rightarrow> Some (False, False)
                   | Some nonce_tv \<Rightarrow>
                       if TIMEVAL_AFTER nonce_tv now then Some (False, False)
                       else if signed_take_bit 31 (TIMEVAL_SEC_SUBTRACT now nonce_tv) > HTTP_DIGEST_NONCE_EXPIRY
                       then Some (False, True)
                       else Some (True, False))
                 })
           | Cred_Unknown \<Rightarrow> Some (False, False)))"

text \<open>The text of the 407 response; \<open>%s\<close> with a null pointer is undefined.\<close>

definition crlf :: string where
  "crlf = [CHR 0x0D, CHR 0x0A]"

definition proxy_authenticate_response ::
  "bool \<Rightarrow> (string \<Rightarrow> string) \<Rightarrow> digest_state \<Rightarrow> timeval option \<Rightarrow> bool \<Rightarrow> string option option" where
  "proxy_authenticate_response dg md5 st now stale = do {
     buf \<leftarrow> strbuf_append_str strbuf_init (''HTTP/1.0 407 Proxy Authentication Required'' @ crlf);
     buf \<leftarrow> strbuf_append_str buf (''Proxy-Authenticate: Basic realm='' @ [CHR 0x22] @ ''Ncat'' @ [CHR 0x22] @ crlf);
     buf \<leftarrow> (if dg
             then do {
               hdr \<leftarrow> http_digest_proxy_authenticate md5 st now ''Ncat'' stale;
               hdr \<leftarrow> hdr;
               strbuf_sprintf buf (''Proxy-Authenticate: '' @ hdr @ crlf)
             } else Some buf);
     buf \<leftarrow> strbuf_append_str buf crlf;
     Some (strbuf_string buf)
   }"

definition http_code2str :: "int \<Rightarrow> string" where
  "http_code2str n =
     (if n = 200 then ''HTTP/1.0 200 OK'' @ crlf @ crlf
      else if n = 400 then ''HTTP/1.0 400 Bad Request'' @ crlf @ crlf
      else if n = 403 then ''HTTP/1.0 403 Forbidden'' @ crlf @ crlf
      else if n = 405 then ''HTTP/1.0 405 Method Not Allowed'' @ crlf @ ''Allow: CONNECT, GET, HEAD, POST'' @ crlf @ crlf
      else if n = 413 then ''HTTP/1.0 413 Request Entity Too Large'' @ crlf @ crlf
      else if n = 501 then ''HTTP/1.0 501 Not Implemented'' @ crlf @ crlf
      else if n = 504 then ''HTTP/1.0 504 Gateway Timeout'' @ crlf @ crlf
      else ''HTTP/1.0 500 Internal Server Error'' @ crlf @ crlf)"

text \<open>\<open>fam\<close> is the answer of \<open>getaddrfamily\<close>; the text is cut off at the size of the static buffer.\<close>

definition sock_to_url :: "int \<Rightarrow> string \<Rightarrow> nat \<Rightarrow> string" where
  "sock_to_url fam host_str portno =
     take 511 (if fam = 2 then ''['' @ host_str @ '']:'' @ dec portno else host_str @ '':'' @ dec portno)"

definition append_connect_request_line :: "strbuf \<Rightarrow> int \<Rightarrow> string \<Rightarrow> nat \<Rightarrow> strbuf option" where
  "append_connect_request_line buf fam host_str portno =
     strbuf_sprintf buf (''CONNECT '' @ sock_to_url fam host_str portno @ '' HTTP/1.0'' @ crlf)"

definition http_connect_request :: "int \<Rightarrow> string \<Rightarrow> nat \<Rightarrow> (string \<times> nat) option" where
  "http_connect_request fam host_str portno = do {
     buf \<leftarrow> append_connect_request_line strbuf_init fam host_str portno;
     buf \<leftarrow> strbuf_append_str buf crlf;
     s \<leftarrow> strbuf_string buf;
     Some (s, sb_offset buf)
   }"

text \<open>\<open>proxy_auth\<close> is \<open>o.proxy_auth\<close>, not null; \<open>uri\<close> is \<open>sock_to_url(o.target, o.portno)\<close>.\<close>

definition http_connect_request_auth ::
  "bool \<Rightarrow> (string \<Rightarrow> string) \<Rightarrow> bool \<Rightarrow> string option \<Rightarrow> string \<Rightarrow> string \<Rightarrow> int \<Rightarrow> string \<Rightarrow> nat \<Rightarrow> http_challenge \<Rightarrow>
   (string \<times> nat) option option" where
  "http_connect_request_auth dg md5 rand_status rand_bytes proxy_auth uri fam host_str portno challenge = do {
     buf \<leftarrow> append_connect_request_line strbuf_init fam host_str portno;
     buf \<leftarrow> strbuf_append_str buf ''Proxy-Authorization:'';
     buf \<leftarrow> (if ch_scheme challenge = AUTH_BASIC
             then do { auth_str \<leftarrow> b64enc (bytes_of proxy_auth);
                       map_option Some (strbuf_sprintf buf ('' Basic '' @ auth_str @ crlf)) }
             else if dg \<and> ch_scheme challenge = AUTH_DIGEST
             then (case strchr proxy_auth (CHR '':'') of
                     None \<Rightarrow> Some None
                   | Some password \<Rightarrow> do {
                       response_hdr \<leftarrow> http_digest_proxy_authorization md5 rand_status rand_bytes challenge
                         (mkstr proxy_auth password) (tl password) ''CONNECT'' uri;
                       case response_hdr of
                         None \<Rightarrow> Some None
                       | Some hdr \<Rightarrow> map_option Some (strbuf_append_str buf hdr)
                     })
             else None);
     case buf of
       None \<Rightarrow> Some None
     | Some buf \<Rightarrow> do {
         buf \<leftarrow> strbuf_append_str buf crlf;
         s \<leftarrow> strbuf_string buf;
         Some (Some (s, sb_offset buf))
       }
   }"

section \<open>Building texts\<close>

definition appends :: "(strbuf \<Rightarrow> strbuf option) \<Rightarrow> string \<Rightarrow> bool" where
  "appends f s \<longleftrightarrow> (\<forall>sb t. holds sb t \<longrightarrow> (\<exists>sb'. f sb = Some sb' \<and> holds sb' (t @ s) \<and> sb_buf sb' \<noteq> None))"

lemma appends_str: "appends (\<lambda>b. strbuf_append_str b s) s"
  using strbuf_append_str_holds by (simp add: appends_def)

lemma appends_printf: "length s < 2 ^ 31 \<Longrightarrow> appends (\<lambda>b. strbuf_sprintf b s) s"
  using strbuf_sprintf_holds by (simp add: appends_def)

lemma appends_prefix: "n \<le> length s \<Longrightarrow> appends (\<lambda>b. strbuf_append b s n) (take n s)"
  unfolding appends_def using strbuf_append_holds by blast

lemma appends_bind:
  assumes "appends f s" and "appends g r"
  shows "appends (\<lambda>b. f b \<bind> g) (s @ r)"
  unfolding appends_def
proof (intro allI impI)
  fix sb t assume "holds sb t"
  then obtain b1 where b1: "f sb = Some b1" "holds b1 (t @ s)" using assms(1) by (auto simp: appends_def)
  then obtain b2 where "g b1 = Some b2" "holds b2 ((t @ s) @ r)" "sb_buf b2 \<noteq> None" using assms(2) [unfolded appends_def, rule_format, OF b1(2)] by blast
  then show "\<exists>sb'. f sb \<bind> g = Some sb' \<and> holds sb' (t @ s @ r) \<and> sb_buf sb' \<noteq> None" using b1(1) by auto
qed

lemma appends_string:
  assumes "appends f s" and "NUL \<notin> set s"
  shows "\<exists>sb. f strbuf_init = Some sb \<and> strbuf_string sb = Some s \<and> sb_offset sb = length s"
proof -
  obtain sb where sb: "f strbuf_init = Some sb" "holds sb s" "sb_buf sb \<noteq> None"
    using assms(1) holds_init by (fastforce simp: appends_def)
  moreover have "sb_offset sb = length s" using sb(2,3) by (auto simp: holds_def split: option.splits)
  ultimately show ?thesis using holds_string [OF sb(2,3) assms(2)] by blast
qed

definition quoted :: "string \<Rightarrow> string" where
  "quoted s = CHR 0x22 # escape must_escape s @ [CHR 0x22]"

declare quoted_chars.simps [simp del]

lemma appends_quoted_chars: "appends (\<lambda>b. quoted_chars b s) (escape must_escape s)"
proof (induction "length s" arbitrary: s rule: less_induct)
  case less
  define t where "t = dropWhile (\<lambda>c. \<not> must_escape c) s"
  define w where "w = takeWhile (\<lambda>c. \<not> must_escape c) s"
  have s: "s = w @ t" by (simp add: w_def t_def)
  have w: "escape must_escape w = w" by (rule escape_plain) (auto simp: w_def dest: set_takeWhileD)
  have one: "appends (\<lambda>b. strbuf_append b s (length s - length t)) w"
    using appends_prefix [of "length w" s] by (simp add: s)
  have "quoted_chars b s = strbuf_append b s (length s - length t) \<bind> (\<lambda>b. case t of [] \<Rightarrow> Some b
      | c # s \<Rightarrow> strbuf_sprintf b [CHR 0x5C, c] \<bind> (\<lambda>b. quoted_chars b s))" for b
    by (subst quoted_chars.simps) (simp add: t_def Let_def)
  note eq = this
  show ?case
  proof (cases t)
    case Nil
    then have "appends (\<lambda>b. quoted_chars b s) w" using one by (simp add: eq)
    then show ?thesis using w Nil s by simp
  next
    case (Cons c u)
    have c: "must_escape c" using hd_dropWhile [of "\<lambda>c. \<not> must_escape c" s, folded t_def] Cons by simp
    have "appends (\<lambda>b. quoted_chars b u) (escape must_escape u)" by (rule less.hyps) (simp add: s Cons)
    then have "appends (\<lambda>b. strbuf_append b s (length s - length t) \<bind>
        (\<lambda>b. strbuf_sprintf b [CHR 0x5C, c] \<bind> (\<lambda>b. quoted_chars b u))) (w @ [CHR 0x5C, c] @ escape must_escape u)"
      by (intro appends_bind one appends_printf) simp_all
    moreover have "escape must_escape s = w @ [CHR 0x5C, c] @ escape must_escape u"
      using w c by (simp add: s Cons escape_append)
    ultimately show ?thesis by (simp add: eq Cons)
  qed
qed

lemma appends_quoted: "appends (\<lambda>b. append_quoted_string b s) (quoted s)"
proof -
  have "appends (\<lambda>b. append_quoted_string b s) ([CHR 0x22] @ escape must_escape s @ [CHR 0x22])"
    unfolding append_quoted_string_def by (intro appends_bind appends_str appends_quoted_chars)
  then show ?thesis by (simp add: quoted_def)
qed

section \<open>Nonces are recognised\<close>

abbreviation hexs :: "string \<Rightarrow> string" where
  "hexs s \<equiv> concat (map hex2 s)"

definition hexchars :: string where
  "hexchars = ''0123456789abcdef''"

lemma hex2_chars: "hex2 c = [hexchars ! (code c div 16), hexchars ! (code c mod 16)]"
  by (simp add: hex2_def hexchars_def)

lemma code_hex: "code c div 16 < length hexchars" "code c mod 16 < length hexchars"
proof -
  have "code c mod 256 < 256" by (rule mod_less_divisor) simp
  then have "code c < 16 * 16" by (simp only: of_char_mod_256)
  then have "code c div 16 < 16" by (rule less_mult_imp_div_less)
  moreover have "length hexchars = 16" by (simp add: hexchars_def)
  ultimately show "code c div 16 < length hexchars" "code c mod 16 < length hexchars" by simp_all
qed

lemma set_hexs: "set (hexs s) \<subseteq> set hexchars"
proof
  fix x assume "x \<in> set (hexs s)"
  then obtain c where "x \<in> set (hex2 c)" by auto
  then show "x \<in> set hexchars" using code_hex [of c] by (auto simp: hex2_chars in_set_conv_nth)
qed

lemma hexchars_plain: "c \<in> set hexchars \<Longrightarrow> \<not> must_escape c \<and> c \<noteq> CHR 0x22 \<and> c \<noteq> NUL"
  by (simp add: hexchars_def must_escape_def schar_def) (elim disjE; simp)

lemma hex2_inj: "hex2 c = hex2 d \<longleftrightarrow> c = d"
proof
  assume e: "hex2 c = hex2 d"
  have "distinct hexchars" by (simp add: hexchars_def)
  then have "code c div 16 = code d div 16" "code c mod 16 = code d mod 16"
    using e nth_eq_iff_index_eq [OF _ code_hex(1) code_hex(1)] nth_eq_iff_index_eq [OF _ code_hex(2) code_hex(2)]
    by (simp_all add: hex2_chars)
  then have "code c = code d" by (metis div_mult_mod_eq)
  then show "c = d" by simp
qed simp

lemma hexs_inj: "hexs s = hexs t \<longleftrightarrow> s = t"
proof
  show "hexs s = hexs t \<Longrightarrow> s = t"
  proof (induction s arbitrary: t)
    case Nil
    then show ?case by (cases t) (simp_all add: hex2_def)
  next
    case (Cons c s)
    then obtain d u where t: "t = d # u" by (cases t) (simp_all add: hex2_def)
    have "length (hex2 c) = length (hex2 d)" by (simp add: hex2_def)
    then have "hex2 c = hex2 d \<and> hexs s = hexs u" using Cons.prems by (simp add: t)
    then show ?case using Cons.IH by (simp add: t hex2_inj)
  qed
qed simp

lemma length_hexs: "length (hexs s) = 2 * length s"
  by (induction s) (simp_all add: hex2_def)

lemma hex_digest_eq: "md5_ok md5 \<Longrightarrow> hex_digest md5 parts = Some (hexs (md5 (concat parts)))"
  by (auto simp: hex_digest_def digest_def enhex_def md5_ok_def Let_def dest: spec [of _ "concat parts"])

lemma digit_plain: "isdigit c \<Longrightarrow> \<not> must_escape c \<and> c \<noteq> CHR 0x22 \<and> c \<noteq> NUL \<and> c \<noteq> CHR ''-'' \<and> c \<noteq> CHR ''+'' \<and> \<not> isspace c"
  by (auto simp: isdigit_def must_escape_def schar_def isspace_def)

lemma separators_plain: "\<not> must_escape (CHR ''.'')" "\<not> must_escape (CHR ''-'')"
  by (simp_all add: must_escape_def schar_def)

lemma zero_pad_digits: "list_all isdigit s \<Longrightarrow> list_all isdigit (zero_pad n s)"
  by (auto simp: zero_pad_def list_all_iff isdigit_def)

lemma digits_value_zeros: "digits_value 0 (replicate n (CHR ''0'') @ s) = digits_value 0 s"
  by (induction n) simp_all

lemma digits_value_pad: "digits_value 0 (zero_pad n s) = digits_value 0 s"
  by (simp add: zero_pad_def digits_value_zeros)

lemma length_dec: "n < 10 ^ k \<Longrightarrow> 0 < k \<Longrightarrow> length (dec n) \<le> k"
proof (induction n arbitrary: k rule: dec.induct)
  case (1 n)
  show ?case
  proof (cases "n < 10")
    case True
    then show ?thesis using 1(3) by (subst dec.simps) simp
  next
    case False
    then obtain j where k: "k = Suc j" "0 < j" using 1(2,3) by (cases k; cases "k - 1") auto
    then have "n div 10 < 10 ^ j" using 1(2) by (simp add: less_mult_imp_div_less mult.commute)
    then show ?thesis using 1(1) [OF False _ k(2)] False k(1) by (subst dec.simps) simp
  qed
qed

lemma scan_ulong_digits:
  assumes "list_all isdigit ds" and "ds \<noteq> []" and "\<not> isdigit (deref t)" and "digits_value 0 ds = int n" and "n < 2 ^ 64"
  shows "scan_ulong (ds @ t) = Some (n, t)"
proof -
  have h: "isdigit (deref (ds @ t))" using assms(1,2) by (cases ds) auto
  then have "dropWhile isspace (ds @ t) = ds @ t" using digit_plain by (cases "ds @ t") auto
  then show ?thesis
    using h digit_plain [OF h] takeWhile_digits [OF assms(1,3)] assms(4,5) by (simp add: scan_ulong_def Let_def)
qed

definition valid_time :: "timeval \<Rightarrow> bool" where
  "valid_time tv \<longleftrightarrow> 0 \<le> tv_sec tv \<and> tv_sec tv < 2 ^ 63 \<and> 0 \<le> tv_usec tv \<and> tv_usec tv < 1000000"

lemma time_text_eq:
  assumes "valid_time tv"
  shows "time_text tv = dec (nat (tv_sec tv)) @ ''.'' @ zero_pad 6 (dec (nat (tv_usec tv)))"
proof -
  have u: "to_ulong (tv_sec tv) = nat (tv_sec tv)" "to_ulong (tv_usec tv) = nat (tv_usec tv)"
    using assms by (simp_all add: to_ulong_def valid_time_def)
  have "nat (tv_sec tv) < 10 ^ 19" "nat (tv_usec tv) < 10 ^ 6" using assms by (auto simp: valid_time_def nat_less_iff)
  then have "length (dec (nat (tv_sec tv))) \<le> 19" "length (dec (nat (tv_usec tv))) \<le> 6" using length_dec by simp_all
  then show ?thesis by (simp add: time_text_def u zero_pad_def)
qed

definition nonce_text :: "(string \<Rightarrow> string) \<Rightarrow> digest_state \<Rightarrow> timeval \<Rightarrow> string" where
  "nonce_text md5 st tv = time_text tv @ ''-'' @ hexs (md5 (secret st @ '':'' @ time_text tv))"

lemma time_text_plain: "c \<in> set (time_text tv) \<Longrightarrow> \<not> must_escape c \<and> c \<noteq> CHR 0x22 \<and> c \<noteq> NUL"
proof -
  assume "c \<in> set (time_text tv)"
  then have "c \<in> set (dec (to_ulong (tv_sec tv)) @ ''.'' @ zero_pad 6 (dec (to_ulong (tv_usec tv))))"
    unfolding time_text_def by (rule in_set_takeD)
  then have "isdigit c \<or> c = CHR ''.''"
    using dec_digits zero_pad_digits [OF dec_digits] by (fastforce simp: list_all_iff)
  then show ?thesis using digit_plain [of c] separators_plain by auto
qed

lemma nonce_text_plain: "c \<in> set (nonce_text md5 st tv) \<Longrightarrow> \<not> must_escape c \<and> c \<noteq> CHR 0x22 \<and> c \<noteq> NUL"
  using time_text_plain [of c tv] hexchars_plain [of c] set_hexs [of "md5 (secret st @ '':'' @ time_text tv)"]
  separators_plain by (auto simp: nonce_text_def)

lemma length_nonce_text: "md5_ok md5 \<Longrightarrow> length (nonce_text md5 st tv) \<le> 64"
proof -
  assume "md5_ok md5"
  then have "length (md5 (secret st @ '':'' @ time_text tv)) = 16" by (simp only: md5_ok_def)
  moreover have "length (time_text tv) \<le> 31" by (simp add: time_text_def)
  ultimately show ?thesis by (simp add: nonce_text_def length_hexs)
qed

lemma make_nonce_eq:
  assumes "md5_ok md5" and "secret_initialized st"
  shows "make_nonce md5 st tv = Some (nonce_text md5 st tv)"
proof -
  have "NUL \<notin> set (nonce_text md5 st tv)" using nonce_text_plain by blast
  moreover have "length (nonce_text md5 st tv) < 2 ^ 31" using length_nonce_text [OF assms(1), of st tv] by simp
  ultimately obtain sb where "strbuf_sprintf strbuf_init (nonce_text md5 st tv) = Some sb" "strbuf_string sb = Some (nonce_text md5 st tv)"
    using appends_string [OF appends_printf] by blast
  then show ?thesis using assms by (simp add: make_nonce_def hex_digest_eq nonce_text_def Let_def)
qed

lemma nonce_time_eq:
  assumes "valid_time tv"
  shows "http_digest_nonce_time (nonce_text md5 st tv) = Some tv"
proof -
  define r where "r = ''-'' @ hexs (md5 (secret st @ '':'' @ time_text tv))"
  have sec: "scan_ulong (dec (nat (tv_sec tv)) @ CHR ''.'' # t) = Some (nat (tv_sec tv), CHR ''.'' # t)" for t
    using assms by (intro scan_ulong_digits [OF dec_digits]) (auto simp: isdigit_def digits_value_dec valid_time_def nat_less_iff)
  have "zero_pad 6 (dec (nat (tv_usec tv))) \<noteq> []" by (simp add: zero_pad_def)
  then have usec: "scan_ulong (zero_pad 6 (dec (nat (tv_usec tv))) @ r) = Some (nat (tv_usec tv), r)"
    using assms by (intro scan_ulong_digits [OF zero_pad_digits [OF dec_digits]])
      (auto simp: isdigit_def digits_value_pad digits_value_dec valid_time_def nat_less_iff r_def)
  have "nonce_text md5 st tv = dec (nat (tv_sec tv)) @ CHR ''.'' # (zero_pad 6 (dec (nat (tv_usec tv))) @ r)"
    by (simp add: nonce_text_def time_text_eq [OF assms] r_def)
  moreover have "to_long (nat (tv_sec tv)) = tv_sec tv" "to_long (nat (tv_usec tv)) = tv_usec tv"
    using assms by (simp_all add: to_long_def valid_time_def nat_less_iff)
  ultimately show ?thesis using sec usec by (simp add: http_digest_nonce_time_def)
qed

section \<open>Parameters\<close>

text \<open>Strings that \<open>append_quoted_string\<close> quotes correctly: it does not escape quotation marks.\<close>

definition plain_text :: "string \<Rightarrow> bool" where
  "plain_text s \<longleftrightarrow> CHR 0x22 \<notin> set s \<and> NUL \<notin> set s"

lemma schar_0: "schar c = 0 \<longleftrightarrow> c = NUL"
proof -
  have "code c mod 256 < 256" by (rule mod_less_divisor) simp
  then have "code c < 256" by (simp only: of_char_mod_256)
  then have "int (code c) - 256 \<noteq> 0" by linarith
  moreover have "c \<noteq> NUL" if "\<not> code c < 128" using that by auto
  ultimately show ?thesis unfolding schar_def by (cases "code c < 128") auto
qed

lemma plain_escapes: "plain_text s \<Longrightarrow> escapes must_escape s"
  unfolding escapes_def
proof
  fix c assume "plain_text s" "c \<in> set s"
  then have "c \<noteq> CHR 0x22" "c \<noteq> NUL" by (auto simp: plain_text_def)
  then show "if must_escape c then 0 < schar c
     else c \<noteq> CHR 0x22 \<and> c \<noteq> CHR 0x5C \<and> (\<not> is_ctl_char (schar c) \<or> is_space_char c)"
    using schar_0 [of c] by (auto simp: must_escape_def is_ctl_char_def schar_def)
qed

lemma read_value_quoted:
  assumes "plain_text v"
  shows "read_token_or_quoted_string (quoted v @ t) = Some (v, t)"
proof -
  have d: "skip_spaces (quoted v @ t) = quoted v @ t" "deref (quoted v @ t) = CHR 0x22"
    by (simp_all add: quoted_def is_space_char_def)
  obtain b where "quoted_loop (escape must_escape v @ CHR 0x22 # t) None = Some (b, CHR 0x22 # t)"
      "(case b of None \<Rightarrow> [] | Some t \<Rightarrow> t) = v"
    using quoted_loop_escape [OF plain_escapes [OF assms], of t None] by auto
  then have "read_quoted_string (quoted v @ t) = Some (v, t)"
    by (simp add: read_quoted_string_def quoted_def is_space_char_def)
  then show ?thesis by (simp add: read_token_or_quoted_string_def d)
qed

text \<open>A parameter: its name, the text of its value, and the value.\<close>

type_synonym param = "string \<times> string \<times> string"

fun good_param :: "param \<Rightarrow> bool" where
  "good_param (w, x, v) \<longleftrightarrow> w \<noteq> [] \<and> (\<forall>c\<in>set w. is_token_char c) \<and> x \<noteq> [] \<and> \<not> is_space_char (hd x) \<and>
     (\<forall>t. deref t = NUL \<or> deref t = CHR '','' \<longrightarrow> read_token_or_quoted_string (x @ t) = Some (v, t))"

fun params_text :: "param list \<Rightarrow> string" where
  "params_text [] = []"
| "params_text [(w, x, v)] = w @ CHR ''='' # x"
| "params_text ((w, x, v) # p # ps) = w @ CHR ''='' # x @ '', '' @ params_text (p # ps)"

fun set_params :: "('d \<Rightarrow> string \<Rightarrow> string \<Rightarrow> 'd option) \<Rightarrow> param list \<Rightarrow> 'd \<Rightarrow> 'd option" where
  "set_params f [] d = Some d"
| "set_params f ((w, x, v) # ps) d = Option.bind (f d w v) (set_params f ps)"

lemma good_quoted: "w \<noteq> [] \<Longrightarrow> \<forall>c\<in>set w. is_token_char c \<Longrightarrow> plain_text v \<Longrightarrow> good_param (w, quoted v, v)"
  by (simp add: read_value_quoted) (simp add: quoted_def is_space_char_def)

lemma good_token:
  assumes "w \<noteq> []" and "\<forall>c\<in>set w. is_token_char c" and "v \<noteq> []" and "\<forall>c\<in>set v. is_token_char c"
  shows "good_param (w, v, v)"
proof -
  have v: "is_token_char (hd v)" using assms(3,4) by (cases v) auto
  have "read_token_or_quoted_string (v @ t) = Some (v, t)" if "deref t = NUL \<or> deref t = CHR '',''" for t
  proof -
    have "\<not> is_token_char (deref t)" using that token_facts by auto
    then have "read_token (v @ t) = Some (v, t)" by (rule read_token_word [OF assms(3,4)])
    moreover have "skip_spaces (v @ t) = v @ t" "deref (v @ t) \<noteq> CHR 0x22"
      using v assms(3) token_facts by (cases v; auto simp: is_space_char_def)+
    ultimately show ?thesis by (simp add: read_token_or_quoted_string_def)
  qed
  moreover have "\<not> is_space_char c" if "is_token_char c" for c using that token_facts by (auto simp: is_space_char_def)
  ultimately show ?thesis using assms v by simp
qed

lemma param_read:
  assumes "good_param (w, x, v)" and "deref t = NUL \<or> deref t = CHR '',''"
  shows "deref (w @ CHR ''='' # x @ t) \<noteq> NUL" "read_token (w @ CHR ''='' # x @ t) = Some (w, CHR ''='' # x @ t)"
    "skip_spaces (CHR ''='' # x @ t) = CHR ''='' # x @ t" "skip_spaces (x @ t) = x @ t"
    "read_token_or_quoted_string (x @ t) = Some (v, t)"
proof -
  have w: "w \<noteq> []" "\<forall>c\<in>set w. is_token_char c" "x \<noteq> []" "\<not> is_space_char (hd x)" using assms(1) by auto
  show "deref (w @ CHR ''='' # x @ t) \<noteq> NUL" using w(1,2) token_facts(1) by (cases w) auto
  show "read_token (w @ CHR ''='' # x @ t) = Some (w, CHR ''='' # x @ t)"
    using w(1,2) token_facts by (intro read_token_word) auto
  show "skip_spaces (CHR ''='' # x @ t) = CHR ''='' # x @ t" by (simp add: is_space_char_def)
  show "skip_spaces (x @ t) = x @ t" using w(3,4) by (cases x) auto
  show "read_token_or_quoted_string (x @ t) = Some (v, t)" using assms by auto
qed

lemma params_text_start:
  assumes "good_param p"
  shows "deref (params_text (p # ps)) \<noteq> NUL" "skip_spaces (params_text (p # ps)) = params_text (p # ps)"
    "is_token_char (deref (params_text (p # ps)))"
proof -
  obtain w x v where p: "p = (w, x, v)" by (cases p)
  then have w: "w \<noteq> []" "is_token_char (hd w)" using assms by (cases w; auto)+
  then obtain c u where c: "params_text (p # ps) = c # u" "is_token_char c" by (cases w; cases ps) (auto simp: p)
  then show "deref (params_text (p # ps)) \<noteq> NUL" "skip_spaces (params_text (p # ps)) = params_text (p # ps)"
    "is_token_char (deref (params_text (p # ps)))"
    using token_facts by (auto simp: is_space_char_def)
qed

lemma params_text_cases:
  assumes "good_param (w, x, v)" and "\<forall>p\<in>set ps. good_param p"
  shows "\<exists>t. params_text ((w, x, v) # ps) = w @ CHR ''='' # x @ t \<and> (deref t = NUL \<or> deref t = CHR '','') \<and>
    after_param t = Some (params_text ps)"
proof (cases ps)
  case Nil
  then show ?thesis by (intro exI [of _ "[]"]) (simp add: after_param_def)
next
  case (Cons p qs)
  then have "deref (params_text ps) \<noteq> NUL" "skip_spaces (params_text ps) = params_text ps"
    using assms(2) params_text_start by auto
  then have "after_param ('', '' @ params_text ps) = Some (params_text ps)"
    by (simp add: after_param_def is_space_char_def)
  then show ?thesis using Cons by (intro exI [of _ "'', '' @ params_text ps"]) simp
qed

lemma credentials_loop_params:
  "\<forall>p\<in>set ps. good_param p \<Longrightarrow> set_params credential_param ps d = Some d' \<Longrightarrow>
    credentials_loop (params_text ps) d = Some ([], d')"
proof (induction ps arbitrary: d)
  case Nil
  then show ?case by (simp add: credentials_loop.simps [of "[]"])
next
  case (Cons p ps)
  obtain w x v where p: "p = (w, x, v)" by (cases p)
  obtain d1 where d1: "credential_param d w v = Some d1" "set_params credential_param ps d1 = Some d'"
    using Cons.prems(2) by (auto simp: p split: bind_splits)
  have g: "good_param (w, x, v)" "\<forall>p\<in>set ps. good_param p" using Cons.prems(1) p by auto
  obtain t where t: "params_text (p # ps) = w @ CHR ''='' # x @ t" "deref t = NUL \<or> deref t = CHR '',''"
      "after_param t = Some (params_text ps)"
    using params_text_cases [OF g] p by auto
  note r = param_read [OF g(1) t(2)]
  show ?case
    unfolding t(1) using r d1(1) t(3) Cons.IH [OF g(2) d1(2)] by (subst credentials_loop.simps) (simp add: Let_def)
qed

lemma challenge_loop_params:
  "\<forall>p\<in>set ps. good_param p \<Longrightarrow> set_params challenge_param ps d = Some d' \<Longrightarrow>
    challenge_loop (params_text ps) d = Some ([], d')"
proof (induction ps arbitrary: d)
  case Nil
  then show ?case by (simp add: challenge_loop.simps [of "[]"])
next
  case (Cons p ps)
  obtain w x v where p: "p = (w, x, v)" by (cases p)
  obtain d1 where d1: "challenge_param d w v = Some d1" "set_params challenge_param ps d1 = Some d'"
    using Cons.prems(2) by (auto simp: p split: bind_splits)
  have g: "good_param (w, x, v)" "\<forall>p\<in>set ps. good_param p" using Cons.prems(1) p by auto
  obtain t where t: "params_text (p # ps) = w @ CHR ''='' # x @ t" "deref t = NUL \<or> deref t = CHR '',''"
      "after_param t = Some (params_text ps)"
    using params_text_cases [OF g] p by auto
  note r = param_read [OF g(1) t(2)]
  show ?case
    unfolding t(1) using r d1(1) t(3) Cons.IH [OF g(2) d1(2)] by (subst challenge_loop.simps) (simp add: Let_def)
qed

lemma param_names:
  "\<not> str_equal_i ''realm'' ''username''" "\<not> str_equal_i ''nonce'' ''username''" "\<not> str_equal_i ''nonce'' ''realm''"
  "\<not> str_equal_i ''uri'' ''username''" "\<not> str_equal_i ''uri'' ''realm''" "\<not> str_equal_i ''uri'' ''nonce''"
  "\<not> str_equal_i ''response'' ''username''" "\<not> str_equal_i ''response'' ''realm''" "\<not> str_equal_i ''response'' ''nonce''"
  "\<not> str_equal_i ''response'' ''uri''" "\<not> str_equal_i ''qop'' ''username''" "\<not> str_equal_i ''qop'' ''realm''"
  "\<not> str_equal_i ''qop'' ''nonce''" "\<not> str_equal_i ''qop'' ''uri''" "\<not> str_equal_i ''qop'' ''response''"
  "\<not> str_equal_i ''qop'' ''algorithm''" "\<not> str_equal_i ''cnonce'' ''username''" "\<not> str_equal_i ''cnonce'' ''realm''"
  "\<not> str_equal_i ''cnonce'' ''nonce''" "\<not> str_equal_i ''cnonce'' ''uri''" "\<not> str_equal_i ''cnonce'' ''response''"
  "\<not> str_equal_i ''cnonce'' ''algorithm''" "\<not> str_equal_i ''cnonce'' ''qop''" "\<not> str_equal_i ''nc'' ''username''"
  "\<not> str_equal_i ''nc'' ''realm''" "\<not> str_equal_i ''nc'' ''nonce''" "\<not> str_equal_i ''nc'' ''uri''"
  "\<not> str_equal_i ''nc'' ''response''" "\<not> str_equal_i ''nc'' ''algorithm''" "\<not> str_equal_i ''nc'' ''qop''"
  "\<not> str_equal_i ''nc'' ''cnonce''" "\<not> str_equal_i ''stale'' ''realm''" "\<not> str_equal_i ''stale'' ''nonce''"
  "\<not> str_equal_i ''stale'' ''opaque''" "\<not> str_equal_i ''stale'' ''algorithm''" "\<not> str_equal_i ''stale'' ''qop''"
  "\<not> str_equal_i ''qop'' ''opaque''" "\<not> str_equal_i ''Digest'' ''Basic''"
  by code_simp+

section \<open>What client and proxy write\<close>

text \<open>A function that appends a text to a buffer and returns the whole.\<close>

definition yields :: "(strbuf \<Rightarrow> string option option) \<Rightarrow> string \<Rightarrow> bool" where
  "yields g s \<longleftrightarrow> (\<forall>sb t. holds sb t \<longrightarrow> sb_buf sb \<noteq> None \<longrightarrow> NUL \<notin> set (t @ s) \<longrightarrow> g sb = Some (Some (t @ s)))"

lemma yields_end: "yields (\<lambda>b. Some (strbuf_string b)) []"
  using holds_string by (simp add: yields_def)

lemma yields_bind:
  assumes "appends f s" and "yields g r"
  shows "yields (\<lambda>b. f b \<bind> g) (s @ r)"
  unfolding yields_def
proof (intro allI impI)
  fix sb t assume h: "holds sb t" "NUL \<notin> set (t @ s @ r)"
  then obtain b1 where b1: "f sb = Some b1" "holds b1 (t @ s)" "sb_buf b1 \<noteq> None" using assms(1) unfolding appends_def by blast
  have "g b1 = Some (Some ((t @ s) @ r))"
    by (rule assms(2) [unfolded yields_def, rule_format, OF b1(2,3)]) (use h(2) in simp)
  then show "f sb \<bind> g = Some (Some (t @ s @ r))" using b1(1) by simp
qed

lemma yields_start:
  assumes "appends f s" and "yields g r" and "NUL \<notin> set (s @ r)"
  shows "f strbuf_init \<bind> g = Some (Some (s @ r))"
proof -
  obtain b1 where b1: "f strbuf_init = Some b1" "holds b1 ([] @ s)" "sb_buf b1 \<noteq> None"
    using assms(1) holds_init unfolding appends_def by blast
  have "g b1 = Some (Some (([] @ s) @ r))"
    by (rule assms(2) [unfolded yields_def, rule_format, OF b1(2,3)]) (use assms(3) in simp)
  then show ?thesis using b1(1) by simp
qed

lemmas text_rules = yields_bind yields_end appends_str appends_quoted appends_printf

lemma NUL_quoted: "plain_text v \<Longrightarrow> NUL \<notin> set (quoted v)"
  by (auto simp: quoted_def escape_def plain_text_def split: if_splits)

lemma plain_nonce: "plain_text (nonce_text md5 st tv)"
  using nonce_text_plain unfolding plain_text_def by blast

lemma plain_hexs: "plain_text (hexs s)"
  using set_hexs [of s] hexchars_plain unfolding plain_text_def by blast

definition challenge_params :: "string \<Rightarrow> string \<Rightarrow> bool \<Rightarrow> param list" where
  "challenge_params rlm n stale =
     [(''realm'', quoted rlm, rlm), (''nonce'', quoted n, n), (''qop'', quoted ''auth'', ''auth'')] @
     (if stale then [(''stale'', ''true'', ''true'')] else [])"

lemma quoted_auth: "quoted ''auth'' = [CHR 0x22] @ ''auth'' @ [CHR 0x22]"
  by code_simp

lemma authenticate_text:
  assumes "md5_ok md5" and "secret_initialized st" and "plain_text rlm"
  shows "http_digest_proxy_authenticate md5 st (Some tv) rlm stale =
    Some (Some (''Digest '' @ params_text (challenge_params rlm (nonce_text md5 st tv) stale)))"
proof -
  let ?n = "nonce_text md5 st tv"
  let ?q = "'', qop='' @ [CHR 0x22] @ ''auth'' @ [CHR 0x22]"
  have nul: "NUL \<notin> set (quoted rlm)" "NUL \<notin> set (quoted ?n)" using NUL_quoted [OF assms(3)] NUL_quoted [OF plain_nonce] .
  show ?thesis
  proof (cases stale)
    case True
    have "http_digest_proxy_authenticate md5 st (Some tv) rlm True =
      Some (Some (''Digest realm='' @ quoted rlm @ '', nonce='' @ quoted ?n @ ?q @ '', stale=true'' @ []))"
      unfolding http_digest_proxy_authenticate_def option.case make_nonce_eq [OF assms(1,2)] bind.bind_lunit if_True
      by (intro yields_start text_rules) (use nul in auto)
    then show ?thesis using True by (simp add: challenge_params_def quoted_auth)
  next
    case False
    have "http_digest_proxy_authenticate md5 st (Some tv) rlm False =
      Some (Some (''Digest realm='' @ quoted rlm @ '', nonce='' @ quoted ?n @ ?q @ []))"
      unfolding http_digest_proxy_authenticate_def option.case make_nonce_eq [OF assms(1,2)] bind.bind_lunit if_False bind_rzero
      by (intro yields_start text_rules) (use nul in auto)
    then show ?thesis using False by (simp add: challenge_params_def quoted_auth)
  qed
qed

lemma challenge_read:
  assumes "plain_text rlm" and "plain_text n"
  shows "http_read_challenge (''Digest '' @ params_text (challenge_params rlm n stale)) =
    Some ([], http_challenge_init\<lparr>ch_scheme := AUTH_DIGEST, ch_realm := Some rlm, ch_nonce := Some n, ch_qop := 1\<rparr>)"
proof -
  let ?ch = "http_challenge_init\<lparr>ch_scheme := AUTH_DIGEST\<rparr>"
  let ?p = "params_text (challenge_params rlm n stale)"
  have tok: "\<forall>c\<in>set ''realm''. is_token_char c" "\<forall>c\<in>set ''nonce''. is_token_char c" "\<forall>c\<in>set ''qop''. is_token_char c"
    "\<forall>c\<in>set ''stale''. is_token_char c" "\<forall>c\<in>set ''true''. is_token_char c" "\<forall>c\<in>set ''Digest''. is_token_char c"
    "plain_text ''auth''" by code_simp+
  have g: "good_param (''realm'', quoted rlm, rlm)" "good_param (''nonce'', quoted n, n)" "good_param (''qop'', quoted ''auth'', ''auth'')"
    "good_param (''stale'', ''true'', ''true'')"
    using good_quoted [OF _ tok(1) assms(1)] good_quoted [OF _ tok(2) assms(2)] good_quoted [OF _ tok(3,7)]
      good_token [OF _ tok(4) _ tok(5)] by blast+
  have good: "\<forall>p\<in>set (challenge_params rlm n stale). good_param p"
    using g by (simp only: challenge_params_def set_append list.set ball_simps ball_Un if_split) simp
  have l: "read_token_list ''auth'' = Some ([''auth''], [])" "str_equal_i ''auth'' ''auth''" by code_simp+
  have "set_params challenge_param (challenge_params rlm n stale) ?ch =
      Some (?ch\<lparr>ch_realm := Some rlm, ch_nonce := Some n, ch_qop := 1\<rparr>)"
    by (simp add: challenge_params_def challenge_param_def param_names l qop_bit_def http_challenge_init_def)
  from challenge_loop_params [OF good this] have loop: "challenge_loop ?p ?ch = Some ([], ?ch\<lparr>ch_realm := Some rlm, ch_nonce := Some n, ch_qop := 1\<rparr>)" .
  have c: "challenge_params rlm n stale = (''realm'', quoted rlm, rlm) # tl (challenge_params rlm n stale)"
    by (simp add: challenge_params_def)
  have st: "deref ?p \<noteq> NUL" "skip_spaces ?p = ?p" "deref ?p \<noteq> CHR '',''"
    using params_text_start [OF g(1), of "tl (challenge_params rlm n stale)"] token_facts
    by (simp_all only: c [symmetric]) auto
  have "read_token (''Digest'' @ CHR '' '' # ?p) = Some (''Digest'', CHR '' '' # ?p)"
    using tok(6) token_facts by (intro read_token_word) simp_all
  moreover have "skip_spaces (CHR '' '' # ?p) = ?p" using st(2) by (simp add: is_space_char_def)
  ultimately have "http_read_challenge (''Digest'' @ CHR '' '' # ?p) =
      Some ([], ?ch\<lparr>ch_realm := Some rlm, ch_nonce := Some n, ch_qop := 1\<rparr>)"
    using loop st(3) by (simp add: http_read_challenge_def param_names Let_def)
  then show ?thesis by simp
qed

text \<open>The response, as a term.\<close>

definition ha1_text :: "string \<Rightarrow> string \<Rightarrow> string \<Rightarrow> string" where
  "ha1_text user rlm password = user @ '':'' @ rlm @ '':'' @ password"

definition response_text ::
  "(string \<Rightarrow> string) \<Rightarrow> string \<Rightarrow> string \<Rightarrow> string \<Rightarrow> string \<Rightarrow> string \<Rightarrow> string \<Rightarrow> string \<Rightarrow> string" where
  "response_text md5 user rlm password meth uri n extra =
     hexs (md5 (ha1_text user rlm password)) @ '':'' @ n @ extra @ '':'' @ hexs (md5 (meth @ '':'' @ uri))"

definition response_of ::
  "(string \<Rightarrow> string) \<Rightarrow> string \<Rightarrow> string \<Rightarrow> string \<Rightarrow> string \<Rightarrow> string \<Rightarrow> string \<Rightarrow> string \<Rightarrow> string" where
  "response_of md5 user rlm password meth uri n extra = hexs (md5 (response_text md5 user rlm password meth uri n extra))"

definition collision :: "(string \<Rightarrow> string) \<Rightarrow> string \<Rightarrow> string \<Rightarrow> bool" where
  "collision md5 x y \<longleftrightarrow> x \<noteq> y \<and> md5 x = md5 y"

lemma make_response_eq:
  assumes "md5_ok md5"
  shows "make_response md5 user rlm password meth uri n QOP_NONE nc_str cnonce_str =
      Some (response_of md5 user rlm password meth uri n [])"
    "make_response md5 user rlm password meth uri n QOP_AUTH (Some c) (Some cn) =
      Some (response_of md5 user rlm password meth uri n ('':'' @ c @ '':'' @ cn @ '':auth''))"
  by (simp_all add: make_response_def hex_digest_eq [OF assms] response_of_def response_text_def ha1_text_def)

definition login_params :: "string \<Rightarrow> string \<Rightarrow> string \<Rightarrow> string \<Rightarrow> string \<Rightarrow> string \<Rightarrow> param list" where
  "login_params user rlm n uri cn resp =
     [(''username'', quoted user, user), (''realm'', quoted rlm, rlm), (''nonce'', quoted n, n), (''uri'', quoted uri, uri),
      (''qop'', ''auth'', ''auth''), (''cnonce'', quoted cn, cn), (''nc'', ''00000001'', ''00000001''),
      (''response'', quoted resp, resp)]"

lemma authorization_text:
  assumes "md5_ok md5" and "length cb = 8" and "ch_scheme ch = AUTH_DIGEST" and "ch_algorithm ch = ALGORITHM_MD5"
    and "ch_realm ch = Some rlm" and "ch_nonce ch = Some n" and "ch_qop ch = 1" and "ch_opaque ch = None"
    and "plain_text user" and "plain_text rlm" and "plain_text n" and "plain_text uri"
    and "resp = response_of md5 user rlm password meth uri n ('':'' @ ''00000001'' @ '':'' @ hexs cb @ '':auth'')"
  shows "http_digest_proxy_authorization md5 True (Some cb) ch user password meth uri =
    Some (Some ('' Digest '' @ params_text (login_params user rlm n uri (hexs cb) resp) @ crlf))"
proof -
  have one: "((1 :: u8) AND 1 \<noteq> 0) = True" by simp
  have cn: "enhex 17 cb = Some (hexs cb)" using assms(2) by (auto simp: enhex_def)
  have pr: "plain_text resp" unfolding assms(13) response_of_def by (rule plain_hexs)
  note nul = NUL_quoted [OF assms(9)] NUL_quoted [OF assms(10)] NUL_quoted [OF assms(11)] NUL_quoted [OF assms(12)]
    NUL_quoted [OF pr] NUL_quoted [OF plain_hexs [of cb]]
  have mr: "make_response md5 user rlm password meth uri n QOP_AUTH (Some ''00000001'') (Some (hexs cb)) = Some resp"
    by (simp only: make_response_eq [OF assms(1)] assms(13))
  have "http_digest_proxy_authorization md5 True (Some cb) ch user password meth uri =
    Some (Some ('' Digest'' @ '' username='' @ quoted user @ '', realm='' @ quoted rlm @ '', nonce='' @ quoted n @ '', uri='' @ quoted uri @
      ('', qop=auth'' @ '', cnonce='' @ quoted (hexs cb) @ '', nc='' @ ''00000001'') @ '', response='' @ quoted resp @ [CHR 0x0D, CHR 0x0A] @ []))"
    unfolding http_digest_proxy_authorization_def Let_def
    unfolding assms(3-8) option.case prod.case cn mr bind.bind_lunit
    by (simp only: one simp_thms if_True if_False option.case option.distinct cn mr bind.bind_lunit)
      (intro yields_start appends_bind text_rules, use nul in auto)
  then show ?thesis by (simp add: login_params_def crlf_def)
qed

lemma credentials_read:
  assumes "plain_text user" and "plain_text rlm" and "plain_text n" and "plain_text uri" and "plain_text cn" and "plain_text resp"
  shows "http_read_credentials (''Digest '' @ params_text (login_params user rlm n uri cn resp)) =
    Some ([], Cred_Digest \<lparr>username = Some user, realm = Some rlm, nonce = Some n, duri = Some uri, response = Some resp,
       algorithm = ALGORITHM_MD5, qop = QOP_AUTH, nc = Some ''00000001'', cnonce = Some cn\<rparr>)"
proof -
  let ?ps = "login_params user rlm n uri cn resp"
  have tok: "\<forall>c\<in>set ''username''. is_token_char c" "\<forall>c\<in>set ''realm''. is_token_char c" "\<forall>c\<in>set ''nonce''. is_token_char c"
    "\<forall>c\<in>set ''uri''. is_token_char c" "\<forall>c\<in>set ''qop''. is_token_char c" "\<forall>c\<in>set ''auth''. is_token_char c"
    "\<forall>c\<in>set ''cnonce''. is_token_char c" "\<forall>c\<in>set ''nc''. is_token_char c" "\<forall>c\<in>set ''00000001''. is_token_char c"
    "\<forall>c\<in>set ''response''. is_token_char c" "\<forall>c\<in>set ''Digest''. is_token_char c" by code_simp+
  have g: "good_param (''username'', quoted user, user)" "good_param (''realm'', quoted rlm, rlm)" "good_param (''nonce'', quoted n, n)"
    "good_param (''uri'', quoted uri, uri)" "good_param (''qop'', ''auth'', ''auth'')" "good_param (''cnonce'', quoted cn, cn)"
    "good_param (''nc'', ''00000001'', ''00000001'')" "good_param (''response'', quoted resp, resp)"
    using good_quoted [OF _ tok(1) assms(1)] good_quoted [OF _ tok(2) assms(2)] good_quoted [OF _ tok(3) assms(3)]
      good_quoted [OF _ tok(4) assms(4)] good_token [OF _ tok(5) _ tok(6)] good_quoted [OF _ tok(7) assms(5)]
      good_token [OF _ tok(8) _ tok(9)] good_quoted [OF _ tok(10) assms(6)] by blast+
  have good: "\<forall>p\<in>set ?ps. good_param p" using g by (simp only: login_params_def list.set ball_simps)
  have l: "str_equal_i ''auth'' ''auth''" by code_simp
  let ?d = "\<lparr>username = None, realm = None, nonce = None, duri = None, response = None,
       algorithm = ALGORITHM_MD5, qop = QOP_NONE, nc = None, cnonce = None\<rparr>"
  have "set_params credential_param ?ps ?d = Some \<lparr>username = Some user, realm = Some rlm, nonce = Some n, duri = Some uri, response = Some resp,
       algorithm = ALGORITHM_MD5, qop = QOP_AUTH, nc = Some ''00000001'', cnonce = Some cn\<rparr>"
    by (simp add: login_params_def credential_param_def once_def param_names l)
  note loop = credentials_loop_params [OF good this]
  have c: "?ps = (''username'', quoted user, user) # tl ?ps" by (simp add: login_params_def)
  have st: "skip_spaces (params_text ?ps) = params_text ?ps"
    using params_text_start(2) [OF g(1), of "tl ?ps"] by (simp only: c [symmetric])
  have "read_token (''Digest'' @ CHR '' '' # params_text ?ps) = Some (''Digest'', CHR '' '' # params_text ?ps)"
    using tok(11) token_facts by (intro read_token_word) simp_all
  moreover have "skip_spaces (CHR '' '' # params_text ?ps) = params_text ?ps" using st by (simp add: is_space_char_def)
  ultimately have "http_read_credentials (''Digest'' @ CHR '' '' # params_text ?ps) = Some ([], Cred_Digest
      \<lparr>username = Some user, realm = Some rlm, nonce = Some n, duri = Some uri, response = Some resp,
       algorithm = ALGORITHM_MD5, qop = QOP_AUTH, nc = Some ''00000001'', cnonce = Some cn\<rparr>)"
    using loop by (simp add: http_read_credentials_def param_names Let_def http_credentials_init_digest_def)
  then show ?thesis by simp
qed

lemma check_accepts:
  assumes "md5_ok md5" and "secret_initialized st" and "valid_time tv" and "n = nonce_text md5 st tv"
    and "resp = response_of md5 user rlm password meth uri n ('':'' @ c @ '':'' @ cn @ '':auth'')"
  shows "http_digest_check_credentials md5 st user rlm password meth (Cred_Digest
      \<lparr>username = Some user, realm = Some rlm, nonce = Some n, duri = Some uri, response = Some resp,
       algorithm = ALGORITHM_MD5, qop = QOP_AUTH, nc = Some c, cnonce = Some cn\<rparr>) = Some True"
proof -
  have "http_digest_nonce_time n = Some tv" "make_nonce md5 st tv = Some n"
    using nonce_time_eq [OF assms(3)] make_nonce_eq [OF assms(1,2)] assms(4) by simp_all
  then show ?thesis
    using make_response_eq(2) [OF assms(1), of user rlm password meth uri n c cn] assms(5)
    by (simp add: http_digest_check_credentials_def)
qed

lemma split_auth:
  assumes "CHR '':'' \<notin> set user"
  shows "strchr (user @ '':'' @ password) (CHR '':'') = Some (CHR '':'' # password)"
    "mkstr (user @ '':'' @ password) (CHR '':'' # password) = user"
proof -
  have "dropWhile (\<lambda>x. x \<noteq> CHR '':'') (user @ CHR '':'' # password) = CHR '':'' # password"
    using assms by (subst dropWhile_append2) auto
  then show "strchr (user @ '':'' @ password) (CHR '':'') = Some (CHR '':'' # password)" by (simp add: strchr_def)
  show "mkstr (user @ '':'' @ password) (CHR '':'' # password) = user" by (simp add: mkstr_def)
qed

lemma response_collision:
  assumes "md5_ok md5" and "p \<noteq> q"
    and "response_of md5 user rlm p meth uri n extra = response_of md5 user rlm q meth uri n extra"
  shows "collision md5 (ha1_text user rlm p) (ha1_text user rlm q) \<or>
    collision md5 (response_text md5 user rlm p meth uri n extra) (response_text md5 user rlm q meth uri n extra)"
proof (cases "md5 (ha1_text user rlm p) = md5 (ha1_text user rlm q)")
  case True
  then show ?thesis using assms(2) by (simp add: collision_def ha1_text_def)
next
  case False
  then have "response_text md5 user rlm p meth uri n extra \<noteq> response_text md5 user rlm q meth uri n extra"
    using assms(1) by (simp add: response_text_def hexs_inj md5_ok_def length_hexs)
  then show ?thesis using assms(3) by (simp add: collision_def response_of_def hexs_inj)
qed

lemma check_inv:
  assumes "md5_ok md5" and "secret_initialized st"
    and "http_digest_check_credentials md5 st user rlm password meth c = Some True"
  shows "\<exists>d tv uri extra n. c = Cred_Digest d \<and> username d = Some user \<and> realm d = Some rlm \<and> duri d = Some uri \<and>
      nonce d = Some n \<and> http_digest_nonce_time n = Some tv \<and> n = nonce_text md5 st tv \<and>
      response d = Some (response_of md5 user rlm password meth uri n extra) \<and>
      (\<forall>pw. http_digest_check_credentials md5 st user rlm pw meth c =
         Some (response_of md5 user rlm pw meth uri n extra = response_of md5 user rlm password meth uri n extra))"
proof -
  obtain d where c: "c = Cred_Digest d" using assms(3) by (cases c) (auto simp: http_digest_check_credentials_def)
  obtain n uri resp where f: "username d = Some user" "realm d = Some rlm" "nonce d = Some n" "duri d = Some uri" "response d = Some resp"
      "algorithm d = ALGORITHM_MD5" "qop d = QOP_NONE \<or> qop d = QOP_AUTH \<and> nc d \<noteq> None \<and> cnonce d \<noteq> None"
    using assms(3) by (auto simp: http_digest_check_credentials_def c split: option.splits if_splits)
  obtain tv where tv: "http_digest_nonce_time n = Some tv" "n = nonce_text md5 st tv"
    using assms(3) f by (auto simp: http_digest_check_credentials_def c make_nonce_eq [OF assms(1,2)] split: option.splits if_splits)
  obtain extra where e: "\<And>pw. make_response md5 user rlm pw meth uri n (qop d) (nc d) (cnonce d) =
      Some (response_of md5 user rlm pw meth uri n extra)"
    using f(7) make_response_eq [OF assms(1)] by (cases "qop d"; cases "nc d"; cases "cnonce d"; fastforce)
  have mk: "make_nonce md5 st tv = Some n" using tv(2) by (simp add: make_nonce_eq [OF assms(1,2)])
  have "http_digest_check_credentials md5 st user rlm pw meth c =
      Option.bind (make_response md5 user rlm pw meth uri n (qop d) (nc d) (cnonce d)) (\<lambda>h. Some (h = resp))" for pw
    using f tv(1) mk by (auto simp: http_digest_check_credentials_def c)
  then have chk: "http_digest_check_credentials md5 st user rlm pw meth c = Some (response_of md5 user rlm pw meth uri n extra = resp)" for pw
    by (simp add: e)
  then have "resp = response_of md5 user rlm password meth uri n extra" using assms(3) by simp
  then show ?thesis using c f tv chk by (intro exI [of _ d] exI [of _ tv] exI [of _ uri] exI [of _ extra] exI [of _ n]) simp
qed

section \<open>Properties\<close>

text \<open>An MD5 for the witnesses: the first 16 bytes of the padded text.\<close>

definition demo_md5 :: "string \<Rightarrow> string" where
  "demo_md5 x = take 16 (x @ replicate 16 (CHR ''k''))"

definition demo_secret :: digest_state where
  "demo_secret = \<lparr>secret = ''0123456789abcdef'', secret_initialized = True\<rparr>"

lemma demo_md5_ok: "md5_ok demo_md5"
  unfolding md5_ok_def
proof
  fix x :: string
  have "length (take 16 (x @ replicate 16 (CHR ''k''))) = 16" by (simp only: length_take length_append length_replicate)
  then show "length (demo_md5 x) = 16" by (simp add: demo_md5_def)
qed

text \<open>C10: nobody else does. If \<open>http_digest_check_credentials\<close> accepts, then the nonce in the credentials is one that this
  server makes, for the time written in it, the user and the realm are right, and the response is the right one for
  the password. Another password is accepted with the same credentials only if MD5 collides on the two texts that are
  hashed for the passwords.\<close>

theorem digest_check_sound:
  assumes "md5_ok md5" and "secret_initialized st"
    and "http_digest_check_credentials md5 st user rlm password meth c = Some True"
  shows "\<exists>d tv uri extra n. c = Cred_Digest d \<and> username d = Some user \<and> realm d = Some rlm \<and> duri d = Some uri \<and>
      nonce d = Some n \<and> http_digest_nonce_time n = Some tv \<and> make_nonce md5 st tv = Some n \<and>
      response d = Some (response_of md5 user rlm password meth uri n extra) \<and>
      (\<forall>other. http_digest_check_credentials md5 st user rlm other meth c = Some True \<longrightarrow> other \<noteq> password \<longrightarrow>
        collision md5 (ha1_text user rlm other) (ha1_text user rlm password) \<or>
        collision md5 (response_text md5 user rlm other meth uri n extra) (response_text md5 user rlm password meth uri n extra))"
proof -
  obtain d tv uri extra n where d: "c = Cred_Digest d" "username d = Some user" "realm d = Some rlm" "duri d = Some uri"
      "nonce d = Some n" "http_digest_nonce_time n = Some tv" "n = nonce_text md5 st tv"
      "response d = Some (response_of md5 user rlm password meth uri n extra)"
      "\<And>pw. http_digest_check_credentials md5 st user rlm pw meth c =
         Some (response_of md5 user rlm pw meth uri n extra = response_of md5 user rlm password meth uri n extra)"
    using check_inv [OF assms] by metis
  moreover have "make_nonce md5 st tv = Some n" using d(7) by (simp add: make_nonce_eq [OF assms(1,2)])
  moreover have "collision md5 (ha1_text user rlm other) (ha1_text user rlm password) \<or>
        collision md5 (response_text md5 user rlm other meth uri n extra) (response_text md5 user rlm password meth uri n extra)"
    if "http_digest_check_credentials md5 st user rlm other meth c = Some True" "other \<noteq> password" for other
    using response_collision [OF assms(1) that(2)] that(1) d(9) by simp
  ultimately show ?thesis by blast
qed

text \<open>A nonce of the demonstration server, and the answer to it.\<close>

definition demo_nonce :: string where
  "demo_nonce = nonce_text demo_md5 demo_secret \<lparr>tv_sec = 1000, tv_usec = 500000\<rparr>"

definition demo_login :: http_credentials where
  "demo_login = Cred_Digest \<lparr>username = Some ''alice'', realm = Some ''Ncat'', nonce = Some demo_nonce, duri = Some ''host:80'',
     response = Some (response_of demo_md5 ''alice'' ''Ncat'' ''sesame'' ''CONNECT'' ''host:80'' demo_nonce
       ('':'' @ ''00000001'' @ '':'' @ ''ab'' @ '':auth'')),
     algorithm = ALGORITHM_MD5, qop = QOP_AUTH, nc = Some ''00000001'', cnonce = Some ''ab''\<rparr>"

theorem digest_check_sound_witness:
  "\<exists>d tv uri extra n. demo_login = Cred_Digest d \<and> username d = Some ''alice'' \<and> realm d = Some ''Ncat'' \<and> duri d = Some uri \<and>
      nonce d = Some n \<and> http_digest_nonce_time n = Some tv \<and> make_nonce demo_md5 demo_secret tv = Some n \<and>
      response d = Some (response_of demo_md5 ''alice'' ''Ncat'' ''sesame'' ''CONNECT'' uri n extra)"
proof -
  have i: "secret_initialized demo_secret" by (simp add: demo_secret_def)
  have "valid_time \<lparr>tv_sec = 1000, tv_usec = 500000\<rparr>" by (simp add: valid_time_def)
  from check_accepts [OF demo_md5_ok i this demo_nonce_def refl]
  have "http_digest_check_credentials demo_md5 demo_secret ''alice'' ''Ncat'' ''sesame'' ''CONNECT'' demo_login = Some True"
    unfolding demo_login_def .
  from digest_check_sound [OF demo_md5_ok i this] show ?thesis by blast
qed

end
