(* ===== verification/Http_Login.thy ===== *)
theory Http_Login
  imports Http_Digest
begin

text \<open>
  A login at Ncat's proxy, from the bytes of one side to the decision of the other: what \<open>http_server_handler\<close>
  of \<open>ncat/ncat_proxy.c\<close> does with a request until it is served, and what \<open>do_proxy_http\<close> of
  \<open>ncat/ncat_connect.c\<close> does with the first response of a proxy. Both read from a buffered socket, whose \<open>recv\<close>
  results are an input. Connections without SSL; log messages are left out.
\<close>

section \<open>The two ends\<close>

definition method_is_known :: "string \<Rightarrow> bool" where
  "method_is_known m \<longleftrightarrow> m = ''CONNECT'' \<or> m = ''GET'' \<or> m = ''HEAD'' \<or> m = ''POST''"

text \<open>How \<open>http_server_handler\<close> goes on: it sends an error code, asks for credentials (with \<open>stale\<close>), or handles the
  request. \<open>None\<close> is a crash.\<close>

datatype server_step = Send_code int | Send_authenticate bool | Handle http_request

definition http_server_handler ::
  "bool \<Rightarrow> (string \<Rightarrow> string) \<Rightarrow> digest_state \<Rightarrow> timeval \<Rightarrow> string option \<Rightarrow> socket_buffer \<Rightarrow>
   (server_step \<times> socket_buffer) option" where
  "http_server_handler dg md5 st now proxy_auth sock =
     (case http_read_request_line sock of
        (sock, Inl c) \<Rightarrow> Some (Send_code c, sock)
      | (sock, Inr line) \<Rightarrow>
          (case http_parse_request_line line of
             Inl c \<Rightarrow> Some (Send_code c, sock)
           | Inr request \<Rightarrow> do {
               m \<leftarrow> req_method request;
               if \<not> method_is_known m then Some (Send_code 405, sock)
               else (case http_read_header sock of
                 (sock, Inl c) \<Rightarrow> Some (Send_code c, sock)
               | (sock, Inr buf) \<Rightarrow>
                   (case http_request_parse_header request buf of
                      Inl c \<Rightarrow> Some (Send_code c, sock)
                    | Inr request \<Rightarrow>
                        if proxy_auth = None then Some (Handle request, sock)
                        else (case http_header_get_proxy_credentials dg (header request) of
                          None \<Rightarrow> Some (Send_authenticate False, sock)
                        | Some credentials \<Rightarrow> do {
                            (ret, stale) \<leftarrow> check_auth dg md5 st now proxy_auth (req_method request) credentials False;
                            Some (if ret then Handle request else Send_authenticate stale, sock)
                          })))
             }))"

text \<open>How \<open>do_proxy_http\<close> goes on after its first request: it gives up, connects again to send \<open>n\<close> bytes of a request with
  credentials, or has its tunnel, through which some bytes may have come already. The response to the second request is read
  like the first one, with no credentials left (\<open>proxy_auth = None\<close>). The sockets themselves do not fail.\<close>

datatype client_step = Bail | Retry string nat | Tunnel string

definition do_proxy_http_reply ::
  "bool \<Rightarrow> (string \<Rightarrow> string) \<Rightarrow> bool \<Rightarrow> string option \<Rightarrow> string option \<Rightarrow> string \<Rightarrow> int \<Rightarrow> string \<Rightarrow> nat \<Rightarrow> socket_buffer \<Rightarrow>
   client_step option" where
  "do_proxy_http_reply dg md5 rand_status rand_bytes proxy_auth uri fam host_str portno sockbuf =
     (case http_read_status_line sockbuf of
        (sockbuf, Inl _) \<Rightarrow> Some Bail
      | (sockbuf, Inr status_line) \<Rightarrow>
          let cd = http_parse_status_line_code status_line
          in (case http_read_header sockbuf of
            (sockbuf, Inl _) \<Rightarrow> Some Bail
          | (sockbuf, Inr hdr) \<Rightarrow>
              (case proxy_auth of
                 Some pa \<Rightarrow>
                   if cd = 407 then
                     (case http_parse_header hdr of
                        Inl _ \<Rightarrow> Some Bail
                      | Inr h \<Rightarrow>
                          (case http_header_get_proxy_challenge dg h of
                             None \<Rightarrow> Some Bail
                           | Some challenge \<Rightarrow>
                               map_option (\<lambda>r. case r of None \<Rightarrow> Bail | Some (request, n) \<Rightarrow> Retry request n)
                                 (http_connect_request_auth dg md5 rand_status rand_bytes pa uri fam host_str portno challenge)))
                   else Some (if cd \<noteq> 200 then Bail else Tunnel (socket_buffer_remainder sockbuf))
               | None \<Rightarrow> Some (if cd \<noteq> 200 then Bail else Tunnel (socket_buffer_remainder sockbuf)))))"

section \<open>Texts that survive the header parser\<close>

text \<open>\<open>http_parse_header\<close> refuses control characters and replaces runs of white space by single spaces. The automaton for
  the values it keeps as they are; its state says whether the last character was a space.\<close>

fun spaces_run :: "bool \<Rightarrow> string \<Rightarrow> bool option" where
  "spaces_run p [] = Some p"
| "spaces_run p (c # s) =
     (if c = CHR '' '' then (if p then None else spaces_run True s)
      else if is_ctl_char (schar c) then None else spaces_run False s)"

text \<open>No control character, and no two spaces in a row.\<close>

definition header_safe :: "string \<Rightarrow> bool" where
  "header_safe s \<longleftrightarrow> spaces_run False s \<noteq> None"

lemma spaces_run_append: "spaces_run p (a @ b) = Option.bind (spaces_run p a) (\<lambda>q. spaces_run q b)"
  by (induction p a rule: spaces_run.induct) auto

lemma spaces_run_words:
  "(spaces_run True v = Some False \<longrightarrow> (\<exists>ws. v = join '' '' ws \<and> ws \<noteq> [] \<and> (\<forall>w\<in>set ws. word_ok w))) \<and>
   (spaces_run False v = Some False \<longrightarrow>
     (\<exists>w ws. v = join '' '' (w # ws) \<and> (\<forall>c\<in>set w. \<not> is_space_char c \<and> \<not> is_ctl_char (schar c)) \<and> (\<forall>w\<in>set ws. word_ok w)))"
proof (induction v)
  case Nil
  show ?case by (auto intro!: exI [of _ "[]"])
next
  case (Cons c v)
  have step: "\<exists>w' ws. c # v = join '' '' (w' # ws) \<and> w' \<noteq> [] \<and> (\<forall>c\<in>set w'. \<not> is_space_char c \<and> \<not> is_ctl_char (schar c)) \<and> (\<forall>w\<in>set ws. word_ok w)"
    if c: "c \<noteq> CHR '' ''" "\<not> is_ctl_char (schar c)" and r: "spaces_run False v = Some False"
  proof -
    obtain w ws where w: "v = join '' '' (w # ws)" "\<forall>c\<in>set w. \<not> is_space_char c \<and> \<not> is_ctl_char (schar c)" "\<forall>w\<in>set ws. word_ok w"
      using Cons.IH r by blast
    have "is_ctl_char (schar (CHR 0x09))" by code_simp
    then have "\<not> is_space_char c" using c by (auto simp: is_space_char_def)
    moreover have "c # v = join '' '' ((c # w) # ws)" using w(1) by (simp add: join_concat)
    ultimately show ?thesis using w(2,3) c(2) by (intro exI [of _ "c # w"] exI [of _ ws]) auto
  qed
  show ?case
  proof (cases "c = CHR '' ''")
    case True
    have "\<exists>ws. c # v = join '' '' ([] # ws) \<and> (\<forall>w\<in>set ws. word_ok w)" if r: "spaces_run True v = Some False"
    proof -
      obtain ws where ws: "v = join '' '' ws" "ws \<noteq> []" "\<forall>w\<in>set ws. word_ok w" using Cons.IH r by blast
      then show ?thesis using True by (intro exI [of _ ws]) (simp add: join_Cons)
    qed
    note sp = this
    show ?thesis
    proof (intro conjI impI)
      assume "spaces_run True (c # v) = Some False"
      then show "\<exists>ws. c # v = join '' '' ws \<and> ws \<noteq> [] \<and> (\<forall>w\<in>set ws. word_ok w)" using True by simp
    next
      assume "spaces_run False (c # v) = Some False"
      then have "spaces_run True v = Some False" using True by simp
      from sp [OF this] obtain ws where ws: "c # v = join '' '' ([] # ws)" "\<forall>w\<in>set ws. word_ok w" by blast
      show "\<exists>w ws. c # v = join '' '' (w # ws) \<and> (\<forall>c\<in>set w. \<not> is_space_char c \<and> \<not> is_ctl_char (schar c)) \<and> (\<forall>w\<in>set ws. word_ok w)"
        by (rule exI [of _ "[]"], rule exI [of _ ws]) (use ws in simp)
    qed
  next
    case False
    have "\<exists>ws. c # v = join '' '' ws \<and> ws \<noteq> [] \<and> (\<forall>w\<in>set ws. word_ok w)"
      if r: "\<not> is_ctl_char (schar c)" "spaces_run False v = Some False"
    proof -
      obtain w ws where "c # v = join '' '' (w # ws)" "w \<noteq> []" "\<forall>c\<in>set w. \<not> is_space_char c \<and> \<not> is_ctl_char (schar c)"
          "\<forall>w\<in>set ws. word_ok w" using step [OF False r] by blast
      then show ?thesis by (intro exI [of _ "w # ws"]) (auto simp: word_ok_def)
    qed
    note ne = this
    have nz: "\<not> is_ctl_char (schar c) \<and> spaces_run False v = Some False" if "spaces_run p (c # v) = Some False" for p
      using that False by (simp split: if_splits)
    show ?thesis
    proof (intro conjI impI)
      assume "spaces_run True (c # v) = Some False"
      from nz [OF this] show "\<exists>ws. c # v = join '' '' ws \<and> ws \<noteq> [] \<and> (\<forall>w\<in>set ws. word_ok w)" using ne by blast
    next
      assume "spaces_run False (c # v) = Some False"
      from nz [OF this] show "\<exists>w ws. c # v = join '' '' (w # ws) \<and> (\<forall>c\<in>set w. \<not> is_space_char c \<and> \<not> is_ctl_char (schar c)) \<and> (\<forall>w\<in>set ws. word_ok w)"
        using step [OF False] by blast
    qed
  qed
qed

lemma header_ok_run:
  assumes "n \<noteq> []" and "\<forall>c\<in>set n. is_token_char c" and "spaces_run True v = Some False"
  shows "header_ok \<lparr>hname = n, hvalue = v\<rparr>"
proof -
  obtain ws where "v = join '' '' ws" "\<forall>w\<in>set ws. word_ok w" using spaces_run_words [of v] assms(3) by blast
  then show ?thesis using assms(1,2) by (auto simp: header_ok_def)
qed

lemma run_plain: "\<forall>c\<in>set s. c \<noteq> CHR '' '' \<and> \<not> is_ctl_char (schar c) \<Longrightarrow> spaces_run False s = Some False"
  by (induction s) auto

lemma run_escape: "spaces_run p s = Some q \<Longrightarrow> spaces_run p (escape must_escape s) = Some q"
proof (induction p s rule: spaces_run.induct)
  case (2 p c s)
  have "\<not> must_escape (CHR '' '')" by (simp add: must_escape_def schar_def)
  moreover have "\<not> is_ctl_char (schar (CHR 0x5C))" by (simp add: is_ctl_char_def schar_def)
  ultimately show ?case using 2 by (auto simp: escape_append split: if_splits)
qed (simp add: escape_def)

lemma run_quoted: "header_safe s \<Longrightarrow> spaces_run p (quoted s) = Some False"
proof -
  assume "header_safe s"
  then obtain q where "spaces_run False s = Some q" by (auto simp: header_safe_def)
  from run_escape [OF this] show ?thesis
    by (simp add: quoted_def spaces_run_append is_ctl_char_def schar_def)
qed

lemma safe_hexs: "header_safe (hexs s)"
proof -
  have "c \<noteq> CHR '' '' \<and> \<not> is_ctl_char (schar c)" if "c \<in> set hexchars" for c
    using that by (simp add: hexchars_def is_ctl_char_def schar_def) (elim disjE; simp)
  then have "spaces_run False (hexs s) = Some False" using set_hexs by (intro run_plain) blast
  then show ?thesis by (simp add: header_safe_def)
qed

lemma safe_nonce: "valid_time tv \<Longrightarrow> header_safe (nonce_text md5 st tv)"
proof -
  assume v: "valid_time tv"
  have d: "spaces_run False s = Some False" if "list_all isdigit s" for s
    using that by (intro run_plain) (auto simp: list_all_iff isdigit_def is_ctl_char_def schar_def)
  have h: "spaces_run False (hexs s) = Some False" for s
  proof -
    have "c \<noteq> CHR '' '' \<and> \<not> is_ctl_char (schar c)" if "c \<in> set hexchars" for c
      using that by (simp add: hexchars_def is_ctl_char_def schar_def) (elim disjE; simp)
    then show ?thesis using set_hexs by (intro run_plain) blast
  qed
  show ?thesis
    unfolding header_safe_def nonce_text_def time_text_eq [OF v]
    by (simp add: spaces_run_append d [OF dec_digits] d [OF zero_pad_digits [OF dec_digits]] h is_ctl_char_def schar_def)
qed


lemma safe_ctl: "spaces_run p s = Some q \<Longrightarrow> c \<in> set s \<Longrightarrow> c \<noteq> CHR '' '' \<Longrightarrow> \<not> is_ctl_char (schar c)"
  by (induction p s rule: spaces_run.induct) (auto split: if_splits)

lemma safe_LF: "header_safe s \<Longrightarrow> LF \<notin> set s"
  using safe_ctl [of False s _ LF] ctl_facts(3) by (auto simp: header_safe_def)

lemma literal_chars:
  "\<not> is_ctl_char (schar (CHR 0x22))" "\<not> is_ctl_char (schar (CHR '',''))" "\<not> is_ctl_char (schar (CHR ''=''))"
  by (simp_all add: is_ctl_char_def schar_def)

lemma run_literals:
  "spaces_run True ''Digest '' = Some True" "spaces_run True ''username='' = Some False" "spaces_run True ''realm='' = Some False"
  "spaces_run False '', realm='' = Some False" "spaces_run False '', nonce='' = Some False" "spaces_run False '', uri='' = Some False"
  "spaces_run False '', qop='' = Some False" "spaces_run False '', qop=auth'' = Some False" "spaces_run False '', cnonce='' = Some False"
  "spaces_run False '', nc=00000001'' = Some False" "spaces_run False '', response='' = Some False" "spaces_run False '', stale=true'' = Some False"
  "header_safe ''Ncat''" "header_safe ''auth''"
  by code_simp+

lemma login_text:
  "''Digest '' @ params_text (login_params user rlm n uri cn resp) =
    ''Digest '' @ ''username='' @ quoted user @ '', realm='' @ quoted rlm @ '', nonce='' @ quoted n @ '', uri='' @ quoted uri @
    '', qop=auth'' @ '', cnonce='' @ quoted cn @ '', nc=00000001'' @ '', response='' @ quoted resp"
  by (simp add: login_params_def)

lemma login_run:
  assumes "header_safe user" and "header_safe rlm" and "header_safe n" and "header_safe uri"
  shows "spaces_run True (''Digest '' @ params_text (login_params user rlm n uri (hexs cn) (hexs resp))) = Some False"
  by (simp only: login_text spaces_run_append run_literals bind.bind_lunit run_quoted [OF assms(1)] run_quoted [OF assms(2)]
      run_quoted [OF assms(3)] run_quoted [OF assms(4)] run_quoted [OF safe_hexs])

lemma challenge_text:
  "''Digest '' @ params_text (challenge_params rlm n stale) =
    ''Digest '' @ ''realm='' @ quoted rlm @ '', nonce='' @ quoted n @ '', qop='' @ quoted ''auth'' @ (if stale then '', stale=true'' else [])"
  by (simp add: challenge_params_def)

lemma challenge_run:
  assumes "header_safe rlm" and "header_safe n"
  shows "spaces_run True (''Digest '' @ params_text (challenge_params rlm n stale)) = Some False"
proof -
  have "spaces_run False (if stale then '', stale=true'' else []) = Some False"
    using run_literals(12) by (cases stale) (simp_all only: if_True if_False spaces_run.simps(1))
  then show ?thesis
    by (simp only: challenge_text spaces_run_append run_literals bind.bind_lunit run_quoted [OF assms(1)] run_quoted [OF assms(2)]
        run_quoted [OF run_literals(14)])
qed

section \<open>Reading a block of headers\<close>

lemma header_ok_value:
  assumes "header_ok h" and "c \<in> set (hvalue h)"
  shows "c \<noteq> LF"
proof -
  obtain ws where ws: "hvalue h = join '' '' ws" "\<forall>w\<in>set ws. word_ok w" using assms(1) by (auto simp: header_ok_def)
  have "c = CHR '' '' \<or> (\<exists>w\<in>set ws. c \<in> set w)" if "c \<in> set (join '' '' ws)" for ws
    using that by (induction "'' ''" ws rule: join.induct) auto
  then have "c = CHR '' '' \<or> (\<exists>w\<in>set ws. c \<in> set w)" using assms(2) ws(1) by simp
  then show ?thesis using ws(2) ctl_facts(3) by (auto simp: word_ok_def)
qed

lemma header_ok_line:
  assumes "header_ok h"
  shows "header_line (hname h @ '': '' @ hvalue h @ [CR, LF])"
proof -
  have n: "hname h \<noteq> []" "\<forall>c\<in>set (hname h). is_token_char c" using assms by (auto simp: header_ok_def)
  have "LF \<notin> set (hname h @ '': '' @ hvalue h @ [CR])" using n(2) header_ok_value [OF assms] token_facts(3) by auto
  moreover have "\<not> is_crlf (hname h @ '': '' @ hvalue h @ [CR, LF])"
    using n token_facts(2,3) by (cases "hname h") (auto simp: is_crlf_def)
  ultimately show ?thesis unfolding header_line_def
    by (intro conjI exI [of _ "hname h @ '': '' @ hvalue h @ [CR]"]) simp_all
qed

lemma read_headers:
  assumes "\<forall>h\<in>set hs. header_ok h" and "unread sb = http_header_to_string hs @ [CR, LF] @ body"
    and "length (http_header_to_string hs) + 2 < MAX_HEADER_LENGTH"
  shows "\<exists>sb'. http_read_header sb = (sb', Inr (http_header_to_string hs @ [CR, LF])) \<and> unread sb' = body"
proof -
  let ?ls = "map (\<lambda>p. hname p @ '': '' @ hvalue p @ [CR, LF]) hs"
  have "\<forall>l\<in>set ?ls. header_line l" using assms(1) header_ok_line by auto
  from read_header_loop_block [OF this, of sb body "[]"] show ?thesis
    using assms(2,3) by (simp add: http_read_header_def http_header_to_string_def)
qed

lemma parse_headers: "\<forall>h\<in>set hs. header_ok h \<Longrightarrow> http_parse_header (http_header_to_string hs @ [CR, LF]) = Inr hs"
  using http_parse_header_loop_text [of hs "[]"] by (simp add: http_parse_header_def)

section \<open>The proxy's side\<close>

lemma field_names:
  "field_name_equal ''Proxy-Authorization'' ''Proxy-Authorization''" "\<not> field_name_equal ''Proxy-Authorization'' ''Content-Length''"
  "field_name_equal ''Proxy-Authenticate'' ''Proxy-Authenticate''"
  by code_simp+

lemma credentials_one:
  assumes "http_read_credentials v = Some ([], cred)" and "cr_scheme cred = AUTH_DIGEST"
  shows "http_header_get_proxy_credentials True [\<lparr>hname = ''Proxy-Authorization'', hvalue = v\<rparr>] = Some cred"
proof -
  have "deref v \<noteq> NUL" using assms(1) token_facts(1)
    by (cases v) (auto simp: http_read_credentials_def read_token_def split: if_splits)
  then have "credentials_value_loop True v Cred_Unknown = Some cred"
    using assms by (subst credentials_value_loop.simps) (simp add: auth_scheme_is_better_def credentials_value_loop.simps [of True "[]"])
  then show ?thesis
    by (simp add: http_header_get_proxy_credentials_def http_header_next_def field_names proxy_credentials_loop.simps)
qed

lemma read_request_line:
  assumes "unread sb = l @ rest" and "l = t @ [LF]" and "LF \<notin> set t" and "length l < MAX_REQUEST_LINE_LENGTH" and "\<not> is_crlf l"
  shows "\<exists>sb'. http_read_request_line sb = (sb', Inr l) \<and> unread sb' = rest"
proof -
  obtain sb' where "socket_buffer_readline sb MAX_REQUEST_LINE_LENGTH = (sb', Some l, length l)" "unread sb' = rest"
    using readline_line [OF assms(1-4)] by blast
  then show ?thesis using assms(5) by (subst http_read_request_line.simps) simp
qed

lemma server_reads:
  assumes w: "w \<noteq> []" "CHR '' '' \<notin> set w" "LF \<notin> set w" "length w \<le> 511" "uri_parse_authority uri_init w = Some u"
    and h: "header_ok h" "hname h = ''Proxy-Authorization''" "length (hvalue h) \<le> 10000"
    and cred: "http_read_credentials (hvalue h) = Some ([], cred)" "cr_scheme cred = AUTH_DIGEST"
    and un: "unread sock = ''CONNECT '' @ w @ '' HTTP/1.0'' @ crlf @ http_header_to_string [h] @ crlf @ body"
    and chk: "check_auth True md5 st now (Some pa) (Some ''CONNECT'') cred False = Some (ret, stale)"
  shows "\<exists>r sb. http_server_handler True md5 st now (Some pa) sock = Some (if ret then Handle r else Send_authenticate stale, sb) \<and>
    req_method r = Some ''CONNECT'' \<and> req_uri r = u \<and> unread sb = body"
proof -
  let ?l = "''CONNECT '' @ w @ '' HTTP/1.0'' @ crlf"
  let ?r = "http_request_init\<lparr>req_method := Some ''CONNECT'', req_uri := u, version := HTTP_10\<rparr>"
  let ?r' = "?r\<lparr>header := [h], content_length_set := False, content_length := 0\<rparr>"
  have "\<exists>sb'. http_read_request_line sock = (sb', Inr ?l) \<and> unread sb' = http_header_to_string [h] @ crlf @ body"
    by (rule read_request_line [where t = "''CONNECT '' @ w @ '' HTTP/1.0'' @ [CR]"])
      (use w un in \<open>simp_all add: crlf_def is_crlf_def\<close>)
  then obtain sb1 where sb1: "http_read_request_line sock = (sb1, Inr ?l)" "unread sb1 = http_header_to_string [h] @ [CR, LF] @ body"
    by (auto simp: crlf_def)
  have "method_ok ''CONNECT''" by code_simp
  then have "http_parse_request_line (''CONNECT'' @ '' '' @ w @ '' '' @ version_text HTTP_10 @ [CR, LF]) = Inr ?r"
    using w by (intro http_parse_request_line_parts) (simp_all add: target_of_def)
  moreover have "''CONNECT'' @ '' '' @ w @ '' '' @ version_text HTTP_10 @ [CR, LF] = ?l" by (simp add: version_text_def crlf_def)
  ultimately have pl: "http_parse_request_line ?l = Inr ?r" by simp
  have k: "method_is_known ''CONNECT''" by (simp add: method_is_known_def)
  have ok: "\<forall>h\<in>set [h]. header_ok h" using h(1) by simp
  have "length (http_header_to_string [h]) + 2 < MAX_HEADER_LENGTH" using h(2,3) by (simp add: http_header_to_string_def)
  then obtain sb2 where sb2: "http_read_header sb1 = (sb2, Inr (http_header_to_string [h] @ [CR, LF]))" "unread sb2 = body"
    using read_headers [OF ok sb1(2)] by blast
  have "http_header_get_content_length [h] = (0, False, 0)"
    by (simp add: http_header_get_content_length_def get_first_simps h(2) field_names)
  then have ph: "http_request_parse_header ?r (http_header_to_string [h] @ [CR, LF]) = Inr ?r'"
    by (simp add: http_request_parse_header_def parse_headers [OF ok])
  have "[h] = [\<lparr>hname = ''Proxy-Authorization'', hvalue = hvalue h\<rparr>]" using h(2) by simp
  then have gc: "http_header_get_proxy_credentials True [h] = Some cred" using credentials_one [OF cred] by simp
  have "http_server_handler True md5 st now (Some pa) sock = Some (if ret then Handle ?r' else Send_authenticate stale, sb2)"
    unfolding http_server_handler_def sb1(1) prod.case sum.case pl
    by (simp add: k sb2(1) ph gc chk)
  then show ?thesis using sb2(2) by (intro exI [of _ ?r'] exI [of _ sb2]) simp
qed

section \<open>The client's side\<close>

text \<open>The two header fields of the proxy's answer.\<close>

definition basic_field :: http_header where
  "basic_field = \<lparr>hname = ''Proxy-Authenticate'', hvalue = ''Basic realm='' @ [CHR 0x22] @ ''Ncat'' @ [CHR 0x22]\<rparr>"

definition digest_field :: "string \<Rightarrow> http_header" where
  "digest_field v = \<lparr>hname = ''Proxy-Authenticate'', hvalue = v\<rparr>"

definition required_line :: string where
  "required_line = ''HTTP/1.0 407 Proxy Authentication Required'' @ crlf"

lemma basic_ok: "header_ok basic_field"
  unfolding basic_field_def by (intro header_ok_run) code_simp+

lemma basic_challenge: "\<exists>bc. challenges_loop True (hvalue basic_field) http_challenge_init = Some bc \<and> ch_scheme bc = AUTH_BASIC"
proof -
  have "(case http_read_challenge (hvalue basic_field) of Some (t, c) \<Rightarrow> t = [] \<and> ch_scheme c = AUTH_BASIC | None \<Rightarrow> False)"
    unfolding basic_field_def by code_simp
  then obtain bc where "http_read_challenge (hvalue basic_field) = Some ([], bc)" "ch_scheme bc = AUTH_BASIC"
    by (auto split: option.splits prod.splits)
  moreover have "deref (hvalue basic_field) \<noteq> NUL" by (simp add: basic_field_def)
  moreover have "ch_scheme http_challenge_init = AUTH_UNKNOWN" by (simp add: http_challenge_init_def)
  ultimately show ?thesis
    by (subst challenges_loop.simps) (simp add: auth_scheme_is_better_def challenges_loop.simps [of True "[]"])
qed

lemma challenge_best:
  assumes "http_read_challenge v = Some ([], ch)" and "ch_scheme ch = AUTH_DIGEST" and "v \<noteq> []" and "hd v \<noteq> NUL"
  shows "http_header_get_proxy_challenge True [basic_field, digest_field v] = Some ch"
proof -
  obtain bc where bc: "challenges_loop True (hvalue basic_field) http_challenge_init = Some bc" "ch_scheme bc = AUTH_BASIC"
    using basic_challenge by blast
  have "deref v \<noteq> NUL" using assms(3,4) by (cases v) auto
  then have "challenges_loop True v bc = Some ch"
    using assms bc(2) by (subst challenges_loop.simps) (simp add: auth_scheme_is_better_def challenges_loop.simps [of True "[]"])
  moreover have "hname basic_field = ''Proxy-Authenticate''" "hname (digest_field v) = ''Proxy-Authenticate''" "hvalue (digest_field v) = v"
    by (simp_all add: basic_field_def digest_field_def)
  ultimately show ?thesis
    by (simp add: http_header_get_proxy_challenge_def http_header_next_def field_names proxy_challenge_loop.simps bc(1))
qed

lemma client_reads:
  assumes ok: "header_ok (digest_field v)" and v: "length v \<le> 9000" "v \<noteq> []" "hd v \<noteq> NUL"
    and ch: "http_read_challenge v = Some ([], ch)" "ch_scheme ch = AUTH_DIGEST"
    and un: "unread sockbuf = required_line @ http_header_to_string [basic_field, digest_field v] @ crlf @ body"
    and req: "http_connect_request_auth True md5 rs rb pa uri fam host_str portno ch = Some (Some (s, n))"
  shows "do_proxy_http_reply True md5 rs rb (Some pa) uri fam host_str portno sockbuf = Some (Retry s n)"
proof -
  let ?hs = "[basic_field, digest_field v]"
  have "\<exists>sb'. socket_buffer_readline sockbuf MAX_STATUS_LINE_LENGTH = (sb', Some required_line, length required_line) \<and>
      unread sb' = http_header_to_string ?hs @ crlf @ body"
    by (rule readline_line [where t = "''HTTP/1.0 407 Proxy Authentication Required'' @ [CR]"])
      (use un in \<open>simp_all add: required_line_def crlf_def\<close>)
  then obtain sb1 where sb1: "http_read_status_line sockbuf = (sb1, Inr required_line)"
      "unread sb1 = http_header_to_string ?hs @ [CR, LF] @ body"
    by (auto simp: http_read_status_line_def crlf_def)
  have cd: "http_parse_status_line_code required_line = 407" unfolding required_line_def crlf_def by code_simp
  have oks: "\<forall>h\<in>set ?hs. header_ok h" using ok basic_ok by simp
  have "length (http_header_to_string ?hs) + 2 < MAX_HEADER_LENGTH"
    using v(1) by (simp add: http_header_to_string_def basic_field_def digest_field_def)
  then obtain sb2 where sb2: "http_read_header sb1 = (sb2, Inr (http_header_to_string ?hs @ [CR, LF]))"
    using read_headers [OF oks sb1(2)] by blast
  show ?thesis
    by (simp add: do_proxy_http_reply_def sb1(1) sb2 cd parse_headers [OF oks] challenge_best [OF ch v(2,3)] req)
qed

lemma response_text_eq:
  assumes "md5_ok md5" and "secret_initialized st" and "length v \<le> 9000" and nv: "NUL \<notin> set v"
    and "v = ''Digest '' @ params_text (challenge_params ''Ncat'' (nonce_text md5 st t0) stale)"
  shows "proxy_authenticate_response True md5 st (Some t0) stale =
    Some (Some (required_line @ http_header_to_string [basic_field, digest_field v] @ crlf))"
proof -
  have pl: "plain_text ''Ncat''" by code_simp
  note t = authenticate_text [OF assms(1,2) pl, of t0 stale, folded assms(5)]
  have "proxy_authenticate_response True md5 st (Some t0) stale =
    Some (Some (required_line @ (''Proxy-Authenticate: Basic realm='' @ [CHR 0x22] @ ''Ncat'' @ [CHR 0x22] @ crlf) @
      (''Proxy-Authenticate: '' @ v @ crlf) @ crlf @ []))"
    unfolding proxy_authenticate_response_def t if_True bind.bind_lunit required_line_def
    by (intro yields_start text_rules) (use nv assms(3) in \<open>auto simp: crlf_def\<close>)
  then show ?thesis by (simp add: http_header_to_string_def basic_field_def digest_field_def crlf_def)
qed

lemma request_text_eq:
  assumes "http_digest_proxy_authorization md5 rs rb ch user password ''CONNECT'' uri = Some (Some ('' '' @ v @ crlf))"
    and "ch_scheme ch = AUTH_DIGEST" and "CHR '':'' \<notin> set user" and "NUL \<notin> set v" and "NUL \<notin> set (sock_to_url fam host_str portno)"
    and "s = ''CONNECT '' @ sock_to_url fam host_str portno @ '' HTTP/1.0'' @ crlf @
      http_header_to_string [\<lparr>hname = ''Proxy-Authorization'', hvalue = v\<rparr>] @ crlf"
  shows "http_connect_request_auth True md5 rs rb (user @ '':'' @ password) uri fam host_str portno ch = Some (Some (s, length s))"
proof -
  let ?w = "sock_to_url fam host_str portno"
  let ?l = "''CONNECT '' @ ?w @ '' HTTP/1.0'' @ crlf"
  have "length ?w \<le> 511" by (simp add: sock_to_url_def)
  then have "length ?l < 2 ^ 31" by (simp add: crlf_def)
  then obtain b1 where b1: "append_connect_request_line strbuf_init fam host_str portno = Some b1" "holds b1 ([] @ ?l)"
    using strbuf_sprintf_holds [OF holds_init, of ?l] unfolding append_connect_request_line_def by auto
  obtain b2 where b2: "strbuf_append_str b1 ''Proxy-Authorization:'' = Some b2" "holds b2 (([] @ ?l) @ ''Proxy-Authorization:'')"
    using strbuf_append_str_holds [OF b1(2)] by blast
  obtain b3 where b3: "strbuf_append_str b2 ('' '' @ v @ crlf) = Some b3" "holds b3 ((([] @ ?l) @ ''Proxy-Authorization:'') @ '' '' @ v @ crlf)"
    using strbuf_append_str_holds [OF b2(2)] by blast
  obtain b4 where b4: "strbuf_append_str b3 crlf = Some b4" "sb_buf b4 \<noteq> None"
      "holds b4 (((([] @ ?l) @ ''Proxy-Authorization:'') @ '' '' @ v @ crlf) @ crlf)"
    using strbuf_append_str_holds [OF b3(2)] by blast
  have s: "(((([] @ ?l) @ ''Proxy-Authorization:'') @ '' '' @ v @ crlf) @ crlf) = s"
    unfolding assms(6) by (simp add: http_header_to_string_def crlf_def)
  have "NUL \<notin> set s" using assms(4,5) unfolding assms(6) by (simp add: http_header_to_string_def crlf_def)
  then have "strbuf_string b4 = Some s" by (rule holds_string [OF b4(3) [unfolded s] b4(2)])
  moreover have "sb_offset b4 = length s" using b4(2) b4(3) [unfolded s] by (auto simp: holds_def split: option.splits)
  moreover have "strchr (user @ '':'' @ password) (CHR '':'') = Some (CHR '':'' # password)"
      "mkstr (user @ '':'' @ password) (CHR '':'' # password) = user" by (rule split_auth [OF assms(3)])+
  ultimately show ?thesis
    using assms(1,2) b1(1) b2(1) b3(1) b4(1) by (simp add: http_connect_request_auth_def)
qed


lemma length_quoted: "length (quoted s) \<le> 2 * length s + 2"
proof -
  have "length (escape must_escape s) \<le> 2 * length s" by (induction s) (simp_all add: escape_append escape_def)
  then show ?thesis by (simp add: quoted_def)
qed

lemma login_length:
  assumes "length user \<le> 4000" and "length uri \<le> 511" and "length n \<le> 64" and "length cn = 16" and "length resp = 32"
  shows "length (''Digest '' @ params_text (login_params user ''Ncat'' n uri cn resp)) \<le> 10000"
  using assms length_quoted [of user] length_quoted [of "''Ncat''"] length_quoted [of n] length_quoted [of uri]
    length_quoted [of cn] length_quoted [of resp] unfolding login_text by simp

lemma challenge_length:
  "length n \<le> 64 \<Longrightarrow> length (''Digest '' @ params_text (challenge_params ''Ncat'' n stale)) \<le> 9000"
  using length_quoted [of "''Ncat''"] length_quoted [of n] length_quoted [of "''auth''"] unfolding challenge_text by simp

lemma run_NUL: "spaces_run p s = Some q \<Longrightarrow> NUL \<notin> set s"
  using safe_ctl [of p s q NUL] ctl_facts(1) by auto

lemma fresh_check:
  assumes "md5_ok md5" and "secret_initialized st" and "valid_time t0" and "CHR '':'' \<notin> set user"
    and "\<not> TIMEVAL_AFTER t0 now" and "TIMEVAL_SEC_SUBTRACT now t0 < 2 ^ 31" and "n = nonce_text md5 st t0"
    and "resp = response_of md5 user ''Ncat'' password ''CONNECT'' uri n ('':'' @ c @ '':'' @ cn @ '':auth'')"
  shows "check_auth True md5 st now (Some (user @ '':'' @ password)) (Some ''CONNECT'') (Cred_Digest
      \<lparr>username = Some user, realm = Some ''Ncat'', nonce = Some n, duri = Some uri, response = Some resp,
       algorithm = ALGORITHM_MD5, qop = QOP_AUTH, nc = Some c, cnonce = Some cn\<rparr>) old =
    Some (TIMEVAL_SEC_SUBTRACT now t0 \<le> 10, \<not> TIMEVAL_SEC_SUBTRACT now t0 \<le> 10)"
proof -
  have tm: "http_digest_nonce_time n = Some t0" unfolding assms(7) by (rule nonce_time_eq [OF assms(3)])
  have "0 \<le> TIMEVAL_SEC_SUBTRACT now t0" using assms(5) by (auto simp: TIMEVAL_SEC_SUBTRACT_def TIMEVAL_AFTER_def)
  then have "signed_take_bit 31 (TIMEVAL_SEC_SUBTRACT now t0) = TIMEVAL_SEC_SUBTRACT now t0"
    using assms(6) by (intro signed_take_bit_int_eq_self) simp_all
  then show ?thesis
    using check_accepts [OF assms(1-3,7,8)] tm assms(5) split_auth [OF assms(4), of password] by (simp add: check_auth_def)
qed

section \<open>The two legs\<close>

text \<open>The value of the proxy's challenge field, the value of the client's answer to it, and the request it is sent in.\<close>

definition challenge_value :: "(string \<Rightarrow> string) \<Rightarrow> digest_state \<Rightarrow> timeval \<Rightarrow> bool \<Rightarrow> string" where
  "challenge_value md5 st t0 stale = ''Digest '' @ params_text (challenge_params ''Ncat'' (nonce_text md5 st t0) stale)"

definition answer_hash ::
  "(string \<Rightarrow> string) \<Rightarrow> digest_state \<Rightarrow> timeval \<Rightarrow> string \<Rightarrow> string \<Rightarrow> string \<Rightarrow> string \<Rightarrow> string" where
  "answer_hash md5 st t0 user password uri cn =
     md5 (response_text md5 user ''Ncat'' password ''CONNECT'' uri (nonce_text md5 st t0) ('':'' @ ''00000001'' @ '':'' @ hexs cn @ '':auth''))"

definition answer_value ::
  "(string \<Rightarrow> string) \<Rightarrow> digest_state \<Rightarrow> timeval \<Rightarrow> string \<Rightarrow> string \<Rightarrow> string \<Rightarrow> string \<Rightarrow> string" where
  "answer_value md5 st t0 user password uri cn = ''Digest '' @ params_text
     (login_params user ''Ncat'' (nonce_text md5 st t0) uri (hexs cn) (hexs (answer_hash md5 st t0 user password uri cn)))"

definition answer_field :: "string \<Rightarrow> http_header" where
  "answer_field a = \<lparr>hname = ''Proxy-Authorization'', hvalue = a\<rparr>"

definition answer_request :: "string \<Rightarrow> string \<Rightarrow> string" where
  "answer_request w a = ''CONNECT '' @ w @ '' HTTP/1.0'' @ crlf @ http_header_to_string [answer_field a] @ crlf"

lemma realm_facts: "plain_text ''Ncat''" "header_safe ''Ncat''"
  by code_simp+

lemma answer_hash_response:
  "hexs (answer_hash md5 st t0 user password uri cn) =
    response_of md5 user ''Ncat'' password ''CONNECT'' uri (nonce_text md5 st t0) ('':'' @ ''00000001'' @ '':'' @ hexs cn @ '':auth'')"
  by (simp add: answer_hash_def response_of_def)

lemma token_names: "\<forall>c\<in>set ''Proxy-Authenticate''. is_token_char c" "\<forall>c\<in>set ''Proxy-Authorization''. is_token_char c"
  by code_simp+

lemma challenge_value_facts:
  assumes "md5_ok md5" and "valid_time t0"
  shows "spaces_run True (challenge_value md5 st t0 stale) = Some False" "length (challenge_value md5 st t0 stale) \<le> 9000"
    "challenge_value md5 st t0 stale \<noteq> []" "hd (challenge_value md5 st t0 stale) \<noteq> NUL" "header_ok (digest_field (challenge_value md5 st t0 stale))"
proof -
  show r: "spaces_run True (challenge_value md5 st t0 stale) = Some False"
    unfolding challenge_value_def by (rule challenge_run [OF realm_facts(2) safe_nonce [OF assms(2)]])
  show "length (challenge_value md5 st t0 stale) \<le> 9000"
    unfolding challenge_value_def by (rule challenge_length [OF length_nonce_text [OF assms(1)]])
  show "challenge_value md5 st t0 stale \<noteq> []" "hd (challenge_value md5 st t0 stale) \<noteq> NUL" by (simp_all add: challenge_value_def)
  show "header_ok (digest_field (challenge_value md5 st t0 stale))"
    unfolding digest_field_def by (rule header_ok_run [OF _ token_names(1) r]) simp
qed

lemma answer_value_facts:
  assumes "md5_ok md5" and "valid_time t0" and "header_safe user" and "length user \<le> 4000" and "header_safe uri" and "length uri \<le> 511"
    and "length cn = 8"
  shows "spaces_run True (answer_value md5 st t0 user password uri cn) = Some False"
    "length (answer_value md5 st t0 user password uri cn) \<le> 10000"
    "header_ok (answer_field (answer_value md5 st t0 user password uri cn))"
proof -
  show r: "spaces_run True (answer_value md5 st t0 user password uri cn) = Some False"
    unfolding answer_value_def by (rule login_run [OF assms(3) realm_facts(2) safe_nonce [OF assms(2)] assms(5)])
  have "length (hexs (answer_hash md5 st t0 user password uri cn)) = 32" "length (hexs cn) = 16"
    using assms(1,7) by (simp_all add: length_hexs md5_ok_def answer_hash_def)
  then show "length (answer_value md5 st t0 user password uri cn) \<le> 10000"
    unfolding answer_value_def using login_length [OF assms(4,6) length_nonce_text [OF assms(1)]] by blast
  show "header_ok (answer_field (answer_value md5 st t0 user password uri cn))"
    unfolding answer_field_def by (rule header_ok_run [OF _ token_names(2) r]) simp
qed

lemma unread_init: "unread (socket_buffer_init inp) = stream inp"
  by (simp add: unread_def socket_buffer_init_def)

lemma login_client:
  assumes "md5_ok md5" and "secret_initialized st" and "valid_time t0"
    and "plain_text user" and "CHR '':'' \<notin> set user" and "header_safe user" and "length user \<le> 4000"
    and "plain_text uri" and "header_safe uri" and "length uri \<le> 511" and "header_safe (sock_to_url fam host_str portno)"
    and "length cn = 8" and s: "s = answer_request (sock_to_url fam host_str portno) (answer_value md5 st t0 user password uri cn)"
  shows "\<exists>text. proxy_authenticate_response True md5 st (Some t0) stale = Some (Some text) \<and>
    (\<forall>inp body. stream inp = text @ body \<longrightarrow>
       do_proxy_http_reply True md5 True (Some cn) (Some (user @ '':'' @ password)) uri fam host_str portno (socket_buffer_init inp) =
         Some (Retry s (length s)))"
proof -
  let ?v = "challenge_value md5 st t0 stale" and ?a = "answer_value md5 st t0 user password uri cn"
  let ?text = "required_line @ http_header_to_string [basic_field, digest_field ?v] @ crlf"
  let ?n = "nonce_text md5 st t0"
  define ch where "ch = http_challenge_init\<lparr>ch_scheme := AUTH_DIGEST, ch_realm := Some ''Ncat'', ch_nonce := Some ?n, ch_qop := 1\<rparr>"
  note v = challenge_value_facts [OF assms(1,3), of st stale]
  have 1: "proxy_authenticate_response True md5 st (Some t0) stale = Some (Some ?text)"
    by (rule response_text_eq [OF assms(1,2) v(2) run_NUL [OF v(1)] challenge_value_def])
  have rc: "http_read_challenge ?v = Some ([], ch)"
    unfolding challenge_value_def ch_def by (rule challenge_read [OF realm_facts(1) plain_nonce])
  have "http_digest_proxy_authorization md5 True (Some cn) ch user password ''CONNECT'' uri = Some (Some ('' Digest '' @
      params_text (login_params user ''Ncat'' ?n uri (hexs cn) (hexs (answer_hash md5 st t0 user password uri cn))) @ crlf))"
    by (rule authorization_text [OF assms(1,12)])
      (use assms(4,8) realm_facts plain_nonce answer_hash_response in \<open>simp_all add: ch_def http_challenge_init_def\<close>)
  then have au: "http_digest_proxy_authorization md5 True (Some cn) ch user password ''CONNECT'' uri = Some (Some ('' '' @ ?a @ crlf))"
    by (simp add: answer_value_def)
  have sch: "ch_scheme ch = AUTH_DIGEST" by (simp add: ch_def)
  obtain q where "spaces_run False (sock_to_url fam host_str portno) = Some q" using assms(11) by (auto simp: header_safe_def)
  then have rq: "http_connect_request_auth True md5 True (Some cn) (user @ '':'' @ password) uri fam host_str portno ch = Some (Some (s, length s))"
    using answer_value_facts(1) [OF assms(1,3,6,7,9,10,12)]
    by (intro request_text_eq [OF au sch assms(5)] run_NUL) (simp_all add: s answer_request_def answer_field_def)
  have "do_proxy_http_reply True md5 True (Some cn) (Some (user @ '':'' @ password)) uri fam host_str portno (socket_buffer_init inp) =
      Some (Retry s (length s))" if "stream inp = ?text @ body" for inp body
    by (rule client_reads [OF v(5,2-4) rc sch _ rq]) (simp add: unread_init that)
  then show ?thesis using 1 by blast
qed

lemma login_proxy:
  assumes "md5_ok md5" and "secret_initialized st" and "valid_time t0"
    and "plain_text user" and "CHR '':'' \<notin> set user" and "header_safe user" and "length user \<le> 4000"
    and "plain_text uri" and "header_safe uri" and "length uri \<le> 511"
    and "w \<noteq> []" and "length w \<le> 511" and "CHR '' '' \<notin> set w" and "header_safe w" and "uri_parse_authority uri_init w = Some u"
    and "length cn = 8" and "\<not> TIMEVAL_AFTER t0 now" and "TIMEVAL_SEC_SUBTRACT now t0 < 2 ^ 31"
    and inp: "stream inp = answer_request w (answer_value md5 st t0 user password uri cn) @ body"
  shows "\<exists>r sock. http_server_handler True md5 st now (Some (user @ '':'' @ password)) (socket_buffer_init inp) =
       Some (if TIMEVAL_SEC_SUBTRACT now t0 \<le> 10 then Handle r else Send_authenticate True, sock) \<and>
     req_method r = Some ''CONNECT'' \<and> req_uri r = u \<and> unread sock = body"
proof -
  let ?a = "answer_value md5 st t0 user password uri cn"
  let ?cred = "Cred_Digest \<lparr>username = Some user, realm = Some ''Ncat'', nonce = Some (nonce_text md5 st t0), duri = Some uri,
    response = Some (hexs (answer_hash md5 st t0 user password uri cn)), algorithm = ALGORITHM_MD5, qop = QOP_AUTH,
    nc = Some ''00000001'', cnonce = Some (hexs cn)\<rparr>"
  note a = answer_value_facts [OF assms(1,3,6,7,9,10,16), of st password]
  have h: "hname (answer_field ?a) = ''Proxy-Authorization''" "hvalue (answer_field ?a) = ?a" by (simp_all add: answer_field_def)
  have "http_read_credentials ?a = Some ([], ?cred)"
    unfolding answer_value_def by (rule credentials_read [OF assms(4) realm_facts(1) plain_nonce assms(8) plain_hexs plain_hexs])
  then have cr: "http_read_credentials (hvalue (answer_field ?a)) = Some ([], ?cred)" by (simp only: h)
  have un: "unread (socket_buffer_init inp) = ''CONNECT '' @ w @ '' HTTP/1.0'' @ crlf @ http_header_to_string [answer_field ?a] @ crlf @ body"
    by (simp add: unread_init inp answer_request_def)
  note chk = fresh_check [OF assms(1-3,5,17,18) refl answer_hash_response]
  have "length (hvalue (answer_field ?a)) \<le> 10000" "cr_scheme ?cred = AUTH_DIGEST" using a(2) by (simp_all add: h)
  from server_reads [OF assms(11,13) safe_LF [OF assms(14)] assms(12,15) a(3) h(1) this(1) cr this(2) un chk]
  show ?thesis by (auto split: if_splits)
qed

section \<open>Properties\<close>

text \<open>C9: a client that knows the password gets through the proxy. Whatever the user name (without colons, quotation
  marks and control characters, and without two spaces in a row, which the proxy's header parser would merge), the password
  and the target: from the bytes of the proxy's 407 response, in whatever pieces they arrive, the client makes a request
  with credentials; from the bytes of that request, in whatever pieces, the proxy reads the method and the target and
  handles it if no more than ten seconds have passed since it made the challenge, and else answers that the nonce is
  stale. What follows the request is left for the tunnel.\<close>

theorem digest_login:
  assumes "md5_ok md5" and "secret_initialized st" and "valid_time t0"
    and "plain_text user" and "CHR '':'' \<notin> set user" and "header_safe user" and "length user \<le> 4000"
    and "plain_text uri" and "header_safe uri" and "length uri \<le> 511"
    and "w = sock_to_url fam host_str portno" and "CHR '' '' \<notin> set w" and "header_safe w" and "uri_parse_authority uri_init w = Some u"
    and "length cn = 8" and "\<not> TIMEVAL_AFTER t0 now" and "TIMEVAL_SEC_SUBTRACT now t0 < 2 ^ 31"
  shows "\<exists>text s n.
    proxy_authenticate_response True md5 st (Some t0) stale = Some (Some text) \<and>
    (\<forall>inp body. stream inp = text @ body \<longrightarrow>
       do_proxy_http_reply True md5 True (Some cn) (Some (user @ '':'' @ password)) uri fam host_str portno (socket_buffer_init inp) =
         Some (Retry s n)) \<and>
    (\<forall>inp body. stream inp = take n s @ body \<longrightarrow>
       (\<exists>r sock. http_server_handler True md5 st now (Some (user @ '':'' @ password)) (socket_buffer_init inp) =
           Some (if TIMEVAL_SEC_SUBTRACT now t0 \<le> 10 then Handle r else Send_authenticate True, sock) \<and>
         req_method r = Some ''CONNECT'' \<and> req_uri r = u \<and> unread sock = body))"
proof -
  define s where "s = answer_request w (answer_value md5 st t0 user password uri cn)"
  have w: "w \<noteq> []" "length w \<le> 511" by (simp_all add: assms(11) sock_to_url_def)
  note safe = assms(13) [unfolded assms(11)]
  obtain reply where "proxy_authenticate_response True md5 st (Some t0) stale = Some (Some reply)"
    "\<forall>inp body. stream inp = reply @ body \<longrightarrow>
       do_proxy_http_reply True md5 True (Some cn) (Some (user @ '':'' @ password)) uri fam host_str portno (socket_buffer_init inp) =
         Some (Retry s (length s))"
    using login_client [OF assms(1-10) safe assms(15) s_def [unfolded assms(11)]] by blast
  then show ?thesis using login_proxy [OF assms(1-10) w assms(12-17)]
    by (intro exI [of _ reply] exI [of _ s] exI [of _ "length s"]) (simp add: s_def)
qed

text \<open>A user name with a backslash and a space, a password with a quotation mark; the answer takes five seconds.\<close>

theorem digest_login_witness:
  "\<exists>text s n.
    proxy_authenticate_response True demo_md5 demo_secret (Some \<lparr>tv_sec = 1000, tv_usec = 500000\<rparr>) False = Some (Some text) \<and>
    do_proxy_http_reply True demo_md5 True (Some ''noncence'') (Some ((''al '' @ [CHR 0x5C] @ ''ice'') @ '':'' @ ''se'' @ [CHR 0x22] @ ''cret''))
      ''host:80'' 1 ''host'' 80 (socket_buffer_init [Data (take 7 text), Interrupted, Data (drop 7 text)]) = Some (Retry s n) \<and>
    (\<exists>r sock. http_server_handler True demo_md5 demo_secret \<lparr>tv_sec = 1005, tv_usec = 0\<rparr>
        (Some ((''al '' @ [CHR 0x5C] @ ''ice'') @ '':'' @ ''se'' @ [CHR 0x22] @ ''cret'')) (socket_buffer_init [Data (take n s @ ''hello'')]) =
        Some (Handle r, sock) \<and> req_method r = Some ''CONNECT'' \<and> port (req_uri r) = 80 \<and> unread sock = ''hello'')"
proof -
  let ?u = "''al '' @ [CHR 0x5C] @ ''ice''" and ?t = "\<lparr>tv_sec = 1000, tv_usec = 500000\<rparr>" and ?now = "\<lparr>tv_sec = 1005, tv_usec = 0\<rparr>"
  have t: "secret_initialized demo_secret" "valid_time ?t" "\<not> TIMEVAL_AFTER ?t ?now" "TIMEVAL_SEC_SUBTRACT ?now ?t = 4"
    by (simp_all add: demo_secret_def valid_time_def TIMEVAL_AFTER_def TIMEVAL_SEC_SUBTRACT_def)
  have u: "plain_text ?u" "CHR '':'' \<notin> set ?u" "header_safe ?u" "length ?u \<le> 4000" "plain_text ''host:80''" "header_safe ''host:80''"
    "length ''host:80'' \<le> 511" "''host:80'' = sock_to_url 1 ''host'' 80" "CHR '' '' \<notin> set ''host:80''" "length ''noncence'' = 8" by code_simp+
  have "case uri_parse_authority uri_init ''host:80'' of Some x \<Rightarrow> port x = 80 | None \<Rightarrow> False" by code_simp
  then obtain x where x: "uri_parse_authority uri_init ''host:80'' = Some x" "port x = 80" by (auto split: option.splits)
  have "TIMEVAL_SEC_SUBTRACT ?now ?t < 2 ^ 31" by (simp add: t(4))
  from digest_login [where password = "''se'' @ [CHR 0x22] @ ''cret''" and stale = False, OF demo_md5_ok t(1,2) u(1-9,6) x(1) u(10) t(3) this]
  obtain reply s n where l: "proxy_authenticate_response True demo_md5 demo_secret (Some ?t) False = Some (Some reply)"
    "\<And>inp body. stream inp = reply @ body \<Longrightarrow> do_proxy_http_reply True demo_md5 True (Some ''noncence'')
      (Some (?u @ '':'' @ ''se'' @ [CHR 0x22] @ ''cret'')) ''host:80'' 1 ''host'' 80 (socket_buffer_init inp) = Some (Retry s n)"
    "\<And>inp body. stream inp = take n s @ body \<Longrightarrow> \<exists>r sock. http_server_handler True demo_md5 demo_secret ?now
        (Some (?u @ '':'' @ ''se'' @ [CHR 0x22] @ ''cret'')) (socket_buffer_init inp) = Some (Handle r, sock) \<and>
        req_method r = Some ''CONNECT'' \<and> req_uri r = x \<and> unread sock = body"
    unfolding t(4) by auto
  have "stream [Data (take 7 reply), Interrupted, Data (drop 7 reply)] = reply @ []" by simp
  note client = l(2) [OF this]
  have "stream [Data (take n s @ ''hello'')] = take n s @ ''hello''" by simp
  from l(3) [OF this] x(2) show ?thesis using l(1) client by blast
qed

end
