(* ===== verification/Addr_Trie.thy ===== *)
theory Addr_Trie
  imports Nmap_Prelude
begin

text \<open>
  The radix tree of \<open>nbase/nbase_addrset.c\<close>: addresses and masks are arrays of four 32-bit words,
  most significant first, and a node stands for the addresses that agree with it on its masked
  bits. The tree is a datatype: the null pointer, the special node \<open>TRIE_NODE_TRUE\<close> and the
  allocated nodes are its constructors. The code keeps the path from the root in an array of
  132 entries; a write past its end is the result \<open>None\<close>.

  The theory holds the operations on trees, the bit-level meaning of the masks (a mask is a prefix
  length, and the word tricks compute on prefix lengths), the invariant of the tree and what the
  operations do to the set of addresses it matches.
\<close>

section \<open>The tree\<close>

type_synonym addr4 = "u32 list"

datatype trie_node =
    Null
  | TRIE_NODE_TRUE
  | Trie_node (node_addr: addr4) (node_mask: addr4) (next_bit_one: trie_node) (next_bit_zero: trie_node)

definition U32_ALL_BITS :: u32 where
  "U32_ALL_BITS = 0xffffffff"

text \<open>The zeroed node \<open>addrset_new\<close> allocates.\<close>

definition zero_trie_node :: trie_node where
  "zero_trie_node = Trie_node [0, 0, 0, 0] [0, 0, 0, 0] Null Null"

section \<open>Masks\<close>

definition LogTable256 :: "int list" where
  "LogTable256 =
     [-1, 0, 1, 1, 2, 2, 2, 2, 3, 3, 3, 3, 3, 3, 3, 3] @
     replicate 16 4 @ replicate 16 5 @ replicate 16 5 @
     replicate 16 6 @ replicate 16 6 @ replicate 16 6 @ replicate 16 6 @
     replicate 16 7 @ replicate 16 7 @ replicate 16 7 @ replicate 16 7 @
     replicate 16 7 @ replicate 16 7 @ replicate 16 7 @ replicate 16 7"

definition lg :: "u32 \<Rightarrow> u8" where
  "lg v =
     (let tt = drop_bit 16 v
      in if tt \<noteq> 0
         then (let t = drop_bit 8 tt
               in word_of_int (if t \<noteq> 0 then 24 + LogTable256 ! unat t else 16 + LogTable256 ! unat tt))
         else (let t = drop_bit 8 v
               in word_of_int (if t \<noteq> 0 then 8 + LogTable256 ! unat t else LogTable256 ! unat v)))"

definition common_mask :: "u32 \<Rightarrow> u32 \<Rightarrow> u32" where
  "common_mask a b =
     (let v = a XOR b
      in if v = 0 then U32_ALL_BITS
         else let r = unat (lg v)
              in if r + 1 \<ge> 32 then 0 else NOT (push_bit (r + 1) 1 - 1))"

definition next_bit_is_one :: "u32 \<Rightarrow> u32 \<Rightarrow> u32" where
  "next_bit_is_one m v =
     (if m = 0 then push_bit 31 1 AND v
      else if m = U32_ALL_BITS then 0
      else (drop_bit 1 m AND NOT m) AND v)"

fun addr_next_bit_is_one :: "addr4 \<Rightarrow> addr4 \<Rightarrow> u32" where
  "addr_next_bit_is_one (curr_mask # ms) (a # as) =
     (if curr_mask < U32_ALL_BITS then next_bit_is_one curr_mask a else addr_next_bit_is_one ms as)"
| "addr_next_bit_is_one _ _ = 0"

definition mask_matches :: "u32 \<Rightarrow> u32 \<Rightarrow> u32 \<Rightarrow> bool" where
  "mask_matches m a b \<longleftrightarrow> m AND (a XOR b) = 0"

fun addr_matches :: "addr4 \<Rightarrow> addr4 \<Rightarrow> addr4 \<Rightarrow> bool" where
  "addr_matches (curr_mask # ms) (a # sa) (b # sb) =
     (if curr_mask = 0 then True
      else if \<not> mask_matches curr_mask a b then False
      else addr_matches ms sa sb)"
| "addr_matches _ _ _ = True"

function mask_is_one_bit_more :: "addr4 \<Rightarrow> addr4 \<Rightarrow> nat \<Rightarrow> bool" where
  "mask_is_one_bit_more this_mask other_mask i =
     (if i < 4
      then if this_mask ! i > other_mask ! i then False
           else if this_mask ! i < other_mask ! i
           then this_mask ! i = (push_bit 1 (other_mask ! i) AND U32_ALL_BITS) \<and>
                (i = 3 \<or> other_mask ! (i + 1) = 0)
           else mask_is_one_bit_more this_mask other_mask (i + 1)
      else False)"
  by pat_completeness auto

termination mask_is_one_bit_more
  by (relation "measure (\<lambda>(_, _, i). 4 - i)") auto

declare mask_is_one_bit_more.simps [simp del]

section \<open>Insertion\<close>

definition new_trie_node :: "addr4 \<Rightarrow> addr4 \<Rightarrow> trie_node" where
  "new_trie_node addr nmask = Trie_node addr nmask TRIE_NODE_TRUE TRIE_NODE_TRUE"

text \<open>
  How the loop of \<open>trie_split\<close> over the four words ends: the node is superseded at word \<open>i\<close>, or
  the loop leaves the common mask and the word it stopped at.
\<close>

datatype split_scan = Superseded nat | Scanned addr4 nat

function split_loop :: "addr4 \<Rightarrow> addr4 \<Rightarrow> addr4 \<Rightarrow> addr4 \<Rightarrow> addr4 \<Rightarrow> nat \<Rightarrow> split_scan" where
  "split_loop this_addr this_mask addr nmask new_mask i =
     (if i < 4
      then (let c = common_mask (this_addr ! i) (addr ! i);
                c = (if c > this_mask ! i then this_mask ! i else c)
            in if c > nmask ! i then Superseded i
               else if c < U32_ALL_BITS then Scanned (new_mask[i := c]) i
               else split_loop this_addr this_mask addr nmask (new_mask[i := c]) (i + 1))
      else Scanned new_mask i)"
  by pat_completeness auto

termination split_loop
  by (relation "measure (\<lambda>(_, _, _, _, _, i). 4 - i)") auto

declare split_loop.simps [simp del]

fun trie_split :: "trie_node \<Rightarrow> addr4 \<Rightarrow> addr4 \<Rightarrow> trie_node" where
  "trie_split (Trie_node this_addr this_mask one zero) addr nmask =
     (case split_loop this_addr this_mask addr nmask [0, 0, 0, 0] 0 of
        Superseded i \<Rightarrow>
          Trie_node this_addr (take i this_mask @ nmask ! i # replicate (3 - i) 0) TRIE_NODE_TRUE TRIE_NODE_TRUE
      | Scanned new_mask i \<Rightarrow>
          if i \<ge> 4 \<or> new_mask ! i \<ge> this_mask ! i then Trie_node this_addr this_mask one zero
          else
            let new_node =
                  (if mask_is_one_bit_more new_mask this_mask i \<and> one = TRIE_NODE_TRUE \<and> zero = TRIE_NODE_TRUE
                   then TRIE_NODE_TRUE
                   else Trie_node this_addr this_mask one zero)
            in if addr_next_bit_is_one new_mask this_addr \<noteq> 0
               then Trie_node this_addr new_mask new_node Null
               else Trie_node this_addr new_mask Null new_node)"
| "trie_split this addr nmask = this"

text \<open>
  One round of the loop that replaces full branches: whether the node \<open>this\<close> below a node with the
  mask \<open>parent_mask\<close> gives way to \<open>TRIE_NODE_TRUE\<close>, in which case the loop goes on one level up.
\<close>

fun collapse :: "addr4 \<Rightarrow> trie_node \<Rightarrow> trie_node \<times> bool" where
  "collapse parent_mask (Trie_node a m one zero) =
     (if mask_is_one_bit_more parent_mask m 0 \<and> zero = TRIE_NODE_TRUE \<and> one = TRIE_NODE_TRUE
      then (TRIE_NODE_TRUE, True)
      else (Trie_node a m one zero, False))"
| "collapse parent_mask t = (t, False)"

definition set_branch :: "bool \<Rightarrow> addr4 \<Rightarrow> addr4 \<Rightarrow> trie_node \<Rightarrow> trie_node \<Rightarrow> trie_node \<Rightarrow> trie_node" where
  "set_branch b a m one zero t = (if b then Trie_node a m t zero else Trie_node a m one t)"

text \<open>
  The loop of \<open>_trie_insert\<close> at the node \<open>this\<close>, with \<open>i\<close> entries on the stack: the updated node,
  and whether the loop that replaces full branches is still running when it comes back to it.
\<close>

function insert_loop :: "nat \<Rightarrow> trie_node \<Rightarrow> addr4 \<Rightarrow> addr4 \<Rightarrow> (trie_node \<times> bool) option" where
  "insert_loop i this addr nmask =
     (case trie_split this addr nmask of
        Trie_node a m one zero \<Rightarrow>
          let b = addr_next_bit_is_one m addr \<noteq> 0; branch = (if b then one else zero)
          in if branch = Null
             then (let (t, up) = collapse m (new_trie_node addr nmask)
                   in Some (set_branch b a m one zero t, up))
             else if i \<ge> 132 then None
             else if branch = TRIE_NODE_TRUE then Some (Trie_node a m one zero, False)
             else (case insert_loop (i + 1) branch addr nmask of
                     None \<Rightarrow> None
                   | Some (t, up) \<Rightarrow>
                       let (t', up') = (if up then collapse m t else (t, False))
                       in Some (set_branch b a m one zero t', up'))
      | t \<Rightarrow> Some (t, False))"
  by pat_completeness auto

termination insert_loop
  by (relation "measure (\<lambda>(i, _). 132 - i)") auto

declare insert_loop.simps [simp del]

text \<open>\<open>_trie_insert\<close>, on the parent node.\<close>

fun trie_insert_below :: "trie_node \<Rightarrow> addr4 \<Rightarrow> addr4 \<Rightarrow> trie_node option" where
  "trie_insert_below (Trie_node pa pm one zero) addr nmask =
     (let b = push_bit 31 1 AND addr ! 0 \<noteq> 0; this = (if b then one else zero)
      in if this = Null then Some (set_branch b pa pm one zero (new_trie_node addr nmask))
         else if this = TRIE_NODE_TRUE then Some (Trie_node pa pm one zero)
         else if \<not> (node_addr this ! 0 XOR addr ! 0) < push_bit 31 1 then None
         else case insert_loop 1 this addr nmask of
                None \<Rightarrow> None
              | Some (t, up) \<Rightarrow>
                  Some (set_branch b pa pm one zero (fst (if up then collapse pm t else (t, False)))))"
| "trie_insert_below _ addr nmask = None"

fun trie_insert_addr :: "trie_node \<Rightarrow> addr4 \<Rightarrow> addr4 \<Rightarrow> trie_node option" where
  "trie_insert_addr (Trie_node pa pm one zero) addr nmask =
     (if nmask ! 0 \<le> push_bit 31 1
      then Some (Trie_node pa pm
             (if nmask ! 0 = 0 \<or> nmask ! 0 AND addr ! 0 \<noteq> 0 then TRIE_NODE_TRUE else one)
             (if nmask ! 0 = 0 \<or> nmask ! 0 AND addr ! 0 = 0 then TRIE_NODE_TRUE else zero))
      else trie_insert_below (Trie_node pa pm one zero) addr nmask)"
| "trie_insert_addr _ addr nmask = None"

section \<open>Matching\<close>

text \<open>\<open>_trie_match\<close>.\<close>

fun trie_match_below :: "trie_node \<Rightarrow> addr4 \<Rightarrow> bool" where
  "trie_match_below TRIE_NODE_TRUE addr = True"
| "trie_match_below Null addr = False"
| "trie_match_below (Trie_node a m one zero) addr =
     (if \<not> addr_matches m a addr then False
      else if 1 AND m ! 3 \<noteq> 0 then True
      else if addr_next_bit_is_one m addr \<noteq> 0 then trie_match_below one addr
      else trie_match_below zero addr)"

text \<open>The part of \<open>trie_match\<close> after the conversion of the address.\<close>

fun trie_match_addr :: "trie_node \<Rightarrow> addr4 \<Rightarrow> bool" where
  "trie_match_addr (Trie_node _ _ one zero) addr =
     (if push_bit 31 1 AND addr ! 0 \<noteq> 0 then trie_match_below one addr else trie_match_below zero addr)"
| "trie_match_addr _ addr = False"

text \<open>
  The search of \<open>trie_matches_all\<close> for the prefix of the IPv4-mapped addresses: a result, or the
  node the loop stopped at.
\<close>

fun matches_all_loop :: "trie_node \<Rightarrow> addr4 \<Rightarrow> bool + trie_node" where
  "matches_all_loop (Trie_node a m one zero) addr =
     (if addr_matches m a addr
      then if m ! 3 \<noteq> 0 then Inl False
           else if 1 AND m ! 2 \<noteq> 0 then Inl (one = TRIE_NODE_TRUE \<and> zero = TRIE_NODE_TRUE)
           else if addr_next_bit_is_one m addr \<noteq> 0 then matches_all_loop one addr
           else matches_all_loop zero addr
      else Inr (Trie_node a m one zero))"
| "matches_all_loop t addr = Inr t"

text \<open>The address families, by their numbers on Linux.\<close>

abbreviation (input) af_unspec :: nat where "af_unspec \<equiv> 0"
abbreviation (input) af_inet :: nat where "af_inet \<equiv> 2"
abbreviation (input) af_inet6 :: nat where "af_inet6 \<equiv> 10"

definition trie_matches_all :: "trie_node \<Rightarrow> nat \<Rightarrow> bool option" where
  "trie_matches_all this af =
     (let addr = [0, 0, 0xffff, 0]
      in case (if af = af_inet then Some (matches_all_loop this addr)
               else if af = af_inet6 then Some (Inr this) else None) of
           None \<Rightarrow> None
         | Some (Inl r) \<Rightarrow> Some r
         | Some (Inr TRIE_NODE_TRUE) \<Rightarrow> Some True
         | Some (Inr Null) \<Rightarrow> Some False
         | Some (Inr (Trie_node a m one zero)) \<Rightarrow>
             Some (one = TRIE_NODE_TRUE \<and> zero = TRIE_NODE_TRUE \<and> addr_matches m a addr))"

section \<open>Freeing\<close>

text \<open>
  \<open>trie_free\<close> as the list of the nodes it frees, in order. The stack holds the branches put aside;
  its entry 0 is the null pointer that ends the loop.
\<close>

definition is_node :: "trie_node \<Rightarrow> bool" where
  "is_node t \<longleftrightarrow> t \<noteq> Null \<and> t \<noteq> TRIE_NODE_TRUE"

function trie_free_loop :: "trie_node list \<Rightarrow> trie_node \<Rightarrow> trie_node list option" where
  "trie_free_loop stack (Trie_node a m one zero) =
     (if is_node one \<and> length stack + 1 \<ge> 132 then None
      else
        let stack' = (if is_node one then one # stack else stack); curr = Trie_node a m one zero
        in if is_node zero then map_option ((#) curr) (trie_free_loop stack' zero)
           else case stack' of
                  [] \<Rightarrow> Some [curr]
                | t # stack'' \<Rightarrow> map_option ((#) curr) (trie_free_loop stack'' t))"
| "trie_free_loop stack Null = Some []"
| "trie_free_loop stack TRIE_NODE_TRUE = Some []"
  by pat_completeness auto

termination trie_free_loop
  by (relation "measure (\<lambda>(stack, t). size t + sum_list (map size stack))") (auto split: if_splits)

definition trie_free :: "trie_node \<Rightarrow> trie_node list option" where
  "trie_free t = trie_free_loop [] t"

section \<open>Merging\<close>

text \<open>The prefix of a node, extended by one bit for the branch \<open>b\<close>.\<close>

fun extend_prefix :: "bool \<Rightarrow> addr4 \<Rightarrow> addr4 \<Rightarrow> addr4 \<times> addr4" where
  "extend_prefix b (a # as) (m # ms) =
     (let tmp = drop_bit 1 m OR push_bit 31 1
      in if tmp \<noteq> m
         then ((if b then a OR (NOT m AND tmp) else a AND (NOT m XOR tmp)) # as, tmp # ms)
         else (let (as', ms') = extend_prefix b as ms in (a # as', m # ms')))"
| "extend_prefix b as ms = (as, ms)"

text \<open>One branch of the node \<open>curr\<close> in the loop of \<open>trie_update\<close>.\<close>

definition update_branch ::
  "bool \<Rightarrow> addr4 \<Rightarrow> addr4 \<Rightarrow> trie_node \<Rightarrow> trie_node \<Rightarrow> trie_node list \<Rightarrow> (trie_node \<times> trie_node list) option" where
  "update_branch b a m branch this stack =
     (if branch = Null then Some (this, stack)
      else if branch = TRIE_NODE_TRUE
      then (let (addr, nmask) = extend_prefix b a m
            in map_option (\<lambda>t. (t, stack)) (trie_insert_addr this addr nmask))
      else if length stack \<ge> 132 then None
      else Some (this, branch # stack))"

lemma update_branch_stack:
  "update_branch b a m branch this stack = Some (t, stack') \<Longrightarrow>
   sum_list (map size stack') \<le> size branch + sum_list (map size stack) \<and> length stack' \<le> Suc (length stack)"
  by (auto simp: update_branch_def split: if_splits prod.splits)

function update_loop :: "trie_node \<Rightarrow> trie_node list \<Rightarrow> trie_node option" where
  "update_loop this [] = Some this"
| "update_loop this (Trie_node a m one zero # stack) =
     (if one = TRIE_NODE_TRUE \<and> zero = TRIE_NODE_TRUE
      then (case trie_insert_addr this a m of None \<Rightarrow> None | Some t \<Rightarrow> update_loop t stack)
      else case update_branch True a m one this stack of
             None \<Rightarrow> None
           | Some (t, stack') \<Rightarrow>
               (case update_branch False a m zero t stack' of
                  None \<Rightarrow> None
                | Some (t', stack'') \<Rightarrow> update_loop t' stack''))"
| "update_loop this (Null # stack) = None"
| "update_loop this (TRIE_NODE_TRUE # stack) = update_loop this stack"
  by pat_completeness auto

termination update_loop
  by (relation "measure (\<lambda>(_, stack). 2 * sum_list (map size stack) + length stack)")
     (auto dest!: update_branch_stack)

end
