(* ===== verification/Addr_Prefix.thy ===== *)
theory Addr_Prefix
  imports Addr_Trie
begin

text \<open>
  The masks of the radix tree are prefix lengths: \<open>pmask k\<close> is the mask of the first \<open>k\<close> of the 128
  bits of an address, and the word operations of \<open>Addr_Trie\<close> (the table logarithm of \<open>common_mask\<close>,
  the overlap of a shifted mask with its inverse, the comparison of masks as numbers) compute on
  these lengths. \<open>abit a n\<close> is bit \<open>n\<close> of an address, most significant first.
\<close>

section \<open>Prefix masks\<close>

definition pm :: "nat \<Rightarrow> u32" where
  "pm k = NOT (mask (32 - k))"

lemma bit_pm: "bit (pm k) n \<longleftrightarrow> n < 32 \<and> 32 - k \<le> n"
  by (auto simp: pm_def bit_simps)

lemma pm_0 [simp]: "pm 0 = 0"
  by (rule bit_word_eqI) (simp add: bit_pm)

lemma pm_32 [simp]: "pm 32 = U32_ALL_BITS"
  by (simp add: pm_def U32_ALL_BITS_def)

lemma U32_ALL_BITS_eq: "U32_ALL_BITS = - 1"
  by (simp add: U32_ALL_BITS_def)

lemma uint_pm: "uint (pm k) = 2 ^ 32 - 2 ^ (32 - k)"
proof -
  have "uint (pm k) = take_bit 32 (NOT (mask (32 - k)))"
    unfolding pm_def by (rule bit_eqI) (auto simp: bit_simps)
  also have "\<dots> = (- (2 ^ (32 - k))) mod 2 ^ 32"
    by (simp add: not_eq_complement mask_eq_exp_minus_1 take_bit_eq_mod)
  also have "\<dots> = 2 ^ 32 - 2 ^ (32 - k)"
  proof -
    have "(- (2 ^ (32 - k))) mod 2 ^ 32 = (2 ^ 32 + (- (2 ^ (32 - k)))) mod (2 ^ 32 :: int)"
      by (rule mod_add_self1 [symmetric])
    also have "\<dots> = 2 ^ 32 + - (2 ^ (32 - k))"
    proof (rule mod_pos_pos_trivial)
      have "(2::int) ^ (32 - k) \<le> 2 ^ 32" by (rule power_increasing) auto
      then show "0 \<le> 2 ^ 32 + - (2 ^ (32 - k) :: int)" by simp
    qed auto
    finally show ?thesis by simp
  qed
  finally show ?thesis .
qed

lemma pm_less_iff: 
  assumes "j \<le> 32" "k \<le> 32"
  shows "pm j < pm k \<longleftrightarrow> j < k"
proof -
  have "pm j < pm k \<longleftrightarrow> (2::int) ^ (32 - k) < 2 ^ (32 - j)"
    by (simp add: word_less_def uint_pm)
  also have "\<dots> \<longleftrightarrow> 32 - k < 32 - j" by (rule power_strict_increasing_iff) simp
  finally show ?thesis using assms by auto
qed

lemma pm_le_iff: "j \<le> 32 \<Longrightarrow> k \<le> 32 \<Longrightarrow> pm j \<le> pm k \<longleftrightarrow> j \<le> k"
  using pm_less_iff [of k j] by (simp add: linorder_not_less [symmetric])

lemma pm_eq_iff: "j \<le> 32 \<Longrightarrow> k \<le> 32 \<Longrightarrow> pm j = pm k \<longleftrightarrow> j = k"
  using pm_le_iff [of j k] pm_le_iff [of k j] by (auto intro: order_antisym)

lemma pm_eq_0 [simp]: "k \<le> 32 \<Longrightarrow> pm k = 0 \<longleftrightarrow> k = 0"
  using pm_eq_iff [of k 0] by simp

lemma pm_eq_ALL [simp]: "k \<le> 32 \<Longrightarrow> pm k = U32_ALL_BITS \<longleftrightarrow> k = 32"
  using pm_eq_iff [of k 32] by simp

lemma pm_less_ALL [simp]: "k \<le> 32 \<Longrightarrow> pm k < U32_ALL_BITS \<longleftrightarrow> k < 32"
  using pm_less_iff [of k 32] by simp

lemma pm_Suc: "k < 32 \<Longrightarrow> pm k = push_bit 1 (pm (Suc k)) AND U32_ALL_BITS"
  unfolding U32_ALL_BITS_eq
  by (rule bit_word_eqI) (auto simp: bit_pm bit_simps simp del: push_bit_Suc One_nat_def)

lemma push_bit_pm: 
  assumes "j \<le> 32" "k \<le> 32" 
  shows "pm j = push_bit 1 (pm k) AND U32_ALL_BITS \<longleftrightarrow> j = k - 1"
proof (cases k)
  case 0
  then show ?thesis using assms by simp
next
  case (Suc l)
  then have "push_bit 1 (pm k) AND U32_ALL_BITS = pm l" using pm_Suc [of l] assms by simp
  then show ?thesis using Suc assms by (simp add: pm_eq_iff)
qed

text \<open>Agreement of two words on their first \<open>k\<close> bits.\<close>

definition wagree :: "nat \<Rightarrow> u32 \<Rightarrow> u32 \<Rightarrow> bool" where
  "wagree k a b \<longleftrightarrow> (\<forall>n<k. bit a (31 - n) = bit b (31 - n))"

lemma mask_matches_pm: "k \<le> 32 \<Longrightarrow> mask_matches (pm k) a b \<longleftrightarrow> wagree k a b"
proof
  assume k: "k \<le> 32" and m: "mask_matches (pm k) a b"
  show "wagree k a b"
    unfolding wagree_def
  proof (intro allI impI)
    fix n assume "n < k"
    have "\<not> bit (pm k AND (a XOR b)) (31 - n)" using m by (simp add: mask_matches_def)
    then show "bit a (31 - n) = bit b (31 - n)" using \<open>n < k\<close> k by (auto simp: bit_simps bit_pm)
  qed
next
  assume k: "k \<le> 32" and w: "wagree k a b"
  show "mask_matches (pm k) a b"
    unfolding mask_matches_def
  proof (rule bit_word_eqI)
    fix n assume "n < LENGTH(32)"
    moreover have "bit a n = bit b n" if "32 - k \<le> n" "n < 32"
      using w [unfolded wagree_def, rule_format, of "31 - n"] that k by simp
    ultimately show "bit (pm k AND (a XOR b)) n = bit 0 n" by (auto simp: bit_simps bit_pm)
  qed
qed

lemma next_bit_is_one_pm: "k < 32 \<Longrightarrow> next_bit_is_one (pm k) v \<noteq> 0 \<longleftrightarrow> bit v (31 - k)"
proof -
  assume k: "k < 32"
  have "next_bit_is_one (pm k) v = push_bit (31 - k) 1 AND v"
  proof (cases "k = 0")
    case False
    have "drop_bit 1 (pm k) AND NOT (pm k) = push_bit (31 - k) 1"
      by (rule bit_word_eqI) (use k False in \<open>auto simp: bit_simps bit_pm\<close>)
    then show ?thesis using k False by (simp add: next_bit_is_one_def)
  qed (simp add: next_bit_is_one_def)
  moreover have "push_bit (31 - k) 1 AND v = of_bool (bit v (31 - k)) * push_bit (31 - k) 1"
    by (rule bit_word_eqI) (auto simp: bit_simps)
  ultimately show ?thesis using k by (auto simp: push_bit_eq_mult)
qed

lemma LogTable256_log: "\<forall>t \<in> set [1..<256]. 2 ^ nat (LogTable256 ! t) \<le> t \<and> t < 2 ^ (nat (LogTable256 ! t) + 1) \<and> 0 \<le> LogTable256 ! t \<and> LogTable256 ! t < 8"
  by code_simp

lemma lg_table:
  assumes "t \<noteq> 0" "unat t < 256"
  shows "\<exists>r<8. LogTable256 ! unat (t::u32) = int r \<and> 2 ^ r \<le> unat t \<and> unat t < 2 ^ (r + 1)"
proof -
  have "unat t \<in> set [1..<256]" using assms by (auto simp: unat_eq_zero Suc_le_eq unat_gt_0)
  from LogTable256_log [rule_format, OF this] show ?thesis
    by (intro exI [of _ "nat (LogTable256 ! unat t)"]) auto
qed

lemma unat_drop_bit: "unat (drop_bit s (v::u32)) = unat v div 2 ^ s"
  by (subst unsigned_drop_bit_eq) (use unsigned_less [of v, where ?'a = nat] in \<open>simp add: drop_bit_eq_div take_bit_nat_eq_self\<close>)

lemma drop_bit_range:
  assumes "2 ^ r \<le> unat (drop_bit s (v::u32))" "unat (drop_bit s v) < 2 ^ (r + 1)"
  shows "2 ^ (s + r) \<le> unat v" "unat v < 2 ^ (s + r + 1)"
proof -
  from assms(1) have "2 ^ r * 2 ^ s \<le> unat v" by (simp add: unat_drop_bit less_eq_div_iff_mult_less_eq)
  then show "2 ^ (s + r) \<le> unat v" by (simp add: power_add mult.commute)
  from assms(2) have "unat v < 2 ^ (r + 1) * 2 ^ s" by (simp add: unat_drop_bit div_less_iff_less_mult)
  then show "unat v < 2 ^ (s + r + 1)" by (simp add: power_add mult_ac)
qed

lemma unat_drop_bit_less: "unat (v::u32) < 2 ^ (s + n) \<Longrightarrow> unat (drop_bit s v) < 2 ^ n"
  by (simp add: unat_drop_bit div_less_iff_less_mult power_add mult.commute)

lemma unat_drop_bit_zero: "drop_bit s (v::u32) = 0 \<Longrightarrow> unat v < 2 ^ s"
proof -
  assume "drop_bit s v = 0"
  then have "unat (drop_bit s v) = 0" by simp
  then show ?thesis by (simp add: unat_drop_bit div_eq_0_iff)
qed

lemma lg_shift:
  assumes "drop_bit s v \<noteq> 0" "unat (v::u32) < 2 ^ (s + 8)"
  shows "\<exists>r<8. LogTable256 ! unat (drop_bit s v) = int r \<and> 2 ^ (s + r) \<le> unat v \<and> unat v < 2 ^ (s + r + 1)"
  using lg_table [OF assms(1)] unat_drop_bit_less [OF assms(2)] drop_bit_range [of _ s v] by fastforce

lemma lg_log:
  assumes "v \<noteq> 0"
  shows "unat (lg v) < 32 \<and> 2 ^ unat (lg v) \<le> unat v \<and> unat v < 2 ^ (unat (lg v) + 1)"
proof -
  have dd: "drop_bit 8 (drop_bit 16 v) = drop_bit 24 v" by simp
  have b: "\<And>r. r < 32 \<Longrightarrow> unat (word_of_int (int r) :: u8) = r"
    by (simp add: unsigned_of_nat take_bit_nat_eq_self)
  have "\<exists>r<32. lg v = word_of_int (int r) \<and> 2 ^ r \<le> unat v \<and> unat v < 2 ^ (r + 1)"
  proof (cases "drop_bit 16 v = 0")
    case False
    show ?thesis
    proof (cases "drop_bit 24 v = 0")
      case False
      have "unat v < 2 ^ (24 + 8)" using unsigned_less [of v] by simp
      from lg_shift [OF False this] obtain r where "r < 8" "LogTable256 ! unat (drop_bit 24 v) = int r"
        "2 ^ (24 + r) \<le> unat v" "unat v < 2 ^ (24 + r + 1)" by blast
      then show ?thesis
        using \<open>drop_bit 16 v \<noteq> 0\<close> False
        by (intro exI [of _ "24 + r"]) (simp add: lg_def Let_def dd del: drop_bit_drop_bit)
    next
      case True
      then have "unat v < 2 ^ (16 + 8)" using unat_drop_bit_zero [OF True] by simp
      from lg_shift [OF False this] obtain r where "r < 8" "LogTable256 ! unat (drop_bit 16 v) = int r"
        "2 ^ (16 + r) \<le> unat v" "unat v < 2 ^ (16 + r + 1)" by blast
      then show ?thesis
        using \<open>drop_bit 16 v \<noteq> 0\<close> True
        by (intro exI [of _ "16 + r"]) (simp add: lg_def Let_def dd del: drop_bit_drop_bit)
    qed
  next
    case True
    then have v: "unat v < 2 ^ 16" using unat_drop_bit_zero [OF True] by simp
    show ?thesis
    proof (cases "drop_bit 8 v = 0")
      case False
      from v have "unat v < 2 ^ (8 + 8)" by simp
      from lg_shift [OF False this] obtain r where "r < 8" "LogTable256 ! unat (drop_bit 8 v) = int r"
        "2 ^ (8 + r) \<le> unat v" "unat v < 2 ^ (8 + r + 1)" by blast
      then show ?thesis
        using \<open>drop_bit 16 v = 0\<close> False by (intro exI [of _ "8 + r"]) (simp add: lg_def Let_def)
    next
      case True
      then have "unat v < 256" using unat_drop_bit_zero [OF True] by simp
      from lg_table [OF assms this] obtain r where "r < 8" "LogTable256 ! unat v = int r"
        "2 ^ r \<le> unat v" "unat v < 2 ^ (r + 1)" by blast
      then show ?thesis
        using \<open>drop_bit 16 v = 0\<close> True by (intro exI [of _ r]) (simp add: lg_def Let_def)
    qed
  qed
  then show ?thesis using b by auto
qed

lemma bit_unat: "bit (v::u32) n \<longleftrightarrow> bit (unat v) n"
  by (cases "n < 32") (auto simp: bit_simps)

lemma bit_above: "unat (v::u32) < 2 ^ n \<Longrightarrow> n \<le> m \<Longrightarrow> \<not> bit v m"
proof -
  assume "unat v < 2 ^ n" and "n \<le> m"
  then have "unat v < 2 ^ m" by (meson less_le_trans one_le_numeral power_increasing)
  then show ?thesis by (simp add: bit_unat bit_iff_odd)
qed

lemma bit_top:
  assumes "2 ^ n \<le> unat (v::u32)" "unat v < 2 ^ (n + 1)"
  shows "bit v n"
proof -
  have "unat v div 2 ^ n = 1" using assms by (intro div_nat_eqI) auto
  then show ?thesis by (simp add: bit_unat bit_iff_odd)
qed

lemma common_mask_pm:
  "\<exists>k\<le>32. common_mask a b = pm k \<and> wagree k a b \<and> (k < 32 \<longrightarrow> bit a (31 - k) \<noteq> bit b (31 - k))"
proof (cases "a = b")
  case True
  then show ?thesis
    by (intro exI [of _ 32]) (simp add: common_mask_def wagree_def)
next
  case False
  define v r where "v = a XOR b" and "r = unat (lg v)"
  have "v \<noteq> 0" using False unfolding v_def by (metis xor.assoc xor.right_neutral xor_self_eq)
  from lg_log [OF this] have r: "r < 32" "2 ^ r \<le> unat v" "unat v < 2 ^ (r + 1)" by (simp_all add: r_def)
  have hi: "bit a m = bit b m" if "r < m" for m
    using bit_above [OF r(3), of m] that by (simp add: v_def bit_simps)
  have top: "bit a r \<noteq> bit b r"
    using bit_top [OF r(2,3)] by (simp add: v_def bit_simps)
  have "common_mask a b = pm (31 - r)"
  proof (cases "r = 31")
    case True
    then show ?thesis using \<open>v \<noteq> 0\<close> by (simp add: common_mask_def v_def [symmetric] r_def [symmetric] Let_def)
  next
    case False
    then have "Suc r < 32" using r(1) by simp
    have "NOT (push_bit (r + 1) 1 - 1) = pm (31 - r)"
      using \<open>Suc r < 32\<close> by (simp add: pm_def mask_eq_exp_minus_1 push_bit_eq_mult)
    then show ?thesis
      using \<open>Suc r < 32\<close> \<open>v \<noteq> 0\<close> by (simp add: common_mask_def v_def [symmetric] r_def [symmetric] Let_def del: push_bit_of_1)
  qed
  moreover have "wagree (31 - r) a b" unfolding wagree_def using hi r(1) by auto
  ultimately show ?thesis using top r(1) by (intro exI [of _ "31 - r"]) auto
qed

lemma common_mask_unique:
  assumes "k < 32" "wagree k a b" "bit a (31 - k) \<noteq> bit b (31 - k)"
  shows "common_mask a b = pm k"
proof -
  obtain j where j: "j \<le> 32" "common_mask a b = pm j" "wagree j a b" "j < 32 \<longrightarrow> bit a (31 - j) \<noteq> bit b (31 - j)"
    using common_mask_pm by blast
  have "\<not> k < j" using j(3) assms(3) by (auto simp: wagree_def)
  moreover have "\<not> j < k" using j(4) assms(1,2) by (auto simp: wagree_def)
  ultimately show ?thesis using j by simp
qed

section \<open>Addresses as sequences of bits\<close>

definition abit :: "addr4 \<Rightarrow> nat \<Rightarrow> bool" where
  "abit a n = bit (a ! (n div 32)) (31 - n mod 32)"

definition agree :: "nat \<Rightarrow> addr4 \<Rightarrow> addr4 \<Rightarrow> bool" where
  "agree k a b \<longleftrightarrow> (\<forall>n<k. abit a n = abit b n)"

definition pmask :: "nat \<Rightarrow> addr4" where
  "pmask k = map (\<lambda>i. pm (min 32 (k - 32 * i))) [0, 1, 2, 3]"

lemma pmask_word: "i < 4 \<Longrightarrow> pmask k ! i = pm (min 32 (k - 32 * i))"
  by (auto simp: pmask_def less_Suc_eq numeral_eq_Suc)

lemma length_pmask [simp]: "length (pmask k) = 4"
  by (simp add: pmask_def)

lemma agree_words:
  "agree k a b \<longleftrightarrow> (\<forall>i. 32 * i < k \<longrightarrow> wagree (min 32 (k - 32 * i)) (a ! i) (b ! i))"
proof
  assume g: "agree k a b"
  show "\<forall>i. 32 * i < k \<longrightarrow> wagree (min 32 (k - 32 * i)) (a ! i) (b ! i)"
    unfolding wagree_def
  proof (intro allI impI)
    fix i n assume "32 * i < k" "n < min 32 (k - 32 * i)"
    then have "32 * i + n < k" by linarith
    then have "abit a (32 * i + n) = abit b (32 * i + n)" using g unfolding agree_def by blast
    moreover have "(32 * i + n) div 32 = i" "(32 * i + n) mod 32 = n"
      using \<open>n < min 32 (k - 32 * i)\<close> by auto
    ultimately show "bit (a ! i) (31 - n) = bit (b ! i) (31 - n)" by (simp add: abit_def)
  qed
next
  assume w: "\<forall>i. 32 * i < k \<longrightarrow> wagree (min 32 (k - 32 * i)) (a ! i) (b ! i)"
  show "agree k a b"
    unfolding agree_def
  proof (intro allI impI)
    fix n assume "n < k"
    have "32 * (n div 32) < k" "n mod 32 < min 32 (k - 32 * (n div 32))"
      using \<open>n < k\<close> by (auto simp: minus_mod_eq_mult_div [symmetric])
    then show "abit a n = abit b n" using w by (simp add: abit_def wagree_def)
  qed
qed

lemma addr4_cases:
  assumes "length (a::addr4) = 4"
  obtains w x y z where "a = [w, x, y, z]"
  using assms by (auto simp: length_Suc_conv numeral_eq_Suc)

lemma pmask_list: "pmask k = [pm (min 32 k), pm (min 32 (k - 32)), pm (min 32 (k - 64)), pm (min 32 (k - 96))]"
  by (simp add: pmask_def)

lemma agree4:
  assumes "k \<le> 128"
  shows "agree k [a0, a1, a2, a3] [b0, b1, b2, b3] \<longleftrightarrow>
    wagree (min 32 k) a0 b0 \<and> wagree (min 32 (k - 32)) a1 b1 \<and>
    wagree (min 32 (k - 64)) a2 b2 \<and> wagree (min 32 (k - 96)) a3 b3" (is "?l \<longleftrightarrow> ?r")
proof
  let ?a = "[a0, a1, a2, a3]" and ?b = "[b0, b1, b2, b3]"
  assume ?l
  then have w: "wagree (min 32 (k - 32 * i)) (?a ! i) (?b ! i)" for i
    by (cases "32 * i < k") (auto simp: agree_words, simp add: wagree_def)
  show ?r using w [of 0] w [of 1] w [of 2] w [of 3] by simp
next
  assume r: ?r
  show ?l
    unfolding agree_words
  proof (intro allI impI)
    fix i assume "32 * i < k"
    then consider "i = 0" | "i = 1" | "i = 2" | "i = 3" using assms by linarith
    then show "wagree (min 32 (k - 32 * i)) ([a0, a1, a2, a3] ! i) ([b0, b1, b2, b3] ! i)"
      by cases (use r in simp_all)
  qed
qed

lemma wagree_0 [simp]: "wagree 0 a b"
  by (simp add: wagree_def)

lemma addr_matches_pmask:
  assumes "length a = 4" "length b = 4" "k \<le> 128"
  shows "addr_matches (pmask k) a b \<longleftrightarrow> agree k a b"
proof -
  obtain a0 a1 a2 a3 where a: "a = [a0, a1, a2, a3]" using assms(1) by (rule addr4_cases)
  obtain b0 b1 b2 b3 where b: "b = [b0, b1, b2, b3]" using assms(2) by (rule addr4_cases)
  show ?thesis
    unfolding a b agree4 [OF assms(3)] pmask_list
    by (simp add: mask_matches_pm)
qed

lemma addr_next_bit_is_one_pmask:
  assumes "length a = 4"
  shows "addr_next_bit_is_one (pmask k) a \<noteq> 0 \<longleftrightarrow> k < 128 \<and> abit a k"
proof -
  obtain a0 a1 a2 a3 where a: "a = [a0, a1, a2, a3]" using assms(1) by (rule addr4_cases)
  consider "k < 32" | "32 \<le> k" "k < 64" | "64 \<le> k" "k < 96" | "96 \<le> k" "k < 128" | "128 \<le> k" by linarith
  then show ?thesis
  proof cases
    case 2
    then have "k div 32 = 1" "k mod 32 = k - 32" "k - 32 < 32" by (simp_all add: div_nat_eqI mod_nat_eqI)
    then show ?thesis using 2 unfolding a pmask_list
      by (simp add: abit_def next_bit_is_one_pm)
  next
    case 3
    then have "k div 32 = 2" "k mod 32 = k - 64" "k - 64 < 32" by (simp_all add: div_nat_eqI mod_nat_eqI)
    then show ?thesis using 3 unfolding a pmask_list
      by (simp add: abit_def next_bit_is_one_pm)
  next
    case 4
    then have "k div 32 = 3" "k mod 32 = k - 96" "k - 96 < 32" by (simp_all add: div_nat_eqI mod_nat_eqI)
    then show ?thesis using 4 unfolding a pmask_list
      by (simp add: abit_def next_bit_is_one_pm)
  qed (simp_all add: a pmask_list abit_def next_bit_is_one_pm)
qed

lemma mask_is_one_bit_more_pmask:
  assumes "j \<le> 128" "k \<le> 128" "i \<le> 4" "32 * i \<le> j" "32 * i \<le> k"
  shows "mask_is_one_bit_more (pmask j) (pmask k) i \<longleftrightarrow> k = j + 1"
  using assms
proof (induction "4 - i" arbitrary: i)
  case 0
  then show ?case by (simp add: mask_is_one_bit_more.simps)
next
  case (Suc x)
  then have i: "i < 4" by simp
  have next0: "i = 3 \<or> pmask k ! (i + 1) = 0 \<longleftrightarrow> k \<le> 32 * i + 32"
    using i Suc.prems(2) by (cases "i = 3") (auto simp: pmask_word min_def split: if_splits)
  show ?case
  proof (cases "32 * (i + 1) \<le> j \<and> 32 * (i + 1) \<le> k")
    case True
    then have "mask_is_one_bit_more (pmask j) (pmask k) (i + 1) \<longleftrightarrow> k = j + 1"
      using Suc i by (intro Suc.hyps(1)) auto
    moreover have "pmask j ! i = pmask k ! i" 
    proof -
      have "32 \<le> j - 32 * i" "32 \<le> k - 32 * i" using True by auto
      then have "min 32 (j - 32 * i) = 32" "min 32 (k - 32 * i) = 32" by (simp_all add: min_def)
      then show ?thesis using i by (simp add: pmask_word)
    qed
    ultimately show ?thesis using i by (subst mask_is_one_bit_more.simps) simp
  next
    case False
    define j' k' where "j' = min 32 (j - 32 * i)" and "k' = min 32 (k - 32 * i)"
    have w: "pmask j ! i = pm j'" "pmask k ! i = pm k'" "j' \<le> 32" "k' \<le> 32"
      using i by (simp_all add: pmask_word j'_def k'_def)
    consider "k' < j'" | "j' < k'" | "j' = k'" by linarith
    then show ?thesis
    proof cases
      case 1
      then have "k \<noteq> j + 1" unfolding j'_def k'_def by linarith
      then show ?thesis
        using 1 w i by (subst mask_is_one_bit_more.simps) (simp add: pm_less_iff)
    next
      case 2
      then have "mask_is_one_bit_more (pmask j) (pmask k) i \<longleftrightarrow> j' = k' - 1 \<and> k \<le> 32 * i + 32"
      proof -
        have t: "pmask j ! i < pmask k ! i" "\<not> pmask k ! i < pmask j ! i"
          using 2 w by (simp_all add: pm_less_iff)
        have pb: "pmask j ! i = (push_bit 1 (pmask k ! i) AND U32_ALL_BITS) \<longleftrightarrow> j' = k' - 1"
          unfolding w(1,2) by (rule push_bit_pm [OF w(3,4)])
        show ?thesis by (subst mask_is_one_bit_more.simps) (simp only: i t pb next0 if_True if_False)
      qed
      moreover have "j' = j - 32 * i" "j - 32 * i < 32"
        using 2 \<open>k' \<le> 32\<close> unfolding j'_def by (auto simp: min_def split: if_splits)
      moreover have "k' = k - 32 * i" if "k \<le> 32 * i + 32" using that by (simp add: k'_def)
      ultimately show ?thesis using 2 Suc.prems(4,5) by (cases "k \<le> 32 * i + 32") auto
    next
      case 3
      then have "j = k" using Suc.prems False unfolding j'_def k'_def by (auto simp: min_def split: if_splits)
      have "\<not> mask_is_one_bit_more (pmask j) (pmask j) n" for n
        by (induction "4 - n" arbitrary: n) (subst mask_is_one_bit_more.simps, simp)+
      then show ?thesis using \<open>j = k\<close> by simp
    qed
  qed
qed

text \<open>The length of the common prefix of two addresses.\<close>

definition is_lcp :: "addr4 \<Rightarrow> addr4 \<Rightarrow> nat \<Rightarrow> bool" where
  "is_lcp a b l \<longleftrightarrow> l \<le> 128 \<and> agree l a b \<and> (l < 128 \<longrightarrow> abit a l \<noteq> abit b l)"

lemma agree_mono: "agree k a b \<Longrightarrow> j \<le> k \<Longrightarrow> agree j a b"
  by (simp add: agree_def)

lemma agree_Suc: "agree (Suc k) a b \<longleftrightarrow> agree k a b \<and> abit a k = abit b k"
  by (auto simp: agree_def less_Suc_eq)

lemma agree_0 [simp]: "agree 0 a b"
  by (simp add: agree_def)

lemma agree_refl [simp]: "agree k a a"
  by (simp add: agree_def)

lemma agree_sym: "agree k a b \<Longrightarrow> agree k b a"
  by (simp add: agree_def)

lemma agree_trans: "agree k a b \<Longrightarrow> agree k b c \<Longrightarrow> agree k a c"
  by (simp add: agree_def)

lemma lcp_exists: "\<exists>l. is_lcp a b l"
proof (cases "agree 128 a b")
  case False
  define l where "l = (LEAST l. \<not> agree (Suc l) a b)"
  have "\<not> agree (Suc 127) a b" using False by simp
  then have l: "\<not> agree (Suc l) a b" "l \<le> 127" unfolding l_def by (rule LeastI, rule Least_le)
  have "agree l a b"
  proof (cases l)
    case (Suc m)
    then show ?thesis using not_less_Least [of m "\<lambda>l. \<not> agree (Suc l) a b"] by (auto simp: l_def)
  qed simp
  then show ?thesis using l by (intro exI [of _ l]) (auto simp: is_lcp_def agree_Suc)
qed (auto simp: is_lcp_def)

lemma is_lcp_agree: "is_lcp a b l \<Longrightarrow> k \<le> 128 \<Longrightarrow> agree k a b \<longleftrightarrow> k \<le> l"
  unfolding is_lcp_def agree_def by (metis le_less_linear less_le_trans)

lemma common_mask_lcp:
  assumes "is_lcp a b l" "i < 4" "32 * i \<le> l"
  shows "common_mask (a ! i) (b ! i) = pm (min 32 (l - 32 * i))"
proof -
  have w: "wagree (min 32 (l - 32 * i)) (a ! i) (b ! i)"
    using assms(1,3) by (cases "32 * i = l") (auto simp: is_lcp_def agree_words)
  show ?thesis
  proof (cases "l < 32 * i + 32")
    case True
    then have "l div 32 = i" "l mod 32 = l - 32 * i" using assms(3) by (auto simp: div_nat_eqI minus_mult_div_eq_mod [symmetric])
    then have "bit (a ! i) (31 - (l - 32 * i)) \<noteq> bit (b ! i) (31 - (l - 32 * i))"
      using assms(1,2) True by (auto simp: is_lcp_def abit_def)
    moreover have "min 32 (l - 32 * i) = l - 32 * i" using True by linarith
    ultimately show ?thesis using True w assms(3) by (simp add: common_mask_unique)
  next
    case False
    then have "min 32 (l - 32 * i) = 32" by linarith
    with w have "wagree 32 (a ! i) (b ! i)" by simp
    have "a ! i = b ! i"
    proof (rule bit_word_eqI)
      fix n assume "n < LENGTH(32)"
      then show "bit (a ! i) n = bit (b ! i) n"
        using \<open>wagree 32 (a ! i) (b ! i)\<close> [unfolded wagree_def, rule_format, of "31 - n"] by simp
    qed
    then show ?thesis using \<open>min 32 (l - 32 * i) = 32\<close> by (simp add: common_mask_def)
  qed
qed

lemma pmask_prefix_update:
  assumes "i < 4"
  shows "(take i (pmask j) @ replicate (4 - i) 0)[i := pmask j ! i] = take (i + 1) (pmask j) @ replicate (4 - (i + 1)) 0"
proof -
  have "replicate (4 - i) (0::u32) = 0 # replicate (4 - (i + 1)) 0" using assms by (metis Suc_diff_Suc Suc_eq_plus1 replicate_Suc)
  then show ?thesis using assms by (simp add: list_update_append take_Suc_conv_app_nth)
qed

lemma pmask_take: "j < 32 * (i + 1) \<Longrightarrow> i < 4 \<Longrightarrow> take (i + 1) (pmask j) @ replicate (4 - (i + 1)) 0 = pmask j"
  by (rule nth_equalityI) (auto simp: nth_append pmask_word min_def)

lemma split_loop_pmask:
  assumes l: "is_lcp a b l" and k: "k \<le> 128" "km \<le> 128" and i: "i \<le> 4" "32 * i \<le> min l k" "32 * i \<le> km"
  shows "split_loop a (pmask k) b (pmask km) (take i (pmask (min l k)) @ replicate (4 - i) 0) i =
    (if km < min l k then Superseded (km div 32) else Scanned (pmask (min l k)) (min l k div 32))"
  using i
proof (induction "4 - i" arbitrary: i)
  case 0
  then have "i = 4" by simp
  moreover from this have "min l k = 128" "km = 128" using 0 l k by (auto simp: is_lcp_def)
  ultimately show ?case by (simp add: split_loop.simps)
next
  case (Suc x)
  then have i: "i < 4" by simp
  let ?j = "min l k"
  define c where "c = min 32 (?j - 32 * i)"
  have "common_mask (a ! i) (b ! i) = pm (min 32 (l - 32 * i))"
    using Suc.prems i by (intro common_mask_lcp [OF l]) auto
  then have c: "(if common_mask (a ! i) (b ! i) > pmask k ! i then pmask k ! i else common_mask (a ! i) (b ! i)) = pm c"
    using i by (auto simp: pmask_word pm_less_iff c_def min_def intro!: arg_cong [of _ _ pm])
  have m: "pmask km ! i = pm (min 32 (km - 32 * i))" and jw: "pm c = pmask ?j ! i"
    using i by (simp_all add: pmask_word c_def)
  show ?case
  proof (cases "min 32 (km - 32 * i) < c")
    case True
    then have "km < ?j" "km div 32 = i" using Suc.prems by (auto simp: c_def div_nat_eqI)
    then show ?thesis using i True by (subst split_loop.simps) (simp add: c m pm_less_iff c_def Let_def)
  next
    case False
    then have nsup: "\<not> pm (min 32 (km - 32 * i)) < pm c" by (simp add: pm_less_iff c_def)
    show ?thesis
    proof (cases "c < 32")
      case True
      then have "?j < 32 * (i + 1)" "?j div 32 = i" "\<not> km < ?j"
        using Suc.prems False by (auto simp: c_def min_def div_nat_eqI split: if_splits)
      then show ?thesis
        using i True nsup pmask_prefix_update [OF i, of ?j] pmask_take [of ?j i]
        by (subst split_loop.simps) (simp add: c m jw [symmetric] Let_def)
    next
      case ge: False
      then have "32 * (i + 1) \<le> ?j" "32 * (i + 1) \<le> km" "c = 32"
        using Suc.prems False by (auto simp: c_def min_def split: if_splits)
      then have "split_loop a (pmask k) b (pmask km) (take (i + 1) (pmask ?j) @ replicate (4 - (i + 1)) 0) (i + 1) =
        (if km < ?j then Superseded (km div 32) else Scanned (pmask ?j) (?j div 32))"
        using i Suc.hyps(2) by (intro Suc.hyps(1)) auto
      then show ?thesis
        using i nsup \<open>c = 32\<close> pmask_prefix_update [OF i, of ?j]
        by (subst split_loop.simps) (simp add: c m jw [symmetric] Let_def)
    qed
  qed
qed

end
