(* ===== verification/Addr_Trie_Set.thy ===== *)
theory Addr_Trie_Set
  imports Addr_Prefix
begin

text \<open>
  The invariant of the radix tree, the set of addresses a tree matches, and what insertion does to
  them: it always returns (the path fits the array of 132 entries), keeps the invariant, loses no
  address, adds none outside the prefix, and adds the whole prefix if none of it was matched before.
\<close>

section \<open>Splitting a node\<close>

lemma pmask_less:
  assumes "j < k" "k \<le> 128"
  shows "pmask j ! (j div 32) < pmask k ! (j div 32)"
proof -
  have "j div 32 < 4" using assms by (simp add: div_less_iff_less_mult)
  moreover have "32 * (j div 32) \<le> j" "j < 32 * (j div 32) + 32" by linarith+
  then have "min 32 (j - 32 * (j div 32)) < min 32 (k - 32 * (j div 32))" using assms by linarith
  ultimately show ?thesis by (simp only: pmask_word pm_less_iff min.cobounded1)
qed

lemma pmask_inj: "j \<le> 128 \<Longrightarrow> k \<le> 128 \<Longrightarrow> pmask j = pmask k \<longleftrightarrow> j = k"
  using pmask_less [of j k] pmask_less [of k j] by (metis less_irrefl linorder_neqE_nat)

definition split_branch :: "addr4 \<Rightarrow> nat \<Rightarrow> nat \<Rightarrow> trie_node \<Rightarrow> trie_node \<Rightarrow> trie_node" where
  "split_branch a l k one zero =
     (if k = l + 1 \<and> one = TRIE_NODE_TRUE \<and> zero = TRIE_NODE_TRUE then TRIE_NODE_TRUE
      else Trie_node a (pmask k) one zero)"

lemma trie_split_pmask:
  assumes l: "is_lcp a b l" and k: "k \<le> 128" "km \<le> 128" and len: "length a = 4"
  shows "trie_split (Trie_node a (pmask k) one zero) b (pmask km) =
    (if km < min l k then Trie_node a (pmask km) TRIE_NODE_TRUE TRIE_NODE_TRUE
     else if k \<le> l then Trie_node a (pmask k) one zero
     else if abit a l then Trie_node a (pmask l) (split_branch a l k one zero) Null
     else Trie_node a (pmask l) Null (split_branch a l k one zero))"
proof -
  let ?j = "min l k"
  have z: "[0, 0, 0, 0] = take 0 (pmask ?j) @ replicate (4 - 0) 0" by (simp add: numeral_eq_Suc)
  have sl: "split_loop a (pmask k) b (pmask km) [0, 0, 0, 0] 0 =
    (if km < ?j then Superseded (km div 32) else Scanned (pmask ?j) (?j div 32))"
    unfolding z by (rule split_loop_pmask [OF l k]) auto
  show ?thesis
  proof (cases "km < ?j")
    case True
    then have "km < 128" "km < k" using k by auto
    then have "km div 32 < 4" by (simp add: div_less_iff_less_mult)
    have "take (km div 32) (pmask k) @ pmask km ! (km div 32) # replicate (3 - km div 32) 0 = pmask km"
    proof (rule nth_equalityI)
      fix n assume "n < length (take (km div 32) (pmask k) @ pmask km ! (km div 32) # replicate (3 - km div 32) 0)"
      then have n: "n < 4" using \<open>km div 32 < 4\<close> by simp
      consider "n < km div 32" | "n = km div 32" | "km div 32 < n" by linarith
      then show "(take (km div 32) (pmask k) @ pmask km ! (km div 32) # replicate (3 - km div 32) 0) ! n = pmask km ! n"
      proof cases
        case 1
        then have "32 * n + 32 \<le> km" by linarith
        then have "min 32 (k - 32 * n) = 32" "min 32 (km - 32 * n) = 32" using \<open>km < k\<close> by linarith+
        then show ?thesis using 1 n by (simp add: nth_append pmask_word)
      next
        case 2
        then show ?thesis using n by (simp add: nth_append)
      next
        case 3
        then have "km \<le> 32 * n" by linarith
        then show ?thesis using 3 n by (simp add: nth_append nth_Cons' pmask_word)
      qed
    qed (use \<open>km div 32 < 4\<close> in simp)
    then show ?thesis using True by (simp add: sl)
  next
    case nsup: False
    show ?thesis
    proof (cases "k \<le> l")
      case True
      then show ?thesis using nsup by (simp add: sl)
    next
      case False
      then have j: "?j = l" and l128: "l < 128" using k by auto
      then have d: "l div 32 < 4" "32 * (l div 32) \<le> l" by (simp_all add: div_less_iff_less_mult)
      have "pmask l ! (l div 32) < pmask k ! (l div 32)" using False k by (simp add: pmask_less)
      then have "\<not> pmask k ! (l div 32) \<le> pmask l ! (l div 32)" by simp
      moreover have "mask_is_one_bit_more (pmask l) (pmask k) (l div 32) \<longleftrightarrow> k = l + 1"
        using d False l128 k by (intro mask_is_one_bit_more_pmask) auto
      moreover have "(4 \<le> l div 32) = False" using d(1) by (simp only: not_le [symmetric] simp_thms)
      ultimately show ?thesis
        using nsup False l128 j
        by (simp add: sl addr_next_bit_is_one_pmask [OF len] split_branch_def Let_def)
    qed
  qed
qed

declare trie_split.simps(1) [simp del]

section \<open>The invariant\<close>

definition extends :: "nat \<Rightarrow> addr4 \<Rightarrow> (nat \<Rightarrow> bool) \<Rightarrow> bool" where
  "extends k a p \<longleftrightarrow> length a = 4 \<and> (\<forall>n<k. abit a n = p n)"

text \<open>
  \<open>trie_wf lo p t\<close>: \<open>t\<close> is a well-formed branch reached after the \<open>lo\<close> bits \<open>p\<close>. Every node has a
  prefix mask that extends the path, except that a full node may repeat the mask of its parent; a
  node that is not full has a next bit; no node has two empty branches.
\<close>

fun trie_wf :: "nat \<Rightarrow> (nat \<Rightarrow> bool) \<Rightarrow> trie_node \<Rightarrow> bool" where
  "trie_wf lo p Null \<longleftrightarrow> True"
| "trie_wf lo p TRIE_NODE_TRUE \<longleftrightarrow> True"
| "trie_wf lo p (Trie_node a m one zero) \<longleftrightarrow>
     extends lo a p \<and>
     (\<exists>k\<le>128. m = pmask k \<and>
       (if one = TRIE_NODE_TRUE \<and> zero = TRIE_NODE_TRUE then lo \<le> k + 1 else lo \<le> k \<and> k < 128) \<and>
       \<not> (one = Null \<and> zero = Null) \<and>
       trie_wf (Suc k) ((abit a)(k := True)) one \<and> trie_wf (Suc k) ((abit a)(k := False)) zero)"

lemma trie_wf_node:
  assumes "k \<le> 128"
  shows "trie_wf lo p (Trie_node a (pmask k) one zero) \<longleftrightarrow>
     extends lo a p \<and>
     (if one = TRIE_NODE_TRUE \<and> zero = TRIE_NODE_TRUE then lo \<le> k + 1 else lo \<le> k \<and> k < 128) \<and>
     \<not> (one = Null \<and> zero = Null) \<and>
     trie_wf (Suc k) ((abit a)(k := True)) one \<and> trie_wf (Suc k) ((abit a)(k := False)) zero"
  using assms by (auto simp: pmask_inj simp del: fun_upd_apply)

declare trie_wf.simps(3) [simp del]

text \<open>The addresses a branch matches, and those a prefix stands for.\<close>

definition matched :: "nat \<Rightarrow> (nat \<Rightarrow> bool) \<Rightarrow> trie_node \<Rightarrow> addr4 set" where
  "matched lo p t = {x. extends lo x p \<and> trie_match_below t x}"

definition in_prefix :: "nat \<Rightarrow> addr4 \<Rightarrow> nat \<Rightarrow> addr4 set" where
  "in_prefix lo a k = {x. extends lo x (abit a) \<and> agree k a x}"

lemma one_and_pmask: "k \<le> 128 \<Longrightarrow> 1 AND pmask k ! 3 \<noteq> 0 \<longleftrightarrow> k = 128"
proof -
  assume k: "k \<le> 128"
  have "1 AND pmask k ! 3 \<noteq> 0 \<longleftrightarrow> bit (pmask k ! 3) 0"
    by (simp add: one_and_eq bit_0 odd_iff_mod_2_eq_one)
  then show ?thesis using k by (auto simp: pmask_word bit_pm)
qed

lemma trie_match_node:
  assumes "length a = 4" "length x = 4" "k \<le> 128"
  shows "trie_match_below (Trie_node a (pmask k) one zero) x \<longleftrightarrow>
    agree k a x \<and> (k = 128 \<or> trie_match_below (if abit x k then one else zero) x)"
  using assms by (auto simp: addr_matches_pmask one_and_pmask addr_next_bit_is_one_pmask simp del: word_bitwise_1_simps)

declare trie_match_below.simps(3) [simp del]

lemma trie_wf_cong: "(\<And>n. n < lo \<Longrightarrow> p n = q n) \<Longrightarrow> trie_wf lo p t = trie_wf lo q t"
  by (cases t) (auto simp: extends_def trie_wf.simps)

lemma matched_cong: "(\<And>n. n < lo \<Longrightarrow> p n = q n) \<Longrightarrow> matched lo p t = matched lo q t"
  by (auto simp: matched_def extends_def)

lemma matched_simps [simp]:
  "matched lo p Null = {}" "matched lo p TRIE_NODE_TRUE = {x. extends lo x p}"
  by (auto simp: matched_def)

lemma matched_node:
  assumes "extends lo a p" "k < 128" "lo \<le> k"
  shows "matched lo p (Trie_node a (pmask k) one zero) =
    matched (Suc k) ((abit a)(k := True)) one \<union> matched (Suc k) ((abit a)(k := False)) zero"
proof -
  have a: "length a = 4" "\<And>n. n < lo \<Longrightarrow> abit a n = p n" using assms(1) by (auto simp: extends_def)
  have "x \<in> matched lo p (Trie_node a (pmask k) one zero) \<longleftrightarrow>
      x \<in> matched (Suc k) ((abit a)(k := True)) one \<union> matched (Suc k) ((abit a)(k := False)) zero" for x
  proof -
    have e: "extends (Suc k) x ((abit a)(k := b)) \<longleftrightarrow> length x = 4 \<and> agree k a x \<and> abit x k = b" for b
      by (auto simp: extends_def agree_def less_Suc_eq)
    have "agree k a x \<Longrightarrow> length x = 4 \<Longrightarrow> extends lo x p" using a assms(3) by (auto simp: extends_def agree_def)
    moreover have "extends lo x p \<Longrightarrow> length x = 4" by (simp add: extends_def)
    ultimately show ?thesis
      using a(1) assms(2) by (auto simp: matched_def e trie_match_node split: if_splits)
  qed
  then show ?thesis by blast
qed

lemma matched_full:
  assumes "extends lo a p" "k \<le> 128"
  shows "matched lo p (Trie_node a (pmask k) TRIE_NODE_TRUE TRIE_NODE_TRUE) = {x. extends lo x p \<and> agree k a x}"
  using assms unfolding matched_def extends_def by (auto simp: trie_match_node)

lemma collapse_spec:
  assumes "trie_wf (Suc k) p c" "k < 128" "c \<noteq> Null"
  shows "matched (Suc k) p (fst (collapse (pmask k) c)) = matched (Suc k) p c"
    and "trie_wf (Suc k) p (fst (collapse (pmask k) c))" and "fst (collapse (pmask k) c) \<noteq> Null"
proof -
  have "matched (Suc k) p (fst (collapse (pmask k) c)) = matched (Suc k) p c \<and>
    trie_wf (Suc k) p (fst (collapse (pmask k) c)) \<and> fst (collapse (pmask k) c) \<noteq> Null"
  proof (cases "fst (collapse (pmask k) c) = c")
    case False
    then obtain a m where c: "c = Trie_node a m TRIE_NODE_TRUE TRIE_NODE_TRUE"
      "mask_is_one_bit_more (pmask k) m 0" "fst (collapse (pmask k) c) = TRIE_NODE_TRUE"
      by (cases c) (auto split: if_splits)
    from assms(1) obtain k' where k': "k' \<le> 128" "m = pmask k'" "extends (Suc k) a p" by (auto simp: c trie_wf.simps)
    have "k' = k + 1" using c(2) mask_is_one_bit_more_pmask [of k k' 0] k' assms(2) by simp
    have "matched (Suc k) p c = {x. extends (Suc k) x p}"
      unfolding c(1) k'(2) using matched_full [OF k'(3,1)] \<open>k' = k + 1\<close> k'(3)
      by (auto simp: extends_def agree_def)
    then show ?thesis using c(3) by simp
  qed (use assms in simp)
  then show "matched (Suc k) p (fst (collapse (pmask k) c)) = matched (Suc k) p c"
    and "trie_wf (Suc k) p (fst (collapse (pmask k) c))" and "fst (collapse (pmask k) c) \<noteq> Null" by auto
qed

lemma word_of_bits: "\<exists>w::u32. \<forall>n<32. bit w n = f n"
  by (rule exI [of _ "horner_sum of_bool 2 (map f [0..<32])"]) (simp add: bit_horner_sum_bit_word_iff)

lemma addr_of_bits: "\<exists>x. length x = 4 \<and> (\<forall>n<128. abit x n = p n)"
proof -
  have "\<forall>i. \<exists>w::u32. \<forall>n<32. bit w n = p (32 * i + (31 - n))" by (intro allI word_of_bits)
  from choice [OF this] obtain w :: "nat \<Rightarrow> u32"
    where w: "\<And>i n. n < 32 \<Longrightarrow> bit (w i) n = p (32 * i + (31 - n))" by blast
  have "abit (map w [0..<4]) n = p n" if "n < 128" for n
  proof -
    have "n div 32 < 4" using that by (simp add: div_less_iff_less_mult)
    moreover have "31 - (31 - n mod 32) = n mod 32" by simp
    ultimately show ?thesis using w [of "31 - n mod 32" "n div 32"] by (simp add: abit_def)
  qed
  then show ?thesis by (intro exI [of _ "map w [0..<4]"]) auto
qed

lemma agree_128: "length a = 4 \<Longrightarrow> length x = 4 \<Longrightarrow> agree 128 a x \<longleftrightarrow> a = x"
proof
  assume len: "length a = 4" "length x = 4" and g: "agree 128 a x"
  show "a = x"
  proof (rule nth_equalityI)
    fix i assume "i < length a"
    show "a ! i = x ! i"
    proof (rule bit_word_eqI)
      fix n assume "n < LENGTH(32)"
      then have "abit a (32 * i + (31 - n)) = abit x (32 * i + (31 - n))"
        using g len \<open>i < length a\<close> by (auto simp: agree_def)
      moreover have "(32 * i + (31 - n)) div 32 = i" "(32 * i + (31 - n)) mod 32 = 31 - n" by auto
      ultimately show "bit (a ! i) n = bit (x ! i) n" using \<open>n < LENGTH(32)\<close> by (simp add: abit_def)
    qed
  qed (simp add: len)
qed simp

lemma trie_wf_matches_some:
  assumes "trie_wf lo p t" "t \<noteq> Null" "lo \<le> 128 \<or> t \<noteq> TRIE_NODE_TRUE"
  shows "matched lo p t \<noteq> {}"
  using assms
proof (induction t arbitrary: lo p)
  case TRIE_NODE_TRUE
  then show ?case using addr_of_bits [of p] by (auto simp: extends_def)
next
  case (Trie_node a m one zero)
  then obtain k where k: "k \<le> 128" "m = pmask k" "extends lo a p"
    "one = TRIE_NODE_TRUE \<and> zero = TRIE_NODE_TRUE \<or> lo \<le> k \<and> k < 128" "\<not> (one = Null \<and> zero = Null)"
    "trie_wf (Suc k) ((abit a)(k := True)) one" "trie_wf (Suc k) ((abit a)(k := False)) zero"
    by (auto simp: trie_wf.simps split: if_splits simp del: fun_upd_apply)
  show ?case
  proof (cases "one = TRIE_NODE_TRUE \<and> zero = TRIE_NODE_TRUE")
    case True
    then show ?thesis using matched_full [OF k(3,1)] k(2,3) by auto
  next
    case False
    then have "lo \<le> k" "k < 128" using k(4) by auto
    then have "one \<noteq> Null \<Longrightarrow> matched (Suc k) ((abit a)(k := True)) one \<noteq> {}"
      "zero \<noteq> Null \<Longrightarrow> matched (Suc k) ((abit a)(k := False)) zero \<noteq> {}"
      using Trie_node.IH(1) [OF k(6)] Trie_node.IH(2) [OF k(7)] by (simp_all del: fun_upd_apply)
    then show ?thesis
      using k(5) unfolding k(2) matched_node [OF k(3) \<open>k < 128\<close> \<open>lo \<le> k\<close>] by blast
  qed
qed simp

section \<open>What insertion does to a branch\<close>

text \<open>
  \<open>t'\<close> is a result of inserting the prefix of \<open>km\<close> bits of \<open>addr\<close> into the branch \<open>t\<close>: nothing is
  lost, nothing outside the prefix is added, the address itself is matched, and the whole prefix
  is when \<open>t\<close> matched none of it.
\<close>

definition inserted :: "nat \<Rightarrow> addr4 \<Rightarrow> nat \<Rightarrow> addr4 set \<Rightarrow> addr4 set \<Rightarrow> bool" where
  "inserted lo addr km s s' \<longleftrightarrow>
     s \<subseteq> s' \<and> s' \<subseteq> s \<union> in_prefix lo addr km \<and> addr \<in> s' \<and>
     (s \<inter> in_prefix lo addr km = {} \<longrightarrow> in_prefix lo addr km \<subseteq> s')"

definition branch_ok :: "nat \<Rightarrow> addr4 \<Rightarrow> nat \<Rightarrow> trie_node \<Rightarrow> trie_node \<Rightarrow> bool" where
  "branch_ok lo addr km t t' \<longleftrightarrow>
     trie_wf lo (abit addr) t' \<and> t' \<noteq> Null \<and>
     inserted lo addr km (matched lo (abit addr) t) (matched lo (abit addr) t')"

lemma inserted_same: "addr \<in> s \<Longrightarrow> length addr = 4 \<Longrightarrow> inserted lo addr km s s"
  by (auto simp: inserted_def in_prefix_def extends_def)

lemma new_trie_node_ok:
  assumes "length addr = 4" "km \<le> 128" "lo \<le> Suc km"
  shows "branch_ok lo addr km Null (new_trie_node addr (pmask km))"
proof -
  have e: "extends lo addr (abit addr)" using assms(1) by (simp add: extends_def)
  have "matched lo (abit addr) (new_trie_node addr (pmask km)) = in_prefix lo addr km"
    unfolding new_trie_node_def matched_full [OF e assms(2)] in_prefix_def ..
  then show ?thesis
    using assms e by (auto simp: branch_ok_def inserted_def new_trie_node_def in_prefix_def trie_wf_node)
qed

lemma collapse_ok:
  assumes "branch_ok (Suc k) addr km t t'" "k < 128"
  shows "branch_ok (Suc k) addr km t (fst (collapse (pmask k) t'))"
  using assms collapse_spec [of k "abit addr" t'] by (simp add: branch_ok_def)

text \<open>Replacing the branch of a node the address leads to.\<close>

lemma set_branch_ok:
  assumes wf: "trie_wf lo (abit addr) (Trie_node a (pmask k) one zero)"
    and k: "lo \<le> k" "k < 128" "k \<le> km" and addr: "length addr = 4" "agree k a addr"
    and ok: "branch_ok (Suc k) addr km (if abit addr k then one else zero) t"
    and nt: "(if abit addr k then one else zero) \<noteq> TRIE_NODE_TRUE"
  shows "branch_ok lo addr km (Trie_node a (pmask k) one zero) (set_branch (abit addr k) a (pmask k) one zero t)"
proof -
  define b where "b = abit addr k"
  define c where "c = (if b then one else zero)"
  define t0 where "t0 = Trie_node a (pmask k) one zero"
  define t' where "t' = set_branch b a (pmask k) one zero t"
  have ext: "extends lo a (abit addr)" using wf k by (simp add: trie_wf_node)
  have path: "((abit a)(k := b)) n = abit addr n" if "n < Suc k" for n
    using that addr(2) by (auto simp: b_def agree_def less_Suc_eq)
  have mc: "matched (Suc k) ((abit a)(k := b)) x = matched (Suc k) (abit addr) x"
    and wc: "trie_wf (Suc k) ((abit a)(k := b)) x = trie_wf (Suc k) (abit addr) x" for x
    by (rule matched_cong, rule path, assumption) (rule trie_wf_cong, rule path, assumption)
  define other where "other = matched (Suc k) ((abit a)(k := \<not> b)) (if b then zero else one)"
  let ?P = "in_prefix (Suc k) addr km" and ?c = "matched (Suc k) (abit addr) c" and ?t = "matched (Suc k) (abit addr) t"
  have m0: "matched lo (abit addr) t0 = ?c \<union> other"
    unfolding t0_def matched_node [OF ext k(2,1)] mc [symmetric] c_def other_def by (cases b) auto
  have m1: "matched lo (abit addr) t' = ?t \<union> other"
    unfolding t'_def set_branch_def mc [symmetric] other_def
    by (cases b) (simp_all add: matched_node [OF ext k(2,1)] Un_commute del: fun_upd_apply)
  have ok': "trie_wf (Suc k) (abit addr) t" "t \<noteq> Null" "inserted (Suc k) addr km ?c ?t"
    using ok by (simp_all add: branch_ok_def c_def b_def)
  have sub: "?P \<subseteq> in_prefix lo addr km"
    using k(1) by (auto simp: in_prefix_def extends_def)
  have disj: "in_prefix lo addr km \<subseteq> ?P" if "(?c \<union> other) \<inter> in_prefix lo addr km = {}"
  proof (cases "k = km")
    case False
    then show ?thesis using k(3) addr by (auto simp: in_prefix_def extends_def agree_def)
  next
    case True
    have "t0 \<noteq> Null" "lo \<le> 128 \<or> t0 \<noteq> TRIE_NODE_TRUE" using k by (simp_all add: t0_def)
    from trie_wf_matches_some [OF wf [folded t0_def] this] obtain x where x: "x \<in> matched lo (abit addr) t0" by blast
    then have "x \<in> in_prefix lo addr km"
      using True ext addr k(2) unfolding t0_def matched_def in_prefix_def
      by (auto simp: trie_match_node extends_def intro: agree_trans agree_sym)
    then show ?thesis using x m0 that by blast
  qed
  have "inserted lo addr km (?c \<union> other) (?t \<union> other)"
    using ok'(3) sub disj unfolding inserted_def by blast
  moreover have "trie_wf lo (abit addr) t'"
    using wf ok'(1,2) k nt unfolding t'_def set_branch_def wc [symmetric]
    by (cases b) (auto simp: trie_wf_node b_def simp del: fun_upd_apply)
  moreover have "t' \<noteq> Null" by (simp add: t'_def set_branch_def)
  ultimately show ?thesis
    unfolding branch_ok_def t0_def [symmetric] b_def [symmetric] t'_def [symmetric] m0 m1 by blast
qed

definition split_node :: "addr4 \<Rightarrow> nat \<Rightarrow> nat \<Rightarrow> trie_node \<Rightarrow> trie_node \<Rightarrow> trie_node" where
  "split_node a l k one zero =
     Trie_node a (pmask l) (if abit a l then split_branch a l k one zero else Null)
       (if abit a l then Null else split_branch a l k one zero)"

text \<open>The node a split leaves matches what it did, and its branch for the new address is empty.\<close>

lemma split_node_ok:
  assumes wf: "trie_wf lo (abit addr) (Trie_node a (pmask k) one zero)" and l: "is_lcp a addr l" "l < k"
    and k: "k \<le> 128" and lo: "lo \<le> l"
  shows "trie_wf lo (abit addr) (split_node a l k one zero)"
    and "matched lo (abit addr) (split_node a l k one zero) = matched lo (abit addr) (Trie_node a (pmask k) one zero)"
proof -
  let ?n = "Trie_node a (pmask k) one zero" and ?p = "(abit a)(l := abit a l)"
  have ext: "extends lo a (abit addr)" using wf k by (simp add: trie_wf_node)
  then have ea: "extends j a (abit a)" for j by (simp add: extends_def)
  have p: "?p = abit a" by simp
  have "trie_wf (Suc l) (abit a) ?n" using wf k l lo ea by (auto simp: trie_wf_node split: if_splits)
  moreover have mn: "matched (Suc l) (abit a) ?n = matched lo (abit addr) ?n"
  proof -
    have "agree k a x \<Longrightarrow> length x = 4 \<Longrightarrow> extends (Suc l) x (abit a) \<and> extends lo x (abit addr)" for x
      using l(2) lo ext by (auto simp: extends_def agree_def)
    moreover have "extends j x q \<Longrightarrow> trie_match_below ?n x \<Longrightarrow> agree k a x \<and> length x = 4" for j x q
      using ext k by (auto simp: extends_def trie_match_node)
    ultimately show ?thesis unfolding matched_def by blast
  qed
  have sb: "trie_wf (Suc l) (abit a) (split_branch a l k one zero) \<and> split_branch a l k one zero \<noteq> Null \<and>
    matched (Suc l) (abit a) (split_branch a l k one zero) = matched (Suc l) (abit a) ?n"
  proof (cases "k = l + 1 \<and> one = TRIE_NODE_TRUE \<and> zero = TRIE_NODE_TRUE")
    case True
    then have "matched (Suc l) (abit a) ?n = {x. extends (Suc l) x (abit a)}"
      using matched_full [OF ea k] by (auto simp: extends_def agree_def)
    then show ?thesis using True by (simp add: split_branch_def)
  next
    case False
    then show ?thesis using \<open>trie_wf (Suc l) (abit a) ?n\<close> by (auto simp: split_branch_def)
  qed
  have l128: "l < 128" using l k by simp
  show "trie_wf lo (abit addr) (split_node a l k one zero)"
    unfolding split_node_def
    using ext lo l128 sb p by (cases "abit a l") (auto simp: trie_wf_node fun_upd_idem simp del: fun_upd_apply)
  show "matched lo (abit addr) (split_node a l k one zero) = matched lo (abit addr) ?n"
    using sb p unfolding split_node_def matched_node [OF ext l128 lo] mn [symmetric]
    by (cases "abit a l") (simp_all add: fun_upd_idem del: fun_upd_apply)
qed

lemma set_branch_self: "set_branch b a m one zero (if b then one else zero) = Trie_node a m one zero"
  by (simp add: set_branch_def)

text \<open>A new node on an empty branch.\<close>

lemma add_on_empty:
  assumes wf: "trie_wf lo (abit addr) (Trie_node a (pmask k) one zero)"
    and k: "lo \<le> k" "k < 128" "k \<le> km" "km \<le> 128" and addr: "length addr = 4" "agree k a addr"
    and null: "(if abit addr k then one else zero) = Null"
  shows "branch_ok lo addr km (Trie_node a (pmask k) one zero)
    (set_branch (abit addr k) a (pmask k) one zero (fst (collapse (pmask k) (new_trie_node addr (pmask km)))))"
  using wf k addr null by (intro set_branch_ok collapse_ok) (auto intro: new_trie_node_ok)

lemma insert_loop_ok:
  assumes "trie_wf lo (abit addr) t" "t \<noteq> Null \<and> t \<noteq> TRIE_NODE_TRUE" "length addr = 4" "km \<le> 128"
    "lo \<le> Suc km" "i \<le> lo"
  shows "\<exists>t' up. insert_loop i t addr (pmask km) = Some (t', up) \<and> branch_ok lo addr km t t'"
  using assms(1,2,5,6)
proof (induction t arbitrary: lo i)
  case (Trie_node a m one zero)
  from Trie_node.prems(1) obtain k where k: "k \<le> 128" and m: "m = pmask k" by (auto simp: trie_wf.simps)
  note wf = Trie_node.prems(1) [unfolded m]
  from wf k have ext: "extends lo a (abit addr)" and lok: "lo \<le> k + 1"
    and lok': "\<not> (one = TRIE_NODE_TRUE \<and> zero = TRIE_NODE_TRUE) \<Longrightarrow> lo \<le> k \<and> k < 128"
    by (auto simp: trie_wf_node split: if_splits)
  have len: "length a = 4" and glo: "agree lo a addr" using ext by (auto simp: extends_def agree_def)
  obtain l where l: "is_lcp a addr l" using lcp_exists by blast
  note split_eq = trie_split_pmask [OF l k assms(4) len, of one zero]
  have i: "i < 132" using Trie_node.prems(4) lok k by simp
  consider (sup) "km < min l k" | (cont) "k \<le> km" "k \<le> l" | (split) "l < k" "l \<le> km" by linarith
  then have "\<exists>t' up. insert_loop i (Trie_node a (pmask k) one zero) addr (pmask km) = Some (t', up) \<and>
    branch_ok lo addr km (Trie_node a (pmask k) one zero) t'"
  proof cases
    case sup
    let ?t' = "Trie_node a (pmask km) TRIE_NODE_TRUE TRIE_NODE_TRUE"
    have "insert_loop i (Trie_node a (pmask k) one zero) addr (pmask km) = Some (?t', False)"
      using i sup by (subst insert_loop.simps) (simp add: split_eq)
    moreover have "branch_ok lo addr km (Trie_node a (pmask k) one zero) ?t'"
    proof -
      have g: "agree km a addr" using sup l by (auto simp: is_lcp_def intro: agree_mono)
      have "matched lo (abit addr) ?t' = in_prefix lo addr km"
        unfolding matched_full [OF ext assms(4)] in_prefix_def
        using g by (auto intro: agree_trans agree_sym)
      moreover have "matched lo (abit addr) (Trie_node a (pmask k) one zero) \<subseteq> in_prefix lo addr km"
        unfolding matched_def in_prefix_def using sup k len g
        by (auto simp: trie_match_node extends_def agree_def)
      moreover have "addr \<in> in_prefix lo addr km" using assms(3) by (simp add: in_prefix_def extends_def)
      ultimately show ?thesis
        using Trie_node.prems(3) assms(4) ext by (auto simp: branch_ok_def inserted_def trie_wf_node)
    qed
    ultimately show ?thesis by blast
  next
    case cont
    define b where "b = abit addr k"
    define c where "c = (if b then one else zero)"
    have st: "trie_split (Trie_node a (pmask k) one zero) addr (pmask km) = Trie_node a (pmask k) one zero"
      using cont by (simp add: split_eq)
    have gk: "agree k a addr" using l cont by (auto simp: is_lcp_def intro: agree_mono)
    show ?thesis
    proof (cases "c = TRIE_NODE_TRUE \<or> k = 128")
      case True
      then have c: "c = TRIE_NODE_TRUE" "(if k < 128 \<and> b then one else zero) = TRIE_NODE_TRUE"
        using lok' by (auto simp: c_def split: if_splits)
      have "insert_loop i (Trie_node a (pmask k) one zero) addr (pmask km) = Some (Trie_node a (pmask k) one zero, False)"
        using c i unfolding c_def b_def
        by (subst insert_loop.simps) (simp add: st addr_next_bit_is_one_pmask [OF assms(3)] Let_def)
      moreover have "addr \<in> matched lo (abit addr) (Trie_node a (pmask k) one zero)"
        using c k gk len assms(3) unfolding matched_def c_def b_def by (auto simp: trie_match_node extends_def)
      ultimately show ?thesis
        using wf assms(3) by (auto simp: branch_ok_def intro: inserted_same)
    next
      case False
      then have k128: "k < 128" and nt: "c \<noteq> TRIE_NODE_TRUE" and lk: "lo \<le> k" using k lok' by (auto simp: c_def split: if_splits)
      have nb: "(addr_next_bit_is_one (pmask k) addr \<noteq> 0) = b"
        using k128 by (simp add: addr_next_bit_is_one_pmask [OF assms(3)] b_def)
      show ?thesis
      proof (cases "c = Null")
        case True
        then have "branch_ok lo addr km (Trie_node a (pmask k) one zero)
            (set_branch b a (pmask k) one zero (fst (collapse (pmask k) (new_trie_node addr (pmask km)))))"
          using add_on_empty [OF wf lk k128 cont(1) assms(4,3) gk] unfolding c_def b_def by simp
        moreover have "insert_loop i (Trie_node a (pmask k) one zero) addr (pmask km) =
            Some (set_branch b a (pmask k) one zero (fst (collapse (pmask k) (new_trie_node addr (pmask km)))),
                  snd (collapse (pmask k) (new_trie_node addr (pmask km))))"
          using True unfolding c_def
          by (subst insert_loop.simps) (simp add: st nb Let_def split: prod.splits)
        ultimately show ?thesis by blast
      next
        case False
        then obtain ca cm co cz where c: "c = Trie_node ca cm co cz" using nt by (cases c) auto
        have path: "((abit a)(k := b)) n = abit addr n" if "n < Suc k" for n
          using that gk by (auto simp: b_def agree_def less_Suc_eq)
        have "trie_wf (Suc k) ((abit a)(k := b)) c"
          using wf k by (auto simp: trie_wf_node c_def simp del: fun_upd_apply)
        then have wc: "trie_wf (Suc k) (abit addr) c"
          using trie_wf_cong [of "Suc k" "(abit a)(k := b)" "abit addr" c] path by blast
        have "\<exists>t' up. insert_loop (Suc i) c addr (pmask km) = Some (t', up) \<and> branch_ok (Suc k) addr km c t'"
        proof (cases b)
          case True
          then show ?thesis
            using Trie_node.IH(1) [of "Suc k" "Suc i"] wc c cont lk Trie_node.prems(4) by (simp add: c_def)
        next
          case False
          then show ?thesis
            using Trie_node.IH(2) [of "Suc k" "Suc i"] wc c cont lk Trie_node.prems(4) by (simp add: c_def)
        qed
        then obtain t' up where t': "insert_loop (Suc i) c addr (pmask km) = Some (t', up)"
          and ok: "branch_ok (Suc k) addr km c t'" by blast
        let ?t = "fst (if up then collapse (pmask k) t' else (t', False))"
        have "branch_ok (Suc k) addr km c ?t" using ok collapse_ok [OF ok k128] by simp
        then have "branch_ok lo addr km (Trie_node a (pmask k) one zero) (set_branch b a (pmask k) one zero ?t)"
          using set_branch_ok [OF wf lk k128 cont(1) assms(3) gk] nt unfolding c_def b_def by blast
        moreover have "insert_loop i (Trie_node a (pmask k) one zero) addr (pmask km) =
            Some (set_branch b a (pmask k) one zero ?t, snd (if up then collapse (pmask k) t' else (t', False)))"
          using i False nt t' unfolding c_def
          by (subst insert_loop.simps) (simp add: st nb Let_def split: prod.splits)
        ultimately show ?thesis by blast
      qed
    qed
  next
    case split
    have l128: "l < 128" and lol: "lo \<le> l"
      using split k is_lcp_agree [OF l, of "min lo 128"] agree_mono [OF glo, of "min lo 128"] by auto
    let ?s = "split_node a l k one zero"
    note ns = split_node_ok [OF wf l split(1) k lol]
    have nbit: "abit addr l = (\<not> abit a l)" and gl: "agree l a addr" using l l128 by (auto simp: is_lcp_def)
    have st: "trie_split (Trie_node a (pmask k) one zero) addr (pmask km) = ?s"
      using split by (simp add: split_eq split_node_def)
    let ?o = "if abit a l then split_branch a l k one zero else Null"
      and ?z = "if abit a l then Null else split_branch a l k one zero"
    let ?t = "set_branch (abit addr l) a (pmask l) ?o ?z (fst (collapse (pmask l) (new_trie_node addr (pmask km))))"
    have "branch_ok lo addr km ?s ?t"
      using add_on_empty [OF ns(1) [unfolded split_node_def] lol l128 split(2) assms(4,3) gl] nbit
      by (simp add: split_node_def)
    then have "branch_ok lo addr km (Trie_node a (pmask k) one zero) ?t" using ns(2) by (simp add: branch_ok_def)
    moreover have "insert_loop i (Trie_node a (pmask k) one zero) addr (pmask km) =
        Some (?t, snd (collapse (pmask l) (new_trie_node addr (pmask km))))"
      using nbit l128
      by (subst insert_loop.simps)
         (simp add: st split_node_def addr_next_bit_is_one_pmask [OF assms(3)] Let_def split: prod.splits)
    ultimately show ?thesis by blast
  qed
  then show ?case unfolding m .
qed simp_all

section \<open>Whole trees\<close>

text \<open>The root has an empty mask; its branches are well-formed after the first bit.\<close>

fun trie_ok :: "trie_node \<Rightarrow> bool" where
  "trie_ok (Trie_node a m one zero) \<longleftrightarrow>
     a = [0, 0, 0, 0] \<and> m = pmask 0 \<and> trie_wf 1 (\<lambda>_. True) one \<and> trie_wf 1 (\<lambda>_. False) zero"
| "trie_ok _ \<longleftrightarrow> False"

definition trie_set :: "trie_node \<Rightarrow> addr4 set" where
  "trie_set t = {x. length x = 4 \<and> trie_match_addr t x}"

definition prefix_set :: "addr4 \<Rightarrow> nat \<Rightarrow> addr4 set" where
  "prefix_set a k = {x. length x = 4 \<and> agree k a x}"

lemma top_bit: "push_bit 31 1 AND (w::u32) \<noteq> 0 \<longleftrightarrow> bit w 31"
  using next_bit_is_one_pm [of 0 w] by (simp add: next_bit_is_one_def del: push_bit_of_1)

lemma top_bit_eq: "2147483648 AND (w::u32) = 0 \<longleftrightarrow> \<not> bit w 31"
  using top_bit [of w] by auto

lemma abit_0: "abit a 0 = bit (a ! 0) 31"
  by (simp add: abit_def)

lemma zero_trie_ok: "trie_ok zero_trie_node" "trie_set zero_trie_node = {}"
  by (auto simp: zero_trie_node_def pmask_list trie_set_def)

lemma trie_set_node:
  "trie_set (Trie_node a m one zero) = matched 1 (\<lambda>_. True) one \<union> matched 1 (\<lambda>_. False) zero"
  by (auto simp: trie_set_def matched_def extends_def top_bit_eq abit_0 split: if_splits)

text \<open>What inserting a prefix does to the set of a tree.\<close>

definition inserts :: "addr4 \<Rightarrow> nat \<Rightarrow> addr4 set \<Rightarrow> addr4 set \<Rightarrow> bool" where
  "inserts addr k s s' \<longleftrightarrow>
     s \<subseteq> s' \<and> s' \<subseteq> s \<union> prefix_set addr k \<and> addr \<in> s' \<and>
     (s \<inter> prefix_set addr k = {} \<longrightarrow> prefix_set addr k \<subseteq> s')"

lemma inserts_host: "length addr = 4 \<Longrightarrow> inserts addr 128 s s' \<Longrightarrow> s' = s \<union> {addr}"
  by (auto simp: inserts_def prefix_set_def agree_128)

lemma root_branch:
  assumes wf: "trie_wf 1 (\<lambda>_. True) one" "trie_wf 1 (\<lambda>_. False) zero"
    and addr: "length addr = 4" and k: "1 \<le> k"
    and ok: "branch_ok 1 addr k (if abit addr 0 then one else zero) t"
  shows "trie_ok (set_branch (abit addr 0) [0, 0, 0, 0] (pmask 0) one zero t) \<and>
    inserts addr k (trie_set (Trie_node [0, 0, 0, 0] (pmask 0) one zero))
      (trie_set (set_branch (abit addr 0) [0, 0, 0, 0] (pmask 0) one zero t))"
proof -
  have e: "matched 1 (abit addr) x = matched 1 (\<lambda>_. abit addr 0) x" "trie_wf 1 (abit addr) x = trie_wf 1 (\<lambda>_. abit addr 0) x" for x
    by (rule matched_cong, simp) (rule trie_wf_cong, simp)
  have p: "in_prefix 1 addr k = prefix_set addr k"
    using k by (auto simp: in_prefix_def prefix_set_def extends_def agree_def)
  have "trie_wf 1 (\<lambda>_. abit addr 0) t" 
    "inserted 1 addr k (matched 1 (\<lambda>_. abit addr 0) (if abit addr 0 then one else zero)) (matched 1 (\<lambda>_. abit addr 0) t)"
    using ok unfolding branch_ok_def e by blast+
  then show ?thesis
    using wf addr k unfolding inserted_def inserts_def p
    by (cases "abit addr 0") (auto simp: set_branch_def trie_set_node abit_0)
qed

lemma inserts_same: "addr \<in> s \<Longrightarrow> length addr = 4 \<Longrightarrow> inserts addr k s s"
  by (auto simp: inserts_def prefix_set_def)

lemma wf_first_bit: "trie_wf 1 p (Trie_node a m one zero) \<Longrightarrow> length a = 4 \<and> bit (a ! 0) 31 = p 0"
  by (auto simp: trie_wf.simps extends_def abit_0)

lemma xor_below_top: "bit (a::u32) 31 = bit b 31 \<Longrightarrow> a XOR b < push_bit 31 1"
proof -
  assume e: "bit a 31 = bit b 31"
  have "unat (a XOR b) < 2 ^ 31"
  proof (rule ccontr)
    assume "\<not> unat (a XOR b) < 2 ^ 31"
    moreover have "unat (a XOR b) < 2 ^ (31 + 1)" using unsigned_less [of "a XOR b", where ?'a = nat] by simp
    ultimately have "bit (a XOR b) 31" by (intro bit_top) simp_all
    then show False using e by (simp add: bit_simps)
  qed
  then show ?thesis by (simp add: word_less_nat_alt)
qed

lemma trie_insert_below_ok:
  assumes "trie_ok t" "length addr = 4" "2 \<le> k" "k \<le> 128"
  shows "\<exists>t'. trie_insert_below t addr (pmask k) = Some t' \<and> trie_ok t' \<and> inserts addr k (trie_set t) (trie_set t')"
proof -
  obtain one zero where t: "t = Trie_node [0, 0, 0, 0] (pmask 0) one zero"
    and wf: "trie_wf 1 (\<lambda>_. True) one" "trie_wf 1 (\<lambda>_. False) zero" using assms(1) by (cases t) auto
  define b where "b = abit addr 0"
  define c where "c = (if b then one else zero)"
  have b: "(push_bit 31 1 AND addr ! 0 \<noteq> 0) = b" unfolding b_def abit_0 by (rule top_bit)
  have wc: "trie_wf 1 (abit addr) c"
    using wf trie_wf_cong [of 1 "abit addr" "\<lambda>_. b" c] by (auto simp: b_def c_def)
  have below: "trie_insert_below t addr (pmask k) =
    (if c = Null then Some (set_branch b [0, 0, 0, 0] (pmask 0) one zero (new_trie_node addr (pmask k)))
     else if c = TRIE_NODE_TRUE then Some t
     else if \<not> node_addr c ! 0 XOR addr ! 0 < push_bit 31 1 then None
     else case insert_loop 1 c addr (pmask k) of
       None \<Rightarrow> None
     | Some (t', up) \<Rightarrow> Some (set_branch b [0, 0, 0, 0] (pmask 0) one zero
         (fst (if up then collapse (pmask 0) t' else (t', False)))))"
    unfolding t trie_insert_below.simps Let_def b c_def by (rule refl)
  have root: "trie_ok (set_branch b [0, 0, 0, 0] (pmask 0) one zero x) \<and>
      inserts addr k (trie_set t) (trie_set (set_branch b [0, 0, 0, 0] (pmask 0) one zero x))"
    if "branch_ok 1 addr k c x" for x
    using root_branch [OF wf assms(2) _ that [unfolded c_def b_def]] assms(3) unfolding t b_def by simp
  consider "c = Null" | "c = TRIE_NODE_TRUE" | a m o' z where "c = Trie_node a m o' z" by (cases c) auto
  then show ?thesis
  proof cases
    case 1
    then show ?thesis using root [of "new_trie_node addr (pmask k)"] assms by (simp add: below new_trie_node_ok)
  next
    case 2
    then have "addr \<in> trie_set t"
      using assms(2) by (cases b) (simp_all add: t c_def trie_set_def b b_def [symmetric] del: push_bit_of_1)
    then show ?thesis using 2 assms(1,2) by (simp add: below inserts_same)
  next
    case 3
    have "bit (a ! 0) 31 = bit (addr ! 0) 31" using wf_first_bit [OF wc [unfolded 3]] by (simp add: abit_0)
    then have lt: "node_addr c ! 0 XOR addr ! 0 < push_bit 31 1" unfolding 3 by (simp only: trie_node.sel xor_below_top)
    obtain t' up where t': "insert_loop 1 c addr (pmask k) = Some (t', up)" and ok: "branch_ok 1 addr k c t'"
      using insert_loop_ok [OF wc _ assms(2,4), of 1] 3 assms(3) by auto
    have "branch_ok 1 addr k c (fst (if up then collapse (pmask 0) t' else (t', False)))"
      using ok collapse_ok [of 0 addr k c t'] by simp
    from root [OF this] show ?thesis using 3 lt t' by (simp add: below del: push_bit_of_1)
  qed
qed

lemma trie_insert_addr_ok:
  assumes "trie_ok t" "length addr = 4" "k \<le> 128"
  shows "\<exists>t'. trie_insert_addr t addr (pmask k) = Some t' \<and> trie_ok t' \<and> inserts addr k (trie_set t) (trie_set t')"
proof -
  obtain one zero where t: "t = Trie_node [0, 0, 0, 0] (pmask 0) one zero"
    and wf: "trie_wf 1 (\<lambda>_. True) one" "trie_wf 1 (\<lambda>_. False) zero" using assms(1) by (cases t) auto
  have m: "pmask k ! 0 = pm (min 32 k)" by (simp add: pmask_word)
  have p1: "push_bit 31 1 = pm 1" by (simp add: pm_def mask_eq_exp_minus_1)
  have le: "pmask k ! 0 \<le> push_bit 31 1 \<longleftrightarrow> k \<le> 1" unfolding m p1 by (auto simp: pm_le_iff)
  consider "2 \<le> k" | "k = 0" | "k = 1" by linarith
  then show ?thesis
  proof cases
    case 1
    then show ?thesis using trie_insert_below_ok [OF assms(1,2) 1 assms(3)] le by (simp add: t)
  next
    case 2
    let ?t' = "Trie_node [0, 0, 0, 0] (pmask 0) TRIE_NODE_TRUE TRIE_NODE_TRUE"
    have "trie_insert_addr t addr (pmask k) = Some ?t'" using le 2 m by (simp add: t)
    moreover have "trie_set ?t' = {x. length x = 4}" by (auto simp: trie_set_node extends_def)
    ultimately show ?thesis using 2 assms(2) by (auto simp: inserts_def prefix_set_def trie_set_def)
  next
    case 3
    have mm: "pmask k ! 0 = push_bit 31 1" using 3 m p1 by simp
    let ?t' = "set_branch (abit addr 0) [0, 0, 0, 0] (pmask 0) one zero TRIE_NODE_TRUE"
    have "trie_insert_addr t addr (pmask k) = Some ?t'"
      using mm top_bit [of "addr ! 0"] by (simp add: t set_branch_def abit_0 top_bit_eq)
    moreover have "branch_ok 1 addr k (if abit addr 0 then one else zero) TRIE_NODE_TRUE"
    proof -
      have "in_prefix 1 addr k = {x. extends 1 x (abit addr)}"
        using 3 by (auto simp: in_prefix_def extends_def agree_def)
      moreover have "matched 1 (abit addr) x \<subseteq> {x. extends 1 x (abit addr)}" for x by (auto simp: matched_def)
      moreover have "extends 1 addr (abit addr)" using assms(2) by (simp add: extends_def)
      ultimately show ?thesis unfolding branch_ok_def inserted_def by auto
    qed
    ultimately show ?thesis
      using root_branch [OF wf assms(2) _ \<open>branch_ok _ _ _ _ _\<close>] 3 unfolding t by auto
  qed
qed

end
