(* ===== verification/Addrset.thy ===== *)
theory Addrset
  imports Addr_Trie_Set Nbase_Misc Nbase_Num
begin

text \<open>
  The address sets of \<open>nbase/nbase_addrset.c\<close> with which Ncat decides who may connect: single
  addresses and prefixes in two radix trees (\<open>Addr_Trie\<close>), IPv4 octet ranges as bit vectors, the
  parser of specifications, and \<open>allow_access\<close> of \<open>ncat/util.c\<close>. \<open>unsigned long\<close> has 64 bits and
  the host is little-endian. The results of \<open>getaddrinfo\<close> are an argument: for a name, whether
  only numeric addresses count and an address family, the return code and the list of addresses.
  A write outside the path array of the tree, or a failed assertion, is the result \<open>None\<close>.
\<close>

section \<open>Data\<close>

type_synonym octet_bitvector = "u64 list"

record addrset =
  elems :: "octet_bitvector list list"
  trie4 :: trie_node
  trie6 :: trie_node

record addrinfo =
  ai_family :: nat
  ai_addr :: sockaddr_storage

type_synonym getaddrinfo = "string \<Rightarrow> bool \<Rightarrow> nat \<Rightarrow> int \<times> addrinfo list"

definition af_trie :: "addrset \<Rightarrow> nat \<Rightarrow> trie_node" where
  "af_trie aset af = (if af = af_inet then trie4 aset else trie6 aset)"

definition set_af_trie :: "addrset \<Rightarrow> nat \<Rightarrow> trie_node \<Rightarrow> addrset" where
  "set_af_trie aset af t = (if af = af_inet then aset\<lparr>trie4 := t\<rparr> else aset\<lparr>trie6 := t\<rparr>)"

definition addrset_new :: addrset where
  "addrset_new = \<lparr>elems = [], trie4 = zero_trie_node, trie6 = zero_trie_node\<rparr>"

text \<open>The nodes of the two trees that \<open>addrset_free\<close> frees.\<close>

definition addrset_free :: "addrset \<Rightarrow> (trie_node list \<times> trie_node list) option" where
  "addrset_free aset =
     (case trie_free (trie4 aset) of
        None \<Rightarrow> None
      | Some f4 \<Rightarrow> (case trie_free (trie6 aset) of None \<Rightarrow> None | Some f6 \<Rightarrow> Some (f4, f6)))"

section \<open>Conversions\<close>

definition ntohl :: "u32 \<Rightarrow> u32" where
  "ntohl w =
     push_bit 24 (w AND 0xff) OR push_bit 8 (w AND 0xff00) OR
     (drop_bit 8 w AND 0xff00) OR (drop_bit 24 w AND 0xff)"

abbreviation htonl :: "u32 \<Rightarrow> u32" where "htonl \<equiv> ntohl"

fun sockaddr_to_addr :: "sockaddr_storage \<Rightarrow> addr4 option" where
  "sockaddr_to_addr (AF_INET s_addr) = Some [0, 0, 0xffff, ntohl s_addr]"
| "sockaddr_to_addr (AF_INET6 addr6) =
     Some (map (\<lambda>i. push_bit 24 (ucast (addr6 ! (i * 4))) + push_bit 16 (ucast (addr6 ! (i * 4 + 1))) +
                    push_bit 8 (ucast (addr6 ! (i * 4 + 2))) + ucast (addr6 ! (i * 4 + 3))) [0..<4])"
| "sockaddr_to_addr (AF_OTHER _) = None"

text \<open>The loop of \<open>sockaddr_to_mask\<close>, for a number of bits that is not negative.\<close>

definition bits_to_mask :: "nat \<Rightarrow> addr4" where
  "bits_to_mask bits =
     map (\<lambda>i. if i < bits div 32 then U32_ALL_BITS
              else if i > bits div 32 then 0
              else push_bit (31 - bits mod 32) (U32_ALL_BITS - 1)) [0..<4]"

definition sockaddr_to_mask :: "sockaddr_storage \<Rightarrow> int \<Rightarrow> addr4 option" where
  "sockaddr_to_mask sa bits =
     (if bits \<ge> 0
      then (case sa of
              AF_INET _ \<Rightarrow> Some (bits_to_mask (nat (bits + 96)))
            | AF_INET6 _ \<Rightarrow> Some (bits_to_mask (nat bits))
            | AF_OTHER _ \<Rightarrow> None)
      else Some (bits_to_mask 128))"

definition in_addr_to_octets :: "u32 \<Rightarrow> u8 list" where
  "in_addr_to_octets s_addr =
     (let hbo = ntohl s_addr
      in [ucast (drop_bit 24 (hbo AND push_bit 24 0xFF)), ucast (drop_bit 16 (hbo AND push_bit 16 0xFF)),
          ucast (drop_bit 8 (hbo AND push_bit 8 0xFF)), ucast (hbo AND 0xFF)])"

section \<open>Trees of socket addresses\<close>

definition trie_insert :: "trie_node \<Rightarrow> sockaddr_storage \<Rightarrow> int \<Rightarrow> trie_node option" where
  "trie_insert this sa bits =
     (case sockaddr_to_addr sa of
        None \<Rightarrow> Some this
      | Some addr \<Rightarrow>
          (case sockaddr_to_mask sa bits of
             None \<Rightarrow> Some this
           | Some nmask \<Rightarrow> trie_insert_addr this addr nmask))"

definition trie_match :: "trie_node \<Rightarrow> sockaddr_storage \<Rightarrow> bool" where
  "trie_match this sa =
     (case sockaddr_to_addr sa of None \<Rightarrow> False | Some addr \<Rightarrow> trie_match_addr this addr)"

text \<open>\<open>trie_update\<close>; \<open>same\<close> says that the two pointers are equal.\<close>

definition trie_update :: "bool \<Rightarrow> trie_node \<Rightarrow> trie_node \<Rightarrow> trie_node option" where
  "trie_update same this other =
     (if this = Null \<or> other = Null \<or> same then Some this else update_loop this [other])"

section \<open>Octet bit vectors\<close>

definition BIT_SET :: "octet_bitvector \<Rightarrow> nat \<Rightarrow> octet_bitvector" where
  "BIT_SET v n = v[n div 64 := v ! (n div 64) OR push_bit (n mod 64) 1]"

definition BIT_IS_SET :: "octet_bitvector \<Rightarrow> nat \<Rightarrow> bool" where
  "BIT_IS_SET v n \<longleftrightarrow> v ! (n div 64) AND push_bit (n mod 64) 1 \<noteq> 0"

text \<open>The loop that fills a range.\<close>

definition fill_range :: "octet_bitvector \<Rightarrow> nat \<Rightarrow> nat \<Rightarrow> octet_bitvector" where
  "fill_range bits start end' = fold (\<lambda>i v. BIT_SET v i) [start..<Suc end'] bits"

text \<open>One element of a comma-separated list: its bounds and the rest of the string.\<close>

definition parse_range :: "string \<Rightarrow> (nat \<times> nat \<times> string) option" where
  "parse_range p =
     (case parse_long p of
        (start, tail, err) \<Rightarrow>
          if tail = p \<and> deref p \<noteq> CHR ''-'' then None
          else
            let start = (if tail = p then 0 else start)
            in if err \<or> start < 0 \<or> start > 255 then None
               else if deref tail = CHR ''-''
               then (case parse_long (tl tail) of
                       (end', tail', err') \<Rightarrow>
                         let end' = (if tail' = tl tail then 255 else end')
                         in if err' \<or> end' < 0 \<or> end' > 255 \<or> end' < start then None
                            else Some (nat start, nat end', tail'))
               else Some (nat start, nat start, tail))"

lemma parse_range_suffix: "parse_range p = Some (a, b, t) \<Longrightarrow> suffix t p"
proof -
  assume r: "parse_range p = Some (a, b, t)"
  have s: "parse_long x = (n, y, e) \<Longrightarrow> suffix y x" for x n y e by (simp add: parse_long_range)
  have tl: "suffix (tl x) x" for x :: string by (simp add: suffix_tl)
  show ?thesis
    using r unfolding parse_range_def
    by (auto simp: Let_def split: prod.splits if_splits dest!: s intro: suffix_order.trans tl)
       (meson suffix_order.trans tl)
qed

function ranges_loop :: "octet_bitvector \<Rightarrow> string \<Rightarrow> (octet_bitvector \<times> string) option" where
  "ranges_loop bits p =
     (case parse_range p of
        None \<Rightarrow> None
      | Some (start, end', p') \<Rightarrow>
          let bits' = fill_range bits start end'
          in if deref p' \<noteq> CHR '','' then Some (bits', p') else ranges_loop bits' (tl p'))"
  by pat_completeness auto

termination ranges_loop
proof (relation "measure (\<lambda>(_, p). length p)")
  fix bits p x start y end' p' bits'
  assume "parse_range p = Some x" "(start, y) = x" "(end', p') = y" "\<not> deref p' \<noteq> CHR '',''"
  then show "((bits', tl p'), bits, p) \<in> measure (\<lambda>(_, p). length p)"
    using parse_range_suffix [of p start end' p'] by (cases p') (auto dest: suffix_length_le)
qed simp

declare ranges_loop.simps [simp del]

function octets_loop :: "octet_bitvector list \<Rightarrow> nat \<Rightarrow> string \<Rightarrow> octet_bitvector list option" where
  "octets_loop bits octet_index p =
     (if deref p \<noteq> NUL \<and> octet_index < 4
      then (case (if deref p = CHR ''*'' then Some (fill_range (bits ! octet_index) 0 255, tl p)
                  else ranges_loop (bits ! octet_index) p) of
              None \<Rightarrow> None
            | Some (v, p') \<Rightarrow>
                let bits' = bits[octet_index := v]; octet_index' = octet_index + 1
                in if octet_index' < 4
                   then if deref p' \<noteq> CHR ''.'' then None else octets_loop bits' octet_index' (tl p')
                   else octets_loop bits' octet_index' p')
      else if deref p \<noteq> NUL \<or> octet_index < 4 then None
      else Some bits)"
  by pat_completeness auto

termination octets_loop
  by (relation "measure (\<lambda>(_, n, _). 4 - n)") auto

declare octets_loop.simps [simp del]

text \<open>The bit vectors are zeroed by the caller.\<close>

definition parse_ipv4_ranges :: "string \<Rightarrow> octet_bitvector list option" where
  "parse_ipv4_ranges spec = octets_loop (replicate 4 (replicate 4 0)) 0 spec"

text \<open>The body of the inner loop of \<open>apply_ipv4_netmask_octet\<close>, at the bit \<open>n\<close>.\<close>

definition pair_step :: "nat \<Rightarrow> octet_bitvector \<Rightarrow> nat \<Rightarrow> octet_bitvector" where
  "pair_step chunk_size bits n =
     (if BIT_IS_SET bits n then BIT_SET bits (n + chunk_size)
      else if BIT_IS_SET bits (n + chunk_size) then BIT_SET bits n
      else bits)"

definition pair_chunks :: "nat \<Rightarrow> octet_bitvector \<Rightarrow> octet_bitvector" where
  "pair_chunks chunk_size bits =
     fold (\<lambda>i v. fold (\<lambda>j v. pair_step chunk_size v (i + j)) [0..<chunk_size] v)
       (map (\<lambda>q. q * (chunk_size * 2)) [0..<256 div (chunk_size * 2)]) bits"

text \<open>One round of the outer loop, for \<open>chunk_size = 2 ^ k\<close>.\<close>

definition netmask_step :: "u8 \<Rightarrow> nat \<Rightarrow> octet_bitvector \<Rightarrow> octet_bitvector" where
  "netmask_step m k bits = (if m AND push_bit k 1 \<noteq> 0 then bits else pair_chunks (2 ^ k) bits)"

definition apply_ipv4_netmask_octet :: "octet_bitvector \<Rightarrow> u8 \<Rightarrow> octet_bitvector" where
  "apply_ipv4_netmask_octet bits m = fold (netmask_step m) [0..<8] bits"

definition apply_ipv4_netmask :: "octet_bitvector list \<Rightarrow> u32 \<Rightarrow> octet_bitvector list" where
  "apply_ipv4_netmask bits m =
     (let m = ntohl m
      in [apply_ipv4_netmask_octet (bits ! 0) (ucast (drop_bit 24 (m AND 0xFF000000))),
          apply_ipv4_netmask_octet (bits ! 1) (ucast (drop_bit 16 (m AND 0x00FF0000))),
          apply_ipv4_netmask_octet (bits ! 2) (ucast (drop_bit 8 (m AND 0x0000FF00))),
          apply_ipv4_netmask_octet (bits ! 3) (ucast (m AND 0x000000FF))])"

definition apply_ipv4_netmask_bits :: "octet_bitvector list \<Rightarrow> int \<Rightarrow> octet_bitvector list" where
  "apply_ipv4_netmask_bits elem bits =
     (if bits > 32 then elem
      else
        let bits = (if bits < 0 then 32 else bits)
        in apply_ipv4_netmask elem
             (if bits = 0 then htonl 0 else htonl (push_bit (nat (32 - bits)) 0xFFFFFFFF)))"

fun match_ipv4_bits :: "octet_bitvector list \<Rightarrow> sockaddr_storage \<Rightarrow> bool" where
  "match_ipv4_bits bits (AF_INET s_addr) =
     (let octets = in_addr_to_octets s_addr
      in BIT_IS_SET (bits ! 0) (unat (octets ! 0)) \<and> BIT_IS_SET (bits ! 1) (unat (octets ! 1)) \<and>
         BIT_IS_SET (bits ! 2) (unat (octets ! 2)) \<and> BIT_IS_SET (bits ! 3) (unat (octets ! 3)))"
| "match_ipv4_bits bits _ = False"

definition addrset_elem_match :: "octet_bitvector list \<Rightarrow> sockaddr_storage \<Rightarrow> bool" where
  "addrset_elem_match elem sa = match_ipv4_bits elem sa"

section \<open>Address sets\<close>

definition addrset_contains :: "addrset \<Rightarrow> sockaddr_storage \<Rightarrow> bool" where
  "addrset_contains aset sa =
     (if trie_match (af_trie aset (ss_family sa)) sa then True
      else if ss_family sa = af_inet then list_ex (\<lambda>elem. addrset_elem_match elem sa) (elems aset)
      else False)"

text \<open>The bytes of a word of a bit vector, as they lie in memory.\<close>

definition bv_bytes :: "u64 \<Rightarrow> u8 list" where
  "bv_bytes w = map (\<lambda>i. ucast (drop_bit (8 * i) w)) [0..<8]"

definition addrset_matches_all :: "addrset \<Rightarrow> nat \<Rightarrow> bool option" where
  "addrset_matches_all aset af =
     (case trie_matches_all (af_trie aset af) af of
        None \<Rightarrow> None
      | Some True \<Rightarrow> Some True
      | Some False \<Rightarrow>
          Some (if af = af_inet
                then list_ex (\<lambda>elem. list_all (\<lambda>b. b = 0xff) (concat (map bv_bytes (concat elem)))) (elems aset)
                else False))"

text \<open>\<open>addrset_update\<close>; \<open>same\<close> says that the two sets are one object.\<close>

definition addrset_update :: "bool \<Rightarrow> addrset \<Rightarrow> addrset \<Rightarrow> addrset option" where
  "addrset_update same aset other =
     (case trie_update same (trie4 aset) (trie4 other) of
        None \<Rightarrow> None
      | Some t4 \<Rightarrow>
          (case trie_update same (trie6 aset) (trie6 other) of
             None \<Rightarrow> None
           | Some t6 \<Rightarrow>
               Some \<lparr>elems = fold (\<lambda>oe es. oe # es) (elems other) (elems aset), trie4 = t4, trie6 = t6\<rparr>))"

section \<open>Specifications\<close>

definition resolve_name :: "getaddrinfo \<Rightarrow> string \<Rightarrow> nat \<Rightarrow> bool \<Rightarrow> int \<times> addrinfo list" where
  "resolve_name gai name af use_dns =
     (let r = gai name True af_unspec
      in if fst r = 0 \<or> \<not> use_dns then r else gai name False af)"

text \<open>The conversion of a \<open>long\<close> argument to \<open>int\<close>.\<close>

definition to_int :: "int \<Rightarrow> int" where
  "to_int x = signed_take_bit 31 x"

text \<open>The two loops over the addresses a name stands for.\<close>

fun add_numeric :: "addrset \<Rightarrow> int \<Rightarrow> addrinfo list \<Rightarrow> (addrset \<times> bool) option" where
  "add_numeric aset netmask_bits [] = Some (aset, True)"
| "add_numeric aset netmask_bits (addr # addrs) =
     (if ai_family addr = af_inet \<and> netmask_bits > 32 \<or> ai_family addr = af_inet6 \<and> netmask_bits > 128
      then Some (aset, False)
      else case trie_insert (af_trie aset (ai_family addr)) (ai_addr addr) (to_int netmask_bits) of
             None \<Rightarrow> None
           | Some t \<Rightarrow> add_numeric (set_af_trie aset (ai_family addr) t) netmask_bits addrs)"

fun add_resolved :: "addrset \<Rightarrow> int \<Rightarrow> addrinfo list \<Rightarrow> (addrset \<times> bool) option" where
  "add_resolved aset netmask_bits [] = Some (aset, True)"
| "add_resolved aset netmask_bits (addr # addrs) =
     (if ai_family addr = af_inet \<and> netmask_bits > 32 \<or> ai_family addr = af_inet6 \<and> netmask_bits > 128
      then Some (aset, False)
      else if ai_family addr \<noteq> af_inet \<and> ai_family addr \<noteq> af_inet6
      then add_resolved aset netmask_bits addrs
      else case trie_insert (af_trie aset (ai_family addr)) (ai_addr addr) (to_int netmask_bits) of
             None \<Rightarrow> None
           | Some t \<Rightarrow> add_resolved (set_af_trie aset (ai_family addr) t) netmask_bits addrs)"

text \<open>The specification without its netmask, and the netmask bits (negative: unspecified).\<close>

definition split_netmask :: "string \<Rightarrow> (string \<times> int) option" where
  "split_netmask spec =
     (case strchr spec CHR ''/'' of
        None \<Rightarrow> Some (spec, -1)
      | Some s \<Rightarrow>
          (let netmask_s = tl s
           in case parse_long netmask_s of
                (netmask_bits, tail, err) \<Rightarrow>
                  if err \<or> deref tail \<noteq> NUL \<or> tail = netmask_s then None
                  else Some (takeWhile (\<lambda>c. c \<noteq> CHR ''/'') spec, netmask_bits)))"

definition addrset_add_spec ::
  "getaddrinfo \<Rightarrow> addrset \<Rightarrow> string \<Rightarrow> nat \<Rightarrow> bool \<Rightarrow> (addrset \<times> bool) option" where
  "addrset_add_spec gai aset spec af dns =
     (case split_netmask spec of
        None \<Rightarrow> Some (aset, False)
      | Some (local_spec, netmask_bits) \<Rightarrow>
          (case resolve_name gai local_spec af False of
             (rc, addrs) \<Rightarrow>
               if rc = 0 \<and> addrs \<noteq> [] then add_numeric aset netmask_bits addrs
               else
                 case parse_ipv4_ranges local_spec of
                   Some elem \<Rightarrow>
                     if netmask_bits > 32 then Some (aset, False)
                     else Some (aset\<lparr>elems := apply_ipv4_netmask_bits elem (to_int netmask_bits) # elems aset\<rparr>, True)
                 | None \<Rightarrow>
                     (case resolve_name gai local_spec af dns of
                        (rc, addrs) \<Rightarrow>
                          if rc \<noteq> 0 then Some (aset, False) else add_resolved aset netmask_bits addrs)))"

text \<open>The remaining bytes of the file are the last argument; the buffer holds 1024 bytes.\<close>

function addrset_add_file ::
  "getaddrinfo \<Rightarrow> addrset \<Rightarrow> nat \<Rightarrow> bool \<Rightarrow> string \<Rightarrow> (addrset \<times> bool) option" where
  "addrset_add_file gai aset af dns fd =
     (let fd = dropWhile isspace fd; buf = takeWhile (\<lambda>c. \<not> isspace c) fd; rest = dropWhile (\<lambda>c. \<not> isspace c) fd
      in if fd = [] then Some (aset, True)
         else if length buf > 1023 then Some (aset, False)
         else case addrset_add_spec gai aset (cstr buf) af dns of
                None \<Rightarrow> None
              | Some (aset', ok) \<Rightarrow>
                  if ok then addrset_add_file gai aset' af dns (tl rest) else Some (aset', False))"
  by pat_completeness auto

termination addrset_add_file
proof (relation "measure (\<lambda>(_, _, _, _, fd). length fd)")
  fix gai :: getaddrinfo and aset aset' :: addrset and af :: nat and dns ok :: bool and fd fd' buf rest :: string and x
  assume fd': "fd' = dropWhile isspace fd" and r: "rest = dropWhile (\<lambda>c. \<not> isspace c) fd'" and ne: "fd' \<noteq> []"
  obtain c cs where c: "fd' = c # cs" using ne by (cases fd') auto
  then have "\<not> isspace c" using fd' by (metis dropWhile_eq_Cons_conv)
  then have "length rest \<le> length cs" using r c by (simp add: length_dropWhile_le)
  moreover have "length fd' \<le> length fd" using fd' by (simp add: length_dropWhile_le)
  ultimately show "((gai, aset', af, dns, tl rest), gai, aset, af, dns, fd) \<in> measure (\<lambda>(_, _, _, _, fd). length fd)"
    using c by simp
qed simp

declare addrset_add_file.simps [simp del]

end
