(* ===== verification/Addr_Ranges.thy ===== *)
theory Addr_Ranges
  imports Addrset
begin

text \<open>
  The octet bit vectors of an address set: what the bit operations, the netmask expansion and the
  parser of ranges do to the set of values each octet may have. \<open>octet_spec\<close> is the syntax of one
  octet of a specification, \<open>spec_text\<close> its spelling and \<open>octet_values\<close> its meaning.
\<close>

section \<open>Bits\<close>

definition bv_ok :: "octet_bitvector \<Rightarrow> bool" where
  "bv_ok v \<longleftrightarrow> length v = 4"

lemma BIT_IS_SET_bit: "BIT_IS_SET v n \<longleftrightarrow> bit (v ! (n div 64)) (n mod 64)"
proof -
  have "w AND push_bit k 1 = of_bool (bit w k) * push_bit k 1" if "k < 64" for w :: u64 and k
    by (rule bit_word_eqI) (auto simp: bit_simps)
  then have "BIT_IS_SET v n \<longleftrightarrow> of_bool (bit (v ! (n div 64)) (n mod 64)) * (push_bit (n mod 64) 1 :: u64) \<noteq> 0"
    by (simp add: BIT_IS_SET_def)
  moreover have "n mod 64 < 64" by simp
  ultimately show ?thesis by (auto simp: push_bit_eq_mult simp del: mod_less_divisor)
qed

lemma BIT_SET_ok [simp]: "bv_ok v \<Longrightarrow> bv_ok (BIT_SET v n)"
  by (simp add: bv_ok_def BIT_SET_def)

lemma BIT_IS_SET_SET [simp]:
  assumes "bv_ok v" "n < 256" "m < 256"
  shows "BIT_IS_SET (BIT_SET v n) m \<longleftrightarrow> m = n \<or> BIT_IS_SET v m"
proof -
  have d: "n div 64 < 4" "m div 64 < 4" using assms by (simp_all add: div_less_iff_less_mult)
  have e: "m = n \<longleftrightarrow> m div 64 = n div 64 \<and> m mod 64 = n mod 64" by (metis div_mod_decomp)
  show ?thesis
    unfolding BIT_IS_SET_bit BIT_SET_def e
    using d assms(1) by (auto simp: bv_ok_def nth_list_update bit_simps)
qed

lemma fold_BIT_SET:
  assumes "bv_ok v" "set ns \<subseteq> {..<256}"
  shows "bv_ok (fold (\<lambda>i v. BIT_SET v i) ns v) \<and>
    (\<forall>m<256. BIT_IS_SET (fold (\<lambda>i v. BIT_SET v i) ns v) m \<longleftrightarrow> m \<in> set ns \<or> BIT_IS_SET v m)"
  using assms by (induction ns arbitrary: v) auto

lemma fill_range_bits:
  assumes "bv_ok v" "b < 256"
  shows "bv_ok (fill_range v a b)"
    and "m < 256 \<Longrightarrow> BIT_IS_SET (fill_range v a b) m \<longleftrightarrow> a \<le> m \<and> m \<le> b \<or> BIT_IS_SET v m"
proof -
  have "set [a..<Suc b] \<subseteq> {..<256}" using assms(2) by auto
  from fold_BIT_SET [OF assms(1) this] show "bv_ok (fill_range v a b)"
    and "m < 256 \<Longrightarrow> BIT_IS_SET (fill_range v a b) m \<longleftrightarrow> a \<le> m \<and> m \<le> b \<or> BIT_IS_SET v m"
    unfolding fill_range_def by auto
qed

section \<open>Netmasks on bit vectors\<close>

definition pair_starts :: "nat \<Rightarrow> nat list" where
  "pair_starts c = concat (map (\<lambda>i. map ((+) i) [0..<c]) (map (\<lambda>q. q * (c * 2)) [0..<256 div (c * 2)]))"

lemma pair_chunks_fold: "pair_chunks c v = fold (\<lambda>n v. pair_step c v n) (pair_starts c) v"
proof -
  have "fold (\<lambda>i v. fold (\<lambda>j v. pair_step c v (i + j)) [0..<c] v) is v =
    fold (\<lambda>n v. pair_step c v n) (concat (map (\<lambda>i. map ((+) i) [0..<c]) is)) v" for "is" v
    by (induction "is" arbitrary: v) (simp_all add: fold_map comp_def)
  then show ?thesis by (simp add: pair_chunks_def pair_starts_def)
qed

lemma pow2_dvd_256: "k < 8 \<Longrightarrow> (256::nat) = (2 ^ k * 2) * 2 ^ (7 - k)"
  by (simp flip: power_Suc power_add add: mult.commute [of _ 2])

lemma set_pair_starts:
  assumes "k < 8"
  shows "set (pair_starts (2 ^ k)) = {n. n < 256 \<and> \<not> bit n k}"
proof -
  have d: "256 div (2 ^ k * 2) = (2 ^ (7 - k) :: nat)" using pow2_dvd_256 [OF assms] by (metis nonzero_mult_div_cancel_left power_not_zero mult_eq_0_iff zero_neq_numeral)
  show ?thesis
  proof (intro set_eqI iffI)
    fix n assume "n \<in> set (pair_starts (2 ^ k))"
    then obtain q j where n: "n = q * (2 ^ k * 2) + j" "q < 2 ^ (7 - k)" "j < 2 ^ k"
    proof -
      from \<open>n \<in> set (pair_starts (2 ^ k))\<close> obtain q where "q < 2 ^ (7 - k)" "q * (2 ^ k * 2) \<le> n" "n < 2 ^ k + q * (2 ^ k * 2)"
        by (auto simp: pair_starts_def d)
      then show thesis by (intro that [of q "n - q * (2 ^ k * 2)"]) auto
    qed
    have "n < (q + 1) * (2 ^ k * 2)" using n(1,3) by (simp add: add_mult_distrib)
    also have "\<dots> \<le> 2 ^ (7 - k) * (2 ^ k * 2)" using n(2) by (intro mult_right_mono) auto
    also have "\<dots> = 256" using pow2_dvd_256 [OF assms] by (simp add: mult.commute)
    finally have "n < 256" .
    moreover have "n div 2 ^ k = q * 2" using n(1,3) by (intro div_nat_eqI) (simp_all add: add_mult_distrib mult_ac)
    then have "\<not> bit n k" by (simp add: bit_iff_odd)
    ultimately show "n \<in> {n. n < 256 \<and> \<not> bit n k}" by simp
  next
    fix n :: nat assume n: "n \<in> {n. n < 256 \<and> \<not> bit n k}"
    define q j where "q = n div (2 ^ k * 2)" and "j = n mod (2 ^ k * 2)"
    have "n = q * (2 ^ k * 2) + j" by (simp only: q_def j_def div_mult_mod_eq)
    moreover have "even (n div 2 ^ k)" using n by (simp add: bit_iff_odd)
    then have "j = n mod 2 ^ k"
      unfolding j_def by (simp add: mod_mult2_eq)
    then have "j < 2 ^ k" by simp
    moreover have "q < 2 ^ (7 - k)"
      using n pow2_dvd_256 [OF assms] unfolding q_def by (simp add: div_less_iff_less_mult mult.commute)
    ultimately show "n \<in> set (pair_starts (2 ^ k))" by (force simp: pair_starts_def d)
  qed
qed

text \<open>Each step makes the two bits of a pair equal.\<close>

lemma pair_step_bits:
  assumes "bv_ok v" "n + c < 256" "x < 256" "0 < c"
  shows "bv_ok (pair_step c v n)"
    and "BIT_IS_SET (pair_step c v n) x \<longleftrightarrow> BIT_IS_SET v x \<or>
      (x = n \<and> BIT_IS_SET v (n + c)) \<or> (x = n + c \<and> BIT_IS_SET v n)"
  using assms by (auto simp: pair_step_def)

lemma fold_pair_step:
  assumes "bv_ok v" "\<forall>n\<in>set ns. n + c < 256" "\<forall>a\<in>set ns. \<forall>b\<in>set ns. a + c \<noteq> b" "0 < c"
  shows "bv_ok (fold (\<lambda>n v. pair_step c v n) ns v) \<and>
    (\<forall>x<256. BIT_IS_SET (fold (\<lambda>n v. pair_step c v n) ns v) x \<longleftrightarrow> BIT_IS_SET v x \<or>
      (x \<in> set ns \<and> BIT_IS_SET v (x + c)) \<or> (c \<le> x \<and> x - c \<in> set ns \<and> BIT_IS_SET v (x - c)))"
  using assms
proof (induction ns arbitrary: v)
  case (Cons n ns)
  let ?v = "pair_step c v n"
  have ok: "bv_ok ?v" and st: "\<And>x. x < 256 \<Longrightarrow> BIT_IS_SET ?v x \<longleftrightarrow> BIT_IS_SET v x \<or>
      (x = n \<and> BIT_IS_SET v (n + c)) \<or> (x = n + c \<and> BIT_IS_SET v n)"
    using pair_step_bits [OF Cons.prems(1), of n c] Cons.prems(2,4) by auto
  have "bv_ok (fold (\<lambda>n v. pair_step c v n) ns ?v) \<and>
    (\<forall>x<256. BIT_IS_SET (fold (\<lambda>n v. pair_step c v n) ns ?v) x \<longleftrightarrow> BIT_IS_SET ?v x \<or>
      (x \<in> set ns \<and> BIT_IS_SET ?v (x + c)) \<or> (c \<le> x \<and> x - c \<in> set ns \<and> BIT_IS_SET ?v (x - c)))"
    using Cons.prems by (intro Cons.IH ok) auto
  moreover have "BIT_IS_SET ?v x \<or> (x \<in> set ns \<and> BIT_IS_SET ?v (x + c)) \<or>
      (c \<le> x \<and> x - c \<in> set ns \<and> BIT_IS_SET ?v (x - c)) \<longleftrightarrow>
      BIT_IS_SET v x \<or> (x \<in> set (n # ns) \<and> BIT_IS_SET v (x + c)) \<or>
      (c \<le> x \<and> x - c \<in> set (n # ns) \<and> BIT_IS_SET v (x - c))" if "x < 256" for x
  proof -
    have "x \<in> set ns \<Longrightarrow> x + c < 256 \<and> n + c \<noteq> x \<and> x + c \<noteq> n" using Cons.prems(2,3) by auto
    moreover have "c \<le> x \<Longrightarrow> x - c \<in> set ns \<Longrightarrow> n \<noteq> x \<and> n + c \<noteq> x - c \<and> x - c < 256"
      using Cons.prems(2,3) that by auto
    moreover have "c \<le> x \<Longrightarrow> x = n + c \<longleftrightarrow> x - c = n" by auto
    ultimately show ?thesis using st [OF that] st [of "x + c"] st [of "x - c"] by auto
  qed
  ultimately show ?case by auto
qed simp

lemma nat_flip_bit: "flip_bit k n = (if bit n k then n - 2 ^ k else n + 2 ^ k)" "bit n k \<Longrightarrow> 2 ^ k \<le> n" for n :: nat
proof -
  have n: "n = unset_bit k n + 2 ^ k" if "bit n k"
  proof -
    have "n = set_bit k (unset_bit k n)" by (rule bit_eqI) (use that in \<open>auto simp: bit_simps\<close>)
    also have "\<dots> = unset_bit k n + 2 ^ k" by (simp add: set_bit_eq bit_simps)
    finally show ?thesis .
  qed
  then show "bit n k \<Longrightarrow> 2 ^ k \<le> n" by (metis le_add2)
  show "flip_bit k n = (if bit n k then n - 2 ^ k else n + 2 ^ k)"
    using n by (auto simp: flip_bit_eq_if set_bit_eq)
qed

lemma nat_less_256: "n < 256 \<longleftrightarrow> (\<forall>m\<ge>8. \<not> bit n m)" for n :: nat
proof -
  have "n < 256 \<longleftrightarrow> take_bit 8 n = n" by (simp add: take_bit_nat_eq_self_iff)
  also have "\<dots> \<longleftrightarrow> (\<forall>m. bit (take_bit 8 n) m = bit n m)" by (simp add: bit_eq_iff)
  also have "\<dots> \<longleftrightarrow> (\<forall>m\<ge>8. \<not> bit n m)" by (simp only: bit_take_bit_iff) (meson not_le)
  finally show ?thesis .
qed

lemma flip_bit_256: "k < 8 \<Longrightarrow> n < 256 \<Longrightarrow> flip_bit k n < 256" for n :: nat
  unfolding nat_less_256 by (auto simp: bit_flip_bit_iff)

lemma pair_chunks_bits:
  assumes "bv_ok v" "k < 8"
  shows "bv_ok (pair_chunks (2 ^ k) v)"
    and "x < 256 \<Longrightarrow> BIT_IS_SET (pair_chunks (2 ^ k) v) x \<longleftrightarrow> BIT_IS_SET v x \<or> BIT_IS_SET v (flip_bit k x)"
proof -
  let ?c = "2 ^ k :: nat"
  have s: "set (pair_starts ?c) = {n. n < 256 \<and> \<not> bit n k}" by (rule set_pair_starts [OF assms(2)])
  have lt: "\<forall>n\<in>set (pair_starts ?c). n + ?c < 256"
  proof
    fix n assume "n \<in> set (pair_starts ?c)"
    then have "n < 256" "\<not> bit n k" by (simp_all add: s)
    then show "n + ?c < 256" using flip_bit_256 [OF assms(2), of n] by (simp only: nat_flip_bit(1) if_False)
  qed
  have fb: "bit (n + ?c) k" if "\<not> bit n k" for n
    using that nat_flip_bit(1) [of k n] bit_flip_bit_iff [of k n k] by simp
  then have dj: "\<forall>a\<in>set (pair_starts ?c). \<forall>b\<in>set (pair_starts ?c). a + ?c \<noteq> b" by (auto simp: s)
  note f = fold_pair_step [OF assms(1) lt dj, folded pair_chunks_fold]
  show "bv_ok (pair_chunks ?c v)" using f by simp
  assume x: "x < 256"
  have "bit x k \<Longrightarrow> \<not> bit (x - ?c) k" using nat_flip_bit(1) [of k x] bit_flip_bit_iff [of k x k] by simp
  moreover have "?c \<le> x \<Longrightarrow> \<not> bit (x - ?c) k \<Longrightarrow> bit x k" using fb [of "x - ?c"] by simp
  ultimately show "BIT_IS_SET (pair_chunks ?c v) x \<longleftrightarrow> BIT_IS_SET v x \<or> BIT_IS_SET v (flip_bit k x)"
    using f x nat_flip_bit(2) [of x k] by (auto simp: s nat_flip_bit(1))
qed

text \<open>Whether \<open>x\<close> and \<open>y\<close> differ only in bits below \<open>k\<close> outside the mask.\<close>

definition masked_to :: "u8 \<Rightarrow> nat \<Rightarrow> nat \<Rightarrow> nat \<Rightarrow> bool" where
  "masked_to m k x y \<longleftrightarrow> (\<forall>j. bit x j \<noteq> bit y j \<longrightarrow> j < k \<and> \<not> bit m j)"

lemma masked_to_Suc:
  "masked_to m (Suc k) x y \<longleftrightarrow> masked_to m k x y \<or> \<not> bit m k \<and> masked_to m k (flip_bit k x) y"
proof (cases "bit x k = bit y k")
  case True
  then have "masked_to m (Suc k) x y \<longleftrightarrow> masked_to m k x y"
    unfolding masked_to_def by (metis less_Suc_eq)
  moreover have "\<not> masked_to m k (flip_bit k x) y"
    using True unfolding masked_to_def by (auto simp: bit_flip_bit_iff)
  ultimately show ?thesis by simp
next
  case False
  let ?P = "\<forall>j. j \<noteq> k \<longrightarrow> bit x j \<noteq> bit y j \<longrightarrow> j < k \<and> \<not> bit m j"
  have "\<not> masked_to m k x y" using False unfolding masked_to_def by blast
  moreover have "masked_to m (Suc k) x y \<longleftrightarrow> \<not> bit m k \<and> ?P"
    using False unfolding masked_to_def by (metis less_Suc_eq)
  moreover have "bit (flip_bit k x) j = (if j = k then \<not> bit x j else bit x j)" for j
    by (auto simp: bit_flip_bit_iff)
  then have "masked_to m k (flip_bit k x) y \<longleftrightarrow> ?P" using False unfolding masked_to_def by auto
  ultimately show ?thesis by blast
qed

lemma masked_to_0: "masked_to m 0 x y \<longleftrightarrow> x = y"
  unfolding masked_to_def by (auto intro: bit_eqI)

lemma mask_bit:
  assumes "k < 8"
  shows "(m::u8) AND push_bit k 1 \<noteq> 0 \<longleftrightarrow> bit m k"
proof -
  have "m AND push_bit k 1 = of_bool (bit m k) * push_bit k 1"
    by (rule bit_word_eqI) (auto simp: bit_simps)
  then show ?thesis using assms by (simp add: push_bit_eq_mult)
qed

lemma netmask_step_bit: "k < 8 \<Longrightarrow> netmask_step m k v = (if bit m k then v else pair_chunks (2 ^ k) v)"
  unfolding netmask_step_def by (simp only: mask_bit)

lemma netmask_octet_steps:
  assumes "bv_ok v" "k \<le> 8"
  shows "bv_ok (fold (netmask_step m) [0..<k] v) \<and>
    (\<forall>x<256. BIT_IS_SET (fold (netmask_step m) [0..<k] v) x \<longleftrightarrow> (\<exists>y<256. BIT_IS_SET v y \<and> masked_to m k x y))"
  using assms(2)
proof (induction k)
  case 0
  then show ?case using assms(1) by (simp add: masked_to_0)
next
  case (Suc k)
  define w where "w = fold (netmask_step m) [0..<k] v"
  have w: "bv_ok w" "\<And>x. x < 256 \<Longrightarrow> BIT_IS_SET w x \<longleftrightarrow> (\<exists>y<256. BIT_IS_SET v y \<and> masked_to m k x y)"
    using Suc unfolding w_def by auto
  have k: "k < 8" using Suc.prems by simp
  have e: "fold (netmask_step m) [0..<Suc k] v = (if bit m k then w else pair_chunks (2 ^ k) w)"
    using k by (simp add: w_def netmask_step_bit)
  show ?case
  proof (cases "bit m k")
    case True
    then show ?thesis using w unfolding e masked_to_Suc by simp
  next
    case False
    then have "BIT_IS_SET (fold (netmask_step m) [0..<Suc k] v) x \<longleftrightarrow> (\<exists>y<256. BIT_IS_SET v y \<and> masked_to m (Suc k) x y)"
      if "x < 256" for x
      using pair_chunks_bits(2) [OF w(1) k that] w(2) [OF that] w(2) [OF flip_bit_256 [OF k that]]
      unfolding e masked_to_Suc by auto
    moreover have "bv_ok (fold (netmask_step m) [0..<Suc k] v)"
      unfolding e using False pair_chunks_bits(1) [OF w(1) k] by simp
    ultimately show ?thesis by blast
  qed
qed

lemma masked_to_and: "masked_to m 8 (unat x) (unat y) \<longleftrightarrow> x AND m = y AND m" for x y m :: u8
proof -
  have u: "bit (unat x) j \<longleftrightarrow> bit x j" for x :: u8 and j
    by (cases "j < 8") (auto simp: bit_simps)
  have "masked_to m 8 (unat x) (unat y) \<longleftrightarrow> (\<forall>j<8. bit m j \<longrightarrow> bit x j = bit y j)"
    unfolding masked_to_def u using bit_imp_le_length [of x] bit_imp_le_length [of y] by auto
  also have "\<dots> \<longleftrightarrow> x AND m = y AND m" by (auto simp: bit_eq_iff bit_simps)
  finally show ?thesis .
qed

lemma netmask_octet_ok:
  fixes x m :: u8
  assumes "bv_ok v"
  shows "bv_ok (apply_ipv4_netmask_octet v m)"
    and "BIT_IS_SET (apply_ipv4_netmask_octet v m) (unat x) \<longleftrightarrow>
      (\<exists>y. BIT_IS_SET v (unat y) \<and> x AND m = y AND m)"
proof -
  note s = netmask_octet_steps [OF assms, of 8 m, folded apply_ipv4_netmask_octet_def]
  show "bv_ok (apply_ipv4_netmask_octet v m)" using s by simp
  have lt: "unat z < 256" for z :: u8 using unsigned_less [of z, where ?'a = nat] by simp
  have ex: "(\<exists>y<256. P y) \<longleftrightarrow> (\<exists>y::u8. P (unat y))" for P
  proof
    assume "\<exists>y<256. P y"
    then obtain y where "y < 256" "P y" by blast
    then show "\<exists>y::u8. P (unat y)"
      by (intro exI [of _ "of_nat y"]) (simp add: unsigned_of_nat take_bit_nat_eq_self)
  qed (use lt in blast)
  show "BIT_IS_SET (apply_ipv4_netmask_octet v m) (unat x) \<longleftrightarrow> (\<exists>y. BIT_IS_SET v (unat y) \<and> x AND m = y AND m)"
    using s lt [of x] unfolding ex by (simp add: masked_to_and)
qed

section \<open>The syntax of ranges\<close>

text \<open>An element of an octet: a number, or a range with optional bounds.\<close>

datatype octet_item = One nat | Span "nat option" "nat option"

datatype octet_spec = Star | Items "octet_item list"

fun item_bounds :: "octet_item \<Rightarrow> nat \<times> nat" where
  "item_bounds (One n) = (n, n)"
| "item_bounds (Span a b) = (case_option 0 id a, case_option 255 id b)"

definition item_ok :: "octet_item \<Rightarrow> bool" where
  "item_ok it \<longleftrightarrow> fst (item_bounds it) \<le> snd (item_bounds it) \<and> snd (item_bounds it) \<le> 255"

fun item_text :: "octet_item \<Rightarrow> string" where
  "item_text (One n) = dec n"
| "item_text (Span a b) = case_option [] dec a @ CHR ''-'' # case_option [] dec b"

fun items_text :: "octet_item list \<Rightarrow> string" where
  "items_text [] = []"
| "items_text [it] = item_text it"
| "items_text (it # its) = item_text it @ CHR '','' # items_text its"

fun octet_text :: "octet_spec \<Rightarrow> string" where
  "octet_text Star = ''*''"
| "octet_text (Items its) = items_text its"

fun octet_ok :: "octet_spec \<Rightarrow> bool" where
  "octet_ok Star \<longleftrightarrow> True"
| "octet_ok (Items its) \<longleftrightarrow> its \<noteq> [] \<and> list_all item_ok its"

fun octet_values :: "octet_spec \<Rightarrow> nat set" where
  "octet_values Star = {0..255}"
| "octet_values (Items its) = (\<Union>it\<in>set its. {fst (item_bounds it)..snd (item_bounds it)})"

definition spec_text :: "octet_spec list \<Rightarrow> string" where
  "spec_text os =
     octet_text (os ! 0) @ ''.'' @ octet_text (os ! 1) @ ''.'' @
     octet_text (os ! 2) @ ''.'' @ octet_text (os ! 3)"

definition spec_ok :: "octet_spec list \<Rightarrow> bool" where
  "spec_ok os \<longleftrightarrow> length os = 4 \<and> list_all octet_ok os"

abbreviation ends_item :: "string \<Rightarrow> bool" where
  "ends_item t \<equiv> deref t = CHR '','' \<or> deref t = CHR ''.'' \<or> deref t = NUL"

lemma ends_item_no_digit: "ends_item t \<Longrightarrow> \<not> isdigit (deref t) \<and> deref t \<noteq> CHR ''-''"
  by (auto simp: isdigit_def)

lemma parse_long_none: "\<not> isdigit (deref p) \<Longrightarrow> parse_long p = (0, p, False)"
  by (simp add: parse_long_def)

lemma parse_long_octet: "\<not> isdigit (deref t) \<Longrightarrow> n \<le> 255 \<Longrightarrow> parse_long (dec n @ t) = (int n, t, False)"
  by (rule parse_long_dec) (simp_all add: LONG_MAX_def)

lemma dec_append_neq [simp]: "t \<noteq> dec n @ t"
  by simp

lemma parse_range_item:
  assumes "item_ok it" "ends_item t"
  shows "parse_range (item_text it @ t) = Some (fst (item_bounds it), snd (item_bounds it), t)"
proof (cases it)
  case (One n)
  then show ?thesis
    using assms ends_item_no_digit [OF assms(2)] by (auto simp: parse_range_def parse_long_octet item_ok_def)
next
  case (Span a b)
  let ?r = "case_option [] dec b @ t"
  have nd: "\<not> isdigit (CHR ''-'')" by (simp add: isdigit_def)
  have r: "parse_long ?r = (case b of None \<Rightarrow> (0, t, False) | Some n \<Rightarrow> (int n, t, False))"
    using assms ends_item_no_digit [OF assms(2)]
    by (cases b) (auto simp: Span item_ok_def parse_long_octet parse_long_none)
  have l: "parse_long (case_option [] dec a @ CHR ''-'' # ?r) =
      (case a of None \<Rightarrow> (0, CHR ''-'' # ?r, False) | Some n \<Rightarrow> (int n, CHR ''-'' # ?r, False))"
    using assms nd by (cases a) (auto simp: Span item_ok_def parse_long_octet parse_long_none split: option.splits)
  show ?thesis
    using assms r l unfolding parse_range_def Span
    by (cases a; cases b) (auto simp: item_ok_def)
qed

lemma item_text_ends: "item_text it @ t \<noteq> [] \<and> deref (item_text it @ t) \<noteq> NUL \<and> deref (item_text it @ t) \<noteq> CHR ''*''"
proof -
  have "deref (dec n @ u) \<noteq> NUL \<and> deref (dec n @ u) \<noteq> CHR ''*'' \<and> dec n \<noteq> []" for n u
  proof -
    obtain c cs where "dec n = c # cs" by (meson dec_not_Nil list.exhaust)
    then show ?thesis using dec_digits [of n] by (auto simp: isdigit_def)
  qed
  then show ?thesis by (cases it) (auto split: option.splits)
qed

lemma ranges_loop_items:
  assumes "its \<noteq> []" "list_all item_ok its" "deref t = CHR ''.'' \<or> deref t = NUL" "bv_ok v"
  shows "\<exists>v'. ranges_loop v (items_text its @ t) = Some (v', t) \<and> bv_ok v' \<and>
    (\<forall>m<256. BIT_IS_SET v' m \<longleftrightarrow> m \<in> octet_values (Items its) \<or> BIT_IS_SET v m)"
  using assms
proof (induction its arbitrary: v rule: items_text.induct)
  case (2 it)
  then have b: "snd (item_bounds it) < 256" by (auto simp: item_ok_def)
  have "ranges_loop v (items_text [it] @ t) = Some (fill_range v (fst (item_bounds it)) (snd (item_bounds it)), t)"
    using 2 parse_range_item [of it t] by (subst ranges_loop.simps) auto
  then show ?case using fill_range_bits [OF 2(4) b] by auto
next
  case (3 it it' its)
  then have b: "snd (item_bounds it) < 256" by (auto simp: item_ok_def)
  let ?v = "fill_range v (fst (item_bounds it)) (snd (item_bounds it))"
  have "ranges_loop v (items_text (it # it' # its) @ t) = ranges_loop ?v (items_text (it' # its) @ t)"
    using 3 parse_range_item [of it "CHR '','' # items_text (it' # its) @ t"] by (subst ranges_loop.simps) auto
  moreover have "\<exists>v'. ranges_loop ?v (items_text (it' # its) @ t) = Some (v', t) \<and> bv_ok v' \<and>
    (\<forall>m<256. BIT_IS_SET v' m \<longleftrightarrow> m \<in> octet_values (Items (it' # its)) \<or> BIT_IS_SET ?v m)"
    using 3 fill_range_bits [OF 3(5) b] by (intro 3(1)) auto
  ultimately show ?case using fill_range_bits [OF 3(5) b] by auto
qed simp

text \<open>One octet of a specification.\<close>

definition octet_step :: "octet_bitvector \<Rightarrow> string \<Rightarrow> (octet_bitvector \<times> string) option" where
  "octet_step v p = (if deref p = CHR ''*'' then Some (fill_range v 0 255, tl p) else ranges_loop v p)"

lemma octet_step_text:
  assumes "octet_ok o'" "deref t = CHR ''.'' \<or> deref t = NUL"
  shows "deref (octet_text o' @ t) \<noteq> NUL"
    and "\<exists>v. octet_step (replicate 4 0) (octet_text o' @ t) = Some (v, t) \<and> bv_ok v \<and>
      (\<forall>m<256. BIT_IS_SET v m \<longleftrightarrow> m \<in> octet_values o')"
proof -
  have z: "bv_ok (replicate 4 0)" "\<And>m. m < 256 \<Longrightarrow> \<not> BIT_IS_SET (replicate 4 0) m"
    by (simp_all add: bv_ok_def BIT_IS_SET_def div_less_iff_less_mult)
  have "deref (octet_text o' @ t) \<noteq> NUL \<and>
    (\<exists>v. octet_step (replicate 4 0) (octet_text o' @ t) = Some (v, t) \<and> bv_ok v \<and>
      (\<forall>m<256. BIT_IS_SET v m \<longleftrightarrow> m \<in> octet_values o'))"
  proof (cases o')
    case Star
    then show ?thesis using fill_range_bits [OF z(1), where a = 0 and b = 255] z(2) by (auto simp: octet_step_def)
  next
    case (Items its)
    obtain it u where u: "items_text its @ t = item_text it @ u"
      using assms(1) unfolding Items by (cases its rule: items_text.cases) auto
    have "ranges_loop (replicate 4 0) (items_text its @ t) = octet_step (replicate 4 0) (octet_text o' @ t)"
      using item_text_ends [of it u] by (simp add: octet_step_def Items u)
    then show ?thesis
      using ranges_loop_items [OF _ _ assms(2) z(1), of its] assms(1) item_text_ends [of it u] z(2) u
      by (auto simp: Items)
  qed
  then show "deref (octet_text o' @ t) \<noteq> NUL"
    and "\<exists>v. octet_step (replicate 4 0) (octet_text o' @ t) = Some (v, t) \<and> bv_ok v \<and>
      (\<forall>m<256. BIT_IS_SET v m \<longleftrightarrow> m \<in> octet_values o')" by auto
qed

lemma octets_loop_step:
  assumes "i < 4" "octet_ok o'" "deref t = (if i < 3 then CHR ''.'' else NUL)" "bits ! i = replicate 4 0"
  shows "\<exists>v. bv_ok v \<and> (\<forall>m<256. BIT_IS_SET v m \<longleftrightarrow> m \<in> octet_values o') \<and>
    octets_loop bits i (octet_text o' @ t) = octets_loop (bits[i := v]) (i + 1) (if i < 3 then tl t else t)"
proof -
  have t: "deref t = CHR ''.'' \<or> deref t = NUL" using assms(3) by (simp split: if_splits)
  note ot = octet_step_text [OF assms(2) t]
  then obtain v where v: "octet_step (bits ! i) (octet_text o' @ t) = Some (v, t)" "bv_ok v"
    "\<forall>m<256. BIT_IS_SET v m \<longleftrightarrow> m \<in> octet_values o'" unfolding assms(4) by blast
  have "octets_loop bits i (octet_text o' @ t) = octets_loop (bits[i := v]) (i + 1) (if i < 3 then tl t else t)"
    using v(1) assms(1,3) ot(1) unfolding octet_step_def
    by (subst octets_loop.simps) (auto simp: Let_def)
  then show ?thesis using v by blast
qed

lemma parse_ipv4_ranges_text:
  assumes "spec_ok os"
  shows "\<exists>elem. parse_ipv4_ranges (spec_text os) = Some elem \<and> length elem = 4 \<and>
    (\<forall>i<4. bv_ok (elem ! i) \<and> (\<forall>m<256. BIT_IS_SET (elem ! i) m \<longleftrightarrow> m \<in> octet_values (os ! i)))"
proof -
  let ?z = "replicate 4 0 :: octet_bitvector"
  have ok: "octet_ok (os ! i)" if "i < 4" for i using assms that by (auto simp: spec_ok_def list_all_length)
  define t2 where "t2 = octet_text (os ! 3) @ []"
  define t1 where "t1 = octet_text (os ! 2) @ CHR ''.'' # t2"
  define t0 where "t0 = octet_text (os ! 1) @ CHR ''.'' # t1"
  have st: "spec_text os = octet_text (os ! 0) @ CHR ''.'' # t0"
    by (simp add: spec_text_def t0_def t1_def t2_def)
  obtain v0 where v0: "bv_ok v0" "\<forall>m<256. BIT_IS_SET v0 m \<longleftrightarrow> m \<in> octet_values (os ! 0)"
    "octets_loop [?z, ?z, ?z, ?z] 0 (spec_text os) = octets_loop [v0, ?z, ?z, ?z] 1 t0"
    using octets_loop_step [of 0 "os ! 0" "CHR ''.'' # t0" "[?z, ?z, ?z, ?z]"] ok unfolding st by auto
  obtain v1 where v1: "bv_ok v1" "\<forall>m<256. BIT_IS_SET v1 m \<longleftrightarrow> m \<in> octet_values (os ! 1)"
    "octets_loop [v0, ?z, ?z, ?z] 1 t0 = octets_loop [v0, v1, ?z, ?z] 2 t1"
    using octets_loop_step [of 1 "os ! 1" "CHR ''.'' # t1" "[v0, ?z, ?z, ?z]"] ok
    unfolding t0_def by (auto simp: numeral_2_eq_2)
  obtain v2 where v2: "bv_ok v2" "\<forall>m<256. BIT_IS_SET v2 m \<longleftrightarrow> m \<in> octet_values (os ! 2)"
    "octets_loop [v0, v1, ?z, ?z] 2 t1 = octets_loop [v0, v1, v2, ?z] 3 t2"
    using octets_loop_step [of 2 "os ! 2" "CHR ''.'' # t2" "[v0, v1, ?z, ?z]"] ok
    unfolding t1_def by auto
  obtain v3 where v3: "bv_ok v3" "\<forall>m<256. BIT_IS_SET v3 m \<longleftrightarrow> m \<in> octet_values (os ! 3)"
    "octets_loop [v0, v1, v2, ?z] 3 t2 = octets_loop [v0, v1, v2, v3] 4 []"
    using octets_loop_step [of 3 "os ! 3" "[]" "[v0, v1, v2, ?z]"] ok
    unfolding t2_def by auto
  have "octets_loop [v0, v1, v2, v3] 4 [] = Some [v0, v1, v2, v3]" by (simp add: octets_loop.simps)
  moreover have "replicate 4 ?z = [?z, ?z, ?z, ?z]" by (simp add: numeral_eq_Suc)
  ultimately have "parse_ipv4_ranges (spec_text os) = Some [v0, v1, v2, v3]"
    unfolding parse_ipv4_ranges_def by (simp only: v0(3) v1(3) v2(3) v3(3))
  moreover have "i = 0 \<or> i = 1 \<or> i = 2 \<or> i = 3" if "i < 4" for i :: nat using that by linarith
  then have "\<forall>i<4. bv_ok ([v0, v1, v2, v3] ! i) \<and>
      (\<forall>m<256. BIT_IS_SET ([v0, v1, v2, v3] ! i) m \<longleftrightarrow> m \<in> octet_values (os ! i))"
    using v0 v1 v2 v3 by (metis nth_Cons_0 nth_Cons_numeral nth_Cons_Suc One_nat_def numeral_2_eq_2 numeral_3_eq_3)
  ultimately show ?thesis by (intro exI [of _ "[v0, v1, v2, v3]"]) simp
qed

end
