(* ===== verification/Addrset_Set.thy ===== *)
theory Addrset_Set
  imports Addr_Ranges
begin

text \<open>
  The addresses a set holds, in terms of socket addresses: the conversions between socket addresses
  and the words of the trees, networks given by a number of leading bits (\<open>in_net\<close>), and what the
  specifications of hosts, networks and ranges add. The locale \<open>host_set\<close> is what the clients of a
  set rely on when they add hosts.
\<close>

section \<open>Conversions of addresses\<close>

lemma byte_masks: "(0xff::u32) = mask 8" "(0xff00::u32) = push_bit 8 (mask 8)"
  by (simp_all add: mask_eq_exp_minus_1)

lemma bit_ntohl:
  "bit (ntohl w) n \<longleftrightarrow> n < 32 \<and>
     bit w (if n < 8 then 24 + n else if n < 16 then 8 + n else if n < 24 then n - 8 else n - 24)"
  unfolding ntohl_def byte_masks
  by (auto simp: bit_or_iff bit_and_iff bit_push_bit_iff bit_drop_bit_eq bit_mask_iff simp del: push_bit_numeral_minus_1 dest: bit_imp_le_length)

lemma ntohl_ntohl [simp]: "ntohl (ntohl w) = w"
  by (rule bit_word_eqI) (auto simp: bit_ntohl)

lemma ntohl_eq_iff [simp]: "ntohl a = ntohl b \<longleftrightarrow> a = b"
  by (metis ntohl_ntohl)

lemma bits_to_mask_pmask: "k \<le> 128 \<Longrightarrow> bits_to_mask k = pmask k"
proof -
  assume k: "k \<le> 128"
  have part: "push_bit (31 - r) (U32_ALL_BITS - 1) = pm r" if "r < 32" for r
  proof -
    have "U32_ALL_BITS - 1 = NOT 1" by (simp add: U32_ALL_BITS_eq not_eq_complement)
    then show ?thesis
      by (simp only:) (rule bit_word_eqI, use that in \<open>auto simp: bit_pm bit_simps\<close>)
  qed
  have "bits_to_mask k ! i = pmask k ! i" if "i < 4" for i
  proof -
    consider "i < k div 32" | "i = k div 32" | "k div 32 < i" by linarith
    then show ?thesis
    proof cases
      case 1
      then have "32 \<le> k - 32 * i" by linarith
      then show ?thesis using 1 that by (simp add: bits_to_mask_def pmask_word min_absorb1)
    next
      case 2
      then have "k - 32 * i = k mod 32" by (simp add: minus_mult_div_eq_mod)
      then show ?thesis using 2 that part [of "k mod 32"] by (simp add: bits_to_mask_def pmask_word min_absorb2)
    next
      case 3
      then have "k - 32 * i = 0" by linarith
      then show ?thesis using 3 that by (simp add: bits_to_mask_def pmask_word)
    qed
  qed
  then show ?thesis by (intro nth_equalityI) (simp_all add: bits_to_mask_def)
qed

definition join4 :: "u8 \<Rightarrow> u8 \<Rightarrow> u8 \<Rightarrow> u8 \<Rightarrow> u32" where
  "join4 a b c d = push_bit 24 (ucast a) + push_bit 16 (ucast b) + push_bit 8 (ucast c) + ucast d"

lemma unat_join4: "unat (join4 a b c d) = unat a * 2 ^ 24 + unat b * 2 ^ 16 + unat c * 2 ^ 8 + unat d"
proof -
  have l: "unat x < 256" for x :: u8 using unsigned_less [of x, where ?'a = nat] by simp
  have "join4 a b c d = of_nat (unat a * 2 ^ 24 + unat b * 2 ^ 16 + unat c * 2 ^ 8 + unat d)"
    by (simp add: join4_def push_bit_eq_mult)
  moreover have "unat a * 2 ^ 24 + unat b * 2 ^ 16 + unat c * 2 ^ 8 + unat d < 2 ^ 32"
    using l [of a] l [of b] l [of c] l [of d] by simp
  ultimately show ?thesis by (simp only: unsigned_of_nat len_num0 len_num1 take_bit_nat_eq_self_iff) (simp add: take_bit_nat_eq_self)
qed

lemma byte_digit: "x * 256 + y = x' * 256 + y' \<Longrightarrow> y < 256 \<Longrightarrow> y' < 256 \<Longrightarrow> x = x' \<and> y = y'"
  for x y x' y' :: nat
proof -
  assume "x * 256 + y = x' * 256 + y'" "y < 256" "y' < 256"
  moreover have "(u * 256 + v) div 256 = u \<and> (u * 256 + v) mod 256 = v" if "v < 256" for u v :: nat
    using that by simp
  ultimately show ?thesis by metis
qed

lemma join4_inj: "join4 a b c d = join4 a' b' c' d' \<longleftrightarrow> a = a' \<and> b = b' \<and> c = c' \<and> d = d'"
proof
  have l: "unat x < 256" for x :: u8 using unsigned_less [of x, where ?'a = nat] by simp
  assume "join4 a b c d = join4 a' b' c' d'"
  then have e: "unat a * 2 ^ 24 + unat b * 2 ^ 16 + unat c * 2 ^ 8 + unat d =
      unat a' * 2 ^ 24 + unat b' * 2 ^ 16 + unat c' * 2 ^ 8 + unat d'" by (metis unat_join4)
  then have "((unat a * 256 + unat b) * 256 + unat c) * 256 + unat d =
      ((unat a' * 256 + unat b') * 256 + unat c') * 256 + unat d'" by simp
  from byte_digit [OF this l l] have "unat d = unat d'"
    and e: "(unat a * 256 + unat b) * 256 + unat c = (unat a' * 256 + unat b') * 256 + unat c'" by simp_all
  moreover from byte_digit [OF e l l] have "unat c = unat c'"
    and e': "unat a * 256 + unat b = unat a' * 256 + unat b'" by simp_all
  moreover from byte_digit [OF e' l l] have "unat a = unat a'" "unat b = unat b'" by simp_all
  ultimately have "unat a = unat a' \<and> unat b = unat b' \<and> unat c = unat c' \<and> unat d = unat d'" by simp
  then show "a = a' \<and> b = b' \<and> c = c' \<and> d = d'" by (simp add: word_unat_eq_iff)
qed simp

text \<open>The words of an address, for an address of a known family.\<close>

definition sa_addr :: "sockaddr_storage \<Rightarrow> addr4" where
  "sa_addr sa = the (sockaddr_to_addr sa)"

lemma sockaddr_to_addr_wf:
  assumes "ss_wf sa"
  shows "sockaddr_to_addr sa = Some (sa_addr sa)" "length (sa_addr sa) = 4"
  using assms by (cases sa; simp add: ss_wf_def sa_addr_def)+

lemma sockaddr_to_addr_join4:
  "sockaddr_to_addr (AF_INET6 bs) =
     Some (map (\<lambda>i. join4 (bs ! (i * 4)) (bs ! (i * 4 + 1)) (bs ! (i * 4 + 2)) (bs ! (i * 4 + 3))) [0..<4])"
  by (simp add: join4_def)

lemma inet6_inj:
  assumes "length bs = 16" "length cs = 16" "sockaddr_to_addr (AF_INET6 bs) = sockaddr_to_addr (AF_INET6 cs)"
  shows "bs = cs"
proof (rule nth_equalityI)
  fix n assume n: "n < length bs"
  have "\<forall>i<4. bs ! (i * 4) = cs ! (i * 4) \<and> bs ! (i * 4 + 1) = cs ! (i * 4 + 1) \<and>
      bs ! (i * 4 + 2) = cs ! (i * 4 + 2) \<and> bs ! (i * 4 + 3) = cs ! (i * 4 + 3)"
    using assms(3) unfolding sockaddr_to_addr_join4 by (simp only: option.inject map_eq_conv join4_inj set_upt) auto
  moreover have "n div 4 < 4" using n assms(1) by (simp add: div_less_iff_less_mult)
  moreover have "n = n div 4 * 4 \<or> n = n div 4 * 4 + 1 \<or> n = n div 4 * 4 + 2 \<or> n = n div 4 * 4 + 3"
    by linarith
  ultimately show "bs ! n = cs ! n" by metis
qed (simp add: assms)

lemma sa_addr_inj:
  assumes "ss_wf a" "ss_wf b" "ss_family a = ss_family b"
  shows "sa_addr a = sa_addr b \<longleftrightarrow> a = b"
proof (cases a; cases b)
  fix bs cs assume ab: "a = AF_INET6 bs" "b = AF_INET6 cs"
  have "a = b" if "sa_addr a = sa_addr b"
  proof -
    have "sockaddr_to_addr (AF_INET6 bs) = sockaddr_to_addr (AF_INET6 cs)"
      using sockaddr_to_addr_wf(1) [OF assms(1)] sockaddr_to_addr_wf(1) [OF assms(2)] that unfolding ab by simp
    then show ?thesis using assms(1,2) inet6_inj [of bs cs] unfolding ab by (simp add: ss_wf_def)
  qed
  then show ?thesis by blast
qed (use assms in \<open>auto simp: sa_addr_def ss_wf_def\<close>)

section \<open>The addresses of a set\<close>

definition aset_ok :: "addrset \<Rightarrow> bool" where
  "aset_ok aset \<longleftrightarrow> trie_ok (trie4 aset) \<and> trie_ok (trie6 aset) \<and>
     (\<forall>e\<in>set (elems aset). length e = 4 \<and> (\<forall>v\<in>set e. bv_ok v))"

lemma addrset_new_ok: "aset_ok addrset_new"
  by (simp add: aset_ok_def addrset_new_def zero_trie_ok)

lemma trie_match_set: "ss_wf sa \<Longrightarrow> trie_match t sa \<longleftrightarrow> sa_addr sa \<in> trie_set t"
  by (simp add: trie_match_def sockaddr_to_addr_wf trie_set_def)

lemma addrset_new_empty: "ss_wf sa \<Longrightarrow> \<not> addrset_contains addrset_new sa"
  by (simp add: addrset_contains_def addrset_new_def af_trie_def trie_match_set zero_trie_ok)

lemma ss_family_wf: "ss_wf sa \<Longrightarrow> ss_family sa = af_inet \<or> ss_family sa = af_inet6"
  by (cases sa) (auto simp: ss_wf_def)

text \<open>The width of an address, and whether two addresses agree on their first bits.\<close>

definition addr_offset :: "sockaddr_storage \<Rightarrow> nat" where
  "addr_offset sa = (if ss_family sa = af_inet then 96 else 0)"

definition in_net :: "sockaddr_storage \<Rightarrow> nat \<Rightarrow> sockaddr_storage \<Rightarrow> bool" where
  "in_net net k sa \<longleftrightarrow> ss_family sa = ss_family net \<and>
     (\<forall>i<k. abit (sa_addr sa) (addr_offset net + i) = abit (sa_addr net) (addr_offset net + i))"

definition width :: "sockaddr_storage \<Rightarrow> nat" where
  "width sa = 128 - addr_offset sa"

lemma in_net_agree:
  assumes "ss_wf net" "ss_wf sa" "ss_family sa = ss_family net"
  shows "in_net net k sa \<longleftrightarrow> agree (addr_offset net + k) (sa_addr net) (sa_addr sa)"
proof -
  have low: "abit (sa_addr net) n = abit (sa_addr sa) n" if "n < addr_offset net" for n
  proof (cases net; cases sa)
    fix x y assume "net = AF_INET x" "sa = AF_INET y"
    moreover have "n div 32 < 3" using that by (auto simp: addr_offset_def div_less_iff_less_mult split: if_splits)
    then have "n div 32 = 0 \<or> n div 32 = 1 \<or> n div 32 = 2" by linarith
    ultimately show ?thesis by (auto simp: sa_addr_def abit_def)
  qed (use assms that in \<open>auto simp: addr_offset_def ss_wf_def split: if_splits\<close>)
  show ?thesis
  proof
    assume n: "in_net net k sa"
    show "agree (addr_offset net + k) (sa_addr net) (sa_addr sa)"
      unfolding agree_def
    proof (intro allI impI)
      fix j assume j: "j < addr_offset net + k"
      show "abit (sa_addr net) j = abit (sa_addr sa) j"
      proof (cases "j < addr_offset net")
        case False
        then show ?thesis using n j unfolding in_net_def by (metis add_less_cancel_left le_add_diff_inverse not_less)
      qed (rule low)
    qed
  qed (use assms(3) in \<open>simp add: in_net_def agree_def\<close>)
qed

lemma in_net_host: "ss_wf a \<Longrightarrow> ss_wf b \<Longrightarrow> in_net a (width a) b \<longleftrightarrow> a = b"
proof -
  assume wf: "ss_wf a" "ss_wf b"
  have "addr_offset a + width a = 128" by (simp add: width_def addr_offset_def)
  then show ?thesis
    using wf in_net_agree [of a b "width a"] sa_addr_inj [of a b] agree_128 [of "sa_addr a" "sa_addr b"] sockaddr_to_addr_wf
    by (cases "ss_family b = ss_family a") (auto simp: in_net_def)
qed

lemma join4_surj: "\<exists>a b c d. w = join4 a b c d"
proof -
  have "unat (join4 (ucast (drop_bit 24 w)) (ucast (drop_bit 16 w)) (ucast (drop_bit 8 w)) (ucast w)) = unat w"
  proof -
    have u: "unat (ucast (drop_bit n w) :: u8) = unat w div 2 ^ n mod 256" for n
      by (simp add: unsigned_ucast_eq take_bit_eq_mod unat_drop_bit drop_bit_eq_div flip: unat_drop_bit)
    have "unat (ucast w :: u8) = unat w mod 256" using u [of 0] by simp
    moreover have "unat w < 256 * 2 ^ 24" using unsigned_less [of w, where ?'a = nat] by simp
    then have "unat w div 2 ^ 24 < 256" by (simp add: div_less_iff_less_mult)
    moreover have "x div 2 ^ 24 mod 256 * 2 ^ 24 + x div 2 ^ 16 mod 256 * 2 ^ 16 + x div 2 ^ 8 mod 256 * 2 ^ 8 + x mod 256 = x"
      if "x div 2 ^ 24 < 256" for x :: nat
    proof -
      define y z v where "y = x div 256" and "z = y div 256" and "v = z div 256"
      have e: "x div 2 ^ 8 = y" "x div 2 ^ 16 = z" "x div 2 ^ 24 = v"
        by (simp_all add: y_def z_def v_def div_mult2_eq [symmetric])
      have "x = y * 256 + x mod 256" "y = z * 256 + y mod 256" "z = v * 256 + z mod 256"
        unfolding y_def z_def v_def by simp_all
      moreover have "x = y * 256 + a \<Longrightarrow> y = z * 256 + b \<Longrightarrow> z = v * 256 + c \<Longrightarrow>
          v * 2 ^ 24 + c * 2 ^ 16 + b * 2 ^ 8 + a = x" for a b c by simp
      ultimately have "v * 2 ^ 24 + z mod 256 * 2 ^ 16 + y mod 256 * 2 ^ 8 + x mod 256 = x" by blast
      moreover have "v mod 256 = v" using that e by simp
      ultimately show ?thesis unfolding e by simp
    qed
    ultimately show ?thesis by (simp add: unat_join4 u)
  qed
  then show ?thesis by (metis word_unat_eq_iff)
qed

lemma sa_addr_surj:
  assumes "ss_wf net" "length x = 4" "agree (addr_offset net) (sa_addr net) x"
  shows "\<exists>sa. ss_wf sa \<and> ss_family sa = ss_family net \<and> sa_addr sa = x"
proof -
  obtain x0 x1 x2 x3 where x: "x = [x0, x1, x2, x3]" using assms(2) by (rule addr4_cases)
  show ?thesis
  proof (cases net)
    case (AF_INET y)
    then have "agree 96 [0, 0, 0xffff, ntohl y] [x0, x1, x2, x3]"
      using assms(3) by (simp add: addr_offset_def sa_addr_def x)
    then have w: "wagree 32 0 x0" "wagree 32 0 x1" "wagree 32 0xffff x2" by (simp_all add: agree4)
    have e: "a = b" if "wagree 32 a b" for a b
    proof (rule bit_word_eqI)
      fix n assume "n < LENGTH(32)"
      then show "bit a n = bit b n" using that [unfolded wagree_def, rule_format, of "31 - n"] by simp
    qed
    have "sa_addr (AF_INET (ntohl x3)) = x"
      using e [OF w(1)] e [OF w(2)] e [OF w(3)] by (simp add: sa_addr_def x)
    then show ?thesis using AF_INET by (intro exI [of _ "AF_INET (ntohl x3)"]) (simp add: ss_wf_def)
  next
    case (AF_INET6 bs)
    obtain a0 b0 c0 d0 where w0: "x0 = join4 a0 b0 c0 d0" using join4_surj by blast
    obtain a1 b1 c1 d1 where w1: "x1 = join4 a1 b1 c1 d1" using join4_surj by blast
    obtain a2 b2 c2 d2 where w2: "x2 = join4 a2 b2 c2 d2" using join4_surj by blast
    obtain a3 b3 c3 d3 where w3: "x3 = join4 a3 b3 c3 d3" using join4_surj by blast
    let ?bs = "[a0, b0, c0, d0, a1, b1, c1, d1, a2, b2, c2, d2, a3, b3, c3, d3]"
    have "[0..<4] = [0, 1, 2, 3]" by (simp add: upt_rec)
    then have "sa_addr (AF_INET6 ?bs) = x"
      unfolding sa_addr_def sockaddr_to_addr_join4 x w0 w1 w2 w3 by simp
    then show ?thesis using AF_INET6 by (intro exI [of _ "AF_INET6 ?bs"]) (simp add: ss_wf_def)
  qed (use assms(1) in \<open>simp add: ss_wf_def\<close>)
qed

text \<open>The prefix length a number of netmask bits stands for; a negative number is a host.\<close>

definition netmask_len :: "sockaddr_storage \<Rightarrow> int \<Rightarrow> nat" where
  "netmask_len sa bits = (if bits < 0 then width sa else nat bits)"

lemma trie_insert_sa:
  assumes "trie_ok t" "ss_wf sa" "bits \<le> int (width sa)"
  shows "\<exists>t'. trie_insert t sa bits = Some t' \<and> trie_ok t' \<and>
    inserts (sa_addr sa) (addr_offset sa + netmask_len sa bits) (trie_set t) (trie_set t')"
proof -
  let ?k = "addr_offset sa + netmask_len sa bits"
  have k: "?k \<le> 128" using assms(3) by (auto simp: netmask_len_def width_def addr_offset_def)
  have "sockaddr_to_mask sa bits = Some (bits_to_mask ?k)"
    using assms(2) by (cases sa) (auto simp: sockaddr_to_mask_def netmask_len_def width_def addr_offset_def ss_wf_def
      nat_add_distrib add.commute)
  then have "trie_insert t sa bits = trie_insert_addr t (sa_addr sa) (pmask ?k)"
    using k by (simp add: trie_insert_def sockaddr_to_addr_wf [OF assms(2)] bits_to_mask_pmask)
  then show ?thesis using trie_insert_addr_ok [OF assms(1) sockaddr_to_addr_wf(2) [OF assms(2)] k] by simp
qed

text \<open>What adding the network of the first \<open>k\<close> bits of \<open>net\<close> does to a set.\<close>

definition added :: "sockaddr_storage \<Rightarrow> nat \<Rightarrow> addrset \<Rightarrow> addrset \<Rightarrow> bool" where
  "added net k aset aset' \<longleftrightarrow>
     (\<forall>sa. ss_wf sa \<longrightarrow> addrset_contains aset sa \<longrightarrow> addrset_contains aset' sa) \<and>
     (\<forall>sa. ss_wf sa \<longrightarrow> addrset_contains aset' sa \<longrightarrow> addrset_contains aset sa \<or> in_net net k sa) \<and>
     addrset_contains aset' net \<and>
     ((\<forall>sa. ss_wf sa \<and> in_net net k sa \<longrightarrow> \<not> addrset_contains aset sa) \<longrightarrow>
      (\<forall>sa. ss_wf sa \<and> in_net net k sa \<longrightarrow> addrset_contains aset' sa))"

lemma contains_set_af_trie:
  assumes "ss_wf sa" "ss_wf net"
  shows "addrset_contains (set_af_trie aset (ss_family net) t) sa \<longleftrightarrow>
    (if ss_family sa = ss_family net
     then sa_addr sa \<in> trie_set t \<or>
       ss_family sa = af_inet \<and> list_ex (\<lambda>elem. addrset_elem_match elem sa) (elems aset)
     else addrset_contains aset sa)"
  using ss_family_wf [OF assms(1)] ss_family_wf [OF assms(2)]
  by (auto simp: addrset_contains_def set_af_trie_def af_trie_def trie_match_set [OF assms(1)])

lemma contains_af_trie:
  assumes "ss_wf sa"
  shows "addrset_contains aset sa \<longleftrightarrow> sa_addr sa \<in> trie_set (af_trie aset (ss_family sa)) \<or>
    ss_family sa = af_inet \<and> list_ex (\<lambda>elem. addrset_elem_match elem sa) (elems aset)"
  by (simp add: addrset_contains_def trie_match_set [OF assms])

lemma insert_net:
  assumes ok: "aset_ok aset" and net: "ss_wf net" and bits: "bits \<le> int (width net)"
  shows "\<exists>t'. trie_insert (af_trie aset (ss_family net)) net bits = Some t' \<and>
    aset_ok (set_af_trie aset (ss_family net) t') \<and>
    added net (netmask_len net bits) aset (set_af_trie aset (ss_family net) t')"
proof -
  let ?t = "af_trie aset (ss_family net)" and ?k = "netmask_len net bits"
  have "trie_ok ?t" using ok by (simp add: aset_ok_def af_trie_def)
  from trie_insert_sa [OF this net bits] obtain t' where t': "trie_insert ?t net bits = Some t'" "trie_ok t'"
    and ins: "inserts (sa_addr net) (addr_offset net + ?k) (trie_set ?t) (trie_set t')" by blast
  have fam: "sa_addr sa \<in> prefix_set (sa_addr net) (addr_offset net + ?k) \<longleftrightarrow> in_net net ?k sa"
    if "ss_wf sa" "ss_family sa = ss_family net" for sa
    using that sockaddr_to_addr_wf(2) [OF that(1)] in_net_agree [OF net that] by (simp add: prefix_set_def)
  have disj: "trie_set ?t \<inter> prefix_set (sa_addr net) (addr_offset net + ?k) = {}"
    if d: "\<And>sa. ss_wf sa \<Longrightarrow> in_net net ?k sa \<Longrightarrow> \<not> addrset_contains aset sa"
  proof (rule ccontr)
    assume "\<not> ?thesis"
    then obtain x where x: "x \<in> trie_set ?t" "x \<in> prefix_set (sa_addr net) (addr_offset net + ?k)" by blast
    then have "length x = 4" "agree (addr_offset net) (sa_addr net) x"
      by (auto simp: prefix_set_def intro: agree_mono)
    from sa_addr_surj [OF net this] obtain sa where sa: "ss_wf sa" "ss_family sa = ss_family net" "sa_addr sa = x" by blast
    have "in_net net ?k sa" using fam [OF sa(1,2)] x(2) sa(3) by simp
    then show False using d [OF sa(1)] x(1) sa contains_af_trie [OF sa(1), of aset] by simp
  qed
  have "aset_ok (set_af_trie aset (ss_family net) t')" using ok t'(2) by (simp add: aset_ok_def set_af_trie_def)
  moreover have "added net ?k aset (set_af_trie aset (ss_family net) t')"
  proof -
    let ?a = "set_af_trie aset (ss_family net) t'"
    have c: "addrset_contains ?a sa \<longleftrightarrow> addrset_contains aset sa \<or>
        ss_family sa = ss_family net \<and> sa_addr sa \<in> trie_set t'" if "ss_wf sa" for sa
      using that ins contains_set_af_trie [OF that net] contains_af_trie [OF that]
      unfolding inserts_def by auto
    show ?thesis
      unfolding added_def
    proof (intro conjI allI impI)
      fix sa assume sa: "ss_wf sa" "addrset_contains ?a sa"
      then show "addrset_contains aset sa \<or> in_net net ?k sa"
        using c [OF sa(1)] ins fam [OF sa(1)] contains_af_trie [OF sa(1), of aset]
        unfolding inserts_def by fastforce
    next
      show "addrset_contains ?a net" using c [OF net] ins by (simp add: inserts_def)
    next
      fix sa assume d: "\<forall>sa. ss_wf sa \<and> in_net net ?k sa \<longrightarrow> \<not> addrset_contains aset sa" and sa: "ss_wf sa \<and> in_net net ?k sa"
      then have "ss_family sa = ss_family net" by (simp add: in_net_def)
      moreover have "prefix_set (sa_addr net) (addr_offset net + ?k) \<subseteq> trie_set t'"
        using disj d ins unfolding inserts_def by blast
      ultimately show "addrset_contains ?a sa" using c sa fam by auto
    qed (use c in auto)
  qed
  ultimately show ?thesis using t'(1) by blast
qed

lemma added_host:
  assumes "added net (width net) aset aset'" "ss_wf net" "ss_wf sa"
  shows "addrset_contains aset' sa \<longleftrightarrow> addrset_contains aset sa \<or> sa = net"
  using assms in_net_host [OF assms(2,3)] unfolding added_def by blast

section \<open>Octets\<close>

definition octet :: "nat \<Rightarrow> u32 \<Rightarrow> u8" where
  "octet i w = ucast (drop_bit (24 - 8 * i) w)"

lemma bit_octet: "i < 4 \<Longrightarrow> bit (octet i w) n \<longleftrightarrow> n < 8 \<and> bit w (24 - 8 * i + n)"
  by (auto simp: octet_def bit_simps)

lemma octet_parts:
  "ucast (drop_bit 24 (w AND 0xFF000000)) = octet 0 w" "ucast (drop_bit 16 (w AND 0xFF0000)) = octet 1 w"
  "ucast (drop_bit 8 (w AND 0xFF00)) = octet 2 w" "ucast (w AND 0xFF) = octet 3 w"
proof -
  have m: "(0xFF000000::u32) = push_bit 24 (mask 8)" "(0xFF0000::u32) = push_bit 16 (mask 8)"
    by (simp_all add: mask_eq_exp_minus_1)
  show "ucast (drop_bit 24 (w AND 0xFF000000)) = octet 0 w" "ucast (drop_bit 16 (w AND 0xFF0000)) = octet 1 w"
    "ucast (drop_bit 8 (w AND 0xFF00)) = octet 2 w" "ucast (w AND 0xFF) = octet 3 w"
    unfolding m byte_masks octet_def
    by (rule bit_word_eqI; auto simp: bit_ucast_iff bit_and_iff bit_push_bit_iff bit_drop_bit_eq bit_mask_iff)+
qed

lemma in_addr_to_octets_eq: "in_addr_to_octets s = map (\<lambda>i. octet i (ntohl s)) [0, 1, 2, 3]"
  using octet_parts by (simp add: in_addr_to_octets_def Let_def)

lemma octets_decide:
  fixes n :: nat
  assumes "\<And>i n. i < 4 \<Longrightarrow> n < 8 \<Longrightarrow> P (24 - 8 * i + n)" "n < 32"
  shows "P n"
proof -
  have "n div 8 \<le> 3" using assms(2) by linarith
  then have "n = 24 - 8 * (3 - n div 8) + n mod 8" by (simp add: diff_mult_distrib2)
  moreover have "3 - n div 8 < 4" "n mod 8 < 8" by simp_all
  ultimately show ?thesis using assms(1) by metis
qed

lemma octets_agree:
  assumes "k \<le> 32"
  shows "(\<forall>i<4. octet i x AND octet i (pm k) = octet i y AND octet i (pm k)) \<longleftrightarrow> wagree k x y"
proof -
  have "(\<forall>i<4. octet i x AND octet i (pm k) = octet i y AND octet i (pm k)) \<longleftrightarrow>
      (\<forall>i<4. \<forall>n<8. bit (pm k) (24 - 8 * i + n) \<longrightarrow> bit x (24 - 8 * i + n) = bit y (24 - 8 * i + n))"
    by (auto simp: bit_eq_iff bit_and_iff bit_octet)
  also have "\<dots> \<longleftrightarrow> (\<forall>n<32. bit (pm k) n \<longrightarrow> bit x n = bit y n)"
    (is "?l \<longleftrightarrow> ?r")
  proof
    assume l: ?l
    show ?r
    proof (intro allI impI)
      fix n :: nat assume "n < 32" "bit (pm k) n"
      then show "bit x n = bit y n"
        using octets_decide [of "\<lambda>n. bit (pm k) n \<longrightarrow> bit x n = bit y n" n] l by blast
    qed
  next
    assume ?r
    then show ?l by auto
  qed
  also have "\<dots> \<longleftrightarrow> wagree k x y"
  proof
    assume r: "\<forall>n<32. bit (pm k) n \<longrightarrow> bit x n = bit y n"
    show "wagree k x y" unfolding wagree_def using r assms by (auto simp: bit_pm)
  next
    assume w: "wagree k x y"
    show "\<forall>n<32. bit (pm k) n \<longrightarrow> bit x n = bit y n"
    proof (intro allI impI)
      fix n :: nat assume "n < 32" "bit (pm k) n"
      then show "bit x n = bit y n" using w [unfolded wagree_def, rule_format, of "31 - n"] assms by (simp add: bit_pm)
    qed
  qed
  finally show ?thesis .
qed

lemma word_of_octets: "\<exists>w. \<forall>i<4. octet i w = f i"
proof -
  have "\<exists>w::u32. \<forall>n<32. bit w n = bit (f (3 - n div 8)) (n mod 8)" by (rule word_of_bits)
  then obtain w :: u32 where w: "\<forall>n<32. bit w n = bit (f (3 - n div 8)) (n mod 8)" by blast
  have "octet i w = f i" if i: "i < 4" for i
  proof (rule bit_word_eqI)
    fix n assume "n < LENGTH(8)"
    then have n: "n < 8" by simp
    have "24 - 8 * i + n = 8 * (3 - i) + n" using i by (simp add: diff_mult_distrib2)
    moreover have "(8 * (3 - i) + n) div 8 = 3 - i" "(8 * (3 - i) + n) mod 8 = n"
      using n by (simp_all only: div_mult_self4 mod_mult_self4) simp_all
    ultimately have "(24 - 8 * i + n) div 8 = 3 - i" "(24 - 8 * i + n) mod 8 = n" by simp_all
    moreover have "24 - 8 * i + n < 32" "3 - (3 - i) = i" using i n by simp_all
    ultimately show "bit (octet i w) n = bit (f i) n" using i n w by (simp add: bit_octet)
  qed
  then show ?thesis by blast
qed

lemma in_net_inet: "k \<le> 32 \<Longrightarrow> in_net (AF_INET s') k (AF_INET s) \<longleftrightarrow> wagree k (ntohl s) (ntohl s')"
proof -
  assume k: "k \<le> 32"
  have d: "(96 + i) div 32 = 3" if "i < 32" for i :: nat using that by simp
  have "(96 + i) mod 32 = i" if "i < 32" for i :: nat
    using d [OF that] minus_mult_div_eq_mod [of "96 + i" 32] by simp
  with d show ?thesis using k by (auto simp: in_net_def addr_offset_def sa_addr_def abit_def wagree_def)
qed

lemma netmask_elem_match:
  assumes elem: "length elem = 4" "\<forall>i<4. bv_ok (elem ! i)" and k: "bits \<le> 32"
  defines "e' \<equiv> apply_ipv4_netmask_bits elem bits" and "k \<equiv> (if bits < 0 then 32 else nat bits)"
  shows "length e' = 4 \<and> (\<forall>v\<in>set e'. bv_ok v)"
    and "addrset_elem_match e' (AF_INET s) \<longleftrightarrow>
      (\<exists>s'. addrset_elem_match elem (AF_INET s') \<and> in_net (AF_INET s') k (AF_INET s))"
proof -
  have k32: "k \<le> 32" using k by (auto simp: k_def)
  have "(if (if bits < 0 then 32 else bits) = 0 then htonl 0
      else htonl (push_bit (nat (32 - (if bits < 0 then 32 else bits))) 0xFFFFFFFF)) = htonl (pm k)"
  proof -
    have "push_bit (32 - j) (0xFFFFFFFF::u32) = pm j" if "j \<le> 32" for j
    proof -
      have "(0xFFFFFFFF::u32) = - 1" by simp
      then show ?thesis by (simp only:) (rule bit_word_eqI, use that in \<open>auto simp: bit_pm bit_simps\<close>)
    qed
    moreover have "nat (32 - bits) = 32 - nat bits" if "0 \<le> bits" using that k by simp
    ultimately show ?thesis using k
      by (auto simp: k_def U32_ALL_BITS_def)
  qed
  then have e': "e' = map (\<lambda>i. apply_ipv4_netmask_octet (elem ! i) (octet i (pm k))) [0, 1, 2, 3]"
    using k unfolding e'_def apply_ipv4_netmask_bits_def apply_ipv4_netmask_def Let_def
    by (simp only: not_less [symmetric] if_False simp_thms ntohl_ntohl octet_parts list.map)
  show "length e' = 4 \<and> (\<forall>v\<in>set e'. bv_ok v)" using elem(2) by (simp add: e' netmask_octet_ok(1))
  have four: "(\<forall>i<4. P i) \<longleftrightarrow> P 0 \<and> P 1 \<and> P 2 \<and> P (3::nat)" for P
  proof -
    have "i = 0 \<or> i = 1 \<or> i = 2 \<or> i = 3" if "i < 4" for i :: nat using that by linarith
    then show ?thesis by auto
  qed
  have em: "addrset_elem_match el (AF_INET s') \<longleftrightarrow> (\<forall>i<4. BIT_IS_SET (el ! i) (unat (octet i (ntohl s'))))" for el s'
    unfolding four by (simp add: addrset_elem_match_def in_addr_to_octets_eq Let_def)
  have "addrset_elem_match e' (AF_INET s) \<longleftrightarrow> (\<forall>i<4. \<exists>y. BIT_IS_SET (elem ! i) (unat y) \<and>
      octet i (ntohl s) AND octet i (pm k) = y AND octet i (pm k))"
    unfolding em four using elem(2) by (simp add: e' netmask_octet_ok(2))
  also have "\<dots> \<longleftrightarrow> (\<exists>f. \<forall>i<4. BIT_IS_SET (elem ! i) (unat (f i)) \<and>
      octet i (ntohl s) AND octet i (pm k) = f i AND octet i (pm k))" by metis
  also have "\<dots> \<longleftrightarrow> (\<exists>s'. addrset_elem_match elem (AF_INET s') \<and> in_net (AF_INET s') k (AF_INET s))"
    (is "?l \<longleftrightarrow> ?r")
  proof
    assume ?l
    then obtain f where f: "\<forall>i<4. BIT_IS_SET (elem ! i) (unat (f i)) \<and>
      octet i (ntohl s) AND octet i (pm k) = f i AND octet i (pm k)" by blast
    obtain w where w: "\<forall>i<4. octet i w = f i" using word_of_octets by blast
    have "wagree k (ntohl s) w" unfolding octets_agree [OF k32, symmetric] using f w by simp
    then have "addrset_elem_match elem (AF_INET (ntohl w)) \<and> in_net (AF_INET (ntohl w)) k (AF_INET s)"
      using f w by (simp add: em in_net_inet [OF k32])
    then show ?r by blast
  next
    assume ?r
    then obtain s' where s': "addrset_elem_match elem (AF_INET s')" "wagree k (ntohl s) (ntohl s')"
      by (auto simp: in_net_inet [OF k32])
    then show ?l
      unfolding em octets_agree [OF k32, symmetric] by (intro exI [of _ "\<lambda>i. octet i (ntohl s')"]) simp
  qed
  finally show "addrset_elem_match e' (AF_INET s) \<longleftrightarrow>
      (\<exists>s'. addrset_elem_match elem (AF_INET s') \<and> in_net (AF_INET s') k (AF_INET s))" .
qed

section \<open>Sets of hosts\<close>

text \<open>A run of fallible operations.\<close>

primrec ofold :: "('a \<Rightarrow> 's \<Rightarrow> 's option) \<Rightarrow> 'a list \<Rightarrow> 's \<Rightarrow> 's option" where
  "ofold f [] s = Some s"
| "ofold f (x # xs) s = (case f x s of None \<Rightarrow> None | Some s' \<Rightarrow> ofold f xs s')"

text \<open>What the clients of an address set rely on when they add single hosts.\<close>

locale host_set =
  fixes ok :: "'s \<Rightarrow> bool" and valid :: "'a \<Rightarrow> bool" and mem :: "'s \<Rightarrow> 'a \<Rightarrow> bool"
    and add :: "'a \<Rightarrow> 's \<Rightarrow> 's option"
  assumes add_exact: "ok s \<Longrightarrow> valid a \<Longrightarrow>
    \<exists>s'. add a s = Some s' \<and> ok s' \<and> (\<forall>b. valid b \<longrightarrow> mem s' b = (mem s b \<or> b = a))"
begin

lemma add_all_exact:
  assumes "ok s" "list_all valid as"
  shows "\<exists>s'. ofold add as s = Some s' \<and> ok s' \<and> (\<forall>b. valid b \<longrightarrow> mem s' b = (mem s b \<or> b \<in> set as))"
  using assms
proof (induction as arbitrary: s)
  case (Cons a as)
  from Cons.prems add_exact [of s a] obtain s1 where s1: "add a s = Some s1" "ok s1"
    "\<forall>b. valid b \<longrightarrow> mem s1 b = (mem s b \<or> b = a)" by auto
  from Cons.IH [OF s1(2)] Cons.prems obtain s2 where "ofold add as s1 = Some s2" "ok s2"
    "\<forall>b. valid b \<longrightarrow> mem s2 b = (mem s1 b \<or> b \<in> set as)" by auto
  then show ?case using s1 by auto
qed simp

end

definition add_host :: "sockaddr_storage \<Rightarrow> addrset \<Rightarrow> addrset option" where
  "add_host sa aset =
     map_option (set_af_trie aset (ss_family sa)) (trie_insert (af_trie aset (ss_family sa)) sa (-1))"

interpretation hosts: host_set aset_ok ss_wf addrset_contains add_host
proof
  fix aset sa assume "aset_ok aset" "ss_wf sa"
  then obtain t where t: "trie_insert (af_trie aset (ss_family sa)) sa (-1) = Some t"
    "aset_ok (set_af_trie aset (ss_family sa) t)" "added sa (width sa) aset (set_af_trie aset (ss_family sa) t)"
    using insert_net [of aset sa "-1"] by (auto simp: netmask_len_def)
  then show "\<exists>s'. add_host sa aset = Some s' \<and> aset_ok s' \<and>
      (\<forall>b. ss_wf b \<longrightarrow> addrset_contains s' b = (addrset_contains aset b \<or> b = sa))"
    using added_host [OF t(3) \<open>ss_wf sa\<close>] by (auto simp: add_host_def)
qed

section \<open>Specifications\<close>

lemma to_int_small: "-1 \<le> x \<Longrightarrow> x \<le> 128 \<Longrightarrow> to_int x = x"
  unfolding to_int_def by (rule signed_take_bit_int_eq_self) simp_all

lemma split_netmask_none: "CHR ''/'' \<notin> set spec \<Longrightarrow> split_netmask spec = Some (spec, -1)"
  using strchr_None_iff [of "CHR ''/''" spec] by (simp add: split_netmask_def)

lemma split_netmask_bits:
  assumes "CHR ''/'' \<notin> set host" "k \<le> 128"
  shows "split_netmask (host @ CHR ''/'' # dec k) = Some (host, int k)"
proof -
  have d: "dropWhile (\<lambda>x. x \<noteq> CHR ''/'') (host @ CHR ''/'' # dec k) = CHR ''/'' # dec k"
    "takeWhile (\<lambda>x. x \<noteq> CHR ''/'') (host @ CHR ''/'' # dec k) = host"
    using assms(1) by (induction host) auto
  have "parse_long (dec k) = (int k, [], False)"
    using parse_long_dec [of "[]" k] assms(2) by (simp add: LONG_MAX_def)
  then show ?thesis using d dec_not_Nil [of k] by (simp add: split_netmask_def strchr_def Let_def del: dec_not_Nil)
qed

text \<open>An entry of \<open>getaddrinfo\<close> for an address of a known family.\<close>

definition ai_ok :: "addrinfo \<Rightarrow> bool" where
  "ai_ok a \<longleftrightarrow> ss_wf (ai_addr a) \<and> ai_family a = ss_family (ai_addr a)"

lemma add_numeric_hosts:
  "list_all ai_ok addrs \<Longrightarrow>
   add_numeric aset (-1) addrs = map_option (\<lambda>s. (s, True)) (ofold add_host (map ai_addr addrs) aset)"
proof (induction addrs arbitrary: aset)
  case (Cons a addrs)
  then have "ai_family a = ss_family (ai_addr a)" by (simp add: ai_ok_def)
  then show ?case using Cons by (simp add: add_host_def to_int_small split: option.splits)
qed simp

lemma add_spec_hosts:
  assumes "aset_ok aset" "CHR ''/'' \<notin> set spec" "gai spec True af_unspec = (0, addrs)" "addrs \<noteq> []" "list_all ai_ok addrs"
  shows "\<exists>aset'. addrset_add_spec gai aset spec af dns = Some (aset', True) \<and> aset_ok aset' \<and>
    (\<forall>sa. ss_wf sa \<longrightarrow> addrset_contains aset' sa = (addrset_contains aset sa \<or> sa \<in> ai_addr ` set addrs))"
proof -
  have "list_all ss_wf (map ai_addr addrs)" using assms(5) by (auto simp: list_all_iff ai_ok_def)
  from hosts.add_all_exact [OF assms(1) this] add_numeric_hosts [OF assms(5), of aset] show ?thesis
    using assms(2-4) by (auto simp: addrset_add_spec_def split_netmask_none resolve_name_def)
qed

lemma add_spec_net:
  assumes "aset_ok aset" "CHR ''/'' \<notin> set host" "gai host True af_unspec = (0, [a])" "ai_ok a" "k \<le> width (ai_addr a)"
  shows "\<exists>aset'. addrset_add_spec gai aset (host @ CHR ''/'' # dec k) af dns = Some (aset', True) \<and>
    aset_ok aset' \<and> added (ai_addr a) k aset aset'"
proof -
  have a: "ss_wf (ai_addr a)" "ai_family a = ss_family (ai_addr a)" using assms(4) by (auto simp: ai_ok_def)
  have k: "k \<le> 128" "to_int (int k) = int k" using assms(5) by (simp_all add: width_def to_int_small)
  have "\<not> (ai_family a = af_inet \<and> int k > 32 \<or> ai_family a = af_inet6 \<and> int k > 128)"
    using assms(5) a(2) by (auto simp: width_def addr_offset_def)
  moreover obtain t where "trie_insert (af_trie aset (ss_family (ai_addr a))) (ai_addr a) (int k) = Some t"
    "aset_ok (set_af_trie aset (ss_family (ai_addr a)) t)" "added (ai_addr a) k aset (set_af_trie aset (ss_family (ai_addr a)) t)"
    using insert_net [OF assms(1) a(1), of "int k"] assms(5) by (auto simp: netmask_len_def)
  ultimately show ?thesis
    using assms(2,3) k a(2) by (simp add: addrset_add_spec_def split_netmask_bits resolve_name_def)
qed

text \<open>The spelling of a range specification has no slash.\<close>

lemma spec_text_no_slash: "CHR ''/'' \<notin> set (spec_text os)"
proof -
  have d: "CHR ''/'' \<notin> set (dec n)" for n
    using dec_digits [of n] by (auto simp: list_all_iff isdigit_def)
  have "CHR ''/'' \<notin> set (item_text it)" for it using d by (cases it) (auto split: option.splits)
  then have "CHR ''/'' \<notin> set (items_text its)" for its by (induction its rule: items_text.induct) auto
  then have "CHR ''/'' \<notin> set (octet_text o')" for o' by (cases o') auto
  then show ?thesis by (simp add: spec_text_def)
qed

definition in_ranges :: "octet_spec list \<Rightarrow> u32 \<Rightarrow> bool" where
  "in_ranges os s \<longleftrightarrow> (\<forall>i<4. unat (in_addr_to_octets s ! i) \<in> octet_values (os ! i))"

lemma add_elem:
  assumes "aset_ok aset" "spec_ok os" "bits \<le> 32"
  shows "\<exists>elem. parse_ipv4_ranges (spec_text os) = Some elem \<and>
    (let aset' = aset\<lparr>elems := apply_ipv4_netmask_bits elem bits # elems aset\<rparr>
     in aset_ok aset' \<and> (\<forall>sa. ss_wf sa \<longrightarrow> addrset_contains aset' sa =
          (addrset_contains aset sa \<or> (\<exists>s s'. sa = AF_INET s \<and> in_ranges os s' \<and>
            in_net (AF_INET s') (if bits < 0 then 32 else nat bits) sa))))"
proof -
  obtain elem where p: "parse_ipv4_ranges (spec_text os) = Some elem" and l: "length elem = 4"
    and e: "\<forall>i<4. bv_ok (elem ! i) \<and> (\<forall>m<256. BIT_IS_SET (elem ! i) m \<longleftrightarrow> m \<in> octet_values (os ! i))"
    using parse_ipv4_ranges_text [OF assms(2)] by blast
  have lt: "unat z < 256" for z :: u8 using unsigned_less [of z, where ?'a = nat] by simp
  have m: "addrset_elem_match elem (AF_INET s) \<longleftrightarrow> in_ranges os s" for s
  proof -
    have "(\<forall>i<4. P i) \<longleftrightarrow> P 0 \<and> P 1 \<and> P 2 \<and> P (3::nat)" for P
    proof -
      have "i = 0 \<or> i = 1 \<or> i = 2 \<or> i = 3" if "i < 4" for i :: nat using that by linarith
      then show ?thesis by auto
    qed
    then show ?thesis using e lt by (simp add: addrset_elem_match_def in_ranges_def Let_def)
  qed
  let ?e = "apply_ipv4_netmask_bits elem bits" and ?k = "if bits < 0 then 32 else nat bits"
  let ?a = "aset\<lparr>elems := ?e # elems aset\<rparr>"
  have "\<forall>i<4. bv_ok (elem ! i)" using e by blast
  note nm = netmask_elem_match [OF l this assms(3)]
  have "aset_ok ?a" using assms(1) nm(1) by (simp add: aset_ok_def)
  moreover have "addrset_contains ?a sa = (addrset_contains aset sa \<or> (\<exists>s s'. sa = AF_INET s \<and> in_ranges os s' \<and>
            in_net (AF_INET s') ?k sa))" if "ss_wf sa" for sa
  proof (cases sa)
    case (AF_INET s)
    then show ?thesis using nm(2) [of s] m by (auto simp: addrset_contains_def af_trie_def)
  qed (use that in \<open>auto simp: addrset_contains_def af_trie_def ss_wf_def\<close>)
  ultimately show ?thesis using p by (auto simp: Let_def)
qed

end
