(* ===== verification/Addrset_Props.thy ===== *)
theory Addrset_Props
  imports Addrset_Set
begin

text \<open>
  The whole-set operations (freeing, the test for full sets, merging), and the properties of the
  address sets.
\<close>

section \<open>Freeing a tree\<close>

fun trie_nodes :: "trie_node \<Rightarrow> trie_node list" where
  "trie_nodes (Trie_node a m one zero) = Trie_node a m one zero # trie_nodes zero @ trie_nodes one"
| "trie_nodes _ = []"

definition free_rest :: "trie_node list \<Rightarrow> trie_node list option" where
  "free_rest stack = (case stack of [] \<Rightarrow> Some [] | t # st \<Rightarrow> trie_free_loop st t)"

lemma trie_nodes_leaf: "\<not> is_node t \<Longrightarrow> trie_nodes t = []"
  by (cases t) (auto simp: is_node_def)

lemma trie_free_step:
  assumes "length stack \<le> 130"
  shows "trie_free_loop stack (Trie_node a m one zero) =
    map_option ((#) (Trie_node a m one zero))
      (if is_node zero then trie_free_loop (if is_node one then one # stack else stack) zero
       else free_rest (if is_node one then one # stack else stack))"
  using assms by (auto simp: free_rest_def Let_def split: list.splits)

declare trie_free_loop.simps(1) [simp del]

lemma trie_free_loop_nodes:
  assumes "trie_wf lo p t" "is_node t" "length stack \<le> lo"
  shows "trie_free_loop stack t = map_option ((@) (trie_nodes t)) (free_rest stack)"
  using assms
proof (induction t arbitrary: lo p stack)
  case (Trie_node a m one zero)
  then obtain k where k: "k \<le> 128" and m: "m = pmask k" by (auto simp: trie_wf.simps)
  have wf: "trie_wf (Suc k) ((abit a)(k := True)) one" "trie_wf (Suc k) ((abit a)(k := False)) zero"
    and lo: "lo \<le> k + 1" "is_node one \<or> is_node zero \<Longrightarrow> lo \<le> k \<and> k < 128"
    using Trie_node.prems(1) k unfolding m trie_wf_node [OF k] by (auto simp: is_node_def split: if_splits)
  have len: "length stack \<le> 130" using Trie_node.prems(3) lo(1) k by simp
  define st where "st = (if is_node one then one # stack else stack)"
  have st: "is_node one \<or> is_node zero \<Longrightarrow> length st \<le> Suc k"
    using lo(2) Trie_node.prems(3) by (auto simp: st_def)
  have one: "free_rest st = map_option ((@) (trie_nodes one)) (free_rest stack)"
  proof (cases "is_node one")
    case True
    then have "length stack \<le> Suc k" using lo(2) Trie_node.prems(3) by simp
    then show ?thesis using Trie_node.IH(1) [OF wf(1) True] True by (simp add: st_def free_rest_def)
  next
    case False
    then show ?thesis by (cases "free_rest stack") (simp_all add: st_def trie_nodes_leaf)
  qed
  have "trie_free_loop stack (Trie_node a m one zero) =
      map_option ((#) (Trie_node a m one zero)) (map_option ((@) (trie_nodes zero)) (free_rest st))"
  proof (cases "is_node zero")
    case True
    then show ?thesis using trie_free_step [OF len] Trie_node.IH(2) [OF wf(2) True] st by (simp add: st_def)
  next
    case False
    then show ?thesis
      using trie_free_step [OF len] by (cases "free_rest st") (simp_all add: st_def trie_nodes_leaf)
  qed
  then show ?case unfolding one by (cases "free_rest stack") simp_all
qed (simp_all add: is_node_def)

lemma trie_free_nodes: "trie_ok t \<Longrightarrow> trie_free t = Some (trie_nodes t)"
proof (cases t)
  case (Trie_node a m one zero)
  assume "trie_ok t"
  then have wf: "trie_wf 1 (\<lambda>_. True) one" "trie_wf 1 (\<lambda>_. False) zero" using Trie_node by simp_all
  have one: "free_rest (if is_node one then [one] else []) = Some (trie_nodes one)"
    using trie_free_loop_nodes [OF wf(1), of "[]"] by (simp add: free_rest_def trie_nodes_leaf)
  show ?thesis
    using trie_free_loop_nodes [OF wf(2), of "if is_node one then [one] else []"] one
    unfolding trie_free_def Trie_node by (subst trie_free_step) (auto simp: trie_nodes_leaf)
qed simp_all

section \<open>Sets that match everything\<close>

abbreviation mapped :: addr4 where "mapped \<equiv> [0, 0, 0xffff, 0]"

lemma pmask_word3: "k \<le> 128 \<Longrightarrow> pmask k ! 3 = 0 \<longleftrightarrow> k \<le> 96"
  by (auto simp: pmask_word min_def)

lemma pmask_word2_odd: "1 AND pmask k ! 2 \<noteq> 0 \<longleftrightarrow> 96 \<le> k"
proof -
  have "1 AND pmask k ! 2 \<noteq> 0 \<longleftrightarrow> bit (pmask k ! 2) 0" by (simp add: one_and_eq bit_0 odd_iff_mod_2_eq_one)
  then show ?thesis by (auto simp: pmask_word bit_pm)
qed

lemma matches_all_loop_sound:
  assumes "trie_wf lo p t" "matches_all_loop t mapped = Inl True \<or> matches_all_loop t mapped = Inr TRIE_NODE_TRUE"
    and "length x = 4" "agree 96 mapped x"
  shows "trie_match_below t x"
  using assms(1,2)
proof (induction t arbitrary: lo p)
  case (Trie_node a m one zero)
  then obtain k where k: "k \<le> 128" and m: "m = pmask k" by (auto simp: trie_wf.simps)
  have wf: "trie_wf (Suc k) ((abit a)(k := True)) one" "trie_wf (Suc k) ((abit a)(k := False)) zero"
    and len: "length a = 4" using Trie_node.prems(1) unfolding m trie_wf_node [OF k] by (auto simp: extends_def)
  note loop = Trie_node.prems(2) [unfolded m matches_all_loop.simps pmask_word2_odd]
  have g: "agree k a mapped" and k96: "k \<le> 96"
    using loop k len by (auto simp: addr_matches_pmask pmask_word3 split: if_splits)
  have gx: "agree k a x" using g agree_mono [OF assms(4) k96] by (rule agree_trans)
  show ?case
  proof (cases "k = 96")
    case True
    then have "one = TRIE_NODE_TRUE \<and> zero = TRIE_NODE_TRUE"
      using loop k len g by (auto simp: addr_matches_pmask pmask_word3 split: if_splits)
    then show ?thesis using gx k len assms(3) by (simp add: m trie_match_node)
  next
    case False
    then have b: "abit x k = abit mapped k" using assms(4) k96 by (simp add: agree_def)
    have "matches_all_loop (if abit mapped k then one else zero) mapped = Inl True \<or>
        matches_all_loop (if abit mapped k then one else zero) mapped = Inr TRIE_NODE_TRUE"
      using loop k len g False k96
      by (auto simp: addr_matches_pmask pmask_word3 addr_next_bit_is_one_pmask split: if_splits)
    then show ?thesis
      using Trie_node.IH(1) [OF wf(1)] Trie_node.IH(2) [OF wf(2)] gx k len assms(3) b
      by (auto simp: m trie_match_node)
  qed
qed simp_all

lemma trie_matches_all_sound:
  assumes "trie_ok t" "trie_matches_all t af = Some True" "length x = 4" "af = af_inet \<longrightarrow> agree 96 mapped x"
  shows "x \<in> trie_set t"
proof -
  obtain one zero where t: "t = Trie_node [0, 0, 0, 0] (pmask 0) one zero"
    and wf: "trie_wf 1 (\<lambda>_. True) one" "trie_wf 1 (\<lambda>_. False) zero" using assms(1) by (cases t) auto
  have am: "addr_matches (pmask 0) [0, 0, 0, 0] mapped" by (simp add: addr_matches_pmask)
  have stop: "matches_all_loop u mapped = Inr (Trie_node a m o' z) \<Longrightarrow> \<not> addr_matches m a mapped" for u a m o' z
    by (induction u) (auto split: if_splits)
  show ?thesis
  proof (cases "af = af_inet")
    case True
    have "matches_all_loop t mapped = Inl True \<or> matches_all_loop t mapped = Inr TRIE_NODE_TRUE"
      using assms(2) True stop
      by (auto simp: trie_matches_all_def Let_def split: sum.splits trie_node.splits)
    moreover have "matches_all_loop t mapped = matches_all_loop zero mapped"
      using am by (simp add: t pmask_word2_odd pmask_word3 addr_next_bit_is_one_pmask abit_def)
    ultimately have "trie_match_below zero x"
      using matches_all_loop_sound [OF wf(2) _ assms(3)] assms(4) True by auto
    moreover have "\<not> bit (x ! 0) 31"
      using assms(4) True by (auto simp: agree_def abit_def dest: spec [of _ 0])
    ultimately show ?thesis using assms(3) by (simp add: t trie_set_def top_bit_eq)
  next
    case False
    then have "one = TRIE_NODE_TRUE \<and> zero = TRIE_NODE_TRUE"
      using assms(2) by (auto simp: trie_matches_all_def t split: if_splits)
    then show ?thesis using assms(3) by (simp add: t trie_set_def)
  qed
qed

lemma octet_bytes_full: "list_all (\<lambda>b. b = 0xff) (bv_bytes w) \<Longrightarrow> n < 64 \<Longrightarrow> bit w n"
proof -
  assume a: "list_all (\<lambda>b. b = 0xff) (bv_bytes w)" and n: "n < 64"
  have "n div 8 < 8" using n by (simp add: div_less_iff_less_mult)
  then have "ucast (drop_bit (8 * (n div 8)) w) = (0xff :: u8)" using a by (simp add: bv_bytes_def list_all_iff)
  moreover have "(0xff :: u8) = - 1" by simp
  ultimately have "bit (ucast (drop_bit (8 * (n div 8)) w) :: u8) (n mod 8)" by simp
  then show ?thesis by (simp add: bit_simps)
qed

lemma full_elem_match:
  assumes "length e = 4" "\<forall>v\<in>set e. bv_ok v" "list_all (\<lambda>b. b = 0xff) (concat (map bv_bytes (concat e)))"
  shows "addrset_elem_match e (AF_INET s)"
proof -
  have "BIT_IS_SET (e ! i) (unat (z::u8))" if "i < 4" for i z
  proof -
    have z: "unat z < 256" using unsigned_less [of z, where ?'a = nat] by simp
    have "unat z div 64 < 4" using z by (simp add: div_less_iff_less_mult)
    moreover have ei: "e ! i \<in> set e" using assms(1) that by simp
    ultimately have "e ! i ! (unat z div 64) \<in> set (e ! i)" using assms(2) by (simp add: bv_ok_def)
    then have "e ! i ! (unat z div 64) \<in> set (concat e)" using ei by auto
    then have "list_all (\<lambda>b. b = 0xff) (bv_bytes (e ! i ! (unat z div 64)))"
      using assms(3) by (auto simp: list_all_iff)
    then show ?thesis by (simp add: BIT_IS_SET_bit octet_bytes_full)
  qed
  then show ?thesis by (simp add: addrset_elem_match_def Let_def)
qed

lemma addrset_matches_all_sound:
  assumes "aset_ok aset" "addrset_matches_all aset af = Some True" "ss_wf sa" "ss_family sa = af"
  shows "addrset_contains aset sa"
proof (cases "trie_matches_all (af_trie aset af) af = Some True")
  case True
  have "af = af_inet \<longrightarrow> agree 96 mapped (sa_addr sa)"
    using assms(3,4) by (cases sa) (auto simp: sa_addr_def agree4 wagree_def ss_wf_def)
  moreover have "trie_ok (af_trie aset af)" using assms(1) by (simp add: aset_ok_def af_trie_def)
  ultimately have "sa_addr sa \<in> trie_set (af_trie aset af)"
    using trie_matches_all_sound [OF _ True] sockaddr_to_addr_wf(2) [OF assms(3)] by blast
  then show ?thesis using assms(3,4) by (simp add: contains_af_trie)
next
  case False
  then obtain e where e: "af = af_inet" "e \<in> set (elems aset)"
    "list_all (\<lambda>b. b = 0xff) (concat (map bv_bytes (concat e)))"
    using assms(2) by (auto simp: addrset_matches_all_def list_ex_iff split: option.splits bool.splits if_splits)
  then obtain s where "sa = AF_INET s" using assms(3,4) by (cases sa) (auto simp: ss_wf_def)
  moreover have "addrset_elem_match e (AF_INET s)"
    using full_elem_match [of e s] e assms(1) by (simp add: aset_ok_def)
  ultimately show ?thesis
    using e(2) assms(3) by (auto simp: contains_af_trie list_ex_iff)
qed

section \<open>Merging sets\<close>

lemma extend_word: "r < 32 \<Longrightarrow> drop_bit 1 (pm r) OR push_bit 31 1 = pm (Suc r)"
  by (rule bit_word_eqI) (auto simp: bit_pm bit_or_iff bit_drop_bit_eq bit_push_bit_iff bit_1_iff simp del: push_bit_of_1)

lemma extend_word_full: "drop_bit 1 U32_ALL_BITS OR push_bit 31 1 = U32_ALL_BITS"
  by (simp add: U32_ALL_BITS_def)

lemma extend_prefix_pmask:
  assumes "length a = 4" "k < 128"
  shows "snd (extend_prefix b a (pmask k)) = pmask (Suc k) \<and> length (fst (extend_prefix b a (pmask k))) = 4"
proof -
  obtain a0 a1 a2 a3 where a: "a = [a0, a1, a2, a3]" using assms(1) by (rule addr4_cases)
  have ne: "drop_bit 1 (pm r) OR push_bit 31 1 \<noteq> pm r" if "r < 32" for r
    unfolding extend_word [OF that] using that by (simp add: pm_eq_iff)
  consider "k < 32" | "32 \<le> k" "k < 64" | "64 \<le> k" "k < 96" | "96 \<le> k" using assms(2) by linarith
  then show ?thesis
  proof cases
    case 1
    then show ?thesis unfolding a pmask_list
      using ne [OF 1] extend_word [OF 1] by (simp add: Let_def del: push_bit_of_1)
  next
    case 2
    then have "k - 32 < 32" "Suc k - 32 = Suc (k - 32)" by auto
    then show ?thesis unfolding a pmask_list
      using 2 ne [of "k - 32"] extend_word [of "k - 32"] extend_word_full by (simp add: Let_def del: push_bit_of_1)
  next
    case 3
    then have "k - 64 < 32" "Suc k - 64 = Suc (k - 64)" by auto
    then show ?thesis unfolding a pmask_list
      using 3 ne [of "k - 64"] extend_word [of "k - 64"] extend_word_full by (simp add: Let_def del: push_bit_of_1)
  next
    case 4
    then have "k - 96 < 32" "Suc k - 96 = Suc (k - 96)" using assms(2) by auto
    then show ?thesis unfolding a pmask_list
      using 4 ne [of "k - 96"] extend_word [of "k - 96"] extend_word_full by (simp add: Let_def del: push_bit_of_1)
  qed
qed

text \<open>A node on the stack of \<open>trie_update\<close>, with \<open>n\<close> entries below it.\<close>

definition pending :: "nat \<Rightarrow> trie_node \<Rightarrow> bool" where
  "pending n t \<longleftrightarrow> (\<exists>a k one zero p q. t = Trie_node a (pmask k) one zero \<and> length a = 4 \<and> k \<le> 128 \<and>
     (one = TRIE_NODE_TRUE \<and> zero = TRIE_NODE_TRUE \<or> n \<le> k \<and> k < 128) \<and> n \<le> k + 1 \<and>
     trie_wf (Suc k) p one \<and> trie_wf (Suc k) q zero)"

fun stack_ok :: "trie_node list \<Rightarrow> bool" where
  "stack_ok [] \<longleftrightarrow> True"
| "stack_ok (t # st) \<longleftrightarrow> pending (length st) t \<and> stack_ok st"

lemma wf_pending: "trie_wf lo p t \<Longrightarrow> is_node t \<Longrightarrow> n \<le> lo \<Longrightarrow> pending n t"
  by (cases t) (auto simp: trie_wf.simps is_node_def pending_def extends_def split: if_splits)

lemma update_branch_ok:
  assumes "trie_ok this" "stack_ok st" "length a = 4" "k < 128" "trie_wf (Suc k) p c" "length st \<le> Suc k"
  shows "\<exists>t st'. update_branch b a (pmask k) c this st = Some (t, st') \<and> trie_ok t \<and> trie_set this \<subseteq> trie_set t \<and>
    stack_ok st' \<and> length st' \<le> Suc (length st)"
proof -
  consider "c = Null" | "c = TRIE_NODE_TRUE" | "is_node c" by (auto simp: is_node_def)
  then show ?thesis
  proof cases
    case 2
    obtain a' where a': "extend_prefix b a (pmask k) = (a', pmask (Suc k))" "length a' = 4"
      using extend_prefix_pmask [OF assms(3,4), of b] by (cases "extend_prefix b a (pmask k)") auto
    obtain t where "trie_insert_addr this a' (pmask (Suc k)) = Some t" "trie_ok t" "trie_set this \<subseteq> trie_set t"
      using trie_insert_addr_ok [OF assms(1) a'(2), of "Suc k"] assms(4) by (auto simp: inserts_def)
    then show ?thesis using 2 a' assms(2) by (simp add: update_branch_def)
  next
    case 3
    then show ?thesis
      using assms wf_pending [OF assms(5) 3 assms(6)] by (auto simp: update_branch_def is_node_def)
  qed (use assms in \<open>simp add: update_branch_def\<close>)
qed

lemma update_loop_ok:
  assumes "trie_ok this" "stack_ok st"
  shows "\<exists>t. update_loop this st = Some t \<and> trie_ok t \<and> trie_set this \<subseteq> trie_set t"
  using assms
proof (induction "2 * sum_list (map size st) + length st" arbitrary: this st rule: less_induct)
  case less
  show ?case
  proof (cases st)
    case (Cons c st')
    then obtain a k one zero p q where c: "c = Trie_node a (pmask k) one zero" "length a = 4" "k \<le> 128"
      "one = TRIE_NODE_TRUE \<and> zero = TRIE_NODE_TRUE \<or> length st' \<le> k \<and> k < 128"
      "trie_wf (Suc k) p one" "trie_wf (Suc k) q zero" and st': "stack_ok st'"
      using less.prems(2) by (auto simp: pending_def)
    show ?thesis
    proof (cases "one = TRIE_NODE_TRUE \<and> zero = TRIE_NODE_TRUE")
      case True
      obtain t where t: "trie_insert_addr this a (pmask k) = Some t" "trie_ok t" "trie_set this \<subseteq> trie_set t"
        using trie_insert_addr_ok [OF less.prems(1) c(2,3)] by (auto simp: inserts_def)
      then have "\<exists>t'. update_loop t st' = Some t' \<and> trie_ok t' \<and> trie_set t \<subseteq> trie_set t'"
        using st' by (intro less.hyps) (simp_all add: Cons c)
      then show ?thesis using t True by (auto simp: Cons c)
    next
      case False
      then have k: "length st' \<le> k" "k < 128" using c(4) by auto
      obtain t1 st1 where u1: "update_branch True a (pmask k) one this st' = Some (t1, st1)" "trie_ok t1"
        "trie_set this \<subseteq> trie_set t1" "stack_ok st1" "length st1 \<le> Suc (length st')"
        using update_branch_ok [OF less.prems(1) st' c(2) k(2) c(5), of True] k(1) by auto
      obtain t2 st2 where u2: "update_branch False a (pmask k) zero t1 st1 = Some (t2, st2)" "trie_ok t2"
        "trie_set t1 \<subseteq> trie_set t2" "stack_ok st2"
        using update_branch_ok [OF u1(2,4) c(2) k(2) c(6), of False] k(1) u1(5) by auto
      have "\<exists>t'. update_loop t2 st2 = Some t' \<and> trie_ok t' \<and> trie_set t2 \<subseteq> trie_set t'"
        using u2(2,4) update_branch_stack [OF u1(1)] update_branch_stack [OF u2(1)]
        by (intro less.hyps) (simp_all add: Cons c)
      then show ?thesis using False u1 u2 by (auto simp: Cons c)
    qed
  qed (use less.prems in simp)
qed

lemma trie_update_ok:
  assumes "trie_ok this" "trie_ok other"
  shows "\<exists>t. trie_update same this other = Some t \<and> trie_ok t \<and> trie_set this \<subseteq> trie_set t"
proof -
  obtain one zero where o': "other = Trie_node [0, 0, 0, 0] (pmask 0) one zero"
    and wf: "trie_wf 1 (\<lambda>_. True) one" "trie_wf 1 (\<lambda>_. False) zero" using assms(2) by (cases other) auto
  have "stack_ok [other]" using o' wf unfolding stack_ok.simps pending_def by auto
  then show ?thesis using update_loop_ok [OF assms(1)] assms(1) by (auto simp: trie_update_def)
qed

lemma addrset_update_ok:
  assumes "aset_ok aset" "aset_ok other"
  shows "\<exists>aset'. addrset_update same aset other = Some aset' \<and> aset_ok aset' \<and>
    (\<forall>sa. ss_wf sa \<longrightarrow> addrset_contains aset sa \<or> list_ex (\<lambda>e. addrset_elem_match e sa) (elems other) \<longrightarrow>
       addrset_contains aset' sa)"
proof -
  obtain t4 where t4: "trie_update same (trie4 aset) (trie4 other) = Some t4" "trie_ok t4" "trie_set (trie4 aset) \<subseteq> trie_set t4"
    using trie_update_ok assms unfolding aset_ok_def by blast
  obtain t6 where t6: "trie_update same (trie6 aset) (trie6 other) = Some t6" "trie_ok t6" "trie_set (trie6 aset) \<subseteq> trie_set t6"
    using trie_update_ok assms unfolding aset_ok_def by blast
  have f: "fold (\<lambda>oe es. oe # es) xs ys = rev xs @ ys" for xs ys :: "'x list" by (induction xs arbitrary: ys) simp_all
  let ?a = "\<lparr>elems = rev (elems other) @ elems aset, trie4 = t4, trie6 = t6\<rparr>"
  have "addrset_contains ?a sa"
    if "ss_wf sa" "addrset_contains aset sa \<or> list_ex (\<lambda>e. addrset_elem_match e sa) (elems other)" for sa
  proof -
    have "ss_family sa = af_inet" if "list_ex (\<lambda>e. addrset_elem_match e sa) (elems other)"
      using that by (cases sa) (auto simp: addrset_elem_match_def list_ex_iff)
    then show ?thesis
      using that t4(3) t6(3) by (auto simp: contains_af_trie af_trie_def list_ex_iff)
  qed
  moreover have "aset_ok ?a" using assms t4(2) t6(2) by (auto simp: aset_ok_def)
  ultimately show ?thesis using t4(1) t6(1) by (simp add: addrset_update_def f)
qed

section \<open>A network after a smaller one\<close>






section \<open>Properties\<close>

text \<open>C3: adding a specification that resolves to numeric hosts, without a netmask, to a
  well-formed set returns success and a well-formed set, which contains exactly the addresses of
  the old set and the addresses of the specification. (The path array of the tree never
  overflows.)\<close>

theorem addrset_add_spec_hosts_exact:
  assumes "aset_ok aset" and "CHR ''/'' \<notin> set spec"
    and "gai spec True af_unspec = (0, addrs)" and "addrs \<noteq> []" and "list_all ai_ok addrs"
  shows "\<exists>aset'. addrset_add_spec gai aset spec af dns = Some (aset', True) \<and> aset_ok aset' \<and>
    (\<forall>sa. ss_wf sa \<longrightarrow>
       addrset_contains aset' sa = (addrset_contains aset sa \<or> sa \<in> ai_addr ` set addrs))"
  by (rule add_spec_hosts [where gai = gai, OF assms])

text \<open>A resolver that knows the numeric addresses of the examples.\<close>

definition demo_gai :: getaddrinfo where
  "demo_gai name numeric af =
     (if name = ''10.128.0.0'' then (0, [\<lparr>ai_family = 2, ai_addr = AF_INET (ntohl 0x0A800000)\<rparr>])
      else if name = ''10.0.0.0'' then (0, [\<lparr>ai_family = 2, ai_addr = AF_INET (ntohl 0x0A000000)\<rparr>])
      else if name = ''::1'' then (0, [\<lparr>ai_family = 10, ai_addr = AF_INET6 (replicate 15 0 @ [1])\<rparr>])
      else (-2, []))"

theorem addrset_add_spec_hosts_exact_witness:
  "\<exists>aset'. addrset_add_spec demo_gai addrset_new ''::1'' 0 False = Some (aset', True) \<and> aset_ok aset' \<and>
    (\<forall>sa. ss_wf sa \<longrightarrow> addrset_contains aset' sa = (addrset_contains addrset_new sa \<or>
       sa \<in> ai_addr ` set [\<lparr>ai_family = 10, ai_addr = AF_INET6 (replicate 15 0 @ [1])\<rparr>]))"
  by (rule addrset_add_spec_hosts_exact) (simp_all add: addrset_new_ok demo_gai_def ai_ok_def ss_wf_def)

text \<open>C13: adding a numeric network \<open>host/k\<close> to a well-formed set succeeds, keeps the set
  well-formed, loses no address, adds no address outside the network, adds the network's own address,
  and adds the whole network if the set had no address of it before.\<close>

theorem addrset_add_spec_network:
  assumes "aset_ok aset" and "CHR ''/'' \<notin> set host" and "gai host True af_unspec = (0, [a])"
    and "ai_ok a" and "k \<le> width (ai_addr a)"
  shows "\<exists>aset'. addrset_add_spec gai aset (host @ CHR ''/'' # dec k) af dns = Some (aset', True) \<and>
    aset_ok aset' \<and> addrset_contains aset' (ai_addr a) \<and>
    (\<forall>sa. ss_wf sa \<longrightarrow> (addrset_contains aset sa \<longrightarrow> addrset_contains aset' sa) \<and>
       (addrset_contains aset' sa \<longrightarrow> addrset_contains aset sa \<or> in_net (ai_addr a) k sa)) \<and>
    ((\<forall>sa. ss_wf sa \<and> in_net (ai_addr a) k sa \<longrightarrow> \<not> addrset_contains aset sa) \<longrightarrow>
     (\<forall>sa. ss_wf sa \<and> in_net (ai_addr a) k sa \<longrightarrow> addrset_contains aset' sa))"
proof -
  obtain aset' where r: "addrset_add_spec gai aset (host @ CHR ''/'' # dec k) af dns = Some (aset', True)" "aset_ok aset'"
    and a: "added (ai_addr a) k aset aset'"
    using add_spec_net [where gai = gai, OF assms] by blast
  note a = a [unfolded added_def]
  show ?thesis using r a by (intro exI [of _ aset']) simp
qed

theorem addrset_add_spec_network_witness:
  "\<exists>aset'. addrset_add_spec demo_gai addrset_new (''10.0.0.0'' @ CHR ''/'' # dec 8) 0 False = Some (aset', True) \<and>
    aset_ok aset' \<and> addrset_contains aset' (AF_INET (ntohl 0x0A000000)) \<and>
    (\<forall>sa. ss_wf sa \<longrightarrow> (addrset_contains addrset_new sa \<longrightarrow> addrset_contains aset' sa) \<and>
       (addrset_contains aset' sa \<longrightarrow> addrset_contains addrset_new sa \<or> in_net (AF_INET (ntohl 0x0A000000)) 8 sa)) \<and>
    ((\<forall>sa. ss_wf sa \<and> in_net (AF_INET (ntohl 0x0A000000)) 8 sa \<longrightarrow> \<not> addrset_contains addrset_new sa) \<longrightarrow>
     (\<forall>sa. ss_wf sa \<and> in_net (AF_INET (ntohl 0x0A000000)) 8 sa \<longrightarrow> addrset_contains aset' sa))"
  using addrset_add_spec_network [where gai = demo_gai and host = "''10.0.0.0''" and k = 8 and af = 0 and dns = False,
    OF addrset_new_ok, of "\<lparr>ai_family = 2, ai_addr = AF_INET (ntohl 0x0A000000)\<rparr>"]
  by (simp add: demo_gai_def ai_ok_def ss_wf_def width_def addr_offset_def)



text \<open>C14: a specification of IPv4 octet ranges, with or without a netmask, that the resolver does not
  take for a numeric address adds exactly the addresses that agree, on the bits of the netmask, with
  an address whose octets lie in the ranges.\<close>

theorem addrset_add_spec_ranges_exact:
  assumes "aset_ok aset" and "spec_ok os" and "fst (gai (spec_text os) True af_unspec) \<noteq> 0" and "k \<le> 32"
  shows "\<exists>aset'. addrset_add_spec gai aset (spec_text os @ (if nm then CHR ''/'' # dec k else [])) af dns = Some (aset', True) \<and>
    aset_ok aset' \<and>
    (\<forall>sa. ss_wf sa \<longrightarrow> addrset_contains aset' sa =
       (addrset_contains aset sa \<or>
        (\<exists>s s'. sa = AF_INET s \<and> in_ranges os s' \<and> in_net (AF_INET s') (if nm then k else 32) sa)))"
proof -
  define bits where "bits = (if nm then int k else -1)"
  have b: "bits \<le> 32" "to_int bits = bits" using assms(4) by (simp_all add: bits_def to_int_small)
  have kb: "(if bits < 0 then 32 else nat bits) = (if nm then k else 32)" by (simp add: bits_def)
  have "split_netmask (spec_text os @ (if nm then CHR ''/'' # dec k else [])) = Some (spec_text os, bits)"
    using spec_text_no_slash [of os] assms(4) by (simp add: bits_def split_netmask_none split_netmask_bits)
  then show ?thesis
    using add_elem [OF assms(1,2) b(1)] assms(3) b unfolding kb
    by (cases "gai (spec_text os) True 0") (auto simp: addrset_add_spec_def resolve_name_def Let_def)
qed

lemma demo_spec_text:
  "spec_text [Items [One 192], Star, Items [Span (Some 3) None, One 1], Items [Span None (Some 9)]] = ''192.*.3-,1.-9''"
  by code_simp

theorem addrset_add_spec_ranges_exact_witness:
  "\<exists>aset'. addrset_add_spec demo_gai addrset_new
      (spec_text [Items [One 192], Star, Items [Span (Some 3) None, One 1], Items [Span None (Some 9)]] @ CHR ''/'' # dec 30) 0 False
      = Some (aset', True) \<and> aset_ok aset' \<and>
    (\<forall>sa. ss_wf sa \<longrightarrow> addrset_contains aset' sa = (addrset_contains addrset_new sa \<or>
        (\<exists>s s'. sa = AF_INET s \<and>
           in_ranges [Items [One 192], Star, Items [Span (Some 3) None, One 1], Items [Span None (Some 9)]] s' \<and>
           in_net (AF_INET s') 30 sa)))"
  using addrset_add_spec_ranges_exact [where gai = demo_gai and nm = True and k = 30 and af = 0 and dns = False
      and os = "[Items [One 192], Star, Items [Span (Some 3) None, One 1], Items [Span None (Some 9)]]",
      OF addrset_new_ok] demo_spec_text
  by (simp add: spec_ok_def item_ok_def demo_gai_def)

text \<open>\<open>apply_ipv4_netmask_octet\<close> adds to a bit vector exactly the octets that agree with one of its
  members on the bits of the mask.\<close>

theorem apply_ipv4_netmask_octet_exact:
  fixes x m :: u8
  assumes "length v = 4"
  shows "BIT_IS_SET (apply_ipv4_netmask_octet v m) (unat x) \<longleftrightarrow>
      (\<exists>y. BIT_IS_SET v (unat y) \<and> x AND m = y AND m)"
  using netmask_octet_ok(2) [of v m x] assms by (simp add: bv_ok_def)

theorem apply_ipv4_netmask_octet_exact_witness:
  "BIT_IS_SET (apply_ipv4_netmask_octet [4, 0, 0, 0] 0xF0) (unat (7::u8)) \<longleftrightarrow>
     (\<exists>y. BIT_IS_SET [4, 0, 0, 0] (unat y) \<and> (7::u8) AND 0xF0 = y AND 0xF0)"
  by (rule apply_ipv4_netmask_octet_exact) simp

text \<open>When \<open>addrset_matches_all\<close> says that a well-formed set matches a whole address family, it
  contains every address of the family.\<close>

theorem addrset_matches_all_contains:
  assumes "aset_ok aset" and "addrset_matches_all aset af = Some True" and "ss_wf sa" and "ss_family sa = af"
  shows "addrset_contains aset sa"
  by (rule addrset_matches_all_sound [OF assms])

definition demo_full :: addrset where
  "demo_full = addrset_new\<lparr>elems := [replicate 4 (replicate 4 (-1))]\<rparr>"

theorem addrset_matches_all_contains_witness: "addrset_contains demo_full (AF_INET 7)"
proof (rule addrset_matches_all_contains)
  show "aset_ok demo_full" using addrset_new_ok by (simp add: demo_full_def aset_ok_def bv_ok_def)
  show "addrset_matches_all demo_full 2 = Some True" by code_simp
qed (simp_all add: ss_wf_def)

text \<open>\<open>addrset_update\<close> of well-formed sets returns a well-formed set that contains the addresses of
  the first set and those the ranges of the second match; its stack never overflows.\<close>

theorem addrset_update_keeps:
  assumes "aset_ok aset" and "aset_ok other"
  shows "\<exists>aset'. addrset_update same aset other = Some aset' \<and> aset_ok aset' \<and>
    (\<forall>sa. ss_wf sa \<longrightarrow> addrset_contains aset sa \<or> list_ex (\<lambda>e. addrset_elem_match e sa) (elems other) \<longrightarrow>
       addrset_contains aset' sa)"
  by (rule addrset_update_ok [OF assms])

theorem addrset_update_keeps_witness:
  "\<exists>aset'. addrset_update False addrset_new demo_full = Some aset' \<and> aset_ok aset' \<and>
    (\<forall>sa. ss_wf sa \<longrightarrow> addrset_contains addrset_new sa \<or> list_ex (\<lambda>e. addrset_elem_match e sa) (elems demo_full) \<longrightarrow>
       addrset_contains aset' sa)"
  by (rule addrset_update_keeps)
     (use addrset_new_ok in \<open>simp_all add: demo_full_def aset_ok_def bv_ok_def\<close>)

text \<open>C27: \<open>addrset_free\<close> of a well-formed set frees every node of its two trees exactly once, and its
  stack never overflows.\<close>

theorem addrset_free_frees_all:
  assumes "aset_ok aset"
  shows "addrset_free aset = Some (trie_nodes (trie4 aset), trie_nodes (trie6 aset))"
  using assms by (simp add: addrset_free_def aset_ok_def trie_free_nodes)

theorem addrset_free_frees_all_witness:
  "addrset_free addrset_new = Some (trie_nodes (trie4 addrset_new), trie_nodes (trie6 addrset_new))"
  by (rule addrset_free_frees_all) (rule addrset_new_ok)

end
