(* ===== verification/Ncat_Access.thy ===== *)
theory Ncat_Access
  imports Addrset_Props
begin

text \<open>
  Access control of Ncat: the lists that collect the \<open>--allow\<close> and \<open>--deny\<close> options
  (\<open>ncat/ncat_main.c\<close>), their conversion to address sets, and the test every accepted connection has
  to pass (\<open>allow_access\<close> of \<open>ncat/util.c\<close>). The files are an argument: the contents under a name, if
  it can be opened. A call of \<open>bye\<close>, which ends the program, is the result \<open>None\<close>.
\<close>

section \<open>Lists of hosts\<close>

record host_list_node =
  is_filename :: bool
  node_spec :: string

definition host_list_add_spec :: "host_list_node list \<Rightarrow> string \<Rightarrow> host_list_node list" where
  "host_list_add_spec list spec = \<lparr>is_filename = False, node_spec = spec\<rparr> # list"

definition host_list_add_filename :: "host_list_node list \<Rightarrow> string \<Rightarrow> host_list_node list" where
  "host_list_add_filename list filename = \<lparr>is_filename = True, node_spec = filename\<rparr> # list"

text \<open>The tokens \<open>strtok(s, ",")\<close> returns one after the other.\<close>

function strtok_commas :: "string \<Rightarrow> string list" where
  "strtok_commas s =
     (let s = dropWhile (\<lambda>c. c = CHR '','') s
      in if s = [] then []
         else takeWhile (\<lambda>c. c \<noteq> CHR '','') s # strtok_commas (tl (dropWhile (\<lambda>c. c \<noteq> CHR '','') s)))"
  by pat_completeness auto

termination strtok_commas
proof (relation "measure length")
  fix s t :: string assume t: "t = dropWhile (\<lambda>c. c = CHR '','') s" and ne: "t \<noteq> []"
  obtain c cs where c: "t = c # cs" using ne by (cases t) auto
  then have "c \<noteq> CHR '',''" using hd_dropWhile [of "\<lambda>c. c = CHR '',''" s] unfolding t [symmetric] by simp
  then have "length (dropWhile (\<lambda>c. c \<noteq> CHR '','') t) \<le> length cs" using c by (simp add: length_dropWhile_le)
  moreover have "length t \<le> length s" using t by (simp add: length_dropWhile_le)
  ultimately show "(tl (dropWhile (\<lambda>c. c \<noteq> CHR '','') t), s) \<in> measure length" using c by simp
qed simp

declare strtok_commas.simps [simp del]

text \<open>One call of \<open>addrset_add_spec\<close> or \<open>addrset_add_file\<close> that must succeed.\<close>

definition or_bye :: "(addrset \<times> bool) option \<Rightarrow> addrset option" where
  "or_bye r = (case r of None \<Rightarrow> None | Some (aset, ok) \<Rightarrow> if ok then Some aset else None)"

definition add_node ::
  "getaddrinfo \<Rightarrow> (string \<Rightarrow> string option) \<Rightarrow> nat \<Rightarrow> bool \<Rightarrow> host_list_node \<Rightarrow> addrset \<Rightarrow> addrset option" where
  "add_node gai fopen af nodns node aset =
     (if is_filename node
      then (case fopen (node_spec node) of
              None \<Rightarrow> None
            | Some fd \<Rightarrow> or_bye (addrset_add_file gai aset af (\<not> nodns) fd))
      else ofold (\<lambda>spec aset. or_bye (addrset_add_spec gai aset spec af (\<not> nodns)))
             (strtok_commas (node_spec node)) aset)"

definition host_list_to_set ::
  "getaddrinfo \<Rightarrow> (string \<Rightarrow> string option) \<Rightarrow> nat \<Rightarrow> bool \<Rightarrow> addrset \<Rightarrow> host_list_node list \<Rightarrow> addrset option" where
  "host_list_to_set gai fopen af nodns aset list = ofold (add_node gai fopen af nodns) list aset"

text \<open>\<open>allow\<close> is the option \<open>o.allow\<close>, set by \<open>--allow\<close> and \<open>--allowfile\<close>.\<close>

definition allow_access :: "bool \<Rightarrow> addrset \<Rightarrow> addrset \<Rightarrow> sockaddr_storage \<Rightarrow> bool" where
  "allow_access allow allowset denyset su =
     (if allow \<and> \<not> addrset_contains allowset su then False
      else if addrset_contains denyset su then False
      else True)"

section \<open>Lists of single hosts\<close>

text \<open>A token, and a list, that name only numeric hosts.\<close>

definition host_token :: "getaddrinfo \<Rightarrow> string \<Rightarrow> bool" where
  "host_token gai spec \<longleftrightarrow> CHR ''/'' \<notin> set spec \<and> fst (gai spec True af_unspec) = 0 \<and>
     snd (gai spec True af_unspec) \<noteq> [] \<and> list_all ai_ok (snd (gai spec True af_unspec))"

definition token_hosts :: "getaddrinfo \<Rightarrow> string \<Rightarrow> sockaddr_storage set" where
  "token_hosts gai spec = ai_addr ` set (snd (gai spec True af_unspec))"

definition hosts_only :: "getaddrinfo \<Rightarrow> host_list_node list \<Rightarrow> bool" where
  "hosts_only gai list \<longleftrightarrow>
     list_all (\<lambda>node. \<not> is_filename node \<and> list_all (host_token gai) (strtok_commas (node_spec node))) list"

definition listed_hosts :: "getaddrinfo \<Rightarrow> host_list_node list \<Rightarrow> sockaddr_storage set" where
  "listed_hosts gai list = (\<Union>node\<in>set list. \<Union>spec\<in>set (strtok_commas (node_spec node)). token_hosts gai spec)"

text \<open>A run of operations that each add a set of addresses adds the union.\<close>

lemma ofold_adds:
  assumes step: "\<And>x aset. x \<in> set xs \<Longrightarrow> aset_ok aset \<Longrightarrow>
      \<exists>aset'. f x aset = Some aset' \<and> aset_ok aset' \<and>
        (\<forall>sa. ss_wf sa \<longrightarrow> addrset_contains aset' sa = (addrset_contains aset sa \<or> sa \<in> g x))"
    and "aset_ok aset"
  shows "\<exists>aset'. ofold f xs aset = Some aset' \<and> aset_ok aset' \<and>
    (\<forall>sa. ss_wf sa \<longrightarrow> addrset_contains aset' sa = (addrset_contains aset sa \<or> sa \<in> (\<Union>x\<in>set xs. g x)))"
  using assms
proof (induction xs arbitrary: aset)
  case (Cons x xs)
  from Cons.prems(1) [of x aset] Cons.prems(2) obtain a1 where a1: "f x aset = Some a1" "aset_ok a1"
    "\<forall>sa. ss_wf sa \<longrightarrow> addrset_contains a1 sa = (addrset_contains aset sa \<or> sa \<in> g x)" by auto
  from Cons.IH [OF Cons.prems(1) a1(2)] obtain a2 where "ofold f xs a1 = Some a2" "aset_ok a2"
    "\<forall>sa. ss_wf sa \<longrightarrow> addrset_contains a2 sa = (addrset_contains a1 sa \<or> sa \<in> (\<Union>x\<in>set xs. g x))" by auto
  then show ?case using a1 by auto
qed simp

lemma add_token:
  assumes "host_token gai spec" "aset_ok aset"
  shows "\<exists>aset'. or_bye (addrset_add_spec gai aset spec af dns) = Some aset' \<and> aset_ok aset' \<and>
    (\<forall>sa. ss_wf sa \<longrightarrow> addrset_contains aset' sa = (addrset_contains aset sa \<or> sa \<in> token_hosts gai spec))"
proof -
  have "gai spec True af_unspec = (0, snd (gai spec True af_unspec))"
    using assms(1) unfolding host_token_def by (metis prod.collapse)
  from add_spec_hosts [where gai = gai, OF assms(2) _ this] obtain aset'
    where "addrset_add_spec gai aset spec af dns = Some (aset', True)" "aset_ok aset'"
      "\<forall>sa. ss_wf sa \<longrightarrow> addrset_contains aset' sa = (addrset_contains aset sa \<or> sa \<in> token_hosts gai spec)"
    using assms(1) unfolding host_token_def token_hosts_def by blast
  then show ?thesis by (auto simp: or_bye_def)
qed

lemma host_list_to_set_hosts:
  assumes "hosts_only gai list" "aset_ok aset"
  shows "\<exists>aset'. host_list_to_set gai fopen af nodns aset list = Some aset' \<and> aset_ok aset' \<and>
    (\<forall>sa. ss_wf sa \<longrightarrow> addrset_contains aset' sa = (addrset_contains aset sa \<or> sa \<in> listed_hosts gai list))"
  unfolding host_list_to_set_def listed_hosts_def
proof (rule ofold_adds [OF _ assms(2)])
  fix node aset assume "node \<in> set list" "aset_ok aset"
  then have n: "\<not> is_filename node" "\<And>spec. spec \<in> set (strtok_commas (node_spec node)) \<Longrightarrow> host_token gai spec"
    using assms(1) by (auto simp: hosts_only_def list_all_iff)
  show "\<exists>aset'. add_node gai fopen af nodns node aset = Some aset' \<and> aset_ok aset' \<and>
    (\<forall>sa. ss_wf sa \<longrightarrow> addrset_contains aset' sa =
      (addrset_contains aset sa \<or> sa \<in> (\<Union>spec\<in>set (strtok_commas (node_spec node)). token_hosts gai spec)))"
    unfolding add_node_def if_not_P [OF n(1)]
    by (rule ofold_adds [OF _ \<open>aset_ok aset\<close>]) (rule add_token [OF n(2)])
qed

section \<open>Properties\<close>

text \<open>C1: with \<open>--allow\<close> and \<open>--deny\<close> lists of single hosts, Ncat builds its two address sets without
  error, and a connection is allowed exactly when its address is on the allow list, if there is one,
  and not on the deny list.\<close>

theorem allow_access_exact:
  assumes "hosts_only gai allow_list" and "hosts_only gai deny_list" and "ss_wf su"
  shows "\<exists>allowset denyset.
    host_list_to_set gai fopen af nodns addrset_new allow_list = Some allowset \<and>
    host_list_to_set gai fopen af nodns addrset_new deny_list = Some denyset \<and>
    (allow_access allow allowset denyset su \<longleftrightarrow>
       (\<not> allow \<or> su \<in> listed_hosts gai allow_list) \<and> su \<notin> listed_hosts gai deny_list)"
proof -
  obtain allowset where a: "host_list_to_set gai fopen af nodns addrset_new allow_list = Some allowset"
    "addrset_contains allowset su = (su \<in> listed_hosts gai allow_list)"
    using host_list_to_set_hosts [OF assms(1) addrset_new_ok] addrset_new_empty [OF assms(3)] assms(3) by blast
  obtain denyset where d: "host_list_to_set gai fopen af nodns addrset_new deny_list = Some denyset"
    "addrset_contains denyset su = (su \<in> listed_hosts gai deny_list)"
    using host_list_to_set_hosts [OF assms(2) addrset_new_ok] addrset_new_empty [OF assms(3)] assms(3) by blast
  show ?thesis using a d by (auto simp: allow_access_def)
qed

theorem allow_access_exact_witness:
  "\<exists>allowset denyset.
    host_list_to_set demo_gai (\<lambda>_. None) 0 True addrset_new
      (host_list_add_spec (host_list_add_spec [] ''10.0.0.0,::1'') ''10.128.0.0'') = Some allowset \<and>
    host_list_to_set demo_gai (\<lambda>_. None) 0 True addrset_new (host_list_add_spec [] ''10.128.0.0'') = Some denyset \<and>
    (allow_access True allowset denyset (AF_INET (ntohl 0x0A000000)) \<longleftrightarrow>
       (\<not> True \<or> AF_INET (ntohl 0x0A000000) \<in>
          listed_hosts demo_gai (host_list_add_spec (host_list_add_spec [] ''10.0.0.0,::1'') ''10.128.0.0'')) \<and>
       AF_INET (ntohl 0x0A000000) \<notin> listed_hosts demo_gai (host_list_add_spec [] ''10.128.0.0''))"
proof (rule allow_access_exact)
  show "hosts_only demo_gai (host_list_add_spec (host_list_add_spec [] ''10.0.0.0,::1'') ''10.128.0.0'')" by code_simp
  show "hosts_only demo_gai (host_list_add_spec [] ''10.128.0.0'')" by code_simp
qed (simp add: ss_wf_def)

end
