(* ===== verification/Spec2Isabelle.thy ===== *)
theory Spec2Isabelle
  imports Gh_List Nsock_Expire Nbase_Rnd Nbase_Str Nbase_Misc Nbase_Inet6 Ncat_Base64 Ncat_Util
    Http_Message Http_Auth Http_Login Ncat_Access
begin

text \<open>
  A verification of the C code of the Nmap project: the portability library nbase, the event library
  nsock, and Ncat.

  \<^bold>\<open>The program.\<close> Nmap's scanner is written in C++; the C code of the project itself is in three directories.
  \<open>nbase\<close> has the replacements for C library functions (\<open>inet_pton\<close>, \<open>strcasestr\<close>, ...), random numbers,
  checksums and the address sets. \<open>nsock\<close> is a library of asynchronous socket events: the client creates
  events with a handler, and an event loop calls the handlers as descriptors become ready or timeouts
  expire. \<open>ncat\<close> is the network tool on top of both: it uses the address sets of nbase for its access
  control and has an HTTP client and proxy of its own.

  \<^bold>\<open>Theories and sources.\<close> Names of definitions are those of the C functions and structures wherever
  possible. Below \<open>src/\<close>:
  \<^item> \<open>Nmap_Prelude\<close>, \<open>C_String\<close>: machine words, generic lemmas, and the part of the C library (characters,
    strings as lists of bytes, pointers as suffixes) the sources use.
  \<^item> \<open>Gh_List\<close> (\<open>nsock/src/gh_list.h\<close>): doubly linked lists in a store of nodes, refined to HOL lists.
  \<^item> \<open>Gh_Heap\<close>, \<open>Nsock_Time\<close> (\<open>nsock/src/gh_heap.c\<close>, the \<open>TIMEVAL\<close> macros of \<open>nbase/nbase.h\<close>, \<open>expirable_cmp\<close> of
    \<open>nsock/src/nsock_pool.c\<close>): the heap of expirable events, with the position every node keeps of itself.
  \<^item> \<open>Filespace\<close> (\<open>nsock/src/filespace.c\<close>): the buffers of read and write events.
  \<^item> \<open>Nsock_Pool\<close>, \<open>Nsock_Ids\<close> (\<open>nsock_core.c\<close>, \<open>nsock_event.c\<close>, \<open>nsock_pool.c\<close>, \<open>nsock_iod.c\<close>, \<open>nsock_read.c\<close>,
    \<open>nsock_write.c\<close>, \<open>nsock_timers.c\<close> and \<open>engine_select.c\<close> of \<open>nsock/src\<close>): the pool of events and descriptors,
    requests, the handling of results, cancellation, the engine and the loop; the numbers of events. The record
    \<open>npool\<close> is \<open>struct npool\<close> together with the stores of events and descriptors (by address), the clock and the
    answers of the system still to come; handlers are functions on it.
  \<^item> \<open>Nsock_Inv\<close>, \<open>Nsock_Req\<close>, \<open>Nsock_Del\<close>, \<open>Nsock_Iods\<close>, \<open>Nsock_Close\<close>, \<open>Nsock_Steps\<close>, \<open>Nsock_Expire\<close>: proofs about that
    pool: its invariant; reads, writes and timers; finishing, unlinking and cancelling an event; new descriptors; their
    deletion; the states a client can reach; the delivery of events whose time is over, and the loop on timers.
  \<^item> \<open>Lcg\<close>, \<open>Nbase_Rnd\<close> (\<open>nbase/nbase_rnd.c\<close>): the RC4 stream and the generators without repetition.
  \<^item> \<open>Nbase_Str\<close>, \<open>Nbase_Num\<close>, \<open>Nbase_Misc\<close> (\<open>nbase/nbase_str.c\<close>, \<open>nbase/nbase_misc.c\<close>): strings, numbers,
    checksums, the order of addresses, the hex dump.
  \<^item> \<open>Nbase_Inet\<close>, \<open>Nbase_Inet6\<close> (\<open>nbase/inet_pton.c\<close>, \<open>nbase/inet_ntop.c\<close>): printed addresses.
  \<^item> \<open>Addr_Trie\<close>, \<open>Addr_Prefix\<close>, \<open>Addr_Trie_Set\<close>, \<open>Addrset\<close>, \<open>Addr_Ranges\<close>, \<open>Addrset_Set\<close>, \<open>Addrset_Props\<close>
    (\<open>nbase/nbase_addrset.c\<close>): the radix trees, the octet ranges, the parser of specifications; then their
    meaning as sets of addresses.
  \<^item> \<open>Ncat_Access\<close> (\<open>ncat/ncat_main.c\<close>, \<open>allow_access\<close> of \<open>ncat/util.c\<close>): who may connect.
  \<^item> \<open>Ncat_Base64\<close>, \<open>Ncat_Util\<close> (\<open>ncat/base64.c\<close>, \<open>ncat/util.c\<close>): encoder, string buffer, descriptor list, line
    endings, ALPN lists.
  \<^item> \<open>Http_Uri\<close>, \<open>Http_Header\<close>, \<open>Http_Buffer\<close>, \<open>Http_Message\<close>, \<open>Http_Auth\<close> (\<open>ncat/http.c\<close>): the whole HTTP
    library of Ncat.
  \<^item> \<open>Http_Digest\<close> (\<open>ncat/http_digest.c\<close>, \<open>check_auth\<close> and \<open>send_proxy_authenticate\<close> of \<open>ncat/ncat_proxy.c\<close>, the CONNECT
    requests of \<open>ncat/ncat_connect.c\<close>): Digest authentication on both sides. MD5 is an argument, of which only
    the length of a digest is assumed (\<open>md5_ok\<close>).

  \<^bold>\<open>Conventions.\<close> Unsigned machine integers whose wrap-around matters are words; C \<open>int\<close> and \<open>long\<close> are
  integers with their range checked where the code may leave it. Plain \<open>char\<close> is signed, \<open>long\<close> has 64 bits
  and the host is little-endian. An access outside of an object, a failed assertion and a call of
  \<open>fatal\<close> or \<open>bye\<close> is the value \<open>None\<close>; a null pointer or an error code the code returns is an inner option, a
  sum or the number itself. Results of the operating system (received data, resolved names, files, the
  clock) are arguments. Memory allocation succeeds, as the code's allocators end the program otherwise.
  Log messages are left out.

  \<^bold>\<open>What is shown.\<close> For each component: that on valid states no operation leaves its memory or trips an
  assertion, what each operation does, and the contract its clients use. The contracts are locales
  (\<open>heap_order\<close>, \<open>prio_queue\<close>, \<open>simulation\<close>, \<open>unique_generator\<close>, \<open>crc_table\<close>, \<open>string_builder\<close>, \<open>field_table\<close>,
  \<open>host_set\<close>), each interpreted on the model's definitions. Parsers are proved against printers (round
  trips), tables against their reference definitions, tree and bit vector operations against sets of
  addresses. Loops are total functions with termination proofs, or recursions on an input that is part of
  the model; no fuel is used in a property. Where the code does not do what it means to, a theorem about the
  definitions says what it does instead.

  \<^bold>\<open>Not modelled.\<close> The C++ scanner, Zenmap, Nping and the scripts; the vendored libraries; system call
  wrappers, terminal and process handling, SSL, Windows code; the main loops of Ncat; of nsock the engines other
  than the one on \<open>select\<close> (which differ in the system call), connections and proxies, SSL and packet capture. The
  invariant of the pool is proved for clients whose handlers make no requests of their own (\<open>quiet\<close>) and for
  cancellation without notification.
\<close>

end
